(* ===== verification/Prelude.thy ===== *)
theory Prelude
  imports Main "HOL-Library.Word" "HOL-Library.Multiset" "HOL-Library.AList"
    "HOL-Library.Char_ord" "HOL-Library.List_Lexorder" "HOL-Library.Monad_Syntax"
    "HOL-Library.Signed_Division"
begin

text \<open>
  Shared vocabulary of the Memcore development: the types every component uses, the
  collections of rewrite rules the component theories add to, the model of a Go map and of
  the order in which the Go runtime visits one, and the generic facts on lists, options and
  association lists the component proofs share.

  \<^item> A Go \<open>[]byte\<close> and a Go \<open>string\<close> are both a sequence of bytes; the code converts
    freely between them, so both are \<open>bytes\<close>, lists of \<open>char\<close> (an Isabelle \<open>char\<close> is
    one byte). Go compares strings bytewise, which is the order of
    \<open>HOL-Library.List_Lexorder\<close> over \<open>HOL-Library.Char_ord\<close>.
  \<^item> A computation that can panic or fail to return has an \<open>option\<close> type; \<open>None\<close> is
    "the goroutine panics or never returns".
\<close>

type_synonym bytes = "char list"

abbreviation byteval :: "char \<Rightarrow> nat" where
  "byteval c \<equiv> of_char c"

named_theorems mc_defs \<open>definitions unfolded by the component proofs\<close>
named_theorems mc_inv \<open>invariants: what an operation keeps\<close>
named_theorems mc_abs \<open>abstraction equations: what an operation does to the abstract value\<close>
named_theorems codec_simps \<open>a decoder after its encoder\<close>

declare Let_def [simp]

section \<open>Bytes\<close>

lemma byteval_char_of [simp]: "n < 256 \<Longrightarrow> byteval (char_of n) = n"
  by simp

section \<open>Lists and options\<close>

lemma bind_Some_iff: "Option.bind x f = Some y \<longleftrightarrow> (\<exists>z. x = Some z \<and> f z = Some y)"
  by (cases x) auto

text \<open>A loop that calls an operation for each element of a slice, in order.\<close>

fun foldM :: "('s \<Rightarrow> 'a \<Rightarrow> 's option) \<Rightarrow> 's \<Rightarrow> 'a list \<Rightarrow> 's option" where
  "foldM f s [] = Some s"
| "foldM f s (x # xs) = Option.bind (f s x) (\<lambda>s'. foldM f s' xs)"

lemma foldM_append: "foldM f s (xs @ ys) = Option.bind (foldM f s xs) (\<lambda>s'. foldM f s' ys)"
  by (induction xs arbitrary: s) auto

lemma foldM_Some: "foldM (\<lambda>s x. Some (f s x)) s xs = Some (foldl f s xs)"
  by (induction xs arbitrary: s) auto

text \<open>A loop that counts how many of its calls report \<open>true\<close>.\<close>

fun foldCount ::
  "('s \<Rightarrow> 'a \<Rightarrow> ('s \<times> bool) option) \<Rightarrow> 's \<times> int \<Rightarrow> 'a list \<Rightarrow> ('s \<times> int) option" where
  "foldCount f (s, n) [] = Some (s, n)"
| "foldCount f (s, n) (x # xs) =
     Option.bind (f s x) (\<lambda>(s', b). foldCount f (s', if b then n + 1 else n) xs)"

lemma take_length_append [simp]: "take (length xs) (xs @ ys) = xs"
  by simp

lemma drop_length_append [simp]: "drop (length xs) (xs @ ys) = ys"
  by simp

lemma map_of_eq_None_notin: "map_of m k = None \<longleftrightarrow> k \<notin> fst ` set m"
  by (simp add: map_of_eq_None_iff)

section \<open>Go maps\<close>

text \<open>
  A Go map is an association list with distinct keys: \<open>m[k]\<close> is \<open>map_of m k\<close>,
  \<open>m[k] = v\<close> is \<open>AList.update k v m\<close>, \<open>delete(m, k)\<close> is \<open>AList.delete k m\<close> and
  \<open>len(m)\<close> is \<open>length m\<close>. The position of a key in the list means nothing.
\<close>

type_synonym ('k, 'v) gomap = "('k \<times> 'v) list"

definition gomap_ok :: "('k, 'v) gomap \<Rightarrow> bool" where
  "gomap_ok m \<longleftrightarrow> distinct (map fst m)"

lemma gomap_ok_Nil [simp]: "gomap_ok []"
  by (simp add: gomap_ok_def)

lemma gomap_ok_update [simp]: "gomap_ok m \<Longrightarrow> gomap_ok (AList.update k v m)"
  unfolding gomap_ok_def by (rule distinct_update)

lemma gomap_ok_delete [simp]: "gomap_ok m \<Longrightarrow> gomap_ok (AList.delete k m)"
  unfolding gomap_ok_def by (rule distinct_delete)

lemma map_of_update [simp]: "map_of (AList.update k v m) = (map_of m)(k \<mapsto> v)"
  by (rule update_conv')

lemma map_of_delete [simp]: "map_of (AList.delete k m) = (map_of m)(k := None)"
  by (rule delete_conv')

lemma update_absent: "k \<notin> fst ` set m \<Longrightarrow> AList.update k v m = m @ [(k, v)]"
  by (induction m) auto

lemma map_of_snoc_absent:
  "map_of m k = None \<Longrightarrow> map_of (m @ [(k, v)]) = (map_of m)(k \<mapsto> v)"
  by (auto simp: fun_eq_iff map_add_def split: option.splits)

lemma filter_key_absent:
  "k \<notin> fst ` set m \<Longrightarrow> filter (\<lambda>(k', v). k' \<noteq> k) m = m"
  by (force simp: filter_id_conv)

lemma length_filter_key:
  "distinct (map fst m) \<Longrightarrow> k \<in> fst ` set m \<Longrightarrow>
   Suc (length (filter (\<lambda>(k', v). k' \<noteq> k) m)) = length m"
proof (induction m)
  case (Cons p m)
  then show ?case by (cases p; cases "fst p = k") (auto simp: filter_key_absent)
qed simp

lemma set_update_subset: "set (AList.update k v m) \<subseteq> insert (k, v) (set m)"
  by (induction m) auto

lemma set_delete_subset: "set (AList.delete k m) \<subseteq> set m"
  by (auto simp: AList.delete_eq)

lemma length_update:
  "length (AList.update k v m) = (if map_of m k = None then Suc (length m) else length m)"
  by (induction m) auto

lemma gomap_length_card: "gomap_ok m \<Longrightarrow> length m = card (dom (map_of m))"
  unfolding gomap_ok_def dom_map_of_conv_image_fst
  by (metis distinct_card length_map set_map)

lemma gomap_empty_iff: "length m = 0 \<longleftrightarrow> map_of m = Map.empty"
  by (cases m) (auto simp: fun_eq_iff)

text \<open>
  \<open>range\<close> over a map visits the keys in an order the Go runtime is free to choose. The
  choice is an argument \<open>pick\<close>; an answer that is not a rearrangement of the keys is read
  as "in the order of the list", so that every \<open>pick\<close> is a legal choice and every legal
  choice is the answer of some \<open>pick\<close>.
\<close>

definition range_order :: "('k list \<Rightarrow> 'k list) \<Rightarrow> 'k list \<Rightarrow> 'k list" where
  "range_order pick ks = (if mset (pick ks) = mset ks then pick ks else ks)"

definition range_map ::
  "('k list \<Rightarrow> 'k list) \<Rightarrow> ('k, 'v) gomap \<Rightarrow> ('k \<times> 'v) list" where
  "range_map pick m =
     map (\<lambda>k. (k, the (map_of m k))) (range_order pick (map fst m))"

lemma mset_range_order [simp]: "mset (range_order pick ks) = mset ks"
  by (simp add: range_order_def)

lemma set_range_order [simp]: "set (range_order pick ks) = set ks"
  by (metis mset_range_order set_mset_mset)

lemma distinct_range_order [simp]: "distinct (range_order pick ks) = distinct ks"
  by (rule mset_eq_imp_distinct_iff) simp

lemma length_range_order [simp]: "length (range_order pick ks) = length ks"
  by (metis mset_range_order size_mset)

lemma range_order_id [simp]: "range_order (\<lambda>ks. ks) ks = ks"
  by (simp add: range_order_def)

lemma map_fst_range_map [simp]: "map fst (range_map pick m) = range_order pick (map fst m)"
  by (simp add: range_map_def comp_def)

lemma length_range_map [simp]: "length (range_map pick m) = length m"
  by (simp add: range_map_def)

lemma set_range_map: "gomap_ok m \<Longrightarrow> set (range_map pick m) = set m"
  by (force simp: range_map_def gomap_ok_def dest: map_of_is_SomeI)

lemma map_of_range_map: "gomap_ok m \<Longrightarrow> map_of (range_map pick m) = map_of m"
proof -
  have "map_of (range_map pick m) = (Some \<circ> (\<lambda>k. the (map_of m k))) |` (fst ` set m)"
    by (simp add: range_map_def map_of_map_restrict)
  also have "\<dots> = map_of m"
  proof
    fix k
    show "((Some \<circ> (\<lambda>k. the (map_of m k))) |` (fst ` set m)) k = map_of m k"
      using map_of_eq_None_notin[of m k] by (cases "map_of m k") (auto simp: restrict_map_def)
  qed
  finally show ?thesis .
qed

lemma gomap_ok_range_map [simp]: "gomap_ok m \<Longrightarrow> gomap_ok (range_map pick m)"
  by (simp add: gomap_ok_def)

end
