(* ===== verification/GoStd.thy ===== *)
theory GoStd
  imports Prelude
begin

text \<open>
  The parts of the Go standard library the Memcore sources use, as executable functions:
  variable-length and little-endian integers of \<open>encoding/binary\<close>, decimal integers of
  \<open>strconv\<close>, the comparison of \<open>float64\<close> values, the 64-bit wrap-around of \<open>int64\<close>, and
  instants and durations of \<open>time\<close>.
\<close>

section \<open>64-bit integers\<close>

text \<open>
  Go's \<open>int\<close> and \<open>int64\<close> are 64-bit two's complement. They are integers here, and a sum
  or product that can leave the range is wrapped with \<open>wrap64\<close>.
\<close>

abbreviation minInt64 :: int where
  "minInt64 \<equiv> - 9223372036854775808"

abbreviation maxInt64 :: int where
  "maxInt64 \<equiv> 9223372036854775807"

definition wrap64 :: "int \<Rightarrow> int" where
  "wrap64 x = (x + 9223372036854775808) mod 18446744073709551616 - 9223372036854775808"

definition int64_ok :: "int \<Rightarrow> bool" where
  "int64_ok x \<longleftrightarrow> minInt64 \<le> x \<and> x \<le> maxInt64"

lemma wrap64_id: "int64_ok x \<Longrightarrow> wrap64 x = x"
  by (simp add: wrap64_def int64_ok_def)

lemma int64_ok_wrap64 [simp]: "int64_ok (wrap64 x)"
proof -
  have "0 \<le> (x + 9223372036854775808) mod 18446744073709551616"
    and "(x + 9223372036854775808) mod 18446744073709551616 < 18446744073709551616"
    by simp_all
  then show ?thesis by (simp add: wrap64_def int64_ok_def)
qed

section \<open>encoding/binary: unsigned varints\<close>

text \<open>\<open>binary.PutUvarint\<close>: seven bits per byte, low bits first, the high bit set on all
  bytes but the last.\<close>

fun putUvarint :: "nat \<Rightarrow> bytes" where
  "putUvarint x =
     (if x < 128 then [char_of x] else char_of (x mod 128 + 128) # putUvarint (x div 128))"

declare putUvarint.simps [simp del]

text \<open>
  \<open>binary.Uvarint\<close>: the value and the number of bytes read; width 0 when the buffer ends
  inside the number, a negative width when it exceeds 64 bits. \<open>i\<close> counts the bytes read so
  far and \<open>x\<close> is the value they gave.
\<close>

fun uvarint_from :: "nat \<Rightarrow> nat \<Rightarrow> bytes \<Rightarrow> nat \<times> int" where
  "uvarint_from i x [] = (0, 0)"
| "uvarint_from i x (c # cs) =
     (if i = 10 then (0, - (int i + 1))
      else if byteval c < 128 then
        (if i = 9 \<and> byteval c > 1 then (0, - (int i + 1))
         else (x + byteval c * 2 ^ (7 * i), int i + 1))
      else uvarint_from (Suc i) (x + (byteval c mod 128) * 2 ^ (7 * i)) cs)"

definition uvarint :: "bytes \<Rightarrow> nat \<times> int" where
  "uvarint buf = uvarint_from 0 0 buf"

text \<open>
  \<open>binary.ReadUvarint\<close> on a byte stream. A stream that ends before the first byte is a
  clean \<open>EOF\<close>, one that ends later an unexpected one.
\<close>

datatype ioErr = EOF | UnexpectedEOF | Overflow | Malformed bytes

fun readUvarint_from :: "nat \<Rightarrow> nat \<Rightarrow> bytes \<Rightarrow> ioErr + nat \<times> bytes" where
  "readUvarint_from i x [] = Inl (if i > 0 then UnexpectedEOF else EOF)"
| "readUvarint_from i x (c # cs) =
     (if byteval c < 128 then
        (if i = 9 \<and> byteval c > 1 then Inl Overflow
         else Inr (x + byteval c * 2 ^ (7 * i), cs))
      else if i = 9 then Inl Overflow
      else readUvarint_from (Suc i) (x + (byteval c mod 128) * 2 ^ (7 * i)) cs)"

definition readUvarint :: "bytes \<Rightarrow> ioErr + nat \<times> bytes" where
  "readUvarint s = readUvarint_from 0 0 s"

lemma putUvarint_nonempty [simp]: "putUvarint n \<noteq> []"
  by (subst putUvarint.simps) simp

lemma uvarint_step_bound:
  assumes "128 \<le> (n::nat)" "n < 2 ^ (64 - 7 * i)" "i \<le> 9"
  shows "n div 128 < 2 ^ (64 - 7 * Suc i) \<and> Suc i \<le> 9 \<and> i < 9"
proof -
  have i: "i < 9"
  proof (rule ccontr)
    assume "\<not> i < 9"
    with assms(3) have "i = 9" by simp
    with assms(1,2) show False by simp
  qed
  then have e: "64 - 7 * i = 7 + (64 - 7 * Suc i)" by simp
  have "(2::nat) ^ (64 - 7 * i) = 2 ^ 7 * 2 ^ (64 - 7 * Suc i)"
    unfolding e by (rule power_add)
  with assms(2) have "n < 2 ^ 7 * 2 ^ (64 - 7 * Suc i)" by (simp only:)
  then have "n < 128 * 2 ^ (64 - 7 * Suc i)" by simp
  then have "n div 128 < 2 ^ (64 - 7 * Suc i)"
    by (simp add: less_mult_imp_div_less mult.commute)
  with i show ?thesis by simp
qed

lemma uvarint_digit:
  "x + (n::nat) mod 128 * 2 ^ (7 * i) + n div 128 * 2 ^ (7 * Suc i) = x + n * 2 ^ (7 * i)"
proof -
  have "n * 2 ^ (7 * i) = (n mod 128 + 128 * (n div 128)) * 2 ^ (7 * i)" by simp
  also have "\<dots> = n mod 128 * 2 ^ (7 * i) + n div 128 * 2 ^ (7 * Suc i)"
    by (simp only: add_mult_distrib) (simp add: power_add)
  finally show ?thesis by simp
qed

lemma byteval_more: "byteval (char_of (n mod 128 + 128)) = n mod 128 + 128"
proof -
  have "n mod 128 < 128" by simp
  then show ?thesis by (subst byteval_char_of) linarith+
qed

lemma uvarint_from_put:
  "n < 2 ^ (64 - 7 * i) \<Longrightarrow> i \<le> 9 \<Longrightarrow>
   uvarint_from i x (putUvarint n @ rest) =
     (x + n * 2 ^ (7 * i), int (i + length (putUvarint n)))"
proof (induction n arbitrary: i x rule: putUvarint.induct)
  case (1 n)
  show ?case
  proof (cases "n < 128")
    case True
    with "1.prems" show ?thesis
      by (auto simp: putUvarint.simps[of n] split: if_splits)
  next
    case False
    then have b: "n div 128 < 2 ^ (64 - 7 * Suc i)" "Suc i \<le> 9" "i < 9"
      using uvarint_step_bound[OF _ "1.prems"] by auto
    show ?thesis
      using "1.IH"[OF False b(1,2)] b False
      by (simp add: putUvarint.simps[of n] byteval_more uvarint_digit del: mult_Suc_right power_Suc)
  qed
qed

lemma uvarint_put [codec_simps]:
  "n < 2 ^ 64 \<Longrightarrow> uvarint (putUvarint n @ rest) = (n, int (length (putUvarint n)))"
  unfolding uvarint_def by (subst uvarint_from_put) simp_all

lemma readUvarint_from_put:
  "n < 2 ^ (64 - 7 * i) \<Longrightarrow> i \<le> 9 \<Longrightarrow>
   readUvarint_from i x (putUvarint n @ rest) = Inr (x + n * 2 ^ (7 * i), rest)"
proof (induction n arbitrary: i x rule: putUvarint.induct)
  case (1 n)
  show ?case
  proof (cases "n < 128")
    case True
    with "1.prems" show ?thesis
      by (auto simp: putUvarint.simps[of n] split: if_splits)
  next
    case False
    then have b: "n div 128 < 2 ^ (64 - 7 * Suc i)" "Suc i \<le> 9" "i < 9"
      using uvarint_step_bound[OF _ "1.prems"] by auto
    show ?thesis
      using "1.IH"[OF False b(1,2)] b False
      by (simp add: putUvarint.simps[of n] byteval_more uvarint_digit del: mult_Suc_right power_Suc)
  qed
qed

lemma readUvarint_put [codec_simps]:
  "n < 2 ^ 64 \<Longrightarrow> readUvarint (putUvarint n @ rest) = Inr (n, rest)"
  unfolding readUvarint_def by (subst readUvarint_from_put) simp_all

section \<open>encoding/binary: little-endian words\<close>

fun le_put :: "nat \<Rightarrow> nat \<Rightarrow> bytes" where
  "le_put 0 n = []"
| "le_put (Suc k) n = char_of (n mod 256) # le_put k (n div 256)"

fun le_get :: "bytes \<Rightarrow> nat" where
  "le_get [] = 0"
| "le_get (c # cs) = byteval c + 256 * le_get cs"

lemma length_le_put [simp]: "length (le_put k n) = k"
  by (induction k arbitrary: n) auto

lemma le_get_put: "le_get (le_put k n) = n mod 256 ^ k"
proof (induction k arbitrary: n)
  case (Suc k)
  have "n mod 256 + 256 * (n div 256 mod 256 ^ k) = n mod (256 * 256 ^ k)"
    by (simp add: mod_mult2_eq)
  with Suc show ?case by simp
qed simp

text \<open>\<open>binary.LittleEndian.PutUint64\<close> and \<open>Uint64\<close> on the eight bytes of a word.\<close>

definition putUint64 :: "64 word \<Rightarrow> bytes" where
  "putUint64 w = le_put 8 (unat w)"

definition getUint64 :: "bytes \<Rightarrow> 64 word" where
  "getUint64 b = word_of_nat (le_get b)"

lemma length_putUint64 [simp]: "length (putUint64 w) = 8"
  by (simp add: putUint64_def)

lemma getUint64_put [codec_simps, simp]: "getUint64 (putUint64 w) = w"
proof -
  have "unat w < 2 ^ 64"
    using unsigned_less[of w, where 'a = nat] by simp
  then have "unat w mod 256 ^ 8 = unat w" by simp
  then show ?thesis by (simp add: getUint64_def putUint64_def le_get_put)
qed

section \<open>strconv: decimal integers\<close>

definition digit_char :: "nat \<Rightarrow> char" where
  "digit_char d = char_of (48 + d)"

definition digit_val :: "char \<Rightarrow> nat option" where
  "digit_val c = (if 48 \<le> byteval c \<and> byteval c \<le> 57 then Some (byteval c - 48) else None)"

fun utoa :: "nat \<Rightarrow> bytes" where
  "utoa n = (if n < 10 then [digit_char n] else utoa (n div 10) @ [digit_char (n mod 10)])"

declare utoa.simps [simp del]

text \<open>\<open>strconv.FormatInt(n, 10)\<close>, \<open>AppendInt\<close> and \<open>Itoa\<close>.\<close>

definition formatInt :: "int \<Rightarrow> bytes" where
  "formatInt n = (if n < 0 then CHR ''-'' # utoa (nat (- n)) else utoa (nat n))"

fun parse_digits :: "nat \<Rightarrow> bytes \<Rightarrow> nat option" where
  "parse_digits n [] = Some n"
| "parse_digits n (c # cs) =
     (case digit_val c of None \<Rightarrow> None | Some d \<Rightarrow> parse_digits (n * 10 + d) cs)"

text \<open>
  \<open>strconv.ParseInt(s, 10, 64)\<close> and \<open>Atoi\<close>: an optional sign, at least one digit, nothing
  else, and a value in the \<open>int64\<close> range; \<open>None\<close> is the error.
\<close>

definition parseInt :: "bytes \<Rightarrow> int option" where
  "parseInt s =
     (case s of
        [] \<Rightarrow> None
      | c # cs \<Rightarrow>
          (let neg = (c = CHR ''-'');
               ds = (if c = CHR ''-'' \<or> c = CHR ''+'' then cs else s)
           in if ds = [] then None
              else (case parse_digits 0 ds of
                      None \<Rightarrow> None
                    | Some n \<Rightarrow>
                        if \<not> neg \<and> n \<ge> 9223372036854775808 then None
                        else if neg \<and> n > 9223372036854775808 then None
                        else Some (if neg then - int n else int n))))"

lemma digit_val_char [simp]: "d < 10 \<Longrightarrow> digit_val (digit_char d) = Some d"
  by (simp add: digit_val_def digit_char_def)

lemma digit_char_sign [simp]:
  "d < 10 \<Longrightarrow> digit_char d \<noteq> CHR ''-''" "d < 10 \<Longrightarrow> digit_char d \<noteq> CHR ''+''"
  by (auto dest!: arg_cong[where f = byteval] simp: digit_char_def)

lemma parse_digits_append:
  "parse_digits n (xs @ ys) = Option.bind (parse_digits n xs) (\<lambda>m. parse_digits m ys)"
  by (induction xs arbitrary: n) (auto split: option.splits)

lemma parse_digits_utoa: "parse_digits 0 (utoa n) = Some n"
proof (induction n rule: utoa.induct)
  case (1 n)
  show ?case
  proof (cases "n < 10")
    case True
    then show ?thesis by (simp add: utoa.simps[of n])
  next
    case False
    with "1.IH" have "parse_digits 0 (utoa (n div 10)) = Some (n div 10)" by simp
    with False show ?thesis
      by (simp add: utoa.simps[of n] parse_digits_append)
  qed
qed

lemma utoa_hd: "\<exists>d ds. d < 10 \<and> utoa n = digit_char d # ds"
proof (induction n rule: utoa.induct)
  case (1 n)
  show ?case
  proof (cases "n < 10")
    case False
    with "1.IH" obtain d ds where "d < 10" "utoa (n div 10) = digit_char d # ds" by auto
    with False show ?thesis by (subst utoa.simps) auto
  qed (subst utoa.simps, auto)
qed

lemma utoa_nonempty [simp]: "utoa n \<noteq> []"
  using utoa_hd[of n] by auto

lemma parseInt_formatInt [codec_simps]: "int64_ok n \<Longrightarrow> parseInt (formatInt n) = Some n"
proof (cases "n < 0")
  case True
  moreover assume "int64_ok n"
  ultimately show ?thesis
    by (auto simp: parseInt_def formatInt_def int64_ok_def parse_digits_utoa Let_def)
next
  case False
  assume ok: "int64_ok n"
  obtain d ds where "d < 10" and u: "utoa (nat n) = digit_char d # ds"
    using utoa_hd by blast
  moreover have "parse_digits 0 (digit_char d # ds) = Some (nat n)"
    using parse_digits_utoa[of "nat n"] u by simp
  ultimately show ?thesis using False ok
    by (auto simp: parseInt_def formatInt_def int64_ok_def Let_def)
qed

lemma parseInt_range: "parseInt s = Some n \<Longrightarrow> int64_ok n"
  by (auto simp: parseInt_def int64_ok_def Let_def split: list.splits option.splits if_splits)

section \<open>float64\<close>

text \<open>
  A \<open>float64\<close> is its 64 IEEE 754 bits: a sign bit over a 63-bit magnitude, where
  magnitudes above that of infinity are NaN. Two numbers that are not NaN compare as their
  signed magnitudes do, with the two zeros equal; NaN is unequal to everything and less than
  nothing. \<open>math.Float64bits\<close> and \<open>Float64frombits\<close> are the identity.
\<close>

type_synonym float64 = "64 word"

abbreviation f64_inf_mag :: int where
  "f64_inf_mag \<equiv> 9218868437227405312"

definition f64_mag :: "float64 \<Rightarrow> int" where
  "f64_mag f = uint f mod 9223372036854775808"

definition f64_neg :: "float64 \<Rightarrow> bool" where
  "f64_neg f \<longleftrightarrow> uint f \<ge> 9223372036854775808"

definition f64_key :: "float64 \<Rightarrow> int" where
  "f64_key f = (if f64_neg f then - f64_mag f else f64_mag f)"

definition f64_isNaN :: "float64 \<Rightarrow> bool" where
  "f64_isNaN f \<longleftrightarrow> f64_mag f > f64_inf_mag"

definition f64_eq :: "float64 \<Rightarrow> float64 \<Rightarrow> bool" where
  "f64_eq a b \<longleftrightarrow> \<not> f64_isNaN a \<and> \<not> f64_isNaN b \<and> f64_key a = f64_key b"

definition f64_lt :: "float64 \<Rightarrow> float64 \<Rightarrow> bool" where
  "f64_lt a b \<longleftrightarrow> \<not> f64_isNaN a \<and> \<not> f64_isNaN b \<and> f64_key a < f64_key b"

section \<open>time\<close>

text \<open>
  A \<open>time.Time\<close> is its distance from the Unix epoch in nanoseconds (the monotonic reading
  a \<open>Time\<close> may carry is not modelled); the zero \<open>Time\<close> is the first instant of the year 1.
  A \<open>time.Duration\<close> is a number of nanoseconds in the \<open>int64\<close> range.
\<close>

type_synonym gotime = int
type_synonym duration = int

definition zeroTime :: gotime where
  "zeroTime = - 62135596800000000000"

definition isZero :: "gotime \<Rightarrow> bool" where
  "isZero t \<longleftrightarrow> t = zeroTime"

definition before :: "gotime \<Rightarrow> gotime \<Rightarrow> bool" where
  "before t u \<longleftrightarrow> t < u"

definition addTime :: "gotime \<Rightarrow> duration \<Rightarrow> gotime" where
  "addTime t d = t + d"

text \<open>\<open>Time.Sub\<close> saturates at the ends of the \<open>Duration\<close> range.\<close>

definition subTime :: "gotime \<Rightarrow> gotime \<Rightarrow> duration" where
  "subTime t u = max minInt64 (min maxInt64 (t - u))"

text \<open>\<open>time.Duration(secs) * time.Second\<close> is an \<open>int64\<close> product, which wraps.\<close>

definition secondsDuration :: "int \<Rightarrow> duration" where
  "secondsDuration secs = wrap64 (secs * 1000000000)"

definition milliseconds :: "duration \<Rightarrow> int" where
  "milliseconds d = d sdiv 1000000"

definition unixMilli :: "int \<Rightarrow> gotime" where
  "unixMilli ms = ms * 1000000"

definition toUnixMilli :: "gotime \<Rightarrow> int" where
  "toUnixMilli t = t div 1000000"

text \<open>\<open>Time.UnixNano\<close> is an \<open>int64\<close>; instants outside its range wrap.\<close>

definition unixNano :: "gotime \<Rightarrow> int" where
  "unixNano t = wrap64 t"

section \<open>sort\<close>

text \<open>
  \<open>sort.Slice\<close> promises a permutation in which no element is \<open>less\<close> than one before it.
  The development sorts only slices whose elements have distinct keys, where that promise
  has one solution; insertion sort computes it.
\<close>

fun insertBy :: "('a \<Rightarrow> 'a \<Rightarrow> bool) \<Rightarrow> 'a \<Rightarrow> 'a list \<Rightarrow> 'a list" where
  "insertBy lt x [] = [x]"
| "insertBy lt x (y # ys) = (if lt y x then y # insertBy lt x ys else x # y # ys)"

definition sortSlice :: "('a \<Rightarrow> 'a \<Rightarrow> bool) \<Rightarrow> 'a list \<Rightarrow> 'a list" where
  "sortSlice lt xs = foldr (insertBy lt) xs []"

lemma mset_insertBy [simp]: "mset (insertBy lt x xs) = add_mset x (mset xs)"
  by (induction xs) auto

lemma mset_sortSlice [simp]: "mset (sortSlice lt xs) = mset xs"
  unfolding sortSlice_def by (induction xs) auto

lemma set_insertBy [simp]: "set (insertBy lt x xs) = insert x (set xs)"
  by (induction xs) auto

lemma set_sortSlice [simp]: "set (sortSlice lt xs) = set xs"
  by (metis mset_sortSlice set_mset_mset)

lemma length_sortSlice [simp]: "length (sortSlice lt xs) = length xs"
  by (metis mset_sortSlice size_mset)

lemma insertBy_sorted:
  fixes key :: "'a \<Rightarrow> 'k::linorder"
  assumes "\<And>y. y \<in> set ys \<Longrightarrow> lt y x \<longleftrightarrow> key y < key x" "key x \<notin> key ` set ys"
    "sorted_wrt (\<lambda>a b. key a < key b) ys"
  shows "sorted_wrt (\<lambda>a b. key a < key b) (insertBy lt x ys)"
  using assms
proof (induction ys)
  case (Cons y ys)
  then have "\<not> lt y x \<Longrightarrow> key x < key y" by (auto simp: not_less order.order_iff_strict)
  with Cons show ?case by force
qed simp

lemma sortSlice_sorted:
  fixes key :: "'a \<Rightarrow> 'k::linorder"
  assumes "\<And>a b. a \<in> set xs \<Longrightarrow> b \<in> set xs \<Longrightarrow> lt a b \<longleftrightarrow> key a < key b"
    "distinct (map key xs)"
  shows "sorted_wrt (\<lambda>a b. key a < key b) (sortSlice lt xs)"
  using assms
proof (induction xs)
  case (Cons x xs)
  then have "sorted_wrt (\<lambda>a b. key a < key b) (sortSlice lt xs)" by auto
  then show ?case
    using Cons.prems insertBy_sorted[of "sortSlice lt xs" lt x key]
    by (simp add: sortSlice_def set_sortSlice[unfolded sortSlice_def])
qed (simp add: sortSlice_def)

end
