(* ===== verification/Pack.thy ===== *)
theory Pack
  imports GoStd
begin

text \<open>
  The compact encoding behind small collections: \<open>internal/value/pack.go\<close>,
  \<open>internal/value/limits.go\<close> and \<open>normalizeRange\<close> of \<open>internal/value/value.go\<close>. A pack
  is one byte slice that holds length-prefixed elements. The reference view of a pack is the
  list of its elements (\<open>pack_of\<close>), and of a scan with early exit the function \<open>each\<close>.
\<close>

section \<open>Thresholds (limits.go)\<close>

record Thresholds =
  MaxEntries :: int
  MaxBytes :: int

record Limits =
  Lim_List :: Thresholds
  Lim_Hash :: Thresholds
  Lim_Set :: Thresholds
  Lim_ZSet :: Thresholds

definition exceeded :: "Thresholds \<Rightarrow> int \<Rightarrow> int \<Rightarrow> bool" where
  "exceeded t cnt elemSize \<longleftrightarrow> cnt > MaxEntries t \<or> elemSize > MaxBytes t"

text \<open>The contents a compact collection may have: what \<open>exceeded\<close> lets stay compact.\<close>

definition fits :: "Thresholds \<Rightarrow> bytes list \<Rightarrow> nat \<Rightarrow> bool" where
  "fits t xs n \<longleftrightarrow>
     (\<forall>x \<in> set xs. int (length x) \<le> MaxBytes t) \<and> (n = 0 \<or> int n \<le> MaxEntries t)"

lemma fits_mono: "fits t xs n \<Longrightarrow> set ys \<subseteq> set xs \<Longrightarrow> m \<le> n \<Longrightarrow> fits t ys m"
  by (force simp: fits_def)

section \<open>Packs (pack.go)\<close>

text \<open>
  The length of a Go slice is an \<open>int\<close>. HOL lists have no bound, so the facts about packs
  ask that the elements are slices Go could hold.
\<close>

definition slice_ok :: "bytes \<Rightarrow> bool" where
  "slice_ok b \<longleftrightarrow> length b < 9223372036854775808"

text \<open>The conversion \<open>int(n)\<close> of a \<open>uint64\<close>.\<close>

definition toInt :: "nat \<Rightarrow> int" where
  "toInt n = wrap64 (int n)"

text \<open>The slice expression \<open>b[lo:hi]\<close>, a panic out of range.\<close>

definition go_slice :: "bytes \<Rightarrow> int \<Rightarrow> int \<Rightarrow> bytes option" where
  "go_slice b lo hi =
     (if 0 \<le> lo \<and> lo \<le> hi \<and> hi \<le> int (length b)
      then Some (take (nat (hi - lo)) (drop (nat lo) b)) else None)"

definition packAppend :: "bytes \<Rightarrow> bytes \<Rightarrow> bytes" where
  "packAppend buf elem = (buf @ putUvarint (length elem)) @ elem"

text \<open>
  \<open>packEach\<close> with the callback as a function on the state it captures, returning the new
  state and whether to go on. A length prefix of width 0 makes the Go loop spin on the same
  buffer, a negative width or a length past the end is a slice-bounds panic: both are
  \<open>None\<close>.
\<close>

partial_function (option) packEach ::
  "(bytes \<Rightarrow> 's \<Rightarrow> 's \<times> bool) \<Rightarrow> bytes \<Rightarrow> 's \<Rightarrow> 's option" where
  "packEach fn buf s =
     (if buf = [] then Some s
      else (case uvarint buf of
        (n, w) \<Rightarrow>
          if w < 0 then None
          else if n > length (drop (nat w) buf) then None
          else (case fn (take n (drop (nat w) buf)) s of
            (s', cont) \<Rightarrow>
              if cont then packEach fn (drop n (drop (nat w) buf)) s' else Some s')))"

subsection \<open>Reference view\<close>

fun each :: "('e \<Rightarrow> 's \<Rightarrow> 's \<times> bool) \<Rightarrow> 'e list \<Rightarrow> 's \<Rightarrow> 's" where
  "each fn [] s = s"
| "each fn (x # xs) s = (case fn x s of (s', cont) \<Rightarrow> if cont then each fn xs s' else s')"

definition pack_elem :: "bytes \<Rightarrow> bytes" where
  "pack_elem e = putUvarint (length e) @ e"

definition pack_of :: "bytes list \<Rightarrow> bytes" where
  "pack_of xs = concat (map pack_elem xs)"

lemma pack_elem_nonempty [simp]: "pack_elem e \<noteq> []"
  by (simp add: pack_elem_def)

lemma pack_of_simps [simp]:
  "pack_of [] = []" "pack_of (x # xs) = pack_elem x @ pack_of xs"
  "pack_of (xs @ ys) = pack_of xs @ pack_of ys"
  by (simp_all add: pack_of_def)

lemma pack_of_eq_Nil [simp]: "pack_of xs = [] \<longleftrightarrow> xs = []"
  by (cases xs) auto

lemma packAppend_pack_of [simp]: "packAppend (pack_of xs) e = pack_of (xs @ [e])"
  by (simp add: packAppend_def pack_elem_def)

lemma packAppend_Nil [simp]: "packAppend [] e = pack_of [e]"
  by (simp add: packAppend_def pack_elem_def)

lemma slice_ok_less: "slice_ok b \<Longrightarrow> length b < 2 ^ 64"
  by (simp add: slice_ok_def)

lemma uvarint_pack_elem:
  "slice_ok e \<Longrightarrow>
   uvarint (pack_elem e @ rest) = (length e, int (length (putUvarint (length e))))"
  using uvarint_put[OF slice_ok_less, of e] by (simp add: pack_elem_def)

lemma toInt_slice [simp]: "slice_ok e \<Longrightarrow> toInt (length e) = int (length e)"
  by (simp add: toInt_def slice_ok_def wrap64_id int64_ok_def)

lemma packEach_elem:
  assumes "slice_ok x"
  shows "packEach fn (pack_elem x @ rest) s =
    (case fn x s of (s', cont) \<Rightarrow> if cont then packEach fn rest s' else Some s')"
proof -
  have d: "drop (length (putUvarint (length x))) (pack_elem x @ rest) = x @ rest"
    by (simp add: pack_elem_def)
  show ?thesis
    by (subst packEach.simps)
       (simp add: uvarint_pack_elem[OF assms] d del: drop_append take_append split: prod.split)
qed

lemma packEach_pack_of:
  "\<forall>e \<in> set xs. slice_ok e \<Longrightarrow> packEach fn (pack_of xs) s = Some (each fn xs s)"
  by (induction xs arbitrary: s) (auto simp: packEach.simps[of _ "[]"] packEach_elem split: prod.splits)

lemma each_collect: "each (\<lambda>e s. (s @ [f e], True)) xs s = s @ map f xs"
  by (induction xs arbitrary: s) auto

lemma each_foldl: "each (\<lambda>e s. (f s e, True)) xs s = foldl f s xs"
  by (induction xs arbitrary: s) auto

lemma each_find:
  "each (\<lambda>e s. if P e then (True, False) else (s, True)) xs False = (\<exists>e \<in> set xs. P e)"
  by (induction xs) auto

text \<open>The elements a pack holds, as the code itself would read them.\<close>

definition unpack :: "bytes \<Rightarrow> bytes list" where
  "unpack p = (case packEach (\<lambda>e s. (s @ [e], True)) p [] of None \<Rightarrow> [] | Some xs \<Rightarrow> xs)"

lemma unpack_pack_of [simp]: "\<forall>e \<in> set xs. slice_ok e \<Longrightarrow> unpack (pack_of xs) = xs"
  by (simp add: unpack_def packEach_pack_of each_collect[where f = "\<lambda>e. e", simplified])

section \<open>normalizeRange (value.go)\<close>

definition normalizeRange :: "int \<Rightarrow> int \<Rightarrow> int \<Rightarrow> (int \<times> int) option" where
  "normalizeRange start stop len =
     (if len = 0 then None
      else
        let start1 = (if start < 0 then len + start else start);
            stop1 = (if stop < 0 then len + stop else stop);
            start2 = (if start1 < 0 then 0 else start1);
            stop2 = (if stop1 \<ge> len then len - 1 else stop1)
        in if start2 > stop2 \<or> start2 \<ge> len then None else Some (start2, stop2))"

text \<open>The position a Redis index names, counting back from the end when negative.\<close>

definition index_pos :: "int \<Rightarrow> int \<Rightarrow> int" where
  "index_pos len i = (if i < 0 then len + i else i)"

definition slice_of :: "int \<Rightarrow> int \<Rightarrow> 'a list \<Rightarrow> 'a list" where
  "slice_of start stop xs =
     (case normalizeRange start stop (int (length xs)) of
        None \<Rightarrow> []
      | Some (lo, hi) \<Rightarrow> take (nat (hi - lo + 1)) (drop (nat lo) xs))"

lemma normalizeRange_Some:
  assumes "normalizeRange start stop len = Some (lo, hi)" "0 \<le> len"
  shows "0 \<le> lo" "lo \<le> hi" "hi < len"
  using assms by (auto simp: normalizeRange_def Let_def split: if_splits)

lemma normalizeRange_mem:
  assumes "0 \<le> i" "i < len"
  shows "(\<exists>lo hi. normalizeRange start stop len = Some (lo, hi) \<and> lo \<le> i \<and> i \<le> hi) \<longleftrightarrow>
    index_pos len start \<le> i \<and> i \<le> index_pos len stop"
  using assms by (auto simp: normalizeRange_def index_pos_def Let_def)

lemma slice_of_all [simp]: "slice_of 0 (-1) xs = xs"
  by (cases xs) (auto simp: slice_of_def normalizeRange_def Let_def)

text \<open>The loop of a ranged scan, \<open>i\<close> counting the elements seen so far.\<close>

lemma each_range_gen:
  assumes "0 \<le> lo" "i \<le> hi" "0 \<le> i"
  shows "each (\<lambda>e (i, out). ((i + 1, if i \<ge> lo then out @ [f e] else out), i + 1 \<le> hi)) xs (i, out)
    = (min (hi + 1) (i + int (length xs)),
       out @ map f (take (nat (hi + 1 - max lo i)) (drop (nat (lo - i)) xs)))"
  using assms
proof (induction xs arbitrary: i out)
  case (Cons x xs)
  show ?case
  proof (cases "i + 1 \<le> hi")
    case True
    have s: "nat (hi + 1 - i) = Suc (nat (hi - i))" using True by simp
    have d: "i < lo \<Longrightarrow> nat (lo - i) = Suc (nat (lo - (i + 1)))" by simp
    have m: "hi + 1 - (i + 1) = hi - i" by simp
    have l: "\<not> lo \<le> i \<Longrightarrow> lo \<le> i + 1 \<Longrightarrow> hi + 1 - lo = hi - i" by simp
    show ?thesis
      using True Cons.IH[of "i + 1" "if i \<ge> lo then out @ [f x] else out"] Cons.prems
      by (auto simp: s d m l max_def)
  next
    case False
    with Cons.prems have "hi = i" by simp
    with Cons.prems show ?thesis by (auto simp: max_def)
  qed
qed (auto simp: min_def)

lemma each_range:
  assumes "normalizeRange start stop (int (length xs)) = Some (lo, hi)"
  shows "snd (each (\<lambda>e (i, out). ((i + 1, if i \<ge> lo then out @ [f e] else out), i + 1 \<le> hi))
      xs (0, [])) = map f (slice_of start stop xs)"
  using normalizeRange_Some[OF assms] assms
  by (subst each_range_gen) (auto simp: slice_of_def max_def algebra_simps)

end
