(* ===== verification/ListValue.thy ===== *)
theory ListValue
  imports Pack
begin

text \<open>
  The list type of \<open>internal/value/list.go\<close>: a compact pack that turns into a doubly-linked
  list once it crosses its thresholds. The linked list is modelled with its pointers: the
  nodes live in an arena indexed by address, \<open>None\<close> is \<open>nil\<close>, and a popped node stays behind
  as garbage. The locale \<open>deque\<close> is what the list commands and the persistence codec rely
  on; it is interpreted on the linked list and on the whole list type.
\<close>

section \<open>The linked representation (fullList)\<close>

record listNode =
  ln_value :: bytes
  ln_prev :: "nat option"
  ln_next :: "nat option"

record fullList =
  fl_nodes :: "listNode list"
  fl_head :: "nat option"
  fl_tail :: "nat option"
  fl_length :: int

definition newFullList :: fullList where
  "newFullList = \<lparr>fl_nodes = [], fl_head = None, fl_tail = None, fl_length = 0\<rparr>"

definition fullList_pushFront :: "fullList \<Rightarrow> bytes \<Rightarrow> fullList" where
  "fullList_pushFront l b =
     (let n = length (fl_nodes l);
          nodes = fl_nodes l @ [\<lparr>ln_value = b, ln_prev = None, ln_next = fl_head l\<rparr>]
      in case fl_head l of
           Some h \<Rightarrow>
             l\<lparr>fl_nodes := nodes[h := (nodes ! h)\<lparr>ln_prev := Some n\<rparr>],
               fl_head := Some n, fl_length := fl_length l + 1\<rparr>
         | None \<Rightarrow>
             l\<lparr>fl_nodes := nodes, fl_tail := Some n, fl_head := Some n,
               fl_length := fl_length l + 1\<rparr>)"

definition fullList_pushBack :: "fullList \<Rightarrow> bytes \<Rightarrow> fullList" where
  "fullList_pushBack l b =
     (let n = length (fl_nodes l);
          nodes = fl_nodes l @ [\<lparr>ln_value = b, ln_prev = fl_tail l, ln_next = None\<rparr>]
      in case fl_tail l of
           Some t \<Rightarrow>
             l\<lparr>fl_nodes := nodes[t := (nodes ! t)\<lparr>ln_next := Some n\<rparr>],
               fl_tail := Some n, fl_length := fl_length l + 1\<rparr>
         | None \<Rightarrow>
             l\<lparr>fl_nodes := nodes, fl_head := Some n, fl_tail := Some n,
               fl_length := fl_length l + 1\<rparr>)"

definition fullList_popFront :: "fullList \<Rightarrow> fullList \<times> bytes option" where
  "fullList_popFront l =
     (case fl_head l of
        None \<Rightarrow> (l, None)
      | Some n \<Rightarrow>
          (let node = fl_nodes l ! n
           in (case ln_next node of
                 Some h \<Rightarrow>
                   l\<lparr>fl_nodes := (fl_nodes l)[h := (fl_nodes l ! h)\<lparr>ln_prev := None\<rparr>],
                     fl_head := Some h, fl_length := fl_length l - 1\<rparr>
               | None \<Rightarrow> l\<lparr>fl_head := None, fl_tail := None, fl_length := fl_length l - 1\<rparr>,
               Some (ln_value node))))"

definition fullList_popBack :: "fullList \<Rightarrow> fullList \<times> bytes option" where
  "fullList_popBack l =
     (case fl_tail l of
        None \<Rightarrow> (l, None)
      | Some n \<Rightarrow>
          (let node = fl_nodes l ! n
           in (case ln_prev node of
                 Some t \<Rightarrow>
                   l\<lparr>fl_nodes := (fl_nodes l)[t := (fl_nodes l ! t)\<lparr>ln_next := None\<rparr>],
                     fl_tail := Some t, fl_length := fl_length l - 1\<rparr>
               | None \<Rightarrow> l\<lparr>fl_tail := None, fl_head := None, fl_length := fl_length l - 1\<rparr>,
               Some (ln_value node))))"

text \<open>The two loops of \<open>rangeElems\<close>: skip \<open>k\<close> nodes, then collect \<open>m\<close> values. A \<open>nil\<close>
  dereference is \<open>None\<close>.\<close>

fun fl_skip :: "listNode list \<Rightarrow> nat option \<Rightarrow> nat \<Rightarrow> nat option option" where
  "fl_skip ns p 0 = Some p"
| "fl_skip ns None (Suc k) = None"
| "fl_skip ns (Some a) (Suc k) = fl_skip ns (ln_next (ns ! a)) k"

fun fl_collect :: "listNode list \<Rightarrow> nat option \<Rightarrow> nat \<Rightarrow> bytes list option" where
  "fl_collect ns p 0 = Some []"
| "fl_collect ns None (Suc k) = None"
| "fl_collect ns (Some a) (Suc k) =
     map_option (\<lambda>out. ln_value (ns ! a) # out) (fl_collect ns (ln_next (ns ! a)) k)"

definition fullList_rangeElems :: "fullList \<Rightarrow> int \<Rightarrow> int \<Rightarrow> bytes list option" where
  "fullList_rangeElems l start stop =
     (case normalizeRange start stop (fl_length l) of
        None \<Rightarrow> Some []
      | Some (lo, hi) \<Rightarrow>
          Option.bind (fl_skip (fl_nodes l) (fl_head l) (nat lo))
            (\<lambda>n. fl_collect (fl_nodes l) n (nat (hi - lo + 1))))"

section \<open>The list type\<close>

record mcList =
  l_pack :: bytes
  l_count :: int
  l_full :: "fullList option"
  l_max :: Thresholds

definition NewList :: "Thresholds \<Rightarrow> mcList" where
  "NewList mx = \<lparr>l_pack = [], l_count = 0, l_full = None, l_max = mx\<rparr>"

definition List_Compact :: "mcList \<Rightarrow> bool" where
  "List_Compact l \<longleftrightarrow> l_full l = None"

definition List_Len :: "mcList \<Rightarrow> int" where
  "List_Len l = (case l_full l of Some f \<Rightarrow> fl_length f | None \<Rightarrow> l_count l)"

definition List_promote :: "mcList \<Rightarrow> mcList option" where
  "List_promote l =
     Option.bind (packEach (\<lambda>e full. (fullList_pushBack full e, True)) (l_pack l) newFullList)
       (\<lambda>full. Some (l\<lparr>l_full := Some full, l_pack := [], l_count := 0\<rparr>))"

definition List_promoteIfNeeded :: "mcList \<Rightarrow> int \<Rightarrow> mcList option" where
  "List_promoteIfNeeded l elemSize =
     (if exceeded (l_max l) (l_count l) elemSize then List_promote l else Some l)"

definition List_PushFront :: "mcList \<Rightarrow> bytes \<Rightarrow> mcList option" where
  "List_PushFront l b =
     (case l_full l of
        Some f \<Rightarrow> Some (l\<lparr>l_full := Some (fullList_pushFront f b)\<rparr>)
      | None \<Rightarrow>
          List_promoteIfNeeded
            (l\<lparr>l_pack := packAppend [] b @ l_pack l, l_count := l_count l + 1\<rparr>)
            (int (length b)))"

definition List_PushBack :: "mcList \<Rightarrow> bytes \<Rightarrow> mcList option" where
  "List_PushBack l b =
     (case l_full l of
        Some f \<Rightarrow> Some (l\<lparr>l_full := Some (fullList_pushBack f b)\<rparr>)
      | None \<Rightarrow>
          List_promoteIfNeeded
            (l\<lparr>l_pack := packAppend (l_pack l) b, l_count := l_count l + 1\<rparr>)
            (int (length b)))"

definition List_PopFront :: "mcList \<Rightarrow> (mcList \<times> bytes option) option" where
  "List_PopFront l =
     (case l_full l of
        Some f \<Rightarrow> (case fullList_popFront f of (f', v) \<Rightarrow> Some (l\<lparr>l_full := Some f'\<rparr>, v))
      | None \<Rightarrow>
          if l_count l = 0 then Some (l, None)
          else (case uvarint (l_pack l) of
            (n, w) \<Rightarrow> do {
              out \<leftarrow> go_slice (l_pack l) w (w + toInt n);
              rest \<leftarrow> go_slice (l_pack l) (w + toInt n) (int (length (l_pack l)));
              Some (l\<lparr>l_pack := rest, l_count := l_count l - 1\<rparr>, Some out) }))"

text \<open>The scan of \<open>PopBack\<close> for the last element: \<open>(lastOff, dataOff, dataLen)\<close>.\<close>

partial_function (option) popBack_scan ::
  "bytes \<Rightarrow> int \<Rightarrow> int \<times> int \<times> int \<Rightarrow> (int \<times> int \<times> int) option" where
  "popBack_scan p off acc =
     (if off < int (length p) then
        (if off < 0 then None
         else (case uvarint (drop (nat off) p) of
           (n, w) \<Rightarrow> popBack_scan p (off + w + toInt n) (off, off + w, toInt n)))
      else Some acc)"

definition List_PopBack :: "mcList \<Rightarrow> (mcList \<times> bytes option) option" where
  "List_PopBack l =
     (case l_full l of
        Some f \<Rightarrow> (case fullList_popBack f of (f', v) \<Rightarrow> Some (l\<lparr>l_full := Some f'\<rparr>, v))
      | None \<Rightarrow>
          if l_count l = 0 then Some (l, None)
          else Option.bind (popBack_scan (l_pack l) 0 (0, 0, 0))
            (\<lambda>(lastOff, dataOff, dataLen). do {
              out \<leftarrow> go_slice (l_pack l) dataOff (dataOff + dataLen);
              rest \<leftarrow> go_slice (l_pack l) 0 lastOff;
              Some (l\<lparr>l_pack := rest, l_count := l_count l - 1\<rparr>, Some out) }))"

definition List_Range :: "mcList \<Rightarrow> int \<Rightarrow> int \<Rightarrow> bytes list option" where
  "List_Range l start stop =
     (case l_full l of
        Some f \<Rightarrow> fullList_rangeElems f start stop
      | None \<Rightarrow>
          (case normalizeRange start stop (l_count l) of
             None \<Rightarrow> Some []
           | Some (lo, hi) \<Rightarrow>
               map_option snd
                 (packEach
                   (\<lambda>e (i, out). ((i + 1, if i \<ge> lo then out @ [e] else out), i + 1 \<le> hi))
                   (l_pack l) (0, []))))"

section \<open>The deque contract\<close>

locale deque =
  fixes inv :: "'s \<Rightarrow> bool"
    and elems :: "'s \<Rightarrow> bytes list"
    and push_front :: "'s \<Rightarrow> bytes \<Rightarrow> 's option"
    and push_back :: "'s \<Rightarrow> bytes \<Rightarrow> 's option"
    and pop_front :: "'s \<Rightarrow> ('s \<times> bytes option) option"
    and pop_back :: "'s \<Rightarrow> ('s \<times> bytes option) option"
    and elem_range :: "'s \<Rightarrow> int \<Rightarrow> int \<Rightarrow> bytes list option"
    and len :: "'s \<Rightarrow> int"
  assumes push_front: "inv s \<Longrightarrow> slice_ok b \<Longrightarrow>
      \<exists>s'. push_front s b = Some s' \<and> inv s' \<and> elems s' = b # elems s"
    and push_back: "inv s \<Longrightarrow> slice_ok b \<Longrightarrow>
      \<exists>s'. push_back s b = Some s' \<and> inv s' \<and> elems s' = elems s @ [b]"
    and pop_front: "inv s \<Longrightarrow>
      \<exists>s'. pop_front s = Some (s', if elems s = [] then None else Some (hd (elems s)))
        \<and> inv s' \<and> elems s' = tl (elems s)"
    and pop_back: "inv s \<Longrightarrow>
      \<exists>s'. pop_back s = Some (s', if elems s = [] then None else Some (last (elems s)))
        \<and> inv s' \<and> elems s' = butlast (elems s)"
    and elem_range: "inv s \<Longrightarrow> elem_range s start stop = Some (slice_of start stop (elems s))"
    and len: "inv s \<Longrightarrow> len s = int (length (elems s))"
begin

lemma push_back_all:
  "inv s \<Longrightarrow> \<forall>b \<in> set bs. slice_ok b \<Longrightarrow>
   \<exists>s'. foldM push_back s bs = Some s' \<and> inv s' \<and> elems s' = elems s @ bs"
proof (induction bs arbitrary: s)
  case (Cons b bs)
  from Cons.prems push_back[of s b] obtain s1 where
    1: "push_back s b = Some s1" "inv s1" "elems s1 = elems s @ [b]" by auto
  from Cons.IH[OF 1(2)] Cons.prems obtain s2 where
    "foldM push_back s1 bs = Some s2" "inv s2" "elems s2 = elems s1 @ bs" by auto
  with 1 show ?case by simp
qed simp

lemma push_front_all:
  "inv s \<Longrightarrow> \<forall>b \<in> set bs. slice_ok b \<Longrightarrow>
   \<exists>s'. foldM push_front s bs = Some s' \<and> inv s' \<and> elems s' = rev bs @ elems s"
proof (induction bs arbitrary: s)
  case (Cons b bs)
  from Cons.prems push_front[of s b] obtain s1 where
    1: "push_front s b = Some s1" "inv s1" "elems s1 = b # elems s" by auto
  from Cons.IH[OF 1(2)] Cons.prems obtain s2 where
    "foldM push_front s1 bs = Some s2" "inv s2" "elems s2 = rev bs @ elems s1" by auto
  with 1 show ?case by simp
qed simp

lemma push_pop_back:
  assumes "inv s" "slice_ok b"
  shows "\<exists>s'. Option.bind (push_back s b) pop_back = Some (s', Some b) \<and> elems s' = elems s"
proof -
  from push_back[OF assms] obtain s1 where
    "push_back s b = Some s1" "inv s1" "elems s1 = elems s @ [b]" by auto
  with pop_back[of s1] show ?thesis by auto
qed

lemma push_pop_front:
  assumes "inv s" "slice_ok b"
  shows "\<exists>s'. Option.bind (push_front s b) pop_front = Some (s', Some b) \<and> elems s' = elems s"
proof -
  from push_front[OF assms] obtain s1 where
    "push_front s b = Some s1" "inv s1" "elems s1 = b # elems s" by auto
  with pop_front[of s1] show ?thesis by auto
qed

lemma range_all: "inv s \<Longrightarrow> elem_range s 0 (-1) = Some (elems s)"
  by (simp add: elem_range)

lemma len_zero: "inv s \<Longrightarrow> len s = 0 \<longleftrightarrow> elems s = []"
  by (simp add: len)

end

section \<open>The linked list implements the contract\<close>

text \<open>
  \<open>dll ns p as q\<close>: the addresses \<open>as\<close> are linked in both directions, the first one's
  \<open>prev\<close> is \<open>p\<close> and the last one's \<open>next\<close> is \<open>q\<close>.
\<close>

fun dll :: "listNode list \<Rightarrow> nat option \<Rightarrow> nat list \<Rightarrow> nat option \<Rightarrow> bool" where
  "dll ns p [] q \<longleftrightarrow> True"
| "dll ns p (a # as) q \<longleftrightarrow>
     a < length ns \<and> ln_prev (ns ! a) = p
     \<and> ln_next (ns ! a) = (case as of [] \<Rightarrow> q | b # _ \<Rightarrow> Some b)
     \<and> dll ns (Some a) as q"

definition fl_rep :: "fullList \<Rightarrow> nat list \<Rightarrow> bool" where
  "fl_rep l as \<longleftrightarrow>
     distinct as \<and> dll (fl_nodes l) None as None
     \<and> fl_head l = (if as = [] then None else Some (hd as))
     \<and> fl_tail l = (if as = [] then None else Some (last as))
     \<and> fl_length l = int (length as)"

definition fl_inv :: "fullList \<Rightarrow> bool" where
  "fl_inv l \<longleftrightarrow> (\<exists>as. fl_rep l as)"

text \<open>The values in order, read off the pointers.\<close>

definition fl_elems :: "fullList \<Rightarrow> bytes list" where
  "fl_elems l =
     (case fl_collect (fl_nodes l) (fl_head l) (nat (fl_length l)) of
        None \<Rightarrow> [] | Some vs \<Rightarrow> vs)"

lemma dll_append:
  "dll ns p (as @ bs) q \<longleftrightarrow>
   dll ns p as (case bs of [] \<Rightarrow> q | b # _ \<Rightarrow> Some b)
   \<and> dll ns (if as = [] then p else Some (last as)) bs q"
  by (induction as arbitrary: p) (auto split: list.splits)

lemma dll_range: "dll ns p as q \<Longrightarrow> a \<in> set as \<Longrightarrow> a < length ns"
  by (induction as arbitrary: p) auto

lemma dll_frame_append [simp]: "dll ns p as q \<Longrightarrow> dll (ns @ ms) p as q"
  by (induction as arbitrary: p) (auto simp: nth_append)

lemma dll_frame_update [simp]: "a \<notin> set as \<Longrightarrow> dll (ns[a := x]) p as q = dll ns p as q"
  by (induction as arbitrary: p) auto

lemma dll_set_prev:
  "dll ns p (a # as) q \<Longrightarrow> a \<notin> set as \<Longrightarrow>
   dll (ns[a := (ns ! a)\<lparr>ln_prev := p'\<rparr>]) p' (a # as) q"
  by (auto split: list.splits)

lemma dll_set_next:
  assumes "dll ns p (as @ [a]) q" "a \<notin> set as"
  shows "dll (ns[a := (ns ! a)\<lparr>ln_next := q'\<rparr>]) p (as @ [a]) q'"
  using assms by (auto simp: dll_append)

lemma map_value_update:
  "\<forall>a \<in> set as. a < length ns \<Longrightarrow> ln_value x = ln_value (ns ! b) \<Longrightarrow>
   map (\<lambda>a. ln_value (ns[b := x] ! a)) as = map (\<lambda>a. ln_value (ns ! a)) as"
  by (cases "b < length ns") (auto simp: nth_list_update)

lemma map_value_append:
  "\<forall>a \<in> set as. a < length ns \<Longrightarrow>
   map (\<lambda>a. ln_value ((ns @ ms) ! a)) as = map (\<lambda>a. ln_value (ns ! a)) as"
  by (auto simp: nth_append)

lemma fl_collect_dll:
  "dll ns p as q \<Longrightarrow> k \<le> length as \<Longrightarrow>
   fl_collect ns (case as of [] \<Rightarrow> q | a # _ \<Rightarrow> Some a) k
     = Some (take k (map (\<lambda>a. ln_value (ns ! a)) as))"
proof (induction as arbitrary: p k)
  case (Cons a as)
  then show ?case by (cases k) auto
qed simp

lemma fl_skip_dll:
  "dll ns p as q \<Longrightarrow> k \<le> length as \<Longrightarrow>
   fl_skip ns (case as of [] \<Rightarrow> q | a # _ \<Rightarrow> Some a) k
     = Some (case drop k as of [] \<Rightarrow> q | a # _ \<Rightarrow> Some a)"
proof (induction as arbitrary: p k)
  case (Cons a as)
  then show ?case by (cases k) auto
qed simp

lemma dll_drop: "dll ns p as q \<Longrightarrow> \<exists>p'. dll ns p' (drop k as) q"
proof (induction as arbitrary: p k)
  case (Cons a as)
  then show ?case by (cases k) auto
qed simp

lemma fl_head_case:
  "fl_rep l as \<Longrightarrow> fl_head l = (case as of [] \<Rightarrow> None | a # _ \<Rightarrow> Some a)"
  by (simp add: fl_rep_def split: list.splits)

lemma fl_elems_rep:
  assumes "fl_rep l as"
  shows "fl_elems l = map (\<lambda>a. ln_value (fl_nodes l ! a)) as"
  using assms fl_collect_dll[of "fl_nodes l" None as None "length as"] fl_head_case[OF assms]
  by (simp add: fl_elems_def fl_rep_def)

lemma fl_repD:
  assumes "fl_rep l as"
  shows "distinct as" "dll (fl_nodes l) None as None" "\<forall>a \<in> set as. a < length (fl_nodes l)"
  using assms by (auto simp: fl_rep_def dest: dll_range)

lemma fl_rep_new: "fl_rep newFullList []"
  by (simp add: fl_rep_def newFullList_def)

lemma fl_rep_pushFront:
  assumes "fl_rep l as"
  shows "fl_rep (fullList_pushFront l b) (length (fl_nodes l) # as)"
    and "fl_elems (fullList_pushFront l b) = b # fl_elems l"
proof -
  note D = fl_repD[OF assms]
  let ?n = "length (fl_nodes l)"
  let ?ns = "fl_nodes l @ [\<lparr>ln_value = b, ln_prev = None, ln_next = fl_head l\<rparr>]"
  have fresh: "?n \<notin> set as" using D(3) by auto
  show rep: "fl_rep (fullList_pushFront l b) (?n # as)"
  proof (cases as)
    case Nil
    with assms show ?thesis by (simp add: fl_rep_def fullList_pushFront_def)
  next
    case (Cons h t)
    have "dll ?ns None (h # t) None" using D(2) Cons by (metis dll_frame_append)
    then have "dll (?ns[h := (?ns ! h)\<lparr>ln_prev := Some ?n\<rparr>]) (Some ?n) (h # t) None"
      using D(1) Cons by (intro dll_set_prev) auto
    with assms Cons fresh show ?thesis
      by (auto simp: fl_rep_def fullList_pushFront_def Let_def nth_append)
  qed
  have "fl_nodes (fullList_pushFront l b) ! ?n = ?ns ! ?n" and
    "map (\<lambda>a. ln_value (fl_nodes (fullList_pushFront l b) ! a)) as
      = map (\<lambda>a. ln_value (fl_nodes l ! a)) as"
    using assms D fresh
    by (cases as; auto simp: fl_rep_def fullList_pushFront_def nth_list_update nth_append)+
  then show "fl_elems (fullList_pushFront l b) = b # fl_elems l"
    by (simp add: fl_elems_rep[OF rep] fl_elems_rep[OF assms])
qed

lemma fl_rep_pushBack:
  assumes "fl_rep l as"
  shows "fl_rep (fullList_pushBack l b) (as @ [length (fl_nodes l)])"
    and "fl_elems (fullList_pushBack l b) = fl_elems l @ [b]"
proof -
  note D = fl_repD[OF assms]
  let ?n = "length (fl_nodes l)"
  let ?ns = "fl_nodes l @ [\<lparr>ln_value = b, ln_prev = fl_tail l, ln_next = None\<rparr>]"
  have fresh: "?n \<notin> set as" using D(3) by auto
  show rep: "fl_rep (fullList_pushBack l b) (as @ [?n])"
  proof (cases as rule: rev_cases)
    case Nil
    with assms show ?thesis by (simp add: fl_rep_def fullList_pushBack_def)
  next
    case (snoc h t)
    have "dll ?ns None (h @ [t]) None" using D(2) snoc by (metis dll_frame_append)
    then have d: "dll (?ns[t := (?ns ! t)\<lparr>ln_next := Some ?n\<rparr>]) None (h @ [t]) (Some ?n)"
      using D(1) snoc by (intro dll_set_next) auto
    have "dll (?ns[t := (?ns ! t)\<lparr>ln_next := Some ?n\<rparr>]) None ((h @ [t]) @ [?n]) None"
      using d fresh assms snoc by (subst dll_append) (auto simp: fl_rep_def)
    moreover have "fl_tail l = Some t" "fl_head l = Some (hd (h @ [t]))"
      "fl_length l = int (length (h @ [t]))" "distinct ((h @ [t]) @ [?n])"
      using assms snoc fresh by (auto simp: fl_rep_def)
    ultimately show ?thesis
      by (simp add: snoc fl_rep_def fullList_pushBack_def hd_append)
  qed
  have "fl_nodes (fullList_pushBack l b) ! ?n = ?ns ! ?n" and
    "map (\<lambda>a. ln_value (fl_nodes (fullList_pushBack l b) ! a)) as
      = map (\<lambda>a. ln_value (fl_nodes l ! a)) as"
    using assms D fresh
    by (cases as rule: rev_cases; auto simp: fl_rep_def fullList_pushBack_def nth_list_update nth_append)+
  then show "fl_elems (fullList_pushBack l b) = fl_elems l @ [b]"
    by (simp add: fl_elems_rep[OF rep] fl_elems_rep[OF assms])
qed

lemma fl_rep_popFront:
  assumes "fl_rep l (h # t)"
  shows "\<exists>l'. fullList_popFront l = (l', Some (hd (fl_elems l)))
    \<and> fl_rep l' t \<and> fl_elems l' = tl (fl_elems l)"
proof -
  note D = fl_repD[OF assms]
  define l' where "l' = fst (fullList_popFront l)"
  have hd: "fl_head l = Some h" using assms by (simp add: fl_rep_def)
  have rep: "fl_rep l' t"
  proof (cases t)
    case Nil
    with assms show ?thesis by (simp add: fl_rep_def l'_def fullList_popFront_def)
  next
    case (Cons a as)
    have "dll (fl_nodes l) (Some h) (a # as) None" using D(2) Cons by simp
    then have "dll ((fl_nodes l)[a := (fl_nodes l ! a)\<lparr>ln_prev := None\<rparr>]) None (a # as) None"
      using D(1) Cons by (intro dll_set_prev) auto
    with assms Cons show ?thesis by (auto simp: fl_rep_def l'_def fullList_popFront_def)
  qed
  have "map (\<lambda>a. ln_value (fl_nodes l' ! a)) t = map (\<lambda>a. ln_value (fl_nodes l ! a)) t"
    using D(3) hd
    by (cases "ln_next (fl_nodes l ! h)")
       (auto simp: l'_def fullList_popFront_def intro!: map_value_update[unfolded map_eq_conv, rule_format])
  moreover have "snd (fullList_popFront l) = Some (ln_value (fl_nodes l ! h))"
    using hd by (simp add: fullList_popFront_def)
  ultimately have "fullList_popFront l = (l', Some (hd (fl_elems l)))"
    and "fl_elems l' = tl (fl_elems l)"
    by (simp_all add: fl_elems_rep[OF rep] fl_elems_rep[OF assms] prod_eq_iff flip: l'_def)
  with rep show ?thesis by blast
qed

lemma fl_rep_popBack:
  assumes "fl_rep l (h @ [t])"
  shows "\<exists>l'. fullList_popBack l = (l', Some (last (fl_elems l)))
    \<and> fl_rep l' h \<and> fl_elems l' = butlast (fl_elems l)"
proof -
  note D = fl_repD[OF assms]
  define l' where "l' = fst (fullList_popBack l)"
  have tl: "fl_tail l = Some t" using assms by (simp add: fl_rep_def)
  have rep: "fl_rep l' h"
  proof (cases h rule: rev_cases)
    case Nil
    with assms show ?thesis by (simp add: fl_rep_def l'_def fullList_popBack_def)
  next
    case (snoc as a)
    have d: "dll (fl_nodes l) None (as @ [a]) (Some t)"
      and p: "ln_prev (fl_nodes l ! t) = Some a"
      using D(2) snoc by (auto simp: dll_append)
    from d have "dll ((fl_nodes l)[a := (fl_nodes l ! a)\<lparr>ln_next := None\<rparr>]) None (as @ [a]) None"
      using D(1) snoc by (intro dll_set_next) auto
    moreover have "fl_head l = Some (hd (as @ [a]))" "distinct (as @ [a])"
      "fl_length l = int (length as) + 2"
      using assms snoc by (auto simp: fl_rep_def hd_append)
    ultimately show ?thesis
      using tl p by (simp add: snoc fl_rep_def l'_def fullList_popBack_def)
  qed
  have "map (\<lambda>a. ln_value (fl_nodes l' ! a)) h = map (\<lambda>a. ln_value (fl_nodes l ! a)) h"
    using D(3) tl
    by (cases "ln_prev (fl_nodes l ! t)")
       (auto simp: l'_def fullList_popBack_def intro!: map_value_update[unfolded map_eq_conv, rule_format])
  moreover have "snd (fullList_popBack l) = Some (ln_value (fl_nodes l ! t))"
    using tl by (simp add: fullList_popBack_def)
  ultimately have "fullList_popBack l = (l', Some (last (fl_elems l)))"
    and "fl_elems l' = butlast (fl_elems l)"
    by (simp_all add: fl_elems_rep[OF rep] fl_elems_rep[OF assms] prod_eq_iff flip: l'_def)
  with rep show ?thesis by blast
qed

lemma fl_rep_rangeElems:
  assumes "fl_rep l as"
  shows "fullList_rangeElems l start stop = Some (slice_of start stop (fl_elems l))"
proof (cases "normalizeRange start stop (int (length as))")
  case None
  with assms show ?thesis
    by (simp add: fullList_rangeElems_def slice_of_def fl_elems_rep[OF assms] fl_rep_def)
next
  case (Some r)
  then obtain lo hi where r: "normalizeRange start stop (int (length as)) = Some (lo, hi)"
    by (cases r) auto
  note b = normalizeRange_Some[OF r]
  note D = fl_repD[OF assms]
  obtain p' where p': "dll (fl_nodes l) p' (drop (nat lo) as) None"
    using dll_drop[OF D(2)] by blast
  have "fl_skip (fl_nodes l) (fl_head l) (nat lo)
      = Some (case drop (nat lo) as of [] \<Rightarrow> None | a # _ \<Rightarrow> Some a)"
    using assms fl_skip_dll[OF D(2), of "nat lo"] b fl_head_case[OF assms] by simp
  moreover have "nat (hi - lo + 1) \<le> length (drop (nat lo) as)"
    using b by simp
  ultimately show ?thesis
    using assms r fl_collect_dll[OF p', of "nat (hi - lo + 1)"]
    by (simp add: fullList_rangeElems_def slice_of_def fl_elems_rep[OF assms] fl_rep_def drop_map)
qed

lemma fl_rep_length: "fl_rep l as \<Longrightarrow> fl_length l = int (length (fl_elems l))"
  by (simp add: fl_elems_rep) (simp add: fl_rep_def)

lemma fl_elems_Nil: "fl_rep l as \<Longrightarrow> fl_elems l = [] \<longleftrightarrow> as = []"
  by (simp add: fl_elems_rep)

lemma fl_empty_pop:
  "fl_rep l [] \<Longrightarrow> fullList_popFront l = (l, None)" "fl_rep l [] \<Longrightarrow> fullList_popBack l = (l, None)"
  by (simp_all add: fl_rep_def fullList_popFront_def fullList_popBack_def)

lemma fl_inv_newFullList: "fl_inv newFullList" "fl_elems newFullList = []"
  using fl_rep_new by (auto simp: fl_inv_def fl_elems_rep)

interpretation fl: deque fl_inv fl_elems
  "\<lambda>l b. Some (fullList_pushFront l b)" "\<lambda>l b. Some (fullList_pushBack l b)"
  "\<lambda>l. Some (fullList_popFront l)" "\<lambda>l. Some (fullList_popBack l)"
  fullList_rangeElems fl_length
proof
  fix l :: fullList and b :: bytes
  assume i: "fl_inv l"
  then obtain as where rep: "fl_rep l as" by (auto simp: fl_inv_def)
  show "\<exists>l'. Some (fullList_pushFront l b) = Some l' \<and> fl_inv l' \<and> fl_elems l' = b # fl_elems l"
    using fl_rep_pushFront[OF rep, of b] by (auto simp: fl_inv_def)
  show "\<exists>l'. Some (fullList_pushBack l b) = Some l' \<and> fl_inv l' \<and> fl_elems l' = fl_elems l @ [b]"
    using fl_rep_pushBack[OF rep, of b] by (auto simp: fl_inv_def)
  show "\<exists>l'. Some (fullList_popFront l) =
      Some (l', if fl_elems l = [] then None else Some (hd (fl_elems l)))
      \<and> fl_inv l' \<and> fl_elems l' = tl (fl_elems l)"
  proof (cases as)
    case Nil
    with rep i show ?thesis using fl_empty_pop[of l] fl_elems_Nil[OF rep] by auto
  next
    case (Cons h t)
    with fl_rep_popFront[of l h t] rep show ?thesis
      using fl_elems_Nil[OF rep] by (auto simp: fl_inv_def)
  qed
  show "\<exists>l'. Some (fullList_popBack l) =
      Some (l', if fl_elems l = [] then None else Some (last (fl_elems l)))
      \<and> fl_inv l' \<and> fl_elems l' = butlast (fl_elems l)"
  proof (cases as rule: rev_cases)
    case Nil
    with rep i show ?thesis using fl_empty_pop[of l] fl_elems_Nil[OF rep] by auto
  next
    case (snoc h t)
    with fl_rep_popBack[of l h t] rep show ?thesis
      using fl_elems_Nil[OF rep] by (auto simp: fl_inv_def)
  qed
  show "fullList_rangeElems l start stop = Some (slice_of start stop (fl_elems l))" for start stop
    using rep by (rule fl_rep_rangeElems)
  show "fl_length l = int (length (fl_elems l))"
    using rep by (rule fl_rep_length)
qed

section \<open>The list type implements the contract\<close>

definition list_elems :: "mcList \<Rightarrow> bytes list" where
  "list_elems l = (case l_full l of None \<Rightarrow> unpack (l_pack l) | Some f \<Rightarrow> fl_elems f)"

definition list_rep :: "mcList \<Rightarrow> bytes list \<Rightarrow> bool" where
  "list_rep l xs \<longleftrightarrow>
     (\<forall>x \<in> set xs. slice_ok x)
     \<and> (case l_full l of
          None \<Rightarrow> l_pack l = pack_of xs \<and> l_count l = int (length xs) \<and> fits (l_max l) xs (length xs)
        | Some f \<Rightarrow> l_pack l = [] \<and> l_count l = 0 \<and> fl_inv f \<and> fl_elems f = xs)"

definition list_inv :: "mcList \<Rightarrow> bool" where
  "list_inv l \<longleftrightarrow> (\<exists>xs. list_rep l xs)"

lemma list_elems_rep: "list_rep l xs \<Longrightarrow> list_elems l = xs"
  by (auto simp: list_rep_def list_elems_def split: option.splits)

lemma list_inv_elems: "list_inv l \<longleftrightarrow> list_rep l (list_elems l)"
  using list_elems_rep by (auto simp: list_inv_def)

lemma list_rep_New: "list_rep (NewList mx) []"
  by (simp add: list_rep_def NewList_def fits_def)

lemma list_inv_New [simp]: "list_inv (NewList mx)" "list_elems (NewList mx) = []"
  using list_rep_New by (auto simp: list_inv_def list_elems_rep)

lemma promote_fl:
  assumes "\<forall>x \<in> set xs. slice_ok x"
  shows "\<exists>f. packEach (\<lambda>e full. (fullList_pushBack full e, True)) (pack_of xs) newFullList = Some f
    \<and> fl_inv f \<and> fl_elems f = xs"
  using fl.push_back_all[OF fl_inv_newFullList(1) assms] fl_inv_newFullList(2)
  by (auto simp: packEach_pack_of[OF assms] each_foldl foldM_Some)

lemma List_promoteIfNeeded_rep:
  assumes "l_full l = None" "l_pack l = pack_of xs" "l_count l = int (length xs)"
    "\<forall>x \<in> set xs. slice_ok x" "fits (l_max l) ys (length ys)" "set xs \<subseteq> insert b (set ys)"
  shows "\<exists>l'. List_promoteIfNeeded l (int (length b)) = Some l' \<and> list_rep l' xs"
proof (cases "exceeded (l_max l) (l_count l) (int (length b))")
  case True
  with promote_fl[OF assms(4)] assms show ?thesis
    by (auto simp: List_promoteIfNeeded_def List_promote_def list_rep_def)
next
  case False
  then have "fits (l_max l) xs (length xs)"
    using assms(3,5,6) by (fastforce simp: fits_def exceeded_def)
  with False assms show ?thesis
    by (auto simp: List_promoteIfNeeded_def list_rep_def)
qed

lemma List_PushFront_rep:
  assumes "list_rep l xs" "slice_ok b"
  shows "\<exists>l'. List_PushFront l b = Some l' \<and> list_rep l' (b # xs)"
proof (cases "l_full l")
  case None
  show ?thesis
    unfolding List_PushFront_def None option.case
    by (rule List_promoteIfNeeded_rep[where ys = xs]) (use assms None in \<open>auto simp: list_rep_def\<close>)
next
  case (Some f)
  with assms fl.push_front[of f b] show ?thesis
    by (auto simp: List_PushFront_def list_rep_def)
qed

lemma List_PushBack_rep:
  assumes "list_rep l xs" "slice_ok b"
  shows "\<exists>l'. List_PushBack l b = Some l' \<and> list_rep l' (xs @ [b])"
proof (cases "l_full l")
  case None
  show ?thesis
    unfolding List_PushBack_def None option.case
    by (rule List_promoteIfNeeded_rep[where ys = xs]) (use assms None in \<open>auto simp: list_rep_def\<close>)
next
  case (Some f)
  with assms fl.push_back[of f b] show ?thesis
    by (auto simp: List_PushBack_def list_rep_def)
qed

lemma go_slice_mid:
  "go_slice (a @ b @ c) (int (length a)) (int (length a) + int (length b)) = Some b"
  by (simp add: go_slice_def)

lemma go_slice_prefix: "go_slice (a @ c) 0 (int (length a)) = Some a"
  by (simp add: go_slice_def)

lemma go_slice_suffix: "k = int (length a) \<Longrightarrow> go_slice (a @ c) k (int (length (a @ c))) = Some c"
  by (simp add: go_slice_def)

lemma List_PopFront_compact:
  assumes "l_full l = None" "l_pack l = pack_of (x # xs)" "l_count l = int (length (x # xs))"
    "slice_ok x"
  shows "List_PopFront l = Some (l\<lparr>l_pack := pack_of xs, l_count := int (length xs)\<rparr>, Some x)"
proof -
  let ?u = "putUvarint (length x)"
  have p: "l_pack l = ?u @ x @ pack_of xs" using assms(2) by (simp add: pack_elem_def)
  have u: "uvarint (l_pack l) = (length x, int (length ?u))"
    using uvarint_pack_elem[OF assms(4)] assms(2) by simp
  have "go_slice (l_pack l) (int (length ?u)) (int (length ?u) + toInt (length x)) = Some x"
    using assms(4) unfolding p by (simp add: go_slice_mid)
  moreover have "go_slice (l_pack l) (int (length ?u) + toInt (length x)) (int (length (l_pack l)))
      = Some (pack_of xs)"
    using assms(4) go_slice_suffix[of "int (length ?u) + int (length x)" "?u @ x" "pack_of xs"]
    unfolding p by simp
  ultimately show ?thesis
    using assms(1,3) by (simp add: List_PopFront_def u)
qed

lemma popBack_scan_pack:
  "\<forall>x \<in> set xs. slice_ok x \<Longrightarrow>
   popBack_scan (pack_of (pre @ xs)) (int (length (pack_of pre))) acc =
     Some (if xs = [] then acc
           else (int (length (pack_of (pre @ butlast xs))),
                 int (length (pack_of (pre @ butlast xs)))
                   + int (length (putUvarint (length (last xs)))),
                 int (length (last xs))))"
proof (induction xs arbitrary: pre acc)
  case Nil
  show ?case by (subst popBack_scan.simps) simp
next
  case (Cons x xs)
  let ?o = "int (length (pack_of pre))"
  have u: "uvarint (drop (length (pack_of pre)) (pack_of (pre @ x # xs)))
      = (length x, int (length (putUvarint (length x))))"
    using Cons.prems by (simp add: uvarint_pack_elem)
  have o: "?o + int (length (putUvarint (length x))) + toInt (length x)
      = int (length (pack_of (pre @ [x])))"
    using Cons.prems by (simp add: pack_elem_def)
  have "0 < length (pack_elem x)" by simp
  then have l: "?o < int (length (pack_of (pre @ x # xs)))"
    unfolding pack_of_simps length_append by linarith
  have "popBack_scan (pack_of (pre @ x # xs)) ?o acc =
      popBack_scan (pack_of (pre @ x # xs)) (int (length (pack_of (pre @ [x]))))
        (?o, ?o + int (length (putUvarint (length x))), int (length x))"
    using l Cons.prems by (subst popBack_scan.simps) (simp add: u flip: o del: pack_of_simps)
  with Cons.IH[of "pre @ [x]"] Cons.prems show ?case by auto
qed

lemma List_PopBack_compact:
  assumes "l_full l = None" "l_pack l = pack_of (xs @ [x])" "l_count l = int (length (xs @ [x]))"
    "\<forall>y \<in> set (xs @ [x]). slice_ok y"
  shows "List_PopBack l = Some (l\<lparr>l_pack := pack_of xs, l_count := int (length xs)\<rparr>, Some x)"
proof -
  let ?u = "putUvarint (length x)"
  have p: "l_pack l = pack_of xs @ ?u @ x" using assms(2) by (simp add: pack_elem_def)
  have s: "popBack_scan (l_pack l) 0 (0, 0, 0) =
      Some (int (length (pack_of xs)), int (length (pack_of xs)) + int (length ?u), int (length x))"
    using popBack_scan_pack[OF assms(4), of "[]"] assms(2) by simp
  have "go_slice (l_pack l) (int (length (pack_of xs)) + int (length ?u))
      (int (length (pack_of xs)) + int (length ?u) + int (length x)) = Some x"
    using go_slice_mid[of "pack_of xs @ ?u" x "[]"] unfolding p by simp
  moreover have "go_slice (l_pack l) 0 (int (length (pack_of xs))) = Some (pack_of xs)"
    unfolding p by (rule go_slice_prefix)
  ultimately show ?thesis
    using assms(1,3) by (simp add: List_PopBack_def s)
qed

lemma List_PopFront_rep:
  assumes "list_rep l xs"
  shows "\<exists>l'. List_PopFront l = Some (l', if xs = [] then None else Some (hd xs)) \<and> list_rep l' (tl xs)"
proof (cases "l_full l")
  case None
  show ?thesis
  proof (cases xs)
    case Nil
    with None assms show ?thesis by (auto simp: List_PopFront_def list_rep_def)
  next
    case (Cons y ys)
    with None assms List_PopFront_compact[of l y ys] show ?thesis
      by (auto simp: list_rep_def elim!: fits_mono)
  qed
next
  case (Some f)
  with assms fl.pop_front[of f] show ?thesis
    by (auto simp: List_PopFront_def list_rep_def dest: list.set_sel(2) split: prod.splits)
qed

lemma List_PopBack_rep:
  assumes "list_rep l xs"
  shows "\<exists>l'. List_PopBack l = Some (l', if xs = [] then None else Some (last xs))
    \<and> list_rep l' (butlast xs)"
proof (cases "l_full l")
  case None
  show ?thesis
  proof (cases xs rule: rev_cases)
    case Nil
    with None assms show ?thesis by (auto simp: List_PopBack_def list_rep_def)
  next
    case (snoc ys y)
    with None assms List_PopBack_compact[of l ys y] show ?thesis
      by (auto simp: list_rep_def elim!: fits_mono)
  qed
next
  case (Some f)
  with assms fl.pop_back[of f] show ?thesis
    by (auto simp: List_PopBack_def list_rep_def dest: in_set_butlastD split: prod.splits)
qed

lemma List_Range_rep:
  assumes "list_rep l xs"
  shows "List_Range l start stop = Some (slice_of start stop xs)"
proof (cases "l_full l")
  case None
  show ?thesis
  proof (cases "normalizeRange start stop (int (length xs))")
    case (Some r)
    with None assms show ?thesis
      using each_range[of start stop xs "fst r" "snd r" "\<lambda>e. e"]
      by (auto simp: List_Range_def list_rep_def packEach_pack_of case_prod_unfold)
  qed (use None assms in \<open>auto simp: List_Range_def list_rep_def slice_of_def\<close>)
next
  case (Some f)
  with assms fl.elem_range[of f] show ?thesis by (auto simp: List_Range_def list_rep_def)
qed

lemma List_Len_rep: "list_rep l xs \<Longrightarrow> List_Len l = int (length xs)"
  by (auto simp: List_Len_def list_rep_def fl.len split: option.splits)

interpretation ls: deque list_inv list_elems List_PushFront List_PushBack
  List_PopFront List_PopBack List_Range List_Len
proof
  fix l :: mcList and b :: bytes
  assume "list_inv l"
  then have rep: "list_rep l (list_elems l)" by (simp add: list_inv_elems)
  have I: "list_rep l' xs \<Longrightarrow> list_inv l' \<and> list_elems l' = xs" for l' xs
    by (auto simp: list_inv_def list_elems_rep)
  show "\<exists>l'. List_PushFront l b = Some l' \<and> list_inv l' \<and> list_elems l' = b # list_elems l"
    if "slice_ok b" using List_PushFront_rep[OF rep that] I by blast
  show "\<exists>l'. List_PushBack l b = Some l' \<and> list_inv l' \<and> list_elems l' = list_elems l @ [b]"
    if "slice_ok b" using List_PushBack_rep[OF rep that] I by blast
  show "\<exists>l'. List_PopFront l = Some (l', if list_elems l = [] then None else Some (hd (list_elems l)))
      \<and> list_inv l' \<and> list_elems l' = tl (list_elems l)"
    using List_PopFront_rep[OF rep] I by blast
  show "\<exists>l'. List_PopBack l = Some (l', if list_elems l = [] then None else Some (last (list_elems l)))
      \<and> list_inv l' \<and> list_elems l' = butlast (list_elems l)"
    using List_PopBack_rep[OF rep] I by blast
  show "List_Range l start stop = Some (slice_of start stop (list_elems l))" for start stop
    using rep by (rule List_Range_rep)
  show "List_Len l = int (length (list_elems l))"
    using rep by (rule List_Len_rep)
qed

end
