(* ===== verification/HashValue.thy ===== *)
theory HashValue
  imports Pack
begin

text \<open>
  The hash type of \<open>internal/value/hash.go\<close>: a pack of alternating fields and values that
  turns into a Go map once it crosses its thresholds. The locale \<open>field_map\<close> is what the
  hash commands and the codec rely on; it is interpreted on the Go map behind \<open>fullHash\<close>
  and on the whole type.
\<close>

section \<open>Definitions\<close>

text \<open>\<open>scanPairs\<close>: the captured variables \<open>field\<close> and \<open>haveField\<close> are part of the state.\<close>

definition scanPairs ::
  "(bytes \<Rightarrow> bytes \<Rightarrow> 's \<Rightarrow> 's \<times> bool) \<Rightarrow> bytes \<Rightarrow> 's \<Rightarrow> 's option" where
  "scanPairs fn buf s =
     map_option (snd \<circ> snd)
       (packEach
         (\<lambda>e (field, haveField, s).
            if \<not> haveField then ((e, True, s), True)
            else (case fn field e s of (s', cont) \<Rightarrow> ((field, False, s'), cont)))
         buf ([], False, s))"

record mcHash =
  h_pack :: bytes
  h_count :: int
  h_full :: "(bytes, bytes) gomap option"
  h_max :: Thresholds

definition NewHash :: "Thresholds \<Rightarrow> mcHash" where
  "NewHash mx = \<lparr>h_pack = [], h_count = 0, h_full = None, h_max = mx\<rparr>"

definition Hash_Compact :: "mcHash \<Rightarrow> bool" where
  "Hash_Compact h \<longleftrightarrow> h_full h = None"

definition Hash_Len :: "mcHash \<Rightarrow> int" where
  "Hash_Len h = (case h_full h of Some m \<Rightarrow> int (length m) | None \<Rightarrow> h_count h)"

definition Hash_Get :: "mcHash \<Rightarrow> bytes \<Rightarrow> bytes option option" where
  "Hash_Get h field =
     (case h_full h of
        Some m \<Rightarrow> Some (map_of m field)
      | None \<Rightarrow>
          scanPairs (\<lambda>f v out. if f = field then (Some v, False) else (out, True))
            (h_pack h) None)"

definition Hash_promote :: "mcHash \<Rightarrow> mcHash option" where
  "Hash_promote h =
     Option.bind (scanPairs (\<lambda>f v m. (AList.update f v m, True)) (h_pack h) [])
       (\<lambda>m. Some (h\<lparr>h_full := Some m, h_pack := [], h_count := 0\<rparr>))"

definition Hash_promoteIfNeeded :: "mcHash \<Rightarrow> int \<Rightarrow> int \<Rightarrow> mcHash option" where
  "Hash_promoteIfNeeded h fieldSize valSize =
     (let big = (if valSize > fieldSize then valSize else fieldSize)
      in if exceeded (h_max h) (h_count h) big then Hash_promote h else Some h)"

definition Hash_Set :: "mcHash \<Rightarrow> bytes \<Rightarrow> bytes \<Rightarrow> (mcHash \<times> bool) option" where
  "Hash_Set h field val =
     (case h_full h of
        Some m \<Rightarrow>
          Some (h\<lparr>h_full := Some (AList.update field val m)\<rparr>, map_of m field = None)
      | None \<Rightarrow> do {
          (existed, rebuilt) \<leftarrow>
            scanPairs
              (\<lambda>f v (existed, rebuilt).
                 let rebuilt1 = packAppend rebuilt f
                 in if f = field then ((True, packAppend rebuilt1 val), True)
                    else ((existed, packAppend rebuilt1 v), True))
              (h_pack h) (False, []);
          let h1 = (if \<not> existed
                    then h\<lparr>h_count := h_count h + 1,
                           h_pack := packAppend (packAppend rebuilt field) val\<rparr>
                    else h\<lparr>h_pack := rebuilt\<rparr>);
          h2 \<leftarrow> Hash_promoteIfNeeded h1 (int (length field)) (int (length val));
          Some (h2, \<not> existed) })"

definition Hash_Delete :: "mcHash \<Rightarrow> bytes \<Rightarrow> (mcHash \<times> bool) option" where
  "Hash_Delete h field =
     (case h_full h of
        Some m \<Rightarrow>
          Some (h\<lparr>h_full := Some (AList.delete field m)\<rparr>, map_of m field \<noteq> None)
      | None \<Rightarrow> do {
          (found, rebuilt) \<leftarrow>
            scanPairs
              (\<lambda>f v (found, rebuilt).
                 if f = field then ((True, rebuilt), True)
                 else ((found, packAppend (packAppend rebuilt f) v), True))
              (h_pack h) (False, []);
          if \<not> found then Some (h, False)
          else Some (h\<lparr>h_pack := rebuilt, h_count := h_count h - 1\<rparr>, True) })"

text \<open>The order of the pairs of a promoted hash is the runtime's choice.\<close>

definition flat :: "(bytes \<times> bytes) list \<Rightarrow> bytes list" where
  "flat ps = concat (map (\<lambda>(f, v). [f, v]) ps)"

definition Hash_Pairs :: "(bytes list \<Rightarrow> bytes list) \<Rightarrow> mcHash \<Rightarrow> bytes list option" where
  "Hash_Pairs pick h =
     (case h_full h of
        Some m \<Rightarrow> Some (flat (range_map pick m))
      | None \<Rightarrow> scanPairs (\<lambda>f v out. (out @ [f, v], True)) (h_pack h) [])"

section \<open>The field-map contract\<close>

locale field_map =
  fixes inv :: "'s \<Rightarrow> bool"
    and fields :: "'s \<Rightarrow> bytes \<rightharpoonup> bytes"
    and get :: "'s \<Rightarrow> bytes \<Rightarrow> bytes option option"
    and store :: "'s \<Rightarrow> bytes \<Rightarrow> bytes \<Rightarrow> ('s \<times> bool) option"
    and del :: "'s \<Rightarrow> bytes \<Rightarrow> ('s \<times> bool) option"
    and pairs :: "(bytes list \<Rightarrow> bytes list) \<Rightarrow> 's \<Rightarrow> bytes list option"
    and len :: "'s \<Rightarrow> int"
  assumes get: "inv s \<Longrightarrow> get s f = Some (fields s f)"
    and store: "inv s \<Longrightarrow> slice_ok f \<Longrightarrow> slice_ok v \<Longrightarrow>
      \<exists>s'. store s f v = Some (s', fields s f = None) \<and> inv s' \<and> fields s' = (fields s)(f \<mapsto> v)"
    and del: "inv s \<Longrightarrow>
      \<exists>s'. del s f = Some (s', fields s f \<noteq> None) \<and> inv s' \<and> fields s' = (fields s)(f := None)"
    and pairs: "inv s \<Longrightarrow>
      \<exists>ps. pairs pick s = Some (flat ps) \<and> distinct (map fst ps) \<and> map_of ps = fields s"
    and len: "inv s \<Longrightarrow> len s = int (card (dom (fields s)))"
    and finite_fields: "inv s \<Longrightarrow> finite (dom (fields s))"
begin

lemma len_zero: "inv s \<Longrightarrow> len s = 0 \<longleftrightarrow> fields s = Map.empty"
  using finite_fields[of s] by (auto simp: len)

text \<open>The loop of \<open>HSET\<close>: later pairs win, and the count is the number of new fields.\<close>

lemma store_all:
  assumes "inv s" "\<forall>(f, v) \<in> set ps. slice_ok f \<and> slice_ok v"
  shows "\<exists>s'. foldCount (\<lambda>s (f, v). store s f v) (s, n) ps =
      Some (s', n + (int (card (dom (fields s'))) - int (card (dom (fields s)))))
    \<and> inv s' \<and> fields s' = fields s ++ map_of (rev ps)"
  using assms
proof (induction ps arbitrary: s n)
  case (Cons p ps)
  obtain f v where p: "p = (f, v)" by (cases p)
  with Cons.prems store[of s f v] obtain s1 where
    1: "store s f v = Some (s1, fields s f = None)" "inv s1" "fields s1 = (fields s)(f \<mapsto> v)"
    by auto
  have c: "int (card (dom (fields s1))) =
      int (card (dom (fields s))) + (if fields s f = None then 1 else 0)"
    using finite_fields[OF Cons.prems(1)] by (auto simp: 1(3) card_insert_if domIff)
  let ?n = "if fields s f = None then n + 1 else n"
  obtain s2 where 2: "foldCount (\<lambda>s (f, v). store s f v) (s1, ?n) ps =
      Some (s2, ?n + (int (card (dom (fields s2))) - int (card (dom (fields s1)))))"
    "inv s2" "fields s2 = fields s1 ++ map_of (rev ps)"
    using Cons.IH[OF 1(2), of ?n] Cons.prems by auto
  have "?n + (int (card (dom (fields s2))) - int (card (dom (fields s1)))) =
      n + (int (card (dom (fields s2))) - int (card (dom (fields s))))"
    by (simp add: c)
  moreover have "fields s2 = fields s ++ map_of (rev (p # ps))"
    by (simp add: 2(3) 1(3) p fun_eq_iff map_add_def split: option.splits)
  ultimately show ?case
    using 1(1) 2(1,2) p by simp
qed simp

text \<open>The loop of \<open>HDEL\<close>.\<close>

lemma del_all:
  assumes "inv s"
  shows "\<exists>s'. foldCount del (s, n) fs =
      Some (s', n + (int (card (dom (fields s))) - int (card (dom (fields s')))))
    \<and> inv s' \<and> fields s' = fields s |` (- set fs)"
  using assms
proof (induction fs arbitrary: s n)
  case (Cons f fs)
  from Cons.prems del[of s f] obtain s1 where
    1: "del s f = Some (s1, fields s f \<noteq> None)" "inv s1" "fields s1 = (fields s)(f := None)"
    by auto
  have c: "int (card (dom (fields s))) =
      int (card (dom (fields s1))) + (if fields s f \<noteq> None then 1 else 0)"
    using finite_fields[OF Cons.prems(1)] card_Suc_Diff1[of "dom (fields s)" f]
    by (auto simp: 1(3) domIff dom_def[symmetric] simp flip: fun_upd_def)
  let ?n = "if fields s f \<noteq> None then n + 1 else n"
  obtain s2 where 2: "foldCount del (s1, ?n) fs =
      Some (s2, ?n + (int (card (dom (fields s1))) - int (card (dom (fields s2)))))"
    "inv s2" "fields s2 = fields s1 |` (- set fs)"
    using Cons.IH[OF 1(2), of ?n] by auto
  have "?n + (int (card (dom (fields s1))) - int (card (dom (fields s2)))) =
      n + (int (card (dom (fields s))) - int (card (dom (fields s2))))"
    by (simp add: c)
  moreover have "fields s2 = fields s |` (- set (f # fs))"
    by (auto simp: 2(3) 1(3) fun_eq_iff restrict_map_def)
  ultimately show ?case
    using 1(1) 2(1,2) by simp
qed (simp add: restrict_map_def)

end

section \<open>The Go map implements the contract\<close>

interpretation gm: field_map gomap_ok map_of
  "\<lambda>m f. Some (map_of m f)"
  "\<lambda>m f v. Some (AList.update f v m, map_of m f = None)"
  "\<lambda>m f. Some (AList.delete f m, map_of m f \<noteq> None)"
  "\<lambda>pick m. Some (flat (range_map pick m))"
  "\<lambda>m. int (length m)"
proof
  fix m :: "(bytes, bytes) gomap" and pick
  assume ok: "gomap_ok m"
  then show "\<exists>ps. Some (flat (range_map pick m)) = Some (flat ps) \<and> distinct (map fst ps) \<and> map_of ps = map_of m"
    using gomap_ok_range_map[OF ok, of pick] map_of_range_map[OF ok, of pick]
    by (auto simp: gomap_ok_def)
qed (auto simp: gomap_length_card finite_dom_map_of)

section \<open>The compact hash implements the contract\<close>

lemma flat_simps [simp]:
  "flat [] = []" "flat ((f, v) # ps) = f # v # flat ps" "flat (ps @ qs) = flat ps @ flat qs"
  by (simp_all add: flat_def)

lemma set_flat: "set (flat ps) = fst ` set ps \<union> snd ` set ps"
  by (force simp: flat_def)

lemma length_flat [simp]: "length (flat ps) = 2 * length ps"
  by (induction ps) auto

lemma scanPairs_each:
  assumes "\<forall>e \<in> set (flat ps). slice_ok e"
  shows "scanPairs fn (pack_of (flat ps)) s = Some (each (\<lambda>(f, v). fn f v) ps s)"
proof -
  let ?g = "\<lambda>e (field, haveField, s).
      if \<not> haveField then ((e, True, s), True)
      else (case fn field e s of (s', cont) \<Rightarrow> ((field, False, s'), cont))"
  have "snd (snd (each ?g (flat ps) (x, False, s))) = each (\<lambda>(f, v). fn f v) ps s" for x
    by (induction ps arbitrary: x s) (auto split: prod.splits)
  then show ?thesis
    using assms by (simp add: scanPairs_def packEach_pack_of)
qed

definition hash_rep :: "mcHash \<Rightarrow> (bytes \<times> bytes) list \<Rightarrow> bool" where
  "hash_rep h ps \<longleftrightarrow>
     (\<forall>e \<in> set (flat ps). slice_ok e) \<and> distinct (map fst ps)
     \<and> (case h_full h of
          None \<Rightarrow> h_pack h = pack_of (flat ps) \<and> h_count h = int (length ps)
            \<and> fits (h_max h) (flat ps) (length ps)
        | Some m \<Rightarrow> h_pack h = [] \<and> h_count h = 0 \<and> m = ps)"

definition hash_inv :: "mcHash \<Rightarrow> bool" where
  "hash_inv h \<longleftrightarrow> (\<exists>ps. hash_rep h ps)"

text \<open>The fields, read off the representation.\<close>

fun unflat :: "bytes list \<Rightarrow> (bytes \<times> bytes) list" where
  "unflat (f # v # es) = (f, v) # unflat es"
| "unflat es = []"

definition hash_fields :: "mcHash \<Rightarrow> bytes \<rightharpoonup> bytes" where
  "hash_fields h =
     map_of (case h_full h of None \<Rightarrow> unflat (unpack (h_pack h)) | Some m \<Rightarrow> m)"

lemma unflat_flat [simp]: "unflat (flat ps) = ps"
  by (induction ps) auto

lemma hash_fields_rep: "hash_rep h ps \<Longrightarrow> hash_fields h = map_of ps"
  by (auto simp: hash_rep_def hash_fields_def split: option.splits)

lemma hash_rep_New: "hash_rep (NewHash mx) []"
  by (simp add: hash_rep_def NewHash_def fits_def)

lemma hash_inv_New [simp]: "hash_inv (NewHash mx)" "hash_fields (NewHash mx) = Map.empty"
  using hash_rep_New[of mx] hash_fields_rep[OF hash_rep_New] by (auto simp: hash_inv_def)

lemma Hash_Get_rep: "hash_rep h ps \<Longrightarrow> Hash_Get h field = Some (map_of ps field)"
proof -
  assume rep: "hash_rep h ps"
  have "each (\<lambda>(f, v) out. if f = field then (Some v, False) else (out, True)) ps None = map_of ps field"
    by (induction ps) auto
  with rep show ?thesis
    by (auto simp: Hash_Get_def hash_rep_def scanPairs_each case_prod_unfold split: option.splits)
qed

lemma each_pack_map:
  "each (\<lambda>(f, v) (b, buf).
       let buf1 = packAppend buf f
       in if f = field then ((True, packAppend buf1 val), True)
          else ((b, packAppend buf1 v), True)) ps (b, pack_of acc) =
   (b \<or> field \<in> fst ` set ps,
    pack_of (acc @ flat (map (\<lambda>(f, v). (f, if f = field then val else v)) ps)))"
proof (induction ps arbitrary: b acc)
  case (Cons p ps)
  obtain f v where "p = (f, v)" by (cases p)
  with Cons.IH[of True "acc @ [f, val]"] Cons.IH[of b "acc @ [f, v]"] show ?case
    by (auto simp del: pack_of_simps)
qed simp

lemma each_pack_filter:
  "each (\<lambda>(f, v) (b, buf).
       if f = field then ((True, buf), True)
       else ((b, packAppend (packAppend buf f) v), True)) ps (b, pack_of acc) =
   (b \<or> field \<in> fst ` set ps, pack_of (acc @ flat (filter (\<lambda>(f, v). f \<noteq> field) ps)))"
proof (induction ps arbitrary: b acc)
  case (Cons p ps)
  obtain f v where "p = (f, v)" by (cases p)
  with Cons.IH[of True acc] Cons.IH[of b "acc @ [f, v]"] show ?case
    by (auto simp del: pack_of_simps)
qed simp

lemma map_of_map_upd:
  "map_of (map (\<lambda>(f, v). (f, if f = field then val else v)) ps) =
   (if field \<in> fst ` set ps then (map_of ps)(field \<mapsto> val) else map_of ps)"
  by (induction ps) (auto simp: fun_eq_iff)

lemma map_of_filter_ne:
  "map_of (filter (\<lambda>(f, v). f \<noteq> field) ps) = (map_of ps)(field := None)"
  by (induction ps) (auto simp: fun_eq_iff)

lemma Hash_promote_rep:
  assumes "h_full h = None" "h_pack h = pack_of (flat ps)" "\<forall>e \<in> set (flat ps). slice_ok e"
    "distinct (map fst ps)"
  shows "\<exists>h'. Hash_promote h = Some h' \<and> hash_rep h' ps"
proof -
  have "each (\<lambda>(f, v) m. (AList.update f v m, True)) ps acc = acc @ ps"
    if "distinct (map fst (acc @ ps))" for acc
    using assms(4) that
  proof (induction ps arbitrary: acc)
    case (Cons p ps)
    obtain f v where p: "p = (f, v)" by (cases p)
    have "AList.update f v acc = acc @ [p]"
      using Cons.prems(2) p by (auto simp: update_absent)
    with Cons p show ?case by simp
  qed simp
  from this[of "[]"] assms show ?thesis
    by (auto simp: Hash_promote_def scanPairs_each hash_rep_def)
qed

lemma Hash_promoteIfNeeded_rep:
  assumes "h_full h = None" "h_pack h = pack_of (flat ps)" "h_count h = int (length ps)"
    "\<forall>e \<in> set (flat ps). slice_ok e" "distinct (map fst ps)"
    "fits (h_max h) (flat qs) (length qs)" "set (flat ps) \<subseteq> {f, v} \<union> set (flat qs)"
  shows "\<exists>h'. Hash_promoteIfNeeded h (int (length f)) (int (length v)) = Some h' \<and> hash_rep h' ps"
proof (cases "exceeded (h_max h) (h_count h)
    (if int (length v) > int (length f) then int (length v) else int (length f))")
  case True
  with Hash_promote_rep[OF assms(1,2,4,5)] show ?thesis
    by (auto simp: Hash_promoteIfNeeded_def)
next
  case False
  then have "fits (h_max h) (flat ps) (length ps)"
    using assms(3,6,7) by (fastforce simp: fits_def exceeded_def split: if_splits)
  with False assms show ?thesis
    by (auto simp: Hash_promoteIfNeeded_def hash_rep_def)
qed

lemma Hash_Set_rep:
  assumes "hash_rep h ps" "slice_ok f" "slice_ok v"
  shows "\<exists>h' ps'. Hash_Set h f v = Some (h', map_of ps f = None) \<and> hash_rep h' ps'
    \<and> map_of ps' = (map_of ps)(f \<mapsto> v)"
proof (cases "h_full h")
  case (Some m)
  have "set (flat (AList.update f v ps)) \<subseteq> {f, v} \<union> set (flat ps)"
    using set_update_subset[of f v ps] by (force simp: set_flat)
  with Some assms show ?thesis
    by (intro exI[of _ "AList.update f v ps"] exI conjI)
       (auto simp: Hash_Set_def hash_rep_def distinct_update)
next
  case None
  let ?m = "map (\<lambda>(g, w). (g, if g = f then v else w)) ps"
  let ?ps = "if map_of ps f = None then ps @ [(f, v)] else ?m"
  have ok: "\<forall>e \<in> set (flat ps). slice_ok e" and d: "distinct (map fst ps)"
    and p: "h_pack h = pack_of (flat ps)"
    using assms(1) None by (auto simp: hash_rep_def)
  have id: "map_of ps f = None \<Longrightarrow> ?m = ps"
    by (auto simp: map_of_eq_None_notin image_iff intro!: map_idI)
  have "set (flat ?m) \<subseteq> {f, v} \<union> set (flat ps)"
    by (force simp: set_flat split: if_splits)
  then have sub: "set (flat ?ps) \<subseteq> {f, v} \<union> set (flat ps)"
    by auto
  have scan: "scanPairs (\<lambda>g w (b, buf).
        let buf1 = packAppend buf g
        in if g = f then ((True, packAppend buf1 v), True) else ((b, packAppend buf1 w), True))
      (h_pack h) (False, []) = Some (map_of ps f \<noteq> None, pack_of (flat ?m))"
    using each_pack_map[of f v ps False "[]"] ok
    by (simp add: p scanPairs_each map_of_eq_None_notin)
  define h1 where "h1 = h\<lparr>h_count := int (length ?ps), h_pack := pack_of (flat ?ps)\<rparr>"
  have h1: "(if map_of ps f = None
      then h\<lparr>h_count := h_count h + 1, h_pack := packAppend (packAppend (pack_of (flat ?m)) f) v\<rparr>
      else h\<lparr>h_pack := pack_of (flat ?m)\<rparr>) = h1"
    using assms(1) None id by (auto simp: h1_def hash_rep_def simp del: pack_of_simps)
  have "\<forall>e \<in> set (flat ?ps). slice_ok e"
    using sub ok assms(2,3) by blast
  moreover have "distinct (map fst ?ps)"
    using d by (simp add: map_of_eq_None_notin comp_def case_prod_unfold)
  ultimately obtain h' where
    h': "Hash_promoteIfNeeded h1 (int (length f)) (int (length v)) = Some h'" "hash_rep h' ?ps"
    using Hash_promoteIfNeeded_rep[of h1 ?ps ps f v] assms(1) None sub
    by (auto simp: h1_def hash_rep_def simp del: pack_of_simps split del: if_split)
  have "Hash_Set h f v = Some (h', map_of ps f = None)"
    using None scan h1 h'(1) by (simp add: Hash_Set_def)
  moreover have "map_of ?ps = (map_of ps)(f \<mapsto> v)"
    using map_of_eq_None_notin[of ps f]
    by (cases "map_of ps f = None") (auto simp: map_of_map_upd map_of_snoc_absent simp del: map_of_append)
  ultimately show ?thesis using h'(2) by blast
qed

lemma Hash_Delete_rep:
  assumes "hash_rep h ps"
  shows "\<exists>h' ps'. Hash_Delete h f = Some (h', map_of ps f \<noteq> None) \<and> hash_rep h' ps'
    \<and> map_of ps' = (map_of ps)(f := None)"
proof (cases "h_full h")
  case (Some m)
  have "set (flat (AList.delete f ps)) \<subseteq> set (flat ps)"
    using set_delete_subset[of f ps] by (force simp: set_flat)
  with Some assms show ?thesis
    by (intro exI[of _ "h\<lparr>h_full := Some (AList.delete f ps)\<rparr>"] exI[of _ "AList.delete f ps"])
       (auto simp: Hash_Delete_def hash_rep_def distinct_delete)
next
  case None
  let ?ps = "filter (\<lambda>(g, w). g \<noteq> f) ps"
  have ok: "\<forall>e \<in> set (flat ps). slice_ok e" and d: "distinct (map fst ps)"
    and p: "h_pack h = pack_of (flat ps)"
    using assms None by (auto simp: hash_rep_def)
  have scan: "scanPairs (\<lambda>g w (b, buf).
        if g = f then ((True, buf), True) else ((b, packAppend (packAppend buf g) w), True))
      (h_pack h) (False, []) = Some (map_of ps f \<noteq> None, pack_of (flat ?ps))"
    using each_pack_filter[of f ps False "[]"] ok
    by (simp add: p scanPairs_each map_of_eq_None_notin)
  have sub: "set (flat ?ps) \<subseteq> set (flat ps)" by (force simp: set_flat)
  have len: "map_of ps f \<noteq> None \<Longrightarrow> int (length ?ps) = int (length ps) - 1"
    using length_filter_key[OF d, of f] by (simp add: map_of_eq_None_notin)
  show ?thesis
  proof (cases "map_of ps f")
    case None
    with \<open>h_full h = None\<close> scan assms show ?thesis
      by (intro exI[of _ h] exI[of _ ps]) (simp add: Hash_Delete_def fun_upd_idem)
  next
    case (Some v)
    let ?h = "h\<lparr>h_pack := pack_of (flat ?ps), h_count := int (length ?ps)\<rparr>"
    have "Hash_Delete h f = Some (?h, True)"
      using Some \<open>h_full h = None\<close> scan len assms by (simp add: Hash_Delete_def hash_rep_def)
    moreover have "hash_rep ?h ?ps"
      using assms \<open>h_full h = None\<close> sub
      by (auto simp: hash_rep_def distinct_map_filter elim!: fits_mono)
    ultimately show ?thesis
      using Some by (intro exI[of _ ?h] exI[of _ ?ps]) (simp add: map_of_filter_ne)
  qed
qed

lemma Hash_Pairs_rep:
  assumes "hash_rep h ps"
  shows "\<exists>qs. Hash_Pairs pick h = Some (flat qs) \<and> distinct (map fst qs) \<and> map_of qs = map_of ps"
proof (cases "h_full h")
  case None
  have "each (\<lambda>(f, v) out. (out @ [f, v], True)) ps acc = acc @ flat ps" for acc
    by (induction ps arbitrary: acc) auto
  with None assms show ?thesis
    by (intro exI[of _ ps]) (auto simp: Hash_Pairs_def hash_rep_def scanPairs_each case_prod_unfold)
next
  case (Some m)
  with assms show ?thesis
    using gm.pairs[of ps pick] by (auto simp: Hash_Pairs_def hash_rep_def gomap_ok_def)
qed

lemma Hash_Len_rep: "hash_rep h ps \<Longrightarrow> Hash_Len h = int (length ps)"
  by (auto simp: Hash_Len_def hash_rep_def split: option.splits)

interpretation hs: field_map hash_inv hash_fields Hash_Get Hash_Set Hash_Delete Hash_Pairs Hash_Len
proof
  fix h :: mcHash and f v :: bytes and pick
  assume "hash_inv h"
  then obtain ps where rep: "hash_rep h ps" by (auto simp: hash_inv_def)
  then have d: "distinct (map fst ps)" by (simp add: hash_rep_def)
  note F = hash_fields_rep[OF rep]
  show "Hash_Get h f = Some (hash_fields h f)"
    using Hash_Get_rep[OF rep] F by simp
  show "\<exists>h'. Hash_Set h f v = Some (h', hash_fields h f = None) \<and> hash_inv h'
      \<and> hash_fields h' = (hash_fields h)(f \<mapsto> v)" if "slice_ok f" "slice_ok v"
    using Hash_Set_rep[OF rep that] hash_fields_rep F unfolding hash_inv_def by metis
  show "\<exists>h'. Hash_Delete h f = Some (h', hash_fields h f \<noteq> None) \<and> hash_inv h'
      \<and> hash_fields h' = (hash_fields h)(f := None)"
    using Hash_Delete_rep[OF rep] hash_fields_rep F unfolding hash_inv_def by metis
  show "\<exists>ps. Hash_Pairs pick h = Some (flat ps) \<and> distinct (map fst ps) \<and> map_of ps = hash_fields h"
    using Hash_Pairs_rep[OF rep] F by simp
  show "Hash_Len h = int (card (dom (hash_fields h)))"
    using Hash_Len_rep[OF rep] gomap_length_card[of ps] d F by (simp add: gomap_ok_def)
  show "finite (dom (hash_fields h))"
    using F by (simp add: finite_dom_map_of)
qed

end
