(* ===== verification/SetValue.thy ===== *)
theory SetValue
  imports Pack
begin

text \<open>
  The set type of \<open>internal/value/set.go\<close>: a pack of distinct members that turns into a Go
  map from member to empty struct once it crosses its thresholds. The locale \<open>member_set\<close>
  is what the set commands and the codec rely on; it is interpreted on the Go map behind
  \<open>fullSet\<close> and on the whole type.
\<close>

section \<open>The promoted representation (fullSet)\<close>

type_synonym fullSet = "(bytes, unit) gomap"

definition fullSet_add :: "fullSet \<Rightarrow> bytes \<Rightarrow> fullSet \<times> bool" where
  "fullSet_add s member =
     (if map_of s member \<noteq> None then (s, False) else (AList.update member () s, True))"

definition fullSet_remove :: "fullSet \<Rightarrow> bytes \<Rightarrow> fullSet \<times> bool" where
  "fullSet_remove s member =
     (if map_of s member = None then (s, False) else (AList.delete member s, True))"

definition fullSet_contains :: "fullSet \<Rightarrow> bytes \<Rightarrow> bool" where
  "fullSet_contains s member \<longleftrightarrow> map_of s member \<noteq> None"

definition fullSet_all :: "(bytes list \<Rightarrow> bytes list) \<Rightarrow> fullSet \<Rightarrow> bytes list" where
  "fullSet_all pick s = map fst (range_map pick s)"

section \<open>The set type\<close>

record mcSet =
  s_pack :: bytes
  s_count :: int
  s_full :: "fullSet option"
  s_max :: Thresholds

definition NewSet :: "Thresholds \<Rightarrow> mcSet" where
  "NewSet mx = \<lparr>s_pack = [], s_count = 0, s_full = None, s_max = mx\<rparr>"

definition Set_Compact :: "mcSet \<Rightarrow> bool" where
  "Set_Compact s \<longleftrightarrow> s_full s = None"

definition Set_Len :: "mcSet \<Rightarrow> int" where
  "Set_Len s = (case s_full s of Some m \<Rightarrow> int (length m) | None \<Rightarrow> s_count s)"

definition Set_scanContains :: "mcSet \<Rightarrow> bytes \<Rightarrow> bool option" where
  "Set_scanContains s member =
     packEach (\<lambda>e found. if e = member then (True, False) else (found, True)) (s_pack s) False"

definition Set_promote :: "mcSet \<Rightarrow> mcSet option" where
  "Set_promote s =
     Option.bind (packEach (\<lambda>e m. (AList.update e () m, True)) (s_pack s) [])
       (\<lambda>m. Some (s\<lparr>s_full := Some m, s_pack := [], s_count := 0\<rparr>))"

definition Set_Add :: "mcSet \<Rightarrow> bytes \<Rightarrow> (mcSet \<times> bool) option" where
  "Set_Add s member =
     (case s_full s of
        Some m \<Rightarrow> (case fullSet_add m member of (m', b) \<Rightarrow> Some (s\<lparr>s_full := Some m'\<rparr>, b))
      | None \<Rightarrow> do {
          present \<leftarrow> Set_scanContains s member;
          if present then Some (s, False)
          else do {
            let s1 = s\<lparr>s_pack := packAppend (s_pack s) member, s_count := s_count s + 1\<rparr>;
            s2 \<leftarrow> (if exceeded (s_max s1) (s_count s1) (int (length member))
                   then Set_promote s1 else Some s1);
            Some (s2, True) } })"

definition Set_Remove :: "mcSet \<Rightarrow> bytes \<Rightarrow> (mcSet \<times> bool) option" where
  "Set_Remove s member =
     (case s_full s of
        Some m \<Rightarrow> (case fullSet_remove m member of (m', b) \<Rightarrow> Some (s\<lparr>s_full := Some m'\<rparr>, b))
      | None \<Rightarrow> do {
          (found, rebuilt) \<leftarrow>
            packEach
              (\<lambda>e (found, rebuilt).
                 if e = member then ((True, rebuilt), True)
                 else ((found, packAppend rebuilt e), True))
              (s_pack s) (False, []);
          if \<not> found then Some (s, False)
          else Some (s\<lparr>s_pack := rebuilt, s_count := s_count s - 1\<rparr>, True) })"

definition Set_Contains :: "mcSet \<Rightarrow> bytes \<Rightarrow> bool option" where
  "Set_Contains s member =
     (case s_full s of
        Some m \<Rightarrow> Some (fullSet_contains m member)
      | None \<Rightarrow> Set_scanContains s member)"

definition Set_Members :: "(bytes list \<Rightarrow> bytes list) \<Rightarrow> mcSet \<Rightarrow> bytes list option" where
  "Set_Members pick s =
     (case s_full s of
        Some m \<Rightarrow> Some (fullSet_all pick m)
      | None \<Rightarrow> packEach (\<lambda>e out. (out @ [e], True)) (s_pack s) [])"

section \<open>The member-set contract\<close>

locale member_set =
  fixes inv :: "'s \<Rightarrow> bool"
    and members :: "'s \<Rightarrow> bytes set"
    and add :: "'s \<Rightarrow> bytes \<Rightarrow> ('s \<times> bool) option"
    and remove :: "'s \<Rightarrow> bytes \<Rightarrow> ('s \<times> bool) option"
    and contains :: "'s \<Rightarrow> bytes \<Rightarrow> bool option"
    and all :: "(bytes list \<Rightarrow> bytes list) \<Rightarrow> 's \<Rightarrow> bytes list option"
    and len :: "'s \<Rightarrow> int"
  assumes add: "inv s \<Longrightarrow> slice_ok m \<Longrightarrow>
      \<exists>s'. add s m = Some (s', m \<notin> members s) \<and> inv s' \<and> members s' = insert m (members s)"
    and remove: "inv s \<Longrightarrow>
      \<exists>s'. remove s m = Some (s', m \<in> members s) \<and> inv s' \<and> members s' = members s - {m}"
    and contains: "inv s \<Longrightarrow> contains s m = Some (m \<in> members s)"
    and all: "inv s \<Longrightarrow> \<exists>ms. all pick s = Some ms \<and> distinct ms \<and> set ms = members s"
    and len: "inv s \<Longrightarrow> len s = int (card (members s))"
    and finite_members: "inv s \<Longrightarrow> finite (members s)"
begin

lemma len_zero: "inv s \<Longrightarrow> len s = 0 \<longleftrightarrow> members s = {}"
  using finite_members[of s] by (auto simp: len)

text \<open>The loops of \<open>SADD\<close> and \<open>SREM\<close>: the count is the change in size.\<close>

lemma add_all:
  assumes "inv s" "\<forall>m \<in> set ms. slice_ok m"
  shows "\<exists>s'. foldCount add (s, n) ms =
      Some (s', n + (int (card (members s')) - int (card (members s))))
    \<and> inv s' \<and> members s' = members s \<union> set ms"
  using assms
proof (induction ms arbitrary: s n)
  case (Cons m ms)
  from Cons.prems add[of s m] obtain s1 where
    1: "add s m = Some (s1, m \<notin> members s)" "inv s1" "members s1 = insert m (members s)"
    by auto
  have c: "int (card (members s1)) = int (card (members s)) + (if m \<notin> members s then 1 else 0)"
    using finite_members[OF Cons.prems(1)] by (auto simp: 1(3) card_insert_if)
  let ?n = "if m \<notin> members s then n + 1 else n"
  obtain s2 where 2: "foldCount add (s1, ?n) ms =
      Some (s2, ?n + (int (card (members s2)) - int (card (members s1))))"
    "inv s2" "members s2 = members s1 \<union> set ms"
    using Cons.IH[OF 1(2), of ?n] Cons.prems by auto
  have "?n + (int (card (members s2)) - int (card (members s1))) =
      n + (int (card (members s2)) - int (card (members s)))"
    by (simp add: c)
  with 1 2 show ?case by simp
qed simp

lemma remove_all:
  assumes "inv s"
  shows "\<exists>s'. foldCount remove (s, n) ms =
      Some (s', n + (int (card (members s)) - int (card (members s'))))
    \<and> inv s' \<and> members s' = members s - set ms"
  using assms
proof (induction ms arbitrary: s n)
  case (Cons m ms)
  from Cons.prems remove[of s m] obtain s1 where
    1: "remove s m = Some (s1, m \<in> members s)" "inv s1" "members s1 = members s - {m}"
    by auto
  have c: "int (card (members s)) = int (card (members s1)) + (if m \<in> members s then 1 else 0)"
    using finite_members[OF Cons.prems(1)] card_Suc_Diff1[of "members s" m] by (auto simp: 1(3))
  let ?n = "if m \<in> members s then n + 1 else n"
  obtain s2 where 2: "foldCount remove (s1, ?n) ms =
      Some (s2, ?n + (int (card (members s1)) - int (card (members s2))))"
    "inv s2" "members s2 = members s1 - set ms"
    using Cons.IH[OF 1(2), of ?n] by auto
  have "?n + (int (card (members s1)) - int (card (members s2))) =
      n + (int (card (members s)) - int (card (members s2)))"
    by (simp add: c)
  moreover have "members s2 = members s - set (m # ms)"
    using 2(3) 1(3) by auto
  ultimately show ?case using 1(1) 2(1,2) by simp
qed simp

end

section \<open>The Go map implements the contract\<close>

interpretation fs: member_set gomap_ok "\<lambda>m. dom (map_of m)"
  "\<lambda>s m. Some (fullSet_add s m)" "\<lambda>s m. Some (fullSet_remove s m)"
  "\<lambda>s m. Some (fullSet_contains s m)" "\<lambda>pick s. Some (fullSet_all pick s)"
  "\<lambda>s. int (length s)"
proof
  fix s :: fullSet and m pick
  assume ok: "gomap_ok s"
  show "\<exists>s'. Some (fullSet_add s m) = Some (s', m \<notin> dom (map_of s)) \<and> gomap_ok s'
      \<and> dom (map_of s') = insert m (dom (map_of s))"
    using ok by (cases "map_of s m") (auto simp: fullSet_add_def)
  show "\<exists>s'. Some (fullSet_remove s m) = Some (s', m \<in> dom (map_of s)) \<and> gomap_ok s'
      \<and> dom (map_of s') = dom (map_of s) - {m}"
    using ok by (cases "map_of s m") (auto simp: fullSet_remove_def)
  show "Some (fullSet_contains s m) = Some (m \<in> dom (map_of s))"
    by (auto simp: fullSet_contains_def)
  show "\<exists>ms. Some (fullSet_all pick s) = Some ms \<and> distinct ms \<and> set ms = dom (map_of s)"
    using ok by (auto simp: fullSet_all_def gomap_ok_def dom_map_of_conv_image_fst)
  show "int (length s) = int (card (dom (map_of s)))"
    using ok by (simp add: gomap_length_card)
  show "finite (dom (map_of s))" by (rule finite_dom_map_of)
qed

section \<open>The set type implements the contract\<close>

definition set_rep :: "mcSet \<Rightarrow> bytes list \<Rightarrow> bool" where
  "set_rep s xs \<longleftrightarrow>
     (\<forall>x \<in> set xs. slice_ok x) \<and> distinct xs
     \<and> (case s_full s of
          None \<Rightarrow> s_pack s = pack_of xs \<and> s_count s = int (length xs) \<and> fits (s_max s) xs (length xs)
        | Some m \<Rightarrow> s_pack s = [] \<and> s_count s = 0 \<and> map fst m = xs)"

definition set_inv :: "mcSet \<Rightarrow> bool" where
  "set_inv s \<longleftrightarrow> (\<exists>xs. set_rep s xs)"

definition set_members :: "mcSet \<Rightarrow> bytes set" where
  "set_members s = set (case s_full s of None \<Rightarrow> unpack (s_pack s) | Some m \<Rightarrow> map fst m)"

lemma set_members_rep: "set_rep s xs \<Longrightarrow> set_members s = set xs"
  by (auto simp: set_rep_def set_members_def simp flip: set_map split: option.splits)

lemma set_rep_New: "set_rep (NewSet mx) []"
  by (simp add: set_rep_def NewSet_def fits_def)

lemma set_inv_New [simp]: "set_inv (NewSet mx)" "set_members (NewSet mx) = {}"
  using set_rep_New[of mx] set_members_rep[OF set_rep_New] by (auto simp: set_inv_def)

lemma Set_scanContains_rep:
  "set_rep s xs \<Longrightarrow> s_full s = None \<Longrightarrow> Set_scanContains s m = Some (m \<in> set xs)"
  by (auto simp: Set_scanContains_def set_rep_def packEach_pack_of each_find)

lemma Set_promote_rep:
  assumes "s_full s = None" "s_pack s = pack_of xs" "\<forall>x \<in> set xs. slice_ok x" "distinct xs"
  shows "\<exists>s'. Set_promote s = Some s' \<and> set_rep s' xs"
proof -
  have "map fst (each (\<lambda>e m. (AList.update e () m, True)) xs acc) = map fst acc @ xs"
    if "distinct (map fst acc @ xs)" for acc :: fullSet
    using that
  proof (induction xs arbitrary: acc)
    case (Cons x xs)
    then have "AList.update x () acc = acc @ [(x, ())]" by (auto intro: update_absent)
    with Cons show ?case by simp
  qed simp
  from this[of "[]"] assms show ?thesis
    by (auto simp: Set_promote_def packEach_pack_of set_rep_def)
qed

lemma Set_Add_rep:
  assumes "set_rep s xs" "slice_ok m"
  shows "\<exists>s'. Set_Add s m = Some (s', m \<notin> set xs) \<and> set_rep s' (if m \<in> set xs then xs else xs @ [m])"
proof (cases "s_full s")
  case (Some f)
  have "map_of f m = None \<longleftrightarrow> m \<notin> set xs"
    using assms(1) Some by (auto simp: set_rep_def map_of_eq_None_notin simp flip: set_map)
  with Some assms show ?thesis
    by (auto simp: Set_Add_def fullSet_add_def set_rep_def update_absent map_of_eq_None_notin)
next
  case None
  note scan = Set_scanContains_rep[OF assms(1) None]
  show ?thesis
  proof (cases "m \<in> set xs")
    case True
    with None scan assms(1) show ?thesis by (simp add: Set_Add_def)
  next
    case False
    let ?s = "s\<lparr>s_pack := packAppend (s_pack s) m, s_count := s_count s + 1\<rparr>"
    have *: "s_full ?s = None" "s_pack ?s = pack_of (xs @ [m])" "\<forall>x \<in> set (xs @ [m]). slice_ok x"
      "distinct (xs @ [m])"
      using assms None False by (auto simp: set_rep_def)
    show ?thesis
    proof (cases "exceeded (s_max ?s) (s_count ?s) (int (length m))")
      case True
      with None scan False Set_promote_rep[OF *] show ?thesis by (auto simp: Set_Add_def)
    next
      case ne: False
      then have "set_rep ?s (xs @ [m])"
        using assms None False by (auto simp: set_rep_def fits_def exceeded_def)
      with None scan False ne show ?thesis by (auto simp: Set_Add_def)
    qed
  qed
qed

lemma each_pack_remove:
  "each (\<lambda>e (found, buf).
       if e = m then ((True, buf), True) else ((found, packAppend buf e), True))
     xs (b, pack_of acc) = (b \<or> m \<in> set xs, pack_of (acc @ filter (\<lambda>x. x \<noteq> m) xs))"
proof (induction xs arbitrary: b acc)
  case (Cons x xs)
  from Cons.IH[of True acc] Cons.IH[of b "acc @ [x]"] show ?case
    by (auto simp del: pack_of_simps)
qed simp

lemma length_filter_distinct:
  "distinct xs \<Longrightarrow> m \<in> set xs \<Longrightarrow> int (length (filter (\<lambda>x. x \<noteq> m) xs)) = int (length xs) - 1"
  using length_filter_key[of "map (\<lambda>x. (x, ())) xs" m]
  by (auto simp: comp_def filter_map image_iff)

lemma Set_Remove_rep:
  assumes "set_rep s xs"
  shows "\<exists>s'. Set_Remove s m = Some (s', m \<in> set xs) \<and> set_rep s' (filter (\<lambda>x. x \<noteq> m) xs)"
proof (cases "s_full s")
  case (Some f)
  have e: "map_of f m = None \<longleftrightarrow> m \<notin> set xs"
    using assms Some by (auto simp: set_rep_def map_of_eq_None_notin simp flip: set_map)
  have d: "map fst (AList.delete m f) = filter (\<lambda>x. x \<noteq> m) (map fst f)"
    by (induction f) auto
  have "m \<notin> set xs \<Longrightarrow> filter (\<lambda>x. x \<noteq> m) xs = xs"
    by (auto simp: filter_id_conv)
  with Some assms e d show ?thesis
    by (auto simp: Set_Remove_def fullSet_remove_def set_rep_def)
next
  case None
  have "m \<notin> set xs \<Longrightarrow> filter (\<lambda>x. x \<noteq> m) xs = xs"
    by (auto simp: filter_id_conv)
  with None assms show ?thesis
    using each_pack_remove[of m xs False "[]"] length_filter_distinct[of xs m]
    by (cases "m \<in> set xs")
       (auto simp: Set_Remove_def set_rep_def packEach_pack_of elim!: fits_mono)
qed

lemma Set_Members_rep:
  assumes "set_rep s xs"
  shows "\<exists>ms. Set_Members pick s = Some ms \<and> distinct ms \<and> set ms = set xs"
  using assms each_collect[where f = "\<lambda>e. e" and xs = xs and s = "[]"]
  by (auto simp: Set_Members_def set_rep_def fullSet_all_def packEach_pack_of
      simp flip: set_map split: option.splits)

lemma Set_Len_rep: "set_rep s xs \<Longrightarrow> Set_Len s = int (length xs)"
  by (auto simp: Set_Len_def set_rep_def split: option.splits)

lemma Set_Contains_rep: "set_rep s xs \<Longrightarrow> Set_Contains s m = Some (m \<in> set xs)"
  by (cases "s_full s")
     (auto simp: Set_Contains_def Set_scanContains_rep set_rep_def fullSet_contains_def
       map_of_eq_None_notin simp flip: set_map)

interpretation st: member_set set_inv set_members Set_Add Set_Remove Set_Contains Set_Members Set_Len
proof
  fix s :: mcSet and m pick
  assume "set_inv s"
  then obtain xs where rep: "set_rep s xs" by (auto simp: set_inv_def)
  then have d: "distinct xs" by (simp add: set_rep_def)
  note M = set_members_rep[OF rep]
  have I: "set_rep s' ys \<Longrightarrow> set_inv s' \<and> set_members s' = set ys" for s' ys
    by (auto simp: set_inv_def set_members_rep)
  show "\<exists>s'. Set_Add s m = Some (s', m \<notin> set_members s) \<and> set_inv s'
      \<and> set_members s' = insert m (set_members s)" if "slice_ok m"
    using Set_Add_rep[OF rep that] M by (cases "m \<in> set xs") (auto dest!: I)
  show "\<exists>s'. Set_Remove s m = Some (s', m \<in> set_members s) \<and> set_inv s'
      \<and> set_members s' = set_members s - {m}"
    using Set_Remove_rep[OF rep, of m] M by (auto dest!: I)
  show "Set_Contains s m = Some (m \<in> set_members s)"
    using Set_Contains_rep[OF rep] M by simp
  show "\<exists>ms. Set_Members pick s = Some ms \<and> distinct ms \<and> set ms = set_members s"
    using Set_Members_rep[OF rep] M by simp
  show "Set_Len s = int (card (set_members s))"
    using Set_Len_rep[OF rep] M d by (simp add: distinct_card)
  show "finite (set_members s)" using M by simp
qed

end
