(* ===== verification/SkipList.thy ===== *)
theory SkipList
  imports Pack "HOL-Library.Product_Lexorder"
begin

text \<open>
  The skip list of \<open>internal/value/zset.go\<close>, the ordering index of a promoted sorted set,
  modelled with its pointers: the nodes live in an arena indexed by address, the head is
  address 0, \<open>None\<close> is \<open>nil\<close>, and an unlinked node stays behind as garbage. The random
  levels come from a tape of draws the list carries; every tape is covered. The locale
  \<open>ordered_index\<close> is what \<open>fullZSet\<close> relies on.
\<close>

section \<open>The order\<close>

definition zskipLess :: "float64 \<Rightarrow> bytes \<Rightarrow> float64 \<Rightarrow> bytes \<Rightarrow> bool" where
  "zskipLess s1 m1 s2 m2 = (if \<not> f64_eq s1 s2 then f64_lt s1 s2 else m1 < m2)"

text \<open>The key a member sorts by; without NaN, \<open>zskipLess\<close> is the order of the keys.\<close>

definition zkey :: "bytes \<times> float64 \<Rightarrow> int \<times> bytes" where
  "zkey e = (f64_key (snd e), fst e)"

lemma zskipLess_zkey:
  "\<not> f64_isNaN s1 \<Longrightarrow> \<not> f64_isNaN s2 \<Longrightarrow> zskipLess s1 m1 s2 m2 \<longleftrightarrow> zkey (m1, s1) < zkey (m2, s2)"
  by (auto simp: zskipLess_def f64_eq_def f64_lt_def zkey_def less_prod_def)

section \<open>Nodes and the list\<close>

record zskipNode =
  zn_member :: bytes
  zn_score :: float64
  zn_next :: "nat option list"

record zskiplist =
  sl_nodes :: "zskipNode list"
  sl_level :: nat
  sl_length :: int
  sl_rand :: "nat \<Rightarrow> bool" \<comment> \<open>outcomes of the coming \<open>rand.Float64() < zskipP\<close>\<close>

abbreviation zskipMaxLevel :: nat where
  "zskipMaxLevel \<equiv> 32"

definition newZskiplist :: "(nat \<Rightarrow> bool) \<Rightarrow> zskiplist" where
  "newZskiplist draws =
     \<lparr>sl_nodes = [\<lparr>zn_member = [], zn_score = 0, zn_next = replicate zskipMaxLevel None\<rparr>],
      sl_level = 1, sl_length = 0, sl_rand = draws\<rparr>"

function zskipRandomLevel :: "(nat \<Rightarrow> bool) \<Rightarrow> nat \<Rightarrow> nat \<times> (nat \<Rightarrow> bool)" where
  "zskipRandomLevel draws level =
     (if level < zskipMaxLevel
      then (if draws 0 then zskipRandomLevel (\<lambda>k. draws (Suc k)) (Suc level)
            else (level, \<lambda>k. draws (Suc k)))
      else (level, draws))"
  by pat_completeness auto
termination
  by (relation "measure (\<lambda>(draws, level). zskipMaxLevel - level)") auto

declare zskipRandomLevel.simps [simp del]

definition lev :: "zskipNode list \<Rightarrow> nat \<Rightarrow> nat" where
  "lev ns a = length (zn_next (ns ! a))"

definition nxt :: "zskipNode list \<Rightarrow> nat \<Rightarrow> nat \<Rightarrow> nat option" where
  "nxt ns i a = zn_next (ns ! a) ! i"

definition set_next :: "zskipNode list \<Rightarrow> nat \<Rightarrow> nat \<Rightarrow> nat option \<Rightarrow> zskipNode list" where
  "set_next ns a i p = ns[a := (ns ! a)\<lparr>zn_next := (zn_next (ns ! a))[i := p]\<rparr>]"

text \<open>The inner loop of a search: move right on level \<open>i\<close> while the next node is smaller.
  \<open>None\<close> is an index panic.\<close>

partial_function (option) sl_walk ::
  "zskipNode list \<Rightarrow> float64 \<Rightarrow> bytes \<Rightarrow> nat \<Rightarrow> nat \<Rightarrow> nat option" where
  "sl_walk ns score member i x =
     (if i < lev ns x then
        (case nxt ns i x of
           None \<Rightarrow> Some x
         | Some y \<Rightarrow>
             if zskipLess (zn_score (ns ! y)) (zn_member (ns ! y)) score member
             then sl_walk ns score member i y else Some x)
      else None)"

text \<open>The outer loop, from level \<open>i - 1\<close> down to 0, filling \<open>update\<close>.\<close>

fun sl_search :: "zskipNode list \<Rightarrow> float64 \<Rightarrow> bytes \<Rightarrow> nat \<Rightarrow> nat \<Rightarrow> nat option list
    \<Rightarrow> (nat \<times> nat option list) option" where
  "sl_search ns score member 0 x update = Some (x, update)"
| "sl_search ns score member (Suc i) x update =
     Option.bind (sl_walk ns score member i x)
       (\<lambda>y. sl_search ns score member i y (update[i := Some y]))"

text \<open>\<open>for i := 0; i < level; i++ { node.next[i] = update[i].next[i]; update[i].next[i] = node }\<close>\<close>

fun sl_link :: "zskipNode list \<Rightarrow> nat \<Rightarrow> nat option list \<Rightarrow> nat list \<Rightarrow> zskipNode list option" where
  "sl_link ns n update [] = Some ns"
| "sl_link ns n update (i # is) =
     (case update ! i of
        None \<Rightarrow> None
      | Some u \<Rightarrow>
          if i < lev ns u
          then sl_link (set_next (set_next ns n i (nxt ns i u)) u i (Some n)) n update is
          else None)"

definition zskiplist_insert :: "zskiplist \<Rightarrow> bytes \<Rightarrow> float64 \<Rightarrow> zskiplist option" where
  "zskiplist_insert sl member score = do {
     (x, update) \<leftarrow> sl_search (sl_nodes sl) score member (sl_level sl) 0
                     (replicate zskipMaxLevel None);
     let (level, draws) = zskipRandomLevel (sl_rand sl) 1;
     let update1 = (if level > sl_level sl
                    then map (\<lambda>i. if sl_level sl \<le> i \<and> i < level then Some 0 else update ! i)
                           [0..<zskipMaxLevel]
                    else update);
     let newLevel = (if level > sl_level sl then level else sl_level sl);
     let n = length (sl_nodes sl);
     let node = \<lparr>zn_member = member, zn_score = score, zn_next = replicate level None\<rparr>;
     nodes \<leftarrow> sl_link (sl_nodes sl @ [node]) n update1 [0..<level];
     Some (sl\<lparr>sl_nodes := nodes, sl_level := newLevel, sl_length := sl_length sl + 1,
              sl_rand := draws\<rparr>) }"

fun sl_unlink :: "zskipNode list \<Rightarrow> nat \<Rightarrow> nat option list \<Rightarrow> nat list \<Rightarrow> zskipNode list option" where
  "sl_unlink ns x update [] = Some ns"
| "sl_unlink ns x update (i # is) =
     (case update ! i of
        None \<Rightarrow> None
      | Some u \<Rightarrow>
          if i < lev ns u then
            (if nxt ns i u = Some x
             then (if i < lev ns x then sl_unlink (set_next ns u i (nxt ns i x)) x update is
                   else None)
             else sl_unlink ns x update is)
          else None)"

fun sl_shrink :: "zskipNode list \<Rightarrow> nat \<Rightarrow> nat" where
  "sl_shrink ns level =
     (if level > 1 \<and> nxt ns (level - 1) 0 = None then sl_shrink ns (level - 1) else level)"

declare sl_shrink.simps [simp del]

definition zskiplist_delete :: "zskiplist \<Rightarrow> bytes \<Rightarrow> float64 \<Rightarrow> zskiplist option" where
  "zskiplist_delete sl member score = do {
     (x, update) \<leftarrow> sl_search (sl_nodes sl) score member (sl_level sl) 0
                     (replicate zskipMaxLevel None);
     (case nxt (sl_nodes sl) 0 x of
        None \<Rightarrow> Some sl
      | Some y \<Rightarrow>
          if zn_member (sl_nodes sl ! y) \<noteq> member \<or> \<not> f64_eq (zn_score (sl_nodes sl ! y)) score
          then Some sl
          else do {
            nodes \<leftarrow> sl_unlink (sl_nodes sl) y update [0..<sl_level sl];
            Some (sl\<lparr>sl_nodes := nodes, sl_level := sl_shrink nodes (sl_level sl),
                     sl_length := sl_length sl - 1\<rparr>) }) }"

text \<open>The two loops of \<open>eachInRank\<close>; both stop at \<open>nil\<close>.\<close>

fun sl_skip :: "zskipNode list \<Rightarrow> nat option \<Rightarrow> nat \<Rightarrow> nat option" where
  "sl_skip ns p 0 = p"
| "sl_skip ns None (Suc k) = None"
| "sl_skip ns (Some a) (Suc k) = sl_skip ns (nxt ns 0 a) k"

fun sl_collect :: "zskipNode list \<Rightarrow> nat option \<Rightarrow> nat \<Rightarrow> (bytes \<times> float64) list" where
  "sl_collect ns p 0 = []"
| "sl_collect ns None (Suc k) = []"
| "sl_collect ns (Some a) (Suc k) =
     (zn_member (ns ! a), zn_score (ns ! a)) # sl_collect ns (nxt ns 0 a) k"

definition zskiplist_eachInRank :: "zskiplist \<Rightarrow> int \<Rightarrow> int \<Rightarrow> (bytes \<times> float64) list" where
  "zskiplist_eachInRank sl lo hi =
     sl_collect (sl_nodes sl) (sl_skip (sl_nodes sl) (nxt (sl_nodes sl) 0 0) (nat lo))
       (nat (hi - lo + 1))"

section \<open>The ordered-index contract\<close>

text \<open>A list of members and scores in strictly ascending order, without NaN.\<close>

definition zsorted :: "(bytes \<times> float64) list \<Rightarrow> bool" where
  "zsorted es \<longleftrightarrow> sorted_wrt (<) (map zkey es) \<and> (\<forall>e \<in> set es. \<not> f64_isNaN (snd e))"

locale ordered_index =
  fixes inv :: "'s \<Rightarrow> bool"
    and entries :: "'s \<Rightarrow> (bytes \<times> float64) list"
    and ins :: "'s \<Rightarrow> bytes \<Rightarrow> float64 \<Rightarrow> 's option"
    and del :: "'s \<Rightarrow> bytes \<Rightarrow> float64 \<Rightarrow> 's option"
    and rank_range :: "'s \<Rightarrow> int \<Rightarrow> int \<Rightarrow> (bytes \<times> float64) list"
  assumes sorted: "inv s \<Longrightarrow> zsorted (entries s)"
    and ins: "inv s \<Longrightarrow> \<not> f64_isNaN sc \<Longrightarrow> zkey (m, sc) \<notin> zkey ` set (entries s) \<Longrightarrow>
      \<exists>s'. ins s m sc = Some s' \<and> inv s' \<and> set (entries s') = insert (m, sc) (set (entries s))"
    and del: "inv s \<Longrightarrow> (m, sc) \<in> set (entries s) \<Longrightarrow>
      \<exists>s'. del s m sc = Some s' \<and> inv s' \<and> set (entries s') = set (entries s) - {(m, sc)}"
    and rank_range: "inv s \<Longrightarrow> 0 \<le> lo \<Longrightarrow> lo \<le> hi \<Longrightarrow> hi < int (length (entries s)) \<Longrightarrow>
      rank_range s lo hi = take (nat (hi - lo + 1)) (drop (nat lo) (entries s))"
begin

text \<open>Changing a score is a deletion and an insertion.\<close>

lemma move:
  assumes "inv s" "(m, old) \<in> set (entries s)" "\<not> f64_isNaN sc"
    "\<forall>(m', sc') \<in> set (entries s). m' = m \<longrightarrow> sc' = old"
  shows "\<exists>s1 s2. del s m old = Some s1 \<and> ins s1 m sc = Some s2 \<and> inv s2
    \<and> set (entries s2) = insert (m, sc) (set (entries s) - {(m, old)})"
proof -
  from del[OF assms(1,2)] obtain s1 where
    1: "del s m old = Some s1" "inv s1" "set (entries s1) = set (entries s) - {(m, old)}" by auto
  have "zkey (m, sc) \<notin> zkey ` set (entries s1)"
    using assms(4) by (auto simp: 1(3) zkey_def)
  from ins[OF 1(2) assms(3) this] 1 show ?thesis by auto
qed

end

section \<open>The pointers represent a sorted list\<close>

definition ent :: "zskipNode list \<Rightarrow> nat \<Rightarrow> bytes \<times> float64" where
  "ent ns a = (zn_member (ns ! a), zn_score (ns ! a))"

text \<open>
  \<open>linked ns xs\<close>: on every level \<open>i\<close> it has, a node of \<open>xs\<close> points to the first later node
  that reaches level \<open>i\<close>.
\<close>

definition linked :: "zskipNode list \<Rightarrow> nat list \<Rightarrow> bool" where
  "linked ns xs \<longleftrightarrow>
     (\<forall>pre x post. xs = pre @ x # post \<longrightarrow>
        (\<forall>i < lev ns x. nxt ns i x = find (\<lambda>y. i < lev ns y) post))"

definition sl_rep :: "zskiplist \<Rightarrow> nat list \<Rightarrow> bool" where
  "sl_rep sl as \<longleftrightarrow>
     distinct (0 # as) \<and> (\<forall>a \<in> set (0 # as). a < length (sl_nodes sl))
     \<and> lev (sl_nodes sl) 0 = zskipMaxLevel
     \<and> (\<forall>a \<in> set as. 1 \<le> lev (sl_nodes sl) a \<and> lev (sl_nodes sl) a \<le> sl_level sl)
     \<and> linked (sl_nodes sl) (0 # as)
     \<and> zsorted (map (ent (sl_nodes sl)) as)
     \<and> 1 \<le> sl_level sl \<and> sl_level sl \<le> zskipMaxLevel
     \<and> (sl_level sl = 1 \<or> (\<exists>a \<in> set as. lev (sl_nodes sl) a = sl_level sl))
     \<and> sl_length sl = int (length as)"

definition sl_inv :: "zskiplist \<Rightarrow> bool" where
  "sl_inv sl \<longleftrightarrow> (\<exists>as. sl_rep sl as)"

text \<open>The members and scores in order, read off level 0.\<close>

definition sl_entries :: "zskiplist \<Rightarrow> (bytes \<times> float64) list" where
  "sl_entries sl =
     sl_collect (sl_nodes sl) (nxt (sl_nodes sl) 0 0) (nat (sl_length sl))"

lemma linkedD:
  "linked ns (pre @ x # post) \<Longrightarrow> i < lev ns x \<Longrightarrow> nxt ns i x = find (\<lambda>y. i < lev ns y) post"
  unfolding linked_def by blast

lemma linked_suffix: "linked ns (pre @ xs) \<Longrightarrow> linked ns xs"
  unfolding linked_def by (metis append.assoc)

lemma find_append: "find P (xs @ ys) = (case find P xs of None \<Rightarrow> find P ys | Some x \<Rightarrow> Some x)"
  by (induction xs) auto

lemma find_None: "\<forall>x \<in> set xs. \<not> P x \<Longrightarrow> find P xs = None"
  by (simp add: find_None_iff)

lemma find_first: "\<forall>x \<in> set xs. \<not> P x \<Longrightarrow> P y \<Longrightarrow> find P (xs @ y # ys) = Some y"
  by (simp add: find_append find_None)

lemma find_SomeD: "find P xs = Some y \<Longrightarrow> y \<in> set xs \<and> P y"
  by (metis find_Some_iff nth_mem)

subsection \<open>Searching\<close>

definition before_key :: "zskipNode list \<Rightarrow> float64 \<Rightarrow> bytes \<Rightarrow> nat \<Rightarrow> bool" where
  "before_key ns sc m a \<longleftrightarrow> zskipLess (zn_score (ns ! a)) (zn_member (ns ! a)) sc m"

lemma sl_walk_last:
  assumes "linked ns (pre @ x # lo @ hi)" "\<forall>a \<in> set lo. before_key ns sc m a"
    "\<forall>a \<in> set hi. \<not> before_key ns sc m a" "i < lev ns x"
  shows "sl_walk ns sc m i x = Some (last (x # filter (\<lambda>a. i < lev ns a) lo))"
  using assms
proof (induction "length lo" arbitrary: pre x lo rule: less_induct)
  case less
  have n: "nxt ns i x = find (\<lambda>y. i < lev ns y) (lo @ hi)"
    using less.prems(1,4) by (rule linkedD)
  show ?case
  proof (cases "\<exists>y \<in> set lo. i < lev ns y")
    case True
    then obtain l1 y l2 where lo: "lo = l1 @ y # l2" "i < lev ns y" "\<forall>z \<in> set l1. \<not> i < lev ns z"
      using split_list_first_prop[of lo "\<lambda>y. i < lev ns y"] by blast
    have "nxt ns i x = Some y" using n lo by (simp add: find_first)
    moreover have "before_key ns sc m y" using less.prems(2) lo by simp
    moreover have "sl_walk ns sc m i y = Some (last (y # filter (\<lambda>a. i < lev ns a) l2))"
      using less.hyps[of l2 "pre @ x # l1" y] less.prems lo by simp
    moreover have "filter (\<lambda>a. i < lev ns a) lo = y # filter (\<lambda>a. i < lev ns a) l2"
      using lo by (simp add: filter_False)
    ultimately show ?thesis
      using less.prems(4) by (subst sl_walk.simps) (simp add: before_key_def)
  next
    case False
    then have f: "filter (\<lambda>a. i < lev ns a) lo = []" by (simp add: filter_empty_conv)
    have "nxt ns i x = find (\<lambda>y. i < lev ns y) hi"
      using n False by (simp add: find_append find_None)
    then have "nxt ns i x = Some y \<Longrightarrow> \<not> before_key ns sc m y" for y
      using less.prems(3) find_SomeD by metis
    with f less.prems(4) show ?thesis
      by (subst sl_walk.simps) (auto simp: before_key_def split: option.splits)
  qed
qed

text \<open>The rightmost node before the key that reaches level \<open>i\<close>, the head included.\<close>

definition pred_at :: "zskipNode list \<Rightarrow> nat list \<Rightarrow> nat \<Rightarrow> nat" where
  "pred_at ns lo i = last (filter (\<lambda>a. i < lev ns a) (0 # lo))"

lemma pred_at_props:
  assumes "i < lev ns 0"
  shows "pred_at ns lo i \<in> set (0 # lo)" "i < lev ns (pred_at ns lo i)"
proof -
  have "filter (\<lambda>a. i < lev ns a) (0 # lo) \<noteq> []" using assms by simp
  then have "pred_at ns lo i \<in> set (filter (\<lambda>a. i < lev ns a) (0 # lo))"
    unfolding pred_at_def by (rule last_in_set)
  then show "pred_at ns lo i \<in> set (0 # lo)" "i < lev ns (pred_at ns lo i)"
    unfolding set_filter by blast+
qed

lemma pred_at_split:
  assumes "i < lev ns 0"
  shows "\<exists>l1 l2. 0 # lo = l1 @ pred_at ns lo i # l2 \<and> (\<forall>a \<in> set l2. \<not> i < lev ns a)"
proof -
  have "\<exists>y \<in> set (0 # lo). i < lev ns y" using assms by auto
  then obtain l1 y l2 where s: "0 # lo = l1 @ y # l2" "i < lev ns y" "\<forall>z \<in> set l2. \<not> i < lev ns z"
    using split_list_last_prop[of "0 # lo" "\<lambda>y. i < lev ns y"] by blast
  then have "pred_at ns lo i = y" unfolding pred_at_def by (simp add: filter_False)
  with s show ?thesis by blast
qed

lemma sl_search_preds:
  assumes "linked ns (0 # lo @ hi)" "\<forall>a \<in> set lo. before_key ns sc m a"
    "\<forall>a \<in> set hi. \<not> before_key ns sc m a" "x \<in> set (0 # lo)" "i \<le> lev ns x"
    "i \<le> lev ns 0" "i \<le> length upd"
  shows "\<exists>upd'. sl_search ns sc m i x upd = Some (if i = 0 then x else pred_at ns lo 0, upd')
    \<and> length upd' = length upd \<and> (\<forall>j < i. upd' ! j = Some (pred_at ns lo j))
    \<and> (\<forall>j \<ge> i. upd' ! j = upd ! j)"
  using assms(4-)
proof (induction i arbitrary: x upd)
  case (Suc i)
  from Suc.prems(1) obtain pre post where sp: "0 # lo = pre @ x # post"
    by (meson split_list)
  have "0 # lo @ hi = pre @ x # post @ hi" using sp by (metis append.assoc append_Cons)
  then have w: "sl_walk ns sc m i x = Some (last (x # filter (\<lambda>a. i < lev ns a) post))"
    using sl_walk_last[of ns pre x post hi sc m i] assms(1-3) Suc.prems(2) sp
    by (cases pre) auto
  have y: "last (x # filter (\<lambda>a. i < lev ns a) post) = pred_at ns lo i"
    unfolding pred_at_def sp using Suc.prems(2) by simp
  have l0: "i < lev ns 0" using Suc.prems(3) by simp
  have P: "i \<le> lev ns (pred_at ns lo i)" "i \<le> lev ns 0"
    "i \<le> length (upd[i := Some (pred_at ns lo i)])"
    using pred_at_props(2)[OF l0, of lo] Suc.prems by (simp_all add: less_imp_le)
  obtain upd' where u:
    "sl_search ns sc m i (pred_at ns lo i) (upd[i := Some (pred_at ns lo i)])
      = Some (if i = 0 then pred_at ns lo i else pred_at ns lo 0, upd')"
    "length upd' = length upd" "\<forall>j < i. upd' ! j = Some (pred_at ns lo j)"
    "\<forall>j \<ge> i. upd' ! j = upd[i := Some (pred_at ns lo i)] ! j"
    using Suc.IH[OF pred_at_props(1)[OF l0] P] by (metis length_list_update)
  have "upd' ! j = Some (pred_at ns lo j)" if "j < Suc i" for j
    using u(3,4) that Suc.prems(4) by (cases "j = i") auto
  moreover have "upd' ! j = upd ! j" if "j \<ge> Suc i" for j
    using u(4) that by auto
  ultimately show ?case
    using u(1,2) w y by (intro exI[of _ upd']) simp
qed simp

subsection \<open>Linking a new node\<close>

text \<open>Two arenas with the same nodes but for the pointers.\<close>

definition same_shape :: "zskipNode list \<Rightarrow> zskipNode list \<Rightarrow> bool" where
  "same_shape ns ns' \<longleftrightarrow>
     length ns' = length ns \<and> (\<forall>a. lev ns' a = lev ns a \<and> ent ns' a = ent ns a)"

lemma same_shape_refl [simp]: "same_shape ns ns"
  by (simp add: same_shape_def)

lemma same_shape_trans: "same_shape a b \<Longrightarrow> same_shape b c \<Longrightarrow> same_shape a c"
  by (simp add: same_shape_def)

lemma same_shape_set_next [simp]: "same_shape ns (set_next ns a i p)"
  by (cases "a < length ns") (auto simp: same_shape_def set_next_def lev_def ent_def nth_list_update
      not_less list_update_beyond)

lemma lev_set_next [simp]: "lev (set_next ns a i p) b = lev ns b"
  using same_shape_set_next[of ns a i p] by (simp add: same_shape_def)

lemma length_set_next [simp]: "length (set_next ns a i p) = length ns"
  by (simp add: set_next_def)

lemma nxt_set_next:
  "a < length ns \<Longrightarrow> i < lev ns a \<Longrightarrow>
   nxt (set_next ns a i p) j b = (if a = b \<and> i = j then p else nxt ns j b)"
  by (auto simp: nxt_def set_next_def lev_def nth_list_update)

lemma sl_link_pointers:
  assumes "distinct is" "n < length ns" "\<forall>i \<in> set is. i < lev ns n"
    "\<forall>i \<in> set is. upd ! i = Some (u i) \<and> u i < length ns \<and> u i \<noteq> n \<and> i < lev ns (u i)"
  shows "\<exists>ns'. sl_link ns n upd is = Some ns' \<and> same_shape ns ns'
    \<and> (\<forall>a i. nxt ns' i a =
        (if i \<in> set is \<and> a = n then nxt ns i (u i)
         else if i \<in> set is \<and> a = u i then Some n else nxt ns i a))"
  using assms
proof (induction "is" arbitrary: ns)
  case (Cons i "is")
  define ns1 where "ns1 = set_next (set_next ns n i (nxt ns i (u i))) (u i) i (Some n)"
  have sh: "same_shape ns ns1"
    unfolding ns1_def by (metis same_shape_set_next same_shape_trans)
  have L: "lev ns1 a = lev ns a" "length ns1 = length ns" for a
    by (simp_all add: ns1_def)
  have N: "nxt ns1 j a = (if a = n \<and> j = i then nxt ns i (u i) else if a = u i \<and> j = i then Some n else nxt ns j a)"
    for j a
    using Cons.prems by (auto simp: ns1_def nxt_set_next)
  obtain ns' where 1: "sl_link ns1 n upd is = Some ns'" "same_shape ns1 ns'"
    "\<forall>a j. nxt ns' j a = (if j \<in> set is \<and> a = n then nxt ns1 j (u j)
       else if j \<in> set is \<and> a = u j then Some n else nxt ns1 j a)"
    using Cons.IH[of ns1] Cons.prems L by auto
  have "nxt ns' j a = (if j \<in> set (i # is) \<and> a = n then nxt ns j (u j)
      else if j \<in> set (i # is) \<and> a = u j then Some n else nxt ns j a)" for a j
    using 1(3) N Cons.prems(1) by auto
  moreover have "sl_link ns n upd (i # is) = Some ns'"
    using 1(1) Cons.prems by (simp add: ns1_def)
  ultimately show ?case
    using same_shape_trans[OF sh 1(2)] by blast
qed simp

text \<open>What a predecessor points to: the first node after the key that reaches the level.\<close>

lemma nxt_pred_at:
  assumes "linked ns (0 # lo @ hi)" "i < lev ns 0"
  shows "nxt ns i (pred_at ns lo i) = find (\<lambda>y. i < lev ns y) hi"
proof -
  obtain l1 l2 where e: "0 # lo = l1 @ pred_at ns lo i # l2" and f: "\<forall>a \<in> set l2. \<not> i < lev ns a"
    using pred_at_split[OF assms(2)] by blast
  from e have "0 # lo @ hi = l1 @ pred_at ns lo i # l2 @ hi"
    by (metis append.assoc append_Cons)
  then have "nxt ns i (pred_at ns lo i) = find (\<lambda>y. i < lev ns y) (l2 @ hi)"
    using assms(1) linkedD pred_at_props(2)[OF assms(2)] by metis
  with f show ?thesis by (simp add: find_append find_None)
qed

lemma linked_insert:
  assumes lk: "linked ns (0 # lo @ hi)" and d: "distinct (0 # lo @ hi)"
    and n: "n \<notin> set (0 # lo @ hi)" and l0: "lev ns 0 = zskipMaxLevel" and nl: "lev ns n \<le> zskipMaxLevel"
    and sh: "same_shape ns ns'"
    and N: "\<And>a i. nxt ns' i a =
        (if i < lev ns n \<and> a = n then nxt ns i (pred_at ns lo i)
         else if i < lev ns n \<and> a = pred_at ns lo i then Some n else nxt ns i a)"
  shows "linked ns' (0 # lo @ n # hi)"
  unfolding linked_def
proof (intro allI impI)
  fix pre x post i
  assume sp: "0 # lo @ n # hi = pre @ x # post" and i: "i < lev ns' x"
  have L: "lev ns' a = lev ns a" for a using sh by (simp add: same_shape_def)
  let ?P = "\<lambda>y. i < lev ns y"
  have P_in: "i < lev ns n \<Longrightarrow> pred_at ns lo i \<in> set (0 # lo)"
    using pred_at_props(1)[of i ns lo] l0 nl by simp
  have succ: "i < lev ns n \<Longrightarrow> nxt ns i (pred_at ns lo i) = find ?P hi"
    using nxt_pred_at[OF lk] l0 nl by simp
  have "(0 # lo) @ (n # hi) = pre @ (x # post)" using sp by simp
  then consider (lo) us where "0 # lo = pre @ x # us" "post = us @ n # hi"
    | (n) "pre = 0 # lo" "x = n" "post = hi"
    | (hi) us where "pre = 0 # lo @ n # us" "hi = us @ x # post"
    unfolding append_eq_append_conv2 by (auto simp: append_eq_Cons_conv Cons_eq_append_conv)
  then have "nxt ns' i x = find ?P post"
  proof cases
    case lo
    have "x \<in> set (0 # lo)" unfolding lo(1) by simp
    then have x: "x \<noteq> n" using n by auto
    have old: "nxt ns i x = find ?P (us @ hi)"
      using linkedD[of ns pre x "us @ hi" i] lk lo(1) i L by (metis append.assoc append_Cons)
    show ?thesis
    proof (cases "\<exists>y \<in> set us. ?P y")
      case True
      then obtain y where "find ?P us = Some y" by (metis find_None_iff not_Some_eq)
      moreover have "pred_at ns lo i = last (filter ?P us)"
        unfolding pred_at_def lo(1) using True by (auto simp: last_append filter_empty_conv)
      then have "pred_at ns lo i \<in> set us"
        using True last_in_set[of "filter ?P us"] by (auto simp: filter_empty_conv)
      then have "x \<noteq> pred_at ns lo i" using d lo(1) by (metis distinct.simps(2) distinct_append append_Cons)
      ultimately show ?thesis using old x N by (simp add: lo(2) find_append)
    next
      case False
      then have "pred_at ns lo i = x"
        unfolding pred_at_def lo(1) using i L by (simp add: filter_False)
      with False old x N show ?thesis by (auto simp: lo(2) find_append find_None)
    qed
  next
    case n
    with N i L succ show ?thesis by simp
  next
    case hi
    then have "x \<noteq> n" "x \<notin> set (0 # lo)" using n d by auto
    moreover have "nxt ns i x = find ?P post"
      using linkedD[of ns "0 # lo @ us" x post i] lk hi(2) i L by simp
    ultimately show ?thesis using N P_in by metis
  qed
  then show "nxt ns' i x = find (\<lambda>y. i < lev ns' y) post" using L by simp
qed

subsection \<open>Insertion\<close>

lemma zskipRandomLevel_bounds:
  "1 \<le> l \<Longrightarrow> l \<le> zskipMaxLevel \<Longrightarrow>
   1 \<le> fst (zskipRandomLevel draws l) \<and> fst (zskipRandomLevel draws l) \<le> zskipMaxLevel"
proof (induction draws l rule: zskipRandomLevel.induct)
  case (1 draws level)
  then show ?case by (subst (1 2) zskipRandomLevel.simps) auto
qed

lemma sl_collect_linked:
  "linked ns (x # as) \<Longrightarrow> \<forall>a \<in> set (x # as). 0 < lev ns a \<Longrightarrow> k \<le> length as \<Longrightarrow>
   sl_collect ns (nxt ns 0 x) k = take k (map (ent ns) as)"
proof (induction as arbitrary: x k)
  case (Cons a as)
  have n: "nxt ns 0 x = Some a"
    using linkedD[of ns "[]" x "a # as" 0] Cons.prems by simp
  have "linked ns (a # as)" using linked_suffix[of ns "[x]"] Cons.prems(1) by simp
  with Cons n show ?case by (cases k) (auto simp: ent_def)
qed simp

lemma sl_skip_linked:
  "linked ns (x # as) \<Longrightarrow> \<forall>a \<in> set (x # as). 0 < lev ns a \<Longrightarrow> k \<le> length as \<Longrightarrow>
   \<exists>y. sl_skip ns (nxt ns 0 x) k = nxt ns 0 y \<and> linked ns (y # drop k as)
     \<and> (\<forall>a \<in> set (y # drop k as). 0 < lev ns a)"
proof (induction as arbitrary: x k)
  case (Cons a as)
  show ?case
  proof (cases k)
    case (Suc k')
    have "nxt ns 0 x = Some a"
      using linkedD[of ns "[]" x "a # as" 0] Cons.prems by simp
    moreover have "linked ns (a # as)" using linked_suffix[of ns "[x]"] Cons.prems(1) by simp
    ultimately show ?thesis using Cons.IH[of a k'] Cons.prems Suc by simp
  qed (use Cons.prems in auto)
qed auto

lemma sl_repD:
  assumes "sl_rep sl as"
  shows "distinct (0 # as)" "\<forall>a \<in> set (0 # as). a < length (sl_nodes sl)"
    "lev (sl_nodes sl) 0 = zskipMaxLevel" "linked (sl_nodes sl) (0 # as)"
    "zsorted (map (ent (sl_nodes sl)) as)" "1 \<le> sl_level sl" "sl_level sl \<le> zskipMaxLevel"
    "sl_length sl = int (length as)" "\<forall>a \<in> set (0 # as). 0 < lev (sl_nodes sl) a"
    "\<forall>a \<in> set as. lev (sl_nodes sl) a \<le> sl_level sl"
    "sl_level sl = 1 \<or> (\<exists>a \<in> set as. lev (sl_nodes sl) a = sl_level sl)"
  using assms unfolding sl_rep_def by auto

lemma sl_entries_rep: "sl_rep sl as \<Longrightarrow> sl_entries sl = map (ent (sl_nodes sl)) as"
  using sl_collect_linked[of "sl_nodes sl" 0 as "length as"] sl_repD[of sl as]
  by (simp add: sl_entries_def)

lemma before_key_zkey:
  "\<not> f64_isNaN sc \<Longrightarrow> \<not> f64_isNaN (zn_score (ns ! a)) \<Longrightarrow>
   before_key ns sc m a \<longleftrightarrow> zkey (ent ns a) < zkey (m, sc)"
  by (simp add: before_key_def zskipLess_zkey ent_def)

lemma zsorted_notNaN:
  "zsorted (map (ent ns) as) \<Longrightarrow> a \<in> set as \<Longrightarrow> \<not> f64_isNaN (zn_score (ns ! a))"
  by (fastforce simp: zsorted_def ent_def)

text \<open>The nodes split at a key into those before it and those after.\<close>

lemma sl_partition:
  assumes "zsorted (map (ent ns) as)" "\<not> f64_isNaN sc"
  shows "\<exists>lo hi. as = lo @ hi \<and> (\<forall>a \<in> set lo. before_key ns sc m a)
    \<and> (\<forall>a \<in> set hi. \<not> before_key ns sc m a)"
proof -
  have b: "before_key ns sc m a \<longleftrightarrow> zkey (ent ns a) < zkey (m, sc)" if "a \<in> set as" for a
    using assms that by (intro before_key_zkey) (auto simp: zsorted_def ent_def)
  have "sorted_wrt (\<lambda>a b. zkey (ent ns a) < zkey (ent ns b)) as"
    using assms(1) by (simp add: zsorted_def sorted_wrt_map)
  then have "\<exists>lo hi. as = lo @ hi \<and> (\<forall>a \<in> set lo. zkey (ent ns a) < zkey (m, sc))
      \<and> (\<forall>a \<in> set hi. \<not> zkey (ent ns a) < zkey (m, sc))"
  proof (induction as)
    case (Cons a as)
    then obtain lo hi where s: "as = lo @ hi" "\<forall>a \<in> set lo. zkey (ent ns a) < zkey (m, sc)"
      "\<forall>a \<in> set hi. \<not> zkey (ent ns a) < zkey (m, sc)" by auto
    show ?case
    proof (cases "zkey (ent ns a) < zkey (m, sc)")
      case True
      with s show ?thesis by (intro exI[of _ "a # lo"] exI[of _ hi]) auto
    next
      case False
      with Cons.prems have "\<forall>b \<in> set (a # as). \<not> zkey (ent ns b) < zkey (m, sc)" by force
      then show ?thesis by (intro exI[of _ "[]"] exI[of _ "a # as"]) auto
    qed
  qed simp
  then obtain lo hi where s: "as = lo @ hi" "\<forall>a \<in> set lo. zkey (ent ns a) < zkey (m, sc)"
    "\<forall>a \<in> set hi. \<not> zkey (ent ns a) < zkey (m, sc)" by blast
  with b show ?thesis by (intro exI[of _ lo] exI[of _ hi]) auto
qed

lemma zsorted_insert:
  assumes "zsorted (xs @ ys)" "\<forall>e \<in> set xs. zkey e < zkey e0" "\<forall>e \<in> set ys. \<not> zkey e < zkey e0"
    "zkey e0 \<notin> zkey ` set (xs @ ys)" "\<not> f64_isNaN (snd e0)"
  shows "zsorted (xs @ e0 # ys)"
proof -
  have "\<forall>e \<in> set ys. zkey e0 < zkey e"
    using assms(3,4) by (auto simp: not_less order.order_iff_strict)
  with assms show ?thesis by (auto simp: zsorted_def sorted_wrt_append)
qed

lemma lev_append: "a < length ns \<Longrightarrow> lev (ns @ ms) a = lev ns a"
  and nxt_append: "a < length ns \<Longrightarrow> nxt (ns @ ms) i a = nxt ns i a"
  and ent_append: "a < length ns \<Longrightarrow> ent (ns @ ms) a = ent ns a"
  by (simp_all add: lev_def nxt_def ent_def nth_append)

lemma find_cong: "\<forall>x \<in> set xs. P x = Q x \<Longrightarrow> find P xs = find Q xs"
  by (induction xs) auto

lemma linked_append_nodes:
  assumes "linked ns xs" "\<forall>a \<in> set xs. a < length ns"
  shows "linked (ns @ ms) xs"
  unfolding linked_def
proof (intro allI impI)
  fix pre x post i
  assume sp: "xs = pre @ x # post" and i: "i < lev (ns @ ms) x"
  have "find (\<lambda>y. i < lev (ns @ ms) y) post = find (\<lambda>y. i < lev ns y) post"
    using assms(2) sp by (intro find_cong) (auto simp: lev_append)
  with sp i assms show "nxt (ns @ ms) i x = find (\<lambda>y. i < lev (ns @ ms) y) post"
    using linkedD[of ns pre x post i] by (simp add: lev_append nxt_append)
qed

lemma pred_at_append_nodes:
  assumes "\<forall>a \<in> set (0 # lo). a < length ns"
  shows "pred_at (ns @ ms) lo i = pred_at ns lo i"
proof -
  have "filter (\<lambda>a. i < lev (ns @ ms) a) (0 # lo) = filter (\<lambda>a. i < lev ns a) (0 # lo)"
    using assms by (intro filter_cong) (auto simp: lev_append)
  then show ?thesis unfolding pred_at_def by (simp only:)
qed

lemma pred_at_above:
  assumes "\<forall>a \<in> set lo. lev ns a \<le> i" "i < lev ns 0"
  shows "pred_at ns lo i = 0"
proof -
  have "filter (\<lambda>a. i < lev ns a) lo = []" using assms(1) by (auto simp: filter_empty_conv)
  with assms(2) show ?thesis by (simp add: pred_at_def)
qed

text \<open>The whole search from the head, at the list's level.\<close>

lemma sl_search_rep:
  assumes "sl_rep sl (lo @ hi)" "\<forall>a \<in> set lo. before_key (sl_nodes sl) sc m a"
    "\<forall>a \<in> set hi. \<not> before_key (sl_nodes sl) sc m a"
  shows "\<exists>upd. sl_search (sl_nodes sl) sc m (sl_level sl) 0 (replicate zskipMaxLevel None)
      = Some (pred_at (sl_nodes sl) lo 0, upd)
    \<and> (\<forall>j < sl_level sl. upd ! j = Some (pred_at (sl_nodes sl) lo j))"
proof -
  note R = sl_repD[OF assms(1)]
  have "linked (sl_nodes sl) (0 # lo @ hi)" using R(4) by simp
  from sl_search_preds[OF this assms(2,3), of 0 "sl_level sl" "replicate zskipMaxLevel None"] R(3,6,7)
  show ?thesis by auto
qed

lemma sl_link_linked:
  assumes lk: "linked ns (0 # lo @ hi)" and d: "distinct (0 # lo @ hi)"
    and rng: "\<forall>a \<in> set (0 # lo @ hi). a < length ns" and n: "n < length ns"
    and fresh: "n \<notin> set (0 # lo @ hi)" and l0: "lev ns 0 = zskipMaxLevel"
    and nl: "lev ns n \<le> zskipMaxLevel"
    and upd: "\<forall>i < lev ns n. upd ! i = Some (pred_at ns lo i)"
  shows "\<exists>ns'. sl_link ns n upd [0..<lev ns n] = Some ns' \<and> same_shape ns ns'
    \<and> linked ns' (0 # lo @ n # hi)"
proof -
  have "upd ! i = Some (pred_at ns lo i) \<and> pred_at ns lo i < length ns
      \<and> pred_at ns lo i \<noteq> n \<and> i < lev ns (pred_at ns lo i)" if i: "i < lev ns n" for i
  proof -
    have p: "pred_at ns lo i \<in> set (0 # lo)" "i < lev ns (pred_at ns lo i)"
      using pred_at_props[of i ns lo] l0 nl i by simp_all
    with rng fresh have "pred_at ns lo i < length ns" "pred_at ns lo i \<noteq> n" by auto
    with p upd i show ?thesis by simp
  qed
  then obtain ns' where ns': "sl_link ns n upd [0..<lev ns n] = Some ns'" "same_shape ns ns'"
    "\<And>a i. nxt ns' i a = (if i < lev ns n \<and> a = n then nxt ns i (pred_at ns lo i)
       else if i < lev ns n \<and> a = pred_at ns lo i then Some n else nxt ns i a)"
    using sl_link_pointers[of "[0..<lev ns n]" n ns upd "pred_at ns lo"] n by auto
  with linked_insert[OF lk d fresh l0 nl ns'(2,3)] show ?thesis by blast
qed

text \<open>
  The update vector of \<open>insert\<close>: the search fills it up to the present level, and the head
  is the predecessor above it.
\<close>

definition insert_update :: "nat \<Rightarrow> nat \<Rightarrow> nat option list \<Rightarrow> nat option list" where
  "insert_update level present upd =
     (if level > present
      then map (\<lambda>i. if present \<le> i \<and> i < level then Some 0 else upd ! i) [0..<zskipMaxLevel] else upd)"

lemma insert_update_rep:
  assumes rep: "sl_rep sl (lo @ hi)" and lo: "\<forall>a \<in> set lo. before_key (sl_nodes sl) sc m a"
    and hi: "\<forall>a \<in> set hi. \<not> before_key (sl_nodes sl) sc m a" and lvl: "level \<le> zskipMaxLevel"
  obtains upd where "sl_search (sl_nodes sl) sc m (sl_level sl) 0 (replicate zskipMaxLevel None) = Some (pred_at (sl_nodes sl) lo 0, upd)"
    "\<And>i. i < level \<Longrightarrow> insert_update level (sl_level sl) upd ! i = Some (pred_at (sl_nodes sl) lo i)"
proof -
  note R = sl_repD[OF rep]
  obtain upd where srch: "sl_search (sl_nodes sl) sc m (sl_level sl) 0 (replicate zskipMaxLevel None)
      = Some (pred_at (sl_nodes sl) lo 0, upd)" "\<forall>j < sl_level sl. upd ! j = Some (pred_at (sl_nodes sl) lo j)"
    using sl_search_rep[OF rep lo hi] by blast
  have "insert_update level (sl_level sl) upd ! i = Some (pred_at (sl_nodes sl) lo i)" if "i < level" for i
  proof (cases "i < sl_level sl")
    case True
    with srch(2) that lvl show ?thesis by (simp add: insert_update_def)
  next
    case False
    have "\<forall>a \<in> set lo. lev (sl_nodes sl) a \<le> sl_level sl" using R(10) by simp
    then have "\<forall>a \<in> set lo. lev (sl_nodes sl) a \<le> i" using False by (meson le_trans not_less)
    then have "pred_at (sl_nodes sl) lo i = 0"
      using R(3) that lvl by (intro pred_at_above) simp_all
    with False that lvl show ?thesis by (simp add: insert_update_def)
  qed
  with srch(1) show thesis by (rule that)
qed

text \<open>The levels after a node of level \<open>level\<close> was added at address \<open>n\<close>.\<close>

lemma insert_levels:
  assumes rep: "sl_rep sl (lo @ hi)" and lvl: "1 \<le> level"
    and old: "\<And>a. a \<in> set (lo @ hi) \<Longrightarrow> lev ns' a = lev (sl_nodes sl) a" and new: "lev ns' n = level"
  defines "nl \<equiv> (if level > sl_level sl then level else sl_level sl)"
  shows "\<forall>a \<in> set (lo @ n # hi). 1 \<le> lev ns' a \<and> lev ns' a \<le> nl" "nl = 1 \<or> (\<exists>a \<in> set (lo @ n # hi). lev ns' a = nl)"
proof -
  note R = sl_repD[OF rep]
  show "\<forall>a \<in> set (lo @ n # hi). 1 \<le> lev ns' a \<and> lev ns' a \<le> nl"
  proof
    fix a assume "a \<in> set (lo @ n # hi)"
    then consider "a = n" | "a \<in> set (lo @ hi)" by auto
    then show "1 \<le> lev ns' a \<and> lev ns' a \<le> nl"
    proof cases
      case 2
      then have "0 < lev (sl_nodes sl) a" "lev (sl_nodes sl) a \<le> sl_level sl" using R(9,10) by auto
      with old[OF 2] show ?thesis by (auto simp: nl_def)
    qed (use new lvl in \<open>simp add: nl_def\<close>)
  qed
  show "nl = 1 \<or> (\<exists>a \<in> set (lo @ n # hi). lev ns' a = nl)"
    using R(11) old new by (auto simp: nl_def)
qed

lemma insert_sorted_rep:
  assumes rep: "sl_rep sl (lo @ hi)" and nan: "\<not> f64_isNaN sc"
    and lo: "\<forall>a \<in> set lo. before_key (sl_nodes sl) sc m a"
    and hi: "\<forall>a \<in> set hi. \<not> before_key (sl_nodes sl) sc m a"
    and new: "zkey (m, sc) \<notin> zkey ` set (sl_entries sl)"
  shows "zsorted (map (ent (sl_nodes sl)) lo @ (m, sc) # map (ent (sl_nodes sl)) hi)"
proof -
  note R = sl_repD[OF rep]
  have E: "sl_entries sl = map (ent (sl_nodes sl)) lo @ map (ent (sl_nodes sl)) hi"
    using sl_entries_rep[OF rep] by simp
  have bk: "before_key (sl_nodes sl) sc m a \<longleftrightarrow> zkey (ent (sl_nodes sl) a) < zkey (m, sc)" if "a \<in> set (lo @ hi)" for a
    by (rule before_key_zkey[OF nan zsorted_notNaN[OF R(5) that]])
  show ?thesis using R(5) lo hi bk nan new E by (intro zsorted_insert) auto
qed

lemma zskiplist_insert_rep:
  assumes rep: "sl_rep sl (lo @ hi)" and nan: "\<not> f64_isNaN sc"
    and lo: "\<forall>a \<in> set lo. before_key (sl_nodes sl) sc m a"
    and hi: "\<forall>a \<in> set hi. \<not> before_key (sl_nodes sl) sc m a"
    and new: "zkey (m, sc) \<notin> zkey ` set (sl_entries sl)"
  shows "\<exists>sl'. zskiplist_insert sl m sc = Some sl' \<and> sl_rep sl' (lo @ length (sl_nodes sl) # hi)
    \<and> map (ent (sl_nodes sl')) (lo @ length (sl_nodes sl) # hi)
       = map (ent (sl_nodes sl)) lo @ (m, sc) # map (ent (sl_nodes sl)) hi"
proof -
  note R = sl_repD[OF rep]
  define ns where "ns = sl_nodes sl"
  define n where "n = length ns"
  obtain level draws where rl: "zskipRandomLevel (sl_rand sl) 1 = (level, draws)" by fastforce
  have lvl: "1 \<le> level" "level \<le> zskipMaxLevel"
    using zskipRandomLevel_bounds[of 1 "sl_rand sl"] rl by auto
  define node where "node = \<lparr>zn_member = m, zn_score = sc, zn_next = replicate level None\<rparr>"
  define ns1 where "ns1 = ns @ [node]"
  have rng: "\<forall>a \<in> set (0 # lo @ hi). a < length ns" using R(2) by (simp add: ns_def)
  have nn: "lev ns1 n = level" "ent ns1 n = (m, sc)"
    by (simp_all add: ns1_def n_def node_def lev_def ent_def)
  have old: "lev ns1 a = lev ns a" "ent ns1 a = ent ns a" if "a \<in> set (0 # lo @ hi)" for a
    using rng that by (auto simp: ns1_def lev_append ent_append)
  have lk1: "linked ns1 (0 # lo @ hi)"
    using R(4) rng unfolding ns1_def by (intro linked_append_nodes) (simp_all add: ns_def)
  have pr: "pred_at ns1 lo i = pred_at ns lo i" for i
    unfolding ns1_def using rng by (intro pred_at_append_nodes) auto
  from insert_update_rep[OF rep lo hi lvl(2)] obtain upd where
    srch: "sl_search ns sc m (sl_level sl) 0 (replicate zskipMaxLevel None) = Some (pred_at ns lo 0, upd)"
    and u1: "\<And>i. i < level \<Longrightarrow> insert_update level (sl_level sl) upd ! i = Some (pred_at ns1 lo i)"
    unfolding ns_def[symmetric] pr by blast
  have l0: "lev ns1 0 = zskipMaxLevel" using old(1)[of 0] R(3) by (simp add: ns_def)
  have fresh: "n \<notin> set (0 # lo @ hi)" using rng by (auto simp: n_def)
  have "\<forall>a \<in> set (0 # lo @ hi). a < length ns1" "n < length ns1"
    using rng by (auto simp: ns1_def n_def less_SucI)
  with sl_link_linked[OF lk1 _ _ _ fresh l0, of "insert_update level (sl_level sl) upd"] R(1) lvl u1 nn(1)
  obtain ns' where ns': "sl_link ns1 n (insert_update level (sl_level sl) upd) [0..<level] = Some ns'" "same_shape ns1 ns'"
    and lk: "linked ns' (0 # lo @ n # hi)" by auto
  have sh: "lev ns' a = lev ns1 a" "ent ns' a = ent ns1 a" for a
    using ns'(2) by (auto simp: same_shape_def)
  have ents: "map (ent ns') (lo @ n # hi) = map (ent ns) lo @ (m, sc) # map (ent ns) hi"
    using old nn sh by simp
  define nl where "nl = (if level > sl_level sl then level else sl_level sl)"
  let ?sl = "sl\<lparr>sl_nodes := ns', sl_level := nl, sl_length := sl_length sl + 1, sl_rand := draws\<rparr>"
  have "zskiplist_insert sl m sc = Some ?sl"
    using srch ns'(1) rl by (simp add: zskiplist_insert_def ns_def nl_def insert_update_def n_def ns1_def node_def)
  moreover have "\<forall>a \<in> set (0 # lo @ n # hi). a < length ns'"
    using rng ns'(2) by (auto simp: same_shape_def ns1_def n_def less_SucI)
  moreover have "zsorted (map (ent ns') (lo @ n # hi))"
    unfolding ents unfolding ns_def by (rule insert_sorted_rep[OF rep nan lo hi new])
  moreover note insert_levels[OF rep lvl(1), of ns' n, folded nl_def]
  ultimately show ?thesis
    using R(1,6,7,8) fresh lk l0 sh lvl nn old ents by (auto simp: sl_rep_def nl_def ns_def n_def)
qed

subsection \<open>Deletion\<close>

lemma sl_unlink_pointers:
  assumes "distinct is" "x < length ns"
    "\<forall>i \<in> set is. upd ! i = Some (u i) \<and> u i < length ns \<and> u i \<noteq> x \<and> i < lev ns (u i)
       \<and> (nxt ns i (u i) = Some x \<longrightarrow> i < lev ns x)"
  shows "\<exists>ns'. sl_unlink ns x upd is = Some ns' \<and> same_shape ns ns'
    \<and> (\<forall>a i. nxt ns' i a =
        (if i \<in> set is \<and> a = u i \<and> nxt ns i a = Some x then nxt ns i x else nxt ns i a))"
  using assms
proof (induction "is" arbitrary: ns)
  case (Cons i "is")
  define ns1 where "ns1 = (if nxt ns i (u i) = Some x then set_next ns (u i) i (nxt ns i x) else ns)"
  have sh: "same_shape ns ns1" by (simp add: ns1_def)
  have L: "lev ns1 a = lev ns a" "length ns1 = length ns" for a
    by (simp_all add: ns1_def)
  have N: "nxt ns1 j a = (if a = u i \<and> j = i \<and> nxt ns i (u i) = Some x then nxt ns i x else nxt ns j a)"
    for j a
    using Cons.prems by (auto simp: ns1_def nxt_set_next)
  have "\<forall>j \<in> set is. nxt ns1 j (u j) = nxt ns j (u j)"
    using N Cons.prems(1) by auto
  then obtain ns' where 1: "sl_unlink ns1 x upd is = Some ns'" "same_shape ns1 ns'"
    "\<forall>a j. nxt ns' j a = (if j \<in> set is \<and> a = u j \<and> nxt ns1 j a = Some x then nxt ns1 j x
       else nxt ns1 j a)"
    using Cons.IH[of ns1] Cons.prems L by auto
  have "nxt ns' j a = (if j \<in> set (i # is) \<and> a = u j \<and> nxt ns j a = Some x then nxt ns j x
      else nxt ns j a)" for a j
    using 1(3) N Cons.prems by auto
  moreover have "sl_unlink ns x upd (i # is) = Some ns'"
    using 1(1) Cons.prems by (simp add: ns1_def split: if_splits)
  ultimately show ?case
    using same_shape_trans[OF sh 1(2)] by blast
qed simp

lemma linked_delete:
  assumes lk: "linked ns (0 # lo @ n # hi)" and d: "distinct (0 # lo @ n # hi)"
    and l0: "lev ns 0 = zskipMaxLevel" and nl: "lev ns n \<le> zskipMaxLevel"
    and sh: "same_shape ns ns'"
    and N: "\<And>a i. nxt ns' i a =
        (if i < lev ns n \<and> a = pred_at ns lo i then nxt ns i n else nxt ns i a)"
  shows "linked ns' (0 # lo @ hi)"
  unfolding linked_def
proof (intro allI impI)
  fix pre x post i
  assume sp: "0 # lo @ hi = pre @ x # post" and i: "i < lev ns' x"
  have L: "lev ns' a = lev ns a" for a using sh by (simp add: same_shape_def)
  let ?P = "\<lambda>y. i < lev ns y"
  have P_in: "i < lev ns n \<Longrightarrow> pred_at ns lo i \<in> set (0 # lo)"
    using pred_at_props(1)[of i ns lo] l0 nl by simp
  have nn: "i < lev ns n \<Longrightarrow> nxt ns i n = find ?P hi"
    using linkedD[of ns "0 # lo" n hi i] lk by simp
  have "(0 # lo) @ hi = pre @ (x # post)" using sp by simp
  then consider (lo) us where "0 # lo = pre @ x # us" "post = us @ hi"
    | (hi) us where "pre = 0 # lo @ us" "hi = us @ x # post"
    unfolding append_eq_append_conv2 by (auto simp: append_eq_Cons_conv Cons_eq_append_conv)
  then have "nxt ns' i x = find ?P post"
  proof cases
    case lo
    have old: "nxt ns i x = find ?P (us @ n # hi)"
      using linkedD[of ns pre x "us @ n # hi" i] lk lo(1) i L by (metis append.assoc append_Cons)
    show ?thesis
    proof (cases "\<exists>y \<in> set us. ?P y")
      case True
      then obtain y where y: "find ?P us = Some y" by (metis find_None_iff not_Some_eq)
      have "pred_at ns lo i = last (filter ?P us)"
        unfolding pred_at_def lo(1) using True by (auto simp: last_append filter_empty_conv)
      then have "pred_at ns lo i \<in> set us"
        using True last_in_set[of "filter ?P us"] by (auto simp: filter_empty_conv)
      then have "x \<noteq> pred_at ns lo i"
        using d lo(1) by (metis distinct.simps(2) distinct_append append_Cons)
      with y old N show ?thesis by (simp add: lo(2) find_append)
    next
      case False
      then have "pred_at ns lo i = x"
        unfolding pred_at_def lo(1) using i L by (simp add: filter_False)
      with False old N nn show ?thesis by (auto simp: lo(2) find_append find_None)
    qed
  next
    case hi
    then have "x \<notin> set (0 # lo)" using d by auto
    moreover have "nxt ns i x = find ?P post"
      using linkedD[of ns "0 # lo @ n # us" x post i] lk hi(2) i L by simp
    ultimately show ?thesis using N P_in by metis
  qed
  then show "nxt ns' i x = find (\<lambda>y. i < lev ns' y) post" using L by simp
qed

text \<open>A node is the successor of its predecessor on exactly the levels it reaches.\<close>

lemma nxt_pred_hit:
  assumes lk: "linked ns (0 # lo @ x # hi)" and d: "distinct (0 # lo @ x # hi)" and "i < lev ns 0"
  shows "nxt ns i (pred_at ns lo i) = Some x \<longleftrightarrow> i < lev ns x"
proof -
  have "nxt ns i (pred_at ns lo i) = find (\<lambda>y. i < lev ns y) (x # hi)"
    using nxt_pred_at[OF lk assms(3)] by simp
  moreover have "find (\<lambda>y. i < lev ns y) hi \<noteq> Some x"
    using d find_SomeD[of "\<lambda>y. i < lev ns y" hi x] by auto
  ultimately show ?thesis by simp
qed

lemma sl_unlink_linked:
  assumes lk: "linked ns (0 # lo @ x # hi)" and d: "distinct (0 # lo @ x # hi)"
    and rng: "\<forall>a \<in> set (0 # lo @ x # hi). a < length ns" and l0: "lev ns 0 = zskipMaxLevel"
    and level: "level \<le> zskipMaxLevel" and xl: "lev ns x \<le> level"
    and upd: "\<forall>i < level. upd ! i = Some (pred_at ns lo i)"
  shows "\<exists>ns'. sl_unlink ns x upd [0..<level] = Some ns' \<and> same_shape ns ns'
    \<and> linked ns' (0 # lo @ hi)"
proof -
  have hit: "nxt ns i (pred_at ns lo i) = Some x \<longleftrightarrow> i < lev ns x" if "i < level" for i
    using nxt_pred_hit[OF lk d, of i] l0 level that by simp
  have U: "upd ! i = Some (pred_at ns lo i) \<and> pred_at ns lo i < length ns \<and> pred_at ns lo i \<noteq> x
      \<and> i < lev ns (pred_at ns lo i) \<and> (nxt ns i (pred_at ns lo i) = Some x \<longrightarrow> i < lev ns x)"
    if i: "i < level" for i
  proof -
    have p: "pred_at ns lo i \<in> set (0 # lo)" "i < lev ns (pred_at ns lo i)"
      using pred_at_props[of i ns lo] l0 level i by simp_all
    with rng d have "pred_at ns lo i < length ns" "pred_at ns lo i \<noteq> x" by auto
    with p upd i hit[OF i] show ?thesis by simp
  qed
  have x: "x < length ns" using rng by simp
  obtain ns' where ns': "sl_unlink ns x upd [0..<level] = Some ns'" "same_shape ns ns'"
    and N: "\<forall>a i. nxt ns' i a = (if i \<in> set [0..<level] \<and> a = pred_at ns lo i \<and> nxt ns i a = Some x
       then nxt ns i x else nxt ns i a)"
    using sl_unlink_pointers[of "[0..<level]" x ns upd "pred_at ns lo", OF distinct_upt x] U by auto
  have "nxt ns' i a = (if i < lev ns x \<and> a = pred_at ns lo i then nxt ns i x else nxt ns i a)" for a i
    using N[rule_format, of i a] hit[of i] xl by auto
  from linked_delete[OF lk d l0 _ ns'(2) this] xl level ns' show ?thesis by fastforce
qed

lemma sl_shrink_le: "sl_shrink ns l \<le> l"
proof (induction ns l rule: sl_shrink.induct)
  case (1 ns l)
  then show ?case by (subst sl_shrink.simps) auto
qed

lemma sl_shrink_pos: "1 \<le> l \<Longrightarrow> 1 \<le> sl_shrink ns l"
proof (induction ns l rule: sl_shrink.induct)
  case (1 ns l)
  then show ?case by (subst sl_shrink.simps) auto
qed

text \<open>Shrinking stops at the highest level in use.\<close>

lemma sl_shrink_level:
  assumes "linked ns (0 # as)" "lev ns 0 = zskipMaxLevel" "l \<le> zskipMaxLevel" "1 \<le> l"
    "\<forall>a \<in> set as. lev ns a \<le> l"
  shows "(\<forall>a \<in> set as. lev ns a \<le> sl_shrink ns l)
    \<and> (sl_shrink ns l = 1 \<or> (\<exists>a \<in> set as. lev ns a = sl_shrink ns l))"
  using assms(3-5)
proof (induction l)
  case (Suc k)
  have n: "nxt ns k 0 = find (\<lambda>y. k < lev ns y) as"
    using linkedD[of ns "[]" 0 as k] assms(1,2) Suc.prems by simp
  show ?case
  proof (cases "k \<ge> 1 \<and> nxt ns k 0 = None")
    case True
    then have "\<forall>a \<in> set as. lev ns a \<le> k" using n by (auto simp: find_None_iff not_less)
    with True Suc show ?thesis by (simp add: sl_shrink.simps[of ns "Suc k"])
  next
    case False
    then have e: "sl_shrink ns (Suc k) = Suc k" by (subst sl_shrink.simps) auto
    show ?thesis
    proof (cases "k = 0")
      case False
      with \<open>\<not> (k \<ge> 1 \<and> nxt ns k 0 = None)\<close> obtain y where "find (\<lambda>y. k < lev ns y) as = Some y"
        using n by auto
      then have "y \<in> set as" "k < lev ns y" using find_SomeD by metis+
      with Suc.prems(3) have "lev ns y = Suc k" by (meson Suc_leI le_antisym)
      with e \<open>y \<in> set as\<close> Suc.prems(3) show ?thesis by auto
    qed (use e Suc.prems in auto)
  qed
qed simp

lemma zsorted_split:
  assumes "zsorted (xs @ e # ys)"
  shows "\<forall>d \<in> set xs. zkey d < zkey e" "\<forall>d \<in> set (e # ys). \<not> zkey d < zkey e" "zsorted (xs @ ys)"
  using assms by (auto simp: zsorted_def sorted_wrt_append)

lemma zskiplist_delete_rep:
  assumes rep: "sl_rep sl (lo @ x # hi)" and x: "ent (sl_nodes sl) x = (m, sc)"
  shows "\<exists>sl'. zskiplist_delete sl m sc = Some sl' \<and> sl_rep sl' (lo @ hi)
    \<and> map (ent (sl_nodes sl')) (lo @ hi) = map (ent (sl_nodes sl)) (lo @ hi)"
proof -
  note R = sl_repD[OF rep]
  define ns where "ns = sl_nodes sl"
  note Z = zsorted_split[of "map (ent ns) lo" "ent ns x" "map (ent ns) hi"]
  have zs: "zsorted (map (ent ns) lo @ ent ns x # map (ent ns) hi)" using R(5) by (simp add: ns_def)
  have nan: "\<not> f64_isNaN sc" using zs x by (auto simp: zsorted_def ns_def)
  have nn: "\<not> f64_isNaN (zn_score (ns ! a))" if "a \<in> set (lo @ x # hi)" for a
    by (rule zsorted_notNaN[OF R(5)[folded ns_def] that])
  have bk: "before_key ns sc m a \<longleftrightarrow> zkey (ent ns a) < zkey (ent ns x)" if "a \<in> set (lo @ x # hi)" for a
    using before_key_zkey[OF nan nn[OF that]] x by (simp add: ns_def)
  have lk: "linked ns (0 # lo @ x # hi)" using R(4) by (simp add: ns_def)
  have l0: "lev ns 0 = zskipMaxLevel" using R(3) by (simp add: ns_def)
  have xl: "0 < lev ns x" "lev ns x \<le> sl_level sl" using R(9,10) by (auto simp: ns_def)
  obtain upd where srch: "sl_search ns sc m (sl_level sl) 0 (replicate zskipMaxLevel None)
      = Some (pred_at ns lo 0, upd)" "\<forall>j < sl_level sl. upd ! j = Some (pred_at ns lo j)"
    using sl_search_rep[OF rep, of sc m] bk Z[OF zs] unfolding ns_def by auto
  have rng: "\<forall>a \<in> set (0 # lo @ x # hi). a < length ns" using R(2) by (simp add: ns_def)
  from sl_unlink_linked[OF lk R(1) rng l0 R(7) xl(2) srch(2)]
  obtain ns' where ns': "sl_unlink ns x upd [0..<sl_level sl] = Some ns'" "same_shape ns ns'"
    and lk': "linked ns' (0 # lo @ hi)"
    by blast
  have hit: "nxt ns 0 (pred_at ns lo 0) = Some x"
    using nxt_pred_hit[OF lk R(1), of 0] l0 xl(1) by simp
  have sh: "lev ns' a = lev ns a" "ent ns' a = ent ns a" for a
    using ns'(2) by (auto simp: same_shape_def)
  let ?sl = "sl\<lparr>sl_nodes := ns', sl_level := sl_shrink ns' (sl_level sl), sl_length := sl_length sl - 1\<rparr>"
  have "zskiplist_delete sl m sc = Some ?sl"
    using srch(1) ns'(1) hit x nan
    by (simp add: zskiplist_delete_def ent_def f64_eq_def flip: ns_def)
  moreover have "sl_rep ?sl (lo @ hi)"
  proof -
    have "ent ns' = ent ns" using sh(2) by blast
    then have "zsorted (map (ent ns') (lo @ hi))" using Z(3)[OF zs] by simp
    moreover have "\<forall>a \<in> set (lo @ hi). lev ns' a \<le> sl_level sl" "\<forall>a \<in> set (lo @ hi). 1 \<le> lev ns' a"
      using R(9,10) sh(1) by (auto simp: ns_def Suc_le_eq)
    moreover have "lev ns' 0 = zskipMaxLevel" using sh(1) l0 by simp
    moreover have "\<forall>a \<in> set (0 # lo @ hi). a < length ns'"
      using rng ns'(2) by (simp add: same_shape_def)
    ultimately show ?thesis
      using R(1,6,7,8) lk' sl_shrink_level[OF lk', of "sl_level sl"]
        sl_shrink_le[of ns' "sl_level sl"] sl_shrink_pos[of "sl_level sl" ns']
      by (simp add: sl_rep_def)
  qed
  ultimately show ?thesis using sh by (auto simp: ns_def)
qed

subsection \<open>The interpretation\<close>

lemma newZskiplist_rep: "sl_rep (newZskiplist draws) []"
  by (auto simp: sl_rep_def newZskiplist_def lev_def linked_def nxt_def zsorted_def Cons_eq_append_conv)

lemma newZskiplist_empty: "sl_inv (newZskiplist draws)" "sl_entries (newZskiplist draws) = []"
  using newZskiplist_rep sl_entries_rep[OF newZskiplist_rep] by (auto simp: sl_inv_def)

lemma sl_insert_law:
  assumes "sl_inv sl" "\<not> f64_isNaN sc" "zkey (m, sc) \<notin> zkey ` set (sl_entries sl)"
  shows "\<exists>sl'. zskiplist_insert sl m sc = Some sl' \<and> sl_inv sl'
    \<and> set (sl_entries sl') = insert (m, sc) (set (sl_entries sl))"
proof -
  from assms(1) obtain as where rep: "sl_rep sl as" by (auto simp: sl_inv_def)
  from sl_partition[OF sl_repD(5)[OF rep] assms(2)] obtain lo hi where
    s: "as = lo @ hi" "\<forall>a \<in> set lo. before_key (sl_nodes sl) sc m a"
      "\<forall>a \<in> set hi. \<not> before_key (sl_nodes sl) sc m a" by blast
  from zskiplist_insert_rep[OF rep[unfolded s(1)] assms(2) s(2,3) assms(3)] obtain sl' where
    "zskiplist_insert sl m sc = Some sl'" "sl_rep sl' (lo @ length (sl_nodes sl) # hi)"
    "sl_entries sl' = map (ent (sl_nodes sl)) lo @ (m, sc) # map (ent (sl_nodes sl)) hi"
    using sl_entries_rep by metis
  then show ?thesis using sl_entries_rep[OF rep] s(1) by (auto simp: sl_inv_def)
qed

lemma sl_delete_law:
  assumes "sl_inv sl" "(m, sc) \<in> set (sl_entries sl)"
  shows "\<exists>sl'. zskiplist_delete sl m sc = Some sl' \<and> sl_inv sl'
    \<and> set (sl_entries sl') = set (sl_entries sl) - {(m, sc)}"
proof -
  from assms(1) obtain as where rep: "sl_rep sl as" by (auto simp: sl_inv_def)
  have E: "sl_entries sl = map (ent (sl_nodes sl)) as" using rep by (rule sl_entries_rep)
  with assms(2) obtain x where "x \<in> set as" "ent (sl_nodes sl) x = (m, sc)" by auto
  then obtain lo hi where s: "as = lo @ x # hi" and x: "ent (sl_nodes sl) x = (m, sc)"
    by (meson split_list)
  from zskiplist_delete_rep[OF rep[unfolded s] x] obtain sl' where
    sl': "zskiplist_delete sl m sc = Some sl'" "sl_rep sl' (lo @ hi)"
    "sl_entries sl' = map (ent (sl_nodes sl)) (lo @ hi)"
    using sl_entries_rep by metis
  have "zsorted (map (ent (sl_nodes sl)) lo @ (m, sc) # map (ent (sl_nodes sl)) hi)"
    using sl_repD(5)[OF rep] s x by simp
  then have "(m, sc) \<notin> set (map (ent (sl_nodes sl)) (lo @ hi))"
    by (fastforce simp: zsorted_def sorted_wrt_append)
  with sl' E s x show ?thesis by (auto simp: sl_inv_def)
qed

lemma sl_rank_law:
  assumes "sl_inv sl" "0 \<le> lo" "lo \<le> hi" "hi < int (length (sl_entries sl))"
  shows "zskiplist_eachInRank sl lo hi = take (nat (hi - lo + 1)) (drop (nat lo) (sl_entries sl))"
proof -
  from assms(1) obtain as where rep: "sl_rep sl as" by (auto simp: sl_inv_def)
  note R = sl_repD[OF rep]
  have E: "sl_entries sl = map (ent (sl_nodes sl)) as" using rep by (rule sl_entries_rep)
  have n: "nat lo \<le> length as" "nat (hi - lo + 1) \<le> length (drop (nat lo) as)"
    using assms(2-4) E by auto
  from sl_skip_linked[OF R(4,9) n(1)] obtain y where
    y: "sl_skip (sl_nodes sl) (nxt (sl_nodes sl) 0 0) (nat lo) = nxt (sl_nodes sl) 0 y"
      "linked (sl_nodes sl) (y # drop (nat lo) as)"
      "\<forall>a \<in> set (y # drop (nat lo) as). 0 < lev (sl_nodes sl) a" by blast
  from sl_collect_linked[OF y(2,3) n(2)] show ?thesis
    by (simp add: zskiplist_eachInRank_def y(1) E drop_map)
qed

interpretation sk: ordered_index sl_inv sl_entries zskiplist_insert zskiplist_delete
  zskiplist_eachInRank
proof
  fix s assume "sl_inv s"
  then show "zsorted (sl_entries s)" using sl_repD(5) sl_entries_rep by (auto simp: sl_inv_def)
qed (use sl_insert_law sl_delete_law sl_rank_law in blast)+

text \<open>A strictly sorted list is determined by its elements.\<close>

lemma zsorted_unique:
  assumes "zsorted xs" "zsorted ys" "set xs = set ys"
  shows "xs = ys"
proof -
  have k: "sorted_wrt (<) (map zkey xs)" "sorted_wrt (<) (map zkey ys)"
    using assms(1,2) by (simp_all add: zsorted_def)
  then have "map zkey xs = map zkey ys" using assms(3) by (intro strict_sorted_equal) simp_all
  moreover have "inj_on zkey (set xs \<union> set ys)"
    using k(1) assms(3) by (simp add: strict_sorted_iff distinct_map)
  ultimately show ?thesis by (rule map_inj_on)
qed

end
