(* ===== verification/ZSetValue.thy ===== *)
theory ZSetValue
  imports SkipList
begin

text \<open>
  The sorted set of \<open>internal/value/zset.go\<close>: a pack of members with their scores as eight
  raw bytes, kept in score order, that turns into a member-to-score map beside a skip list
  once it crosses its thresholds. The locale \<open>scored_set\<close> is what the sorted-set commands
  and the codec rely on. A new score is stored up to float equality: a promoted set whose
  member already has an equal score keeps the old bits (\<open>old != score\<close> is false for 0 and
  -0), a compact one replaces them.
\<close>

section \<open>The packed representation\<close>

definition packAppendZ :: "bytes \<Rightarrow> bytes \<Rightarrow> float64 \<Rightarrow> bytes" where
  "packAppendZ buf member score = packAppend buf member @ putUint64 score"

text \<open>\<open>scanZPairs\<close>, with the callback's captured variables as the state \<open>s\<close>.\<close>

partial_function (option) scanZPairs ::
  "(bytes \<Rightarrow> float64 \<Rightarrow> 's \<Rightarrow> 's \<times> bool) \<Rightarrow> bytes \<Rightarrow> 's \<Rightarrow> 's option" where
  "scanZPairs fn buf s =
     (if buf = [] then Some s
      else (case uvarint buf of
        (n, w) \<Rightarrow>
          if w < 0 then None
          else if n > length (drop (nat w) buf) then None
          else if length (drop n (drop (nat w) buf)) < 8 then None
          else (case fn (take n (drop (nat w) buf))
                    (getUint64 (take 8 (drop n (drop (nat w) buf)))) s of
            (s', cont) \<Rightarrow>
              if cont then scanZPairs fn (drop 8 (drop n (drop (nat w) buf))) s' else Some s')))"

section \<open>The promoted representation (fullZSet)\<close>

record fullZSet =
  fz_scores :: "(bytes, float64) gomap"
  fz_order :: zskiplist

definition newFullZSet :: "(nat \<Rightarrow> bool) \<Rightarrow> fullZSet" where
  "newFullZSet draws = \<lparr>fz_scores = [], fz_order = newZskiplist draws\<rparr>"

definition fullZSet_add :: "fullZSet \<Rightarrow> bytes \<Rightarrow> float64 \<Rightarrow> (fullZSet \<times> bool) option" where
  "fullZSet_add z m score =
     (case map_of (fz_scores z) m of
        Some old \<Rightarrow>
          if \<not> f64_eq old score then do {
            o1 \<leftarrow> zskiplist_delete (fz_order z) m old;
            o2 \<leftarrow> zskiplist_insert o1 m score;
            Some (z\<lparr>fz_order := o2, fz_scores := AList.update m score (fz_scores z)\<rparr>, False) }
          else Some (z, False)
      | None \<Rightarrow> do {
          let scores = AList.update m score (fz_scores z);
          o1 \<leftarrow> zskiplist_insert (fz_order z) m score;
          Some (z\<lparr>fz_scores := scores, fz_order := o1\<rparr>, True) })"

definition fullZSet_score :: "fullZSet \<Rightarrow> bytes \<Rightarrow> float64 option" where
  "fullZSet_score z m = map_of (fz_scores z) m"

definition fullZSet_rangeByRank :: "fullZSet \<Rightarrow> int \<Rightarrow> int \<Rightarrow> (bytes \<times> float64) list" where
  "fullZSet_rangeByRank z lo hi = zskiplist_eachInRank (fz_order z) lo hi"

section \<open>The sorted-set type\<close>

record mcZSet =
  z_pack :: bytes
  z_count :: int
  z_full :: "fullZSet option"
  z_max :: Thresholds
  z_draws :: "nat \<Rightarrow> bool" \<comment> \<open>the random draws a later promotion will see\<close>

definition NewZSet :: "(nat \<Rightarrow> bool) \<Rightarrow> Thresholds \<Rightarrow> mcZSet" where
  "NewZSet draws mx = \<lparr>z_pack = [], z_count = 0, z_full = None, z_max = mx, z_draws = draws\<rparr>"

definition ZSet_Compact :: "mcZSet \<Rightarrow> bool" where
  "ZSet_Compact z \<longleftrightarrow> z_full z = None"

definition ZSet_Len :: "mcZSet \<Rightarrow> int" where
  "ZSet_Len z = (case z_full z of Some f \<Rightarrow> int (length (fz_scores f)) | None \<Rightarrow> z_count z)"

definition zentry_less :: "bytes \<times> float64 \<Rightarrow> bytes \<times> float64 \<Rightarrow> bool" where
  "zentry_less a b = zskipLess (snd a) (fst a) (snd b) (fst b)"

definition ZSet_compactAdd :: "mcZSet \<Rightarrow> bytes \<Rightarrow> float64 \<Rightarrow> (mcZSet \<times> bool) option" where
  "ZSet_compactAdd z member score = do {
     (found, entries) \<leftarrow>
       scanZPairs
         (\<lambda>m s (found, entries).
            if m = member then ((True, entries @ [(member, score)]), True)
            else ((found, entries @ [(m, s)]), True))
         (z_pack z) (False, []);
     let entries1 = (if \<not> found then entries @ [(member, score)] else entries);
     let count1 = (if \<not> found then z_count z + 1 else z_count z);
     let rebuilt = foldl (\<lambda>buf (m, s). packAppendZ buf m s) [] (sortSlice zentry_less entries1);
     Some (z\<lparr>z_pack := rebuilt, z_count := count1\<rparr>, \<not> found) }"

definition ZSet_promote :: "mcZSet \<Rightarrow> mcZSet option" where
  "ZSet_promote z = do {
     full \<leftarrow> scanZPairs
       (\<lambda>m s full. (Option.bind full (\<lambda>f. map_option fst (fullZSet_add f m s)), True))
       (z_pack z) (Some (newFullZSet (z_draws z)));
     f \<leftarrow> full;
     Some (z\<lparr>z_full := Some f, z_pack := [], z_count := 0\<rparr>) }"

definition ZSet_Add :: "mcZSet \<Rightarrow> bytes \<Rightarrow> float64 \<Rightarrow> (mcZSet \<times> bool) option" where
  "ZSet_Add z member score =
     (case z_full z of
        Some f \<Rightarrow> do {
          (f', b) \<leftarrow> fullZSet_add f member score;
          Some (z\<lparr>z_full := Some f'\<rparr>, b) }
      | None \<Rightarrow> do {
          (z1, added) \<leftarrow> ZSet_compactAdd z member score;
          z2 \<leftarrow> (if exceeded (z_max z1) (z_count z1) (int (length member))
                 then ZSet_promote z1 else Some z1);
          Some (z2, added) })"

definition ZSet_Score :: "mcZSet \<Rightarrow> bytes \<Rightarrow> float64 option option" where
  "ZSet_Score z member =
     (case z_full z of
        Some f \<Rightarrow> Some (fullZSet_score f member)
      | None \<Rightarrow>
          scanZPairs (\<lambda>m s out. if m = member then (Some s, False) else (out, True))
            (z_pack z) None)"

definition ZSet_Range :: "mcZSet \<Rightarrow> int \<Rightarrow> int \<Rightarrow> (bytes \<times> float64) list option" where
  "ZSet_Range z start stop =
     (case normalizeRange start stop (ZSet_Len z) of
        None \<Rightarrow> Some []
      | Some (lo, hi) \<Rightarrow>
          (case z_full z of
             Some f \<Rightarrow> Some (fullZSet_rangeByRank f lo hi)
           | None \<Rightarrow>
               map_option snd
                 (scanZPairs
                   (\<lambda>m s (i, out).
                      ((i + 1, if i \<ge> lo then out @ [(m, s)] else out), i + 1 \<le> hi))
                   (z_pack z) (0, []))))"

section \<open>The scored-set contract\<close>

text \<open>Scores as float comparison sees them.\<close>

definition score_keys :: "(bytes \<rightharpoonup> float64) \<Rightarrow> (bytes \<rightharpoonup> int)" where
  "score_keys f m = map_option f64_key (f m)"

locale scored_set =
  fixes inv :: "'s \<Rightarrow> bool"
    and entries :: "'s \<Rightarrow> (bytes \<times> float64) list"
    and add :: "'s \<Rightarrow> bytes \<Rightarrow> float64 \<Rightarrow> ('s \<times> bool) option"
    and score :: "'s \<Rightarrow> bytes \<Rightarrow> float64 option option"
    and range_rank :: "'s \<Rightarrow> int \<Rightarrow> int \<Rightarrow> (bytes \<times> float64) list option"
    and len :: "'s \<Rightarrow> int"
  assumes sorted: "inv s \<Longrightarrow> zsorted (entries s)"
    and members_distinct: "inv s \<Longrightarrow> distinct (map fst (entries s))"
    and add: "inv s \<Longrightarrow> slice_ok m \<Longrightarrow> \<not> f64_isNaN sc \<Longrightarrow>
      \<exists>s' sc'. add s m sc = Some (s', m \<notin> fst ` set (entries s)) \<and> inv s' \<and> f64_eq sc' sc
        \<and> map_of (entries s') = (map_of (entries s))(m \<mapsto> sc')
        \<and> (m \<notin> fst ` set (entries s) \<longrightarrow> sc' = sc)"
    and score: "inv s \<Longrightarrow> score s m = Some (map_of (entries s) m)"
    and range_rank: "inv s \<Longrightarrow> range_rank s a b = Some (slice_of a b (entries s))"
    and len: "inv s \<Longrightarrow> len s = int (length (entries s))"
begin

lemma len_zero: "inv s \<Longrightarrow> len s = 0 \<longleftrightarrow> entries s = []"
  by (simp add: len)

lemma len_card: "inv s \<Longrightarrow> len s = int (card (dom (map_of (entries s))))"
  using members_distinct[of s] gomap_length_card[of "entries s"] by (simp add: len gomap_ok_def)

text \<open>The loop of \<open>ZADD\<close>: the last score given for a member is the one it has, the others
  keep theirs, and the count is the number of new members.\<close>

lemma add_all:
  assumes "inv s" "\<forall>(m, sc) \<in> set ps. slice_ok m \<and> \<not> f64_isNaN sc"
  shows "\<exists>s'. foldCount (\<lambda>s (m, sc). add s m sc) (s, n) ps = Some (s', n + (len s' - len s))
    \<and> inv s'
    \<and> score_keys (map_of (entries s')) = score_keys (map_of (entries s) ++ map_of (rev ps))"
  using assms
proof (induction ps arbitrary: s n)
  case (Cons p ps)
  obtain m sc where p: "p = (m, sc)" by (cases p)
  with Cons.prems add[of s m sc] obtain s1 sc' where
    1: "add s m sc = Some (s1, m \<notin> fst ` set (entries s))" "inv s1" "f64_eq sc' sc"
      "map_of (entries s1) = (map_of (entries s))(m \<mapsto> sc')" by auto
  let ?b = "m \<notin> fst ` set (entries s)"
  have c: "len s1 = len s + (if ?b then 1 else 0)"
    unfolding len_card[OF 1(2)] len_card[OF Cons.prems(1)] 1(4)
    by (auto simp: card_insert_if finite_dom_map_of dom_map_of_conv_image_fst)
  obtain s2 where 2: "foldCount (\<lambda>s (m, sc). add s m sc) (s1, if ?b then n + 1 else n) ps =
      Some (s2, (if ?b then n + 1 else n) + (len s2 - len s1))" "inv s2"
    "score_keys (map_of (entries s2)) = score_keys (map_of (entries s1) ++ map_of (rev ps))"
    using Cons.IH[OF 1(2), of "if ?b then n + 1 else n"] Cons.prems(2) by auto
  have "score_keys (map_of (entries s2)) = score_keys (map_of (entries s) ++ map_of (rev (p # ps)))"
    unfolding 2(3) using 1(3)
    by (auto simp: 1(4) p fun_eq_iff score_keys_def map_add_def f64_eq_def split: option.splits)
  moreover have "(if ?b then n + 1 else n) + (len s2 - len s1) = n + (len s2 - len s)"
    by (simp add: c)
  ultimately show ?case using 1(1) 2(1,2) p by auto
qed simp

text \<open>Filling an empty set with the entries of a sorted one reproduces them exactly.\<close>

lemma add_fresh:
  assumes "inv s" "\<forall>(m, sc) \<in> set ps. slice_ok m \<and> \<not> f64_isNaN sc" "distinct (map fst ps)"
    "fst ` set ps \<inter> fst ` set (entries s) = {}"
  shows "\<exists>s'. foldM (\<lambda>s (m, sc). map_option fst (add s m sc)) s ps = Some s' \<and> inv s'
    \<and> map_of (entries s') = map_of (entries s) ++ map_of ps"
  using assms
proof (induction ps arbitrary: s)
  case (Cons p ps)
  obtain m sc where p: "p = (m, sc)" by (cases p)
  with Cons.prems add[of s m sc] obtain s1 where
    1: "add s m sc = Some (s1, True)" "inv s1" "map_of (entries s1) = (map_of (entries s))(m \<mapsto> sc)" by auto
  have "fst ` set (entries s1) = insert m (fst ` set (entries s))"
    using arg_cong[OF 1(3), of dom] by (simp add: dom_map_of_conv_image_fst)
  with Cons.IH[OF 1(2)] Cons.prems(2-4) p obtain s2 where
    2: "foldM (\<lambda>s (m, sc). map_option fst (add s m sc)) s1 ps = Some s2" "inv s2"
      "map_of (entries s2) = map_of (entries s1) ++ map_of ps" by auto
  have "m \<notin> dom (map_of ps)" using Cons.prems(3) p by (simp add: dom_map_of_conv_image_fst)
  then have "map_of (entries s2) = map_of (entries s) ++ map_of (p # ps)"
    by (auto simp: 2(3) 1(3) p map_add_upd_left)
  moreover have "foldM (\<lambda>s (m, sc). map_option fst (add s m sc)) s (p # ps) = Some s2"
    using 1(1) 2(1) p by simp
  ultimately show ?case using 2(2) by blast
qed (simp add: map_add_def)

lemma add_sorted:
  assumes "inv s" "entries s = []" "zsorted es" "distinct (map fst es)" "\<forall>e \<in> set es. slice_ok (fst e)"
  shows "\<exists>s'. foldM (\<lambda>s (m, sc). map_option fst (add s m sc)) s es = Some s' \<and> inv s' \<and> entries s' = es"
proof -
  have "\<forall>(m, sc) \<in> set es. slice_ok m \<and> \<not> f64_isNaN sc" using assms(3,5) by (auto simp: zsorted_def)
  from add_fresh[OF assms(1) this assms(4)] assms(2) obtain s' where
    s': "foldM (\<lambda>s (m, sc). map_option fst (add s m sc)) s es = Some s'" "inv s'" "map_of (entries s') = map_of es"
    by auto
  have "set (entries s') = set es"
    using s'(3) members_distinct[OF s'(2)] assms(4) by (metis map_of_inject_set)
  with zsorted_unique[OF sorted[OF s'(2)] assms(3)] s' show ?thesis by auto
qed

end

section \<open>The sorted-set type implements the contract\<close>

definition zpack_elem :: "bytes \<times> float64 \<Rightarrow> bytes" where
  "zpack_elem e = pack_elem (fst e) @ putUint64 (snd e)"

definition zpack_of :: "(bytes \<times> float64) list \<Rightarrow> bytes" where
  "zpack_of es = concat (map zpack_elem es)"

lemma zpack_of_simps [simp]:
  "zpack_of [] = []" "zpack_of (e # es) = zpack_elem e @ zpack_of es"
  "zpack_of (es @ es') = zpack_of es @ zpack_of es'"
  by (simp_all add: zpack_of_def)

lemma packAppendZ_zpack_of: "packAppendZ (zpack_of es) m sc = zpack_of (es @ [(m, sc)])"
  by (simp add: packAppendZ_def packAppend_def zpack_elem_def pack_elem_def)

lemma foldl_packAppendZ:
  "foldl (\<lambda>buf (m, s). packAppendZ buf m s) (zpack_of acc) es = zpack_of (acc @ es)"
proof (induction es arbitrary: acc)
  case (Cons e es)
  from Cons.IH[of "acc @ [e]"] show ?case
    by (cases e) (simp add: packAppendZ_zpack_of del: zpack_of_simps(3))
qed simp

lemma scanZPairs_elem:
  assumes "slice_ok (fst e)"
  shows "scanZPairs fn (zpack_elem e @ rest) s =
    (case fn (fst e) (snd e) s of (s', cont) \<Rightarrow> if cont then scanZPairs fn rest s' else Some s')"
proof -
  define buf where "buf = zpack_elem e @ rest"
  have d: "drop (length (putUvarint (length (fst e)))) buf = fst e @ putUint64 (snd e) @ rest"
    by (simp add: buf_def zpack_elem_def pack_elem_def)
  have u: "uvarint buf = (length (fst e), int (length (putUvarint (length (fst e)))))"
    using uvarint_pack_elem[OF assms, of "putUint64 (snd e) @ rest"]
    by (simp add: buf_def zpack_elem_def)
  have n: "buf \<noteq> []" by (simp add: buf_def zpack_elem_def)
  have "scanZPairs fn buf s =
    (case fn (fst e) (snd e) s of (s', cont) \<Rightarrow> if cont then scanZPairs fn rest s' else Some s')"
    by (subst scanZPairs.simps) (simp add: n u d del: drop_drop split: prod.split)
  then show ?thesis by (simp add: buf_def)
qed

lemma scanZPairs_zpack_of:
  "\<forall>e \<in> set es. slice_ok (fst e) \<Longrightarrow>
   scanZPairs fn (zpack_of es) s = Some (each (\<lambda>e. fn (fst e) (snd e)) es s)"
  by (induction es arbitrary: s)
     (auto simp: scanZPairs.simps[of _ "[]"] scanZPairs_elem split: prod.splits)

definition fullZ_rep :: "fullZSet \<Rightarrow> (bytes \<times> float64) list \<Rightarrow> bool" where
  "fullZ_rep f es \<longleftrightarrow>
     gomap_ok (fz_scores f) \<and> sl_inv (fz_order f) \<and> sl_entries (fz_order f) = es
     \<and> distinct (map fst es) \<and> map_of (fz_scores f) = map_of es"

definition zset_rep :: "mcZSet \<Rightarrow> (bytes \<times> float64) list \<Rightarrow> bool" where
  "zset_rep z es \<longleftrightarrow>
     zsorted es \<and> distinct (map fst es) \<and> (\<forall>e \<in> set es. slice_ok (fst e))
     \<and> (case z_full z of
          None \<Rightarrow> z_pack z = zpack_of es \<and> z_count z = int (length es)
            \<and> fits (z_max z) (map fst es) (length es)
        | Some f \<Rightarrow> z_pack z = [] \<and> z_count z = 0 \<and> fullZ_rep f es)"

definition zset_inv :: "mcZSet \<Rightarrow> bool" where
  "zset_inv z \<longleftrightarrow> (\<exists>es. zset_rep z es)"

definition zset_entries :: "mcZSet \<Rightarrow> (bytes \<times> float64) list" where
  "zset_entries z =
     (case z_full z of
        None \<Rightarrow> the (scanZPairs (\<lambda>m s out. (out @ [(m, s)], True)) (z_pack z) [])
      | Some f \<Rightarrow> sl_entries (fz_order f))"

lemma zset_entries_rep: "zset_rep z es \<Longrightarrow> zset_entries z = es"
  using each_collect[where f = "\<lambda>e. (fst e, snd e)" and xs = es and s = "[]"]
  by (auto simp: zset_rep_def zset_entries_def fullZ_rep_def scanZPairs_zpack_of split: option.splits)

subsection \<open>The promoted form\<close>

lemma map_of_eq_set:
  assumes "distinct (map fst es)" "distinct (map fst es')" "map_of es = map_of es'"
  shows "set es = set es'"
  using assms by (metis map_of_inject_set)

lemma newFullZSet_rep: "fullZ_rep (newFullZSet draws) []"
  by (simp add: fullZ_rep_def newFullZSet_def newZskiplist_empty)

lemma distinct_fst_set:
  assumes "zsorted es" "inj_on fst (set es)"
  shows "distinct (map fst es)"
proof -
  have "distinct (map zkey es)" using assms(1) by (auto simp: zsorted_def strict_sorted_iff)
  then have "distinct es" by (simp add: distinct_map)
  with assms(2) show ?thesis by (simp add: distinct_map)
qed

lemma fullZ_rep_sorted: "fullZ_rep f es \<Longrightarrow> zsorted es"
  using sk.sorted by (auto simp: fullZ_rep_def)

text \<open>What the skip list holds after a change, as a map.\<close>

lemma entries_update:
  assumes "distinct (map fst es)" "zsorted es'"
    "set es' = insert (m, sc) (set es - {e. fst e = m})"
  shows "distinct (map fst es')" "map_of es' = (map_of es)(m \<mapsto> sc)"
proof -
  have i: "inj_on fst (set es)" using assms(1) by (simp add: distinct_map)
  then have "inj_on fst (set es')" unfolding assms(3) by (auto simp: inj_on_def)
  with assms(2) show d: "distinct (map fst es')" by (rule distinct_fst_set)
  show "map_of es' = (map_of es)(m \<mapsto> sc)"
  proof
    fix k
    have "map_of es' k = Some v \<longleftrightarrow> (k, v) \<in> set es'" "map_of es k = Some v \<longleftrightarrow> (k, v) \<in> set es" for v
      using assms(1) d by simp_all
    then have "map_of es' k = Some v \<longleftrightarrow> ((map_of es)(m \<mapsto> sc)) k = Some v" for v
      using assms(3) by auto
    then show "map_of es' k = ((map_of es)(m \<mapsto> sc)) k" by (metis not_None_eq)
  qed
qed

lemma fullZSet_add_new:
  assumes rep: "fullZ_rep f es" and nan: "\<not> f64_isNaN sc" and m: "m \<notin> fst ` set es"
  shows "\<exists>f' es'. fullZSet_add f m sc = Some (f', True) \<and> fullZ_rep f' es'
    \<and> set es' = insert (m, sc) (set es) \<and> map_of es' = (map_of es)(m \<mapsto> sc)"
proof -
  have "zkey (m, sc) \<notin> zkey ` set (sl_entries (fz_order f))"
    using rep m by (auto simp: fullZ_rep_def zkey_def image_iff)
  with sk.ins[OF _ nan, of "fz_order f" m] rep obtain o1 where
    o1: "zskiplist_insert (fz_order f) m sc = Some o1" "sl_inv o1"
      "set (sl_entries o1) = insert (m, sc) (set es)" by (auto simp: fullZ_rep_def)
  have "set (sl_entries o1) = insert (m, sc) (set es - {e. fst e = m})" using m o1(3) by force
  with entries_update[OF _ sk.sorted[OF o1(2)] this] rep
  have "distinct (map fst (sl_entries o1))" "map_of (sl_entries o1) = (map_of es)(m \<mapsto> sc)"
    by (auto simp: fullZ_rep_def)
  moreover have "map_of (fz_scores f) m = None"
    using rep m by (simp add: fullZ_rep_def map_of_eq_None_notin)
  ultimately show ?thesis using o1 rep
    by (intro exI[of _ "f\<lparr>fz_scores := AList.update m sc (fz_scores f), fz_order := o1\<rparr>"]
        exI[of _ "sl_entries o1"])
       (auto simp: fullZSet_add_def fullZ_rep_def)
qed

lemma fullZSet_add_rep:
  assumes rep: "fullZ_rep f es" and nan: "\<not> f64_isNaN sc"
  shows "\<exists>f' es' sc'. fullZSet_add f m sc = Some (f', m \<notin> fst ` set es) \<and> fullZ_rep f' es'
    \<and> f64_eq sc' sc \<and> map_of es' = (map_of es)(m \<mapsto> sc') \<and> (m \<notin> fst ` set es \<longrightarrow> sc' = sc)"
proof (cases "map_of es m")
  case None
  then have "m \<notin> fst ` set es" by (simp add: map_of_eq_None_notin)
  with fullZSet_add_new[OF rep nan this] nan show ?thesis by (force simp: f64_eq_def)
next
  case (Some old)
  then have mem: "(m, old) \<in> set (sl_entries (fz_order f))" "m \<in> fst ` set es"
    using rep by (auto simp: fullZ_rep_def dest: map_of_SomeD intro: rev_image_eqI)
  show ?thesis
  proof (cases "f64_eq old sc")
    case True
    with Some rep mem show ?thesis
      by (intro exI[of _ f] exI[of _ es] exI[of _ old])
         (auto simp: fullZSet_add_def fullZ_rep_def fun_upd_idem)
  next
    case False
    have u: "\<forall>(m', sc') \<in> set (sl_entries (fz_order f)). m' = m \<longrightarrow> sc' = old"
      using mem(1) rep by (auto simp: fullZ_rep_def dest: eq_key_imp_eq_value)
    from sk.move[OF _ mem(1) nan u] rep obtain o1 o2 where
      o2: "zskiplist_delete (fz_order f) m old = Some o1" "zskiplist_insert o1 m sc = Some o2"
        "sl_inv o2" "set (sl_entries o2) = insert (m, sc) (set es - {(m, old)})"
      by (auto simp: fullZ_rep_def)
    have "set (sl_entries o2) = insert (m, sc) (set es - {e. fst e = m})"
      using u rep unfolding o2(4) by (fastforce simp: fullZ_rep_def)
    with entries_update[OF _ sk.sorted[OF o2(3)] this] rep
    have "distinct (map fst (sl_entries o2))" "map_of (sl_entries o2) = (map_of es)(m \<mapsto> sc)"
      by (auto simp: fullZ_rep_def)
    with Some False o2 mem rep nan show ?thesis
      by (intro exI[of _ "f\<lparr>fz_order := o2, fz_scores := AList.update m sc (fz_scores f)\<rparr>"]
          exI[of _ "sl_entries o2"] exI[of _ sc])
         (auto simp: fullZSet_add_def fullZ_rep_def f64_eq_def)
  qed
qed

subsection \<open>The packed form\<close>

definition zput :: "bytes \<Rightarrow> float64 \<Rightarrow> bytes \<times> float64 \<Rightarrow> bytes \<times> float64" where
  "zput m sc e = (if fst e = m then (m, sc) else e)"

definition zreplace :: "(bytes \<times> float64) list \<Rightarrow> bytes \<Rightarrow> float64 \<Rightarrow> (bytes \<times> float64) list" where
  "zreplace es m sc = map (zput m sc) es @ (if m \<in> fst ` set es then [] else [(m, sc)])"

lemma each_compactAdd:
  "each (\<lambda>e (found, entries).
       if fst e = m then ((True, entries @ [(m, sc)]), True)
       else ((found, entries @ [(fst e, snd e)]), True)) es (b, acc) =
   (b \<or> m \<in> fst ` set es, acc @ map (zput m sc) es)"
  by (induction es arbitrary: b acc) (auto simp: zput_def)

lemma fst_zreplace: "map fst (zreplace es m sc) = map fst es @ (if m \<in> fst ` set es then [] else [m])"
  by (auto simp: zreplace_def zput_def)

lemma set_zreplace: "set (zreplace es m sc) = insert (m, sc) (set es - {e. fst e = m})"
proof -
  have "zput m sc ` set es = set es - {e. fst e = m} \<union> (if m \<in> fst ` set es then {(m, sc)} else {})"
    by (auto simp: zput_def image_iff split: if_splits)
  then show ?thesis by (simp add: zreplace_def)
qed

lemma sortSlice_zsorted:
  assumes "distinct (map fst es)" "\<forall>e \<in> set es. \<not> f64_isNaN (snd e)"
  shows "zsorted (sortSlice zentry_less es)"
proof -
  have "distinct (map zkey es)"
    using assms(1) by (auto simp: distinct_map zkey_def inj_on_def)
  then have "sorted_wrt (\<lambda>a b. zkey a < zkey b) (sortSlice zentry_less es)"
    using assms(2) by (intro sortSlice_sorted) (auto simp: zentry_less_def zskipLess_zkey)
  with assms(2) show ?thesis by (simp add: zsorted_def sorted_wrt_map)
qed

lemma ZSet_compactAdd_rep:
  assumes rep: "zset_rep z es" and full: "z_full z = None" and m: "slice_ok m" "\<not> f64_isNaN sc"
  defines "es' \<equiv> sortSlice zentry_less (zreplace es m sc)"
  shows "\<exists>z'. ZSet_compactAdd z m sc = Some (z', m \<notin> fst ` set es)
    \<and> z_full z' = None \<and> z_max z' = z_max z \<and> z_pack z' = zpack_of es' \<and> z_count z' = int (length es')
    \<and> zsorted es' \<and> distinct (map fst es') \<and> (\<forall>e \<in> set es'. slice_ok (fst e))
    \<and> map_of es' = (map_of es)(m \<mapsto> sc) \<and> length es' = length (zreplace es m sc)"
proof -
  have R: "zsorted es" "distinct (map fst es)" "\<forall>e \<in> set es. slice_ok (fst e)"
    "z_pack z = zpack_of es" "z_count z = int (length es)"
    using rep full by (auto simp: zset_rep_def)
  have d: "distinct (map fst (zreplace es m sc))" using R(2) by (auto simp: fst_zreplace)
  have nn: "\<forall>e \<in> set (zreplace es m sc). \<not> f64_isNaN (snd e)"
    using R(1) m(2) by (auto simp: set_zreplace zsorted_def)
  have zs: "zsorted es'" unfolding es'_def using d nn by (rule sortSlice_zsorted)
  have st: "set es' = insert (m, sc) (set es - {e. fst e = m})"
    by (simp add: es'_def set_zreplace)
  have "ZSet_compactAdd z m sc =
      Some (z\<lparr>z_pack := zpack_of es', z_count := int (length es')\<rparr>, m \<notin> fst ` set es)"
    using each_compactAdd[of m sc es False "[]"] foldl_packAppendZ[of "[]" es'] R(3-5)
    by (cases "m \<in> fst ` set es")
       (simp_all add: ZSet_compactAdd_def scanZPairs_zpack_of es'_def zreplace_def)
  moreover have "\<forall>e \<in> set es'. slice_ok (fst e)" using R(3) m(1) by (auto simp: st)
  ultimately show ?thesis
    using full zs entries_update[OF R(2) zs st] by (auto simp: es'_def)
qed

lemma promote_fold:
  assumes "fullZ_rep f acc" "distinct (map fst (acc @ es))" "\<forall>e \<in> set es. \<not> f64_isNaN (snd e)"
  shows "\<exists>f' es'. each (\<lambda>e full. (Option.bind full (\<lambda>f. map_option fst (fullZSet_add f (fst e) (snd e))), True))
      es (Some f) = Some f' \<and> fullZ_rep f' es' \<and> set es' = set acc \<union> set es"
  using assms
proof (induction es arbitrary: f acc)
  case (Cons e es)
  from fullZSet_add_new[OF Cons.prems(1), of "snd e" "fst e"] Cons.prems(2,3) obtain f1 es1 where
    1: "fullZSet_add f (fst e) (snd e) = Some (f1, True)" "fullZ_rep f1 es1"
      "set es1 = insert e (set acc)" by auto
  have "distinct (map fst (es1 @ es))"
    using Cons.prems(2) 1(2) by (auto simp: 1(3) fullZ_rep_def)
  from Cons.IH[OF 1(2) this] Cons.prems(3) 1(1,3) show ?case by auto
qed auto

lemma ZSet_promote_rep:
  assumes "z_pack z = zpack_of es" "zsorted es" "distinct (map fst es)" "\<forall>e \<in> set es. slice_ok (fst e)"
  shows "\<exists>z'. ZSet_promote z = Some z' \<and> zset_rep z' es"
proof -
  from promote_fold[OF newFullZSet_rep, of es "z_draws z"] assms(2,3) obtain f es' where
    f: "each (\<lambda>e full. (Option.bind full (\<lambda>f. map_option fst (fullZSet_add f (fst e) (snd e))), True))
      es (Some (newFullZSet (z_draws z))) = Some f" "fullZ_rep f es'" "set es' = set es"
    by (auto simp: zsorted_def)
  have "es' = es" using fullZ_rep_sorted[OF f(2)] assms(2) f(3) by (rule zsorted_unique)
  with f assms show ?thesis
    by (auto simp: ZSet_promote_def scanZPairs_zpack_of zset_rep_def)
qed

lemma ZSet_Add_rep:
  assumes rep: "zset_rep z es" and m: "slice_ok m" "\<not> f64_isNaN sc"
  shows "\<exists>z' es' sc'. ZSet_Add z m sc = Some (z', m \<notin> fst ` set es) \<and> zset_rep z' es'
    \<and> f64_eq sc' sc \<and> map_of es' = (map_of es)(m \<mapsto> sc') \<and> (m \<notin> fst ` set es \<longrightarrow> sc' = sc)"
proof (cases "z_full z")
  case (Some f)
  with rep have "fullZ_rep f es" by (simp add: zset_rep_def)
  from fullZSet_add_rep[OF this m(2), of m] obtain f' es' sc' where
    f': "fullZSet_add f m sc = Some (f', m \<notin> fst ` set es)" "fullZ_rep f' es'" "f64_eq sc' sc"
      "map_of es' = (map_of es)(m \<mapsto> sc')" "m \<notin> fst ` set es \<longrightarrow> sc' = sc" by blast
  have "fst ` set es' = insert m (fst ` set es)"
    using arg_cong[OF f'(4), of dom] by (simp add: dom_map_of_conv_image_fst)
  then have "\<forall>k \<in> fst ` set es'. slice_ok k" using rep m(1) by (simp add: zset_rep_def)
  then have "\<forall>e \<in> set es'. slice_ok (fst e)" by simp
  with f' Some rep fullZ_rep_sorted[OF f'(2)] show ?thesis
    by (intro exI[of _ "z\<lparr>z_full := Some f'\<rparr>"] exI[of _ es'] exI[of _ sc'])
       (auto simp: ZSet_Add_def zset_rep_def fullZ_rep_def)
next
  case None
  define es' where "es' = sortSlice zentry_less (zreplace es m sc)"
  from ZSet_compactAdd_rep[OF rep None m, folded es'_def] obtain z1 where
    z1: "ZSet_compactAdd z m sc = Some (z1, m \<notin> fst ` set es)" "z_full z1 = None"
      "z_max z1 = z_max z" "z_pack z1 = zpack_of es'" "z_count z1 = int (length es')"
      "zsorted es'" "distinct (map fst es')" "\<forall>e \<in> set es'. slice_ok (fst e)"
      "map_of es' = (map_of es)(m \<mapsto> sc)"
    by auto
  have fr: "fst ` set es' = insert m (fst ` set es)"
    by (auto simp: es'_def set_zreplace image_iff)
  have "\<not> exceeded (z_max z1) (z_count z1) (int (length m)) \<Longrightarrow> zset_rep z1 es'"
    using z1 rep None fr by (simp add: zset_rep_def fits_def exceeded_def not_less)
  with z1 None m(2) ZSet_promote_rep[OF z1(4,6-8)] show ?thesis
    by (cases "exceeded (z_max z1) (z_count z1) (int (length m))")
       (force simp: ZSet_Add_def f64_eq_def)+
qed

lemma each_find_entry:
  "distinct (map fst es) \<Longrightarrow>
   each (\<lambda>e out. if fst e = m then (Some (snd e), False) else (out, True)) es None = map_of es m"
  by (induction es) auto

interpretation zs: scored_set zset_inv zset_entries ZSet_Add ZSet_Score ZSet_Range ZSet_Len
proof
  fix s :: mcZSet and m sc a b
  assume "zset_inv s"
  then obtain es where rep: "zset_rep s es" by (auto simp: zset_inv_def)
  note E = zset_entries_rep[OF rep]
  have len: "ZSet_Len s = int (length es)"
    using rep gomap_length_card[of "fz_scores (the (z_full s))"] gomap_length_card[of es]
    by (auto simp: zset_rep_def ZSet_Len_def fullZ_rep_def gomap_ok_def split: option.splits)
  show "zsorted (zset_entries s)" "distinct (map fst (zset_entries s))"
    using rep by (simp_all add: E zset_rep_def)
  show "ZSet_Len s = int (length (zset_entries s))" using len E by simp
  show "\<exists>s' sc'. ZSet_Add s m sc = Some (s', m \<notin> fst ` set (zset_entries s)) \<and> zset_inv s'
      \<and> f64_eq sc' sc \<and> map_of (zset_entries s') = (map_of (zset_entries s))(m \<mapsto> sc')
      \<and> (m \<notin> fst ` set (zset_entries s) \<longrightarrow> sc' = sc)"
    if "slice_ok m" "\<not> f64_isNaN sc"
    using ZSet_Add_rep[OF rep that] zset_entries_rep E unfolding zset_inv_def by metis
  show "ZSet_Score s m = Some (map_of (zset_entries s) m)"
    using rep each_find_entry[of es m] unfolding E
    by (auto simp: ZSet_Score_def zset_rep_def fullZSet_score_def fullZ_rep_def scanZPairs_zpack_of
        split: option.splits)
  show "ZSet_Range s a b = Some (slice_of a b (zset_entries s))"
  proof (cases "normalizeRange a b (int (length es))")
    case (Some r)
    obtain lo hi where r: "r = (lo, hi)" by (cases r)
    note N = normalizeRange_Some[OF Some[unfolded r]]
    show ?thesis
    proof (cases "z_full s")
      case None
      then show ?thesis
        using Some r rep len each_range[of a b es lo hi "\<lambda>e. (fst e, snd e)"]
        by (simp add: ZSet_Range_def zset_rep_def scanZPairs_zpack_of E)
    next
      case full: (Some f)
      then show ?thesis
        using Some r rep len N sk.rank_range[of "fz_order f" lo hi]
        by (simp add: ZSet_Range_def zset_rep_def fullZSet_rangeByRank_def fullZ_rep_def E slice_of_def)
    qed
  qed (simp add: ZSet_Range_def len slice_of_def E)
qed

lemma zset_inv_New [simp]: "zset_inv (NewZSet draws mx)" "zset_entries (NewZSet draws mx) = []"
proof -
  have "zset_rep (NewZSet draws mx) []" by (simp add: zset_rep_def NewZSet_def zsorted_def fits_def)
  then show "zset_inv (NewZSet draws mx)" "zset_entries (NewZSet draws mx) = []"
    by (auto simp: zset_inv_def zset_entries_rep)
qed

end
