(* ===== verification/Value.thy ===== *)
theory Value
  imports ListValue HashValue SetValue ZSetValue
begin

text \<open>
  The tagged union of \<open>internal/value/value.go\<close> and \<open>internal/value/string.go\<close>. A
  \<open>Value\<close> has one live payload, selected by its kind; the accessors panic on another kind
  (\<open>None\<close>). \<open>value_ok\<close> is the representation invariant of the payload, \<open>abs_value\<close> the
  abstract data a value stands for, independent of its encoding.
\<close>

datatype Kind = KindNone | KindString | KindList | KindHash | KindSet | KindZSet

fun Kind_String :: "Kind \<Rightarrow> bytes" where
  "Kind_String KindNone = ''none''"
| "Kind_String KindString = ''string''"
| "Kind_String KindList = ''list''"
| "Kind_String KindHash = ''hash''"
| "Kind_String KindSet = ''set''"
| "Kind_String KindZSet = ''zset''"

datatype Value =
    ZeroValue
  | MakeString bytes
  | MakeList mcList
  | MakeHash mcHash
  | MakeSet mcSet
  | MakeZSet mcZSet

fun Value_Kind :: "Value \<Rightarrow> Kind" where
  "Value_Kind ZeroValue = KindNone"
| "Value_Kind (MakeString b) = KindString"
| "Value_Kind (MakeList l) = KindList"
| "Value_Kind (MakeHash h) = KindHash"
| "Value_Kind (MakeSet s) = KindSet"
| "Value_Kind (MakeZSet z) = KindZSet"

definition IsCollection :: "Value \<Rightarrow> bool" where
  "IsCollection v \<longleftrightarrow> Value_Kind v \<in> {KindList, KindHash, KindSet, KindZSet}"

fun Value_Str :: "Value \<Rightarrow> bytes option" where
  "Value_Str (MakeString b) = Some b"
| "Value_Str v = None"

fun Value_List :: "Value \<Rightarrow> mcList option" where
  "Value_List (MakeList l) = Some l"
| "Value_List v = None"

fun Value_Hash :: "Value \<Rightarrow> mcHash option" where
  "Value_Hash (MakeHash h) = Some h"
| "Value_Hash v = None"

fun Value_Set :: "Value \<Rightarrow> mcSet option" where
  "Value_Set (MakeSet s) = Some s"
| "Value_Set v = None"

fun Value_ZSet :: "Value \<Rightarrow> mcZSet option" where
  "Value_ZSet (MakeZSet z) = Some z"
| "Value_ZSet v = None"

section \<open>What a value stands for\<close>

datatype absValue =
    ANone
  | AString bytes
  | AList "bytes list"
  | AHash "bytes \<rightharpoonup> bytes"
  | ASet "bytes set"
  | AZSet "(bytes \<times> float64) list"

fun value_ok :: "Value \<Rightarrow> bool" where
  "value_ok ZeroValue = True"
| "value_ok (MakeString b) = slice_ok b"
| "value_ok (MakeList l) = list_inv l"
| "value_ok (MakeHash h) = hash_inv h"
| "value_ok (MakeSet s) = set_inv s"
| "value_ok (MakeZSet z) = zset_inv z"

fun abs_value :: "Value \<Rightarrow> absValue" where
  "abs_value ZeroValue = ANone"
| "abs_value (MakeString b) = AString b"
| "abs_value (MakeList l) = AList (list_elems l)"
| "abs_value (MakeHash h) = AHash (hash_fields h)"
| "abs_value (MakeSet s) = ASet (set_members s)"
| "abs_value (MakeZSet z) = AZSet (zset_entries z)"

text \<open>Each accessor succeeds exactly on its own kind.\<close>

lemma accessor_kind:
  "Value_Str v \<noteq> None \<longleftrightarrow> Value_Kind v = KindString"
  "Value_List v \<noteq> None \<longleftrightarrow> Value_Kind v = KindList"
  "Value_Hash v \<noteq> None \<longleftrightarrow> Value_Kind v = KindHash"
  "Value_Set v \<noteq> None \<longleftrightarrow> Value_Kind v = KindSet"
  "Value_ZSet v \<noteq> None \<longleftrightarrow> Value_Kind v = KindZSet"
  by (cases v; simp)+

lemma Value_KindE:
  "Value_Kind v = KindString \<Longrightarrow> \<exists>b. v = MakeString b"
  "Value_Kind v = KindList \<Longrightarrow> \<exists>l. v = MakeList l"
  "Value_Kind v = KindHash \<Longrightarrow> \<exists>h. v = MakeHash h"
  "Value_Kind v = KindSet \<Longrightarrow> \<exists>s. v = MakeSet s"
  "Value_Kind v = KindZSet \<Longrightarrow> \<exists>z. v = MakeZSet z"
  by (cases v; simp)+

end
