(* ===== verification/Collections.thy ===== *)
theory Collections
  imports Value
begin

text \<open>
  What the four collection types of \<open>internal/value\<close> promise, as abstract data types: a
  list, a finite map, a finite set and a set ordered by score. For each, the operations of
  the code are run in any order from the empty collection and agree, result by result, with
  the abstract type, across the promotion from the packed to the full encoding and for
  every threshold. The locale \<open>op_refinement\<close> lifts one step to a run.
\<close>

section \<open>Runs of operations\<close>

fun run_ops :: "('o \<Rightarrow> 's \<Rightarrow> ('s \<times> 'r) option) \<Rightarrow> 'o list \<Rightarrow> 's \<Rightarrow> ('s \<times> 'r list) option" where
  "run_ops step [] s = Some (s, [])"
| "run_ops step (x # xs) s = do {
     (s1, r) \<leftarrow> step x s;
     (s2, rs) \<leftarrow> run_ops step xs s1;
     Some (s2, r # rs) }"

fun run_spec :: "('o \<Rightarrow> 'a \<Rightarrow> 'a \<times> 'r) \<Rightarrow> 'o list \<Rightarrow> 'a \<Rightarrow> 'a \<times> 'r list" where
  "run_spec spec [] a = (a, [])"
| "run_spec spec (x # xs) a =
     (case spec x a of (a1, r) \<Rightarrow> (case run_spec spec xs a1 of (a2, rs) \<Rightarrow> (a2, r # rs)))"

locale op_refinement =
  fixes inv :: "'s \<Rightarrow> bool"
    and abstr :: "'s \<Rightarrow> 'a"
    and exec :: "'o \<Rightarrow> 's \<Rightarrow> ('s \<times> 'r) option"
    and spec :: "'o \<Rightarrow> 'a \<Rightarrow> 'a \<times> 'r"
    and valid :: "'o \<Rightarrow> bool"
  assumes step: "inv s \<Longrightarrow> valid x \<Longrightarrow>
    \<exists>s' r. exec x s = Some (s', r) \<and> inv s' \<and> spec x (abstr s) = (abstr s', r)"
begin

lemma run:
  "inv s \<Longrightarrow> \<forall>x \<in> set xs. valid x \<Longrightarrow>
   \<exists>s' rs. run_ops exec xs s = Some (s', rs) \<and> inv s' \<and> run_spec spec xs (abstr s) = (abstr s', rs)"
proof (induction xs arbitrary: s)
  case (Cons x xs)
  from step[of s x] Cons.prems obtain s1 r where
    1: "exec x s = Some (s1, r)" "inv s1" "spec x (abstr s) = (abstr s1, r)" by auto
  from Cons.IH[OF 1(2)] Cons.prems(2) obtain s2 rs where
    "run_ops exec xs s1 = Some (s2, rs)" "inv s2" "run_spec spec xs (abstr s1) = (abstr s2, rs)" by auto
  with 1 show ?case by simp
qed simp

end

section \<open>Lists\<close>

datatype listOp = PushFront bytes | PushBack bytes | PopFront | PopBack | LRange int int | LLen
datatype listRes = LDone | LElem "bytes option" | LElems "bytes list" | LInt int

fun list_exec :: "listOp \<Rightarrow> mcList \<Rightarrow> (mcList \<times> listRes) option" where
  "list_exec (PushFront b) l = map_option (\<lambda>l'. (l', LDone)) (List_PushFront l b)"
| "list_exec (PushBack b) l = map_option (\<lambda>l'. (l', LDone)) (List_PushBack l b)"
| "list_exec PopFront l = map_option (map_prod id LElem) (List_PopFront l)"
| "list_exec PopBack l = map_option (map_prod id LElem) (List_PopBack l)"
| "list_exec (LRange i j) l = map_option (\<lambda>xs. (l, LElems xs)) (List_Range l i j)"
| "list_exec LLen l = Some (l, LInt (List_Len l))"

fun list_spec :: "listOp \<Rightarrow> bytes list \<Rightarrow> bytes list \<times> listRes" where
  "list_spec (PushFront b) xs = (b # xs, LDone)"
| "list_spec (PushBack b) xs = (xs @ [b], LDone)"
| "list_spec PopFront xs = (tl xs, LElem (if xs = [] then None else Some (hd xs)))"
| "list_spec PopBack xs = (butlast xs, LElem (if xs = [] then None else Some (last xs)))"
| "list_spec (LRange i j) xs = (xs, LElems (slice_of i j xs))"
| "list_spec LLen xs = (xs, LInt (int (length xs)))"

fun list_valid :: "listOp \<Rightarrow> bool" where
  "list_valid (PushFront b) = slice_ok b"
| "list_valid (PushBack b) = slice_ok b"
| "list_valid x = True"

interpretation list_ref: op_refinement list_inv list_elems list_exec list_spec list_valid
proof
  fix s x
  assume inv: "list_inv s" and "list_valid x"
  then show "\<exists>s' r. list_exec x s = Some (s', r) \<and> list_inv s' \<and> list_spec x (list_elems s) = (list_elems s', r)"
    using ls.push_front[OF inv] ls.push_back[OF inv] ls.pop_front[OF inv] ls.pop_back[OF inv]
      ls.elem_range[OF inv] ls.len[OF inv]
    by (cases x) fastforce+
qed

section \<open>Hashes\<close>

datatype hashOp = HSet bytes bytes | HDel bytes | HGet bytes | HLen
datatype hashRes = HBool bool | HVal "bytes option" | HInt int

fun hash_exec :: "hashOp \<Rightarrow> mcHash \<Rightarrow> (mcHash \<times> hashRes) option" where
  "hash_exec (HSet f v) h = map_option (map_prod id HBool) (Hash_Set h f v)"
| "hash_exec (HDel f) h = map_option (map_prod id HBool) (Hash_Delete h f)"
| "hash_exec (HGet f) h = map_option (\<lambda>v. (h, HVal v)) (Hash_Get h f)"
| "hash_exec HLen h = Some (h, HInt (Hash_Len h))"

fun hash_spec :: "hashOp \<Rightarrow> (bytes \<rightharpoonup> bytes) \<Rightarrow> (bytes \<rightharpoonup> bytes) \<times> hashRes" where
  "hash_spec (HSet f v) m = (m(f \<mapsto> v), HBool (m f = None))"
| "hash_spec (HDel f) m = (m(f := None), HBool (m f \<noteq> None))"
| "hash_spec (HGet f) m = (m, HVal (m f))"
| "hash_spec HLen m = (m, HInt (int (card (dom m))))"

fun hash_valid :: "hashOp \<Rightarrow> bool" where
  "hash_valid (HSet f v) = (slice_ok f \<and> slice_ok v)"
| "hash_valid x = True"

interpretation hash_ref: op_refinement hash_inv hash_fields hash_exec hash_spec hash_valid
proof
  fix s x
  assume inv: "hash_inv s" and "hash_valid x"
  then show "\<exists>s' r. hash_exec x s = Some (s', r) \<and> hash_inv s' \<and> hash_spec x (hash_fields s) = (hash_fields s', r)"
    using hs.store[OF inv] hs.del[OF inv] hs.get[OF inv] hs.len[OF inv]
    by (cases x) fastforce+
qed

section \<open>Sets\<close>

datatype setOp = SAdd bytes | SRem bytes | SHas bytes | SLen
datatype setRes = SBool bool | SInt int

fun set_exec :: "setOp \<Rightarrow> mcSet \<Rightarrow> (mcSet \<times> setRes) option" where
  "set_exec (SAdd m) s = map_option (map_prod id SBool) (Set_Add s m)"
| "set_exec (SRem m) s = map_option (map_prod id SBool) (Set_Remove s m)"
| "set_exec (SHas m) s = map_option (\<lambda>b. (s, SBool b)) (Set_Contains s m)"
| "set_exec SLen s = Some (s, SInt (Set_Len s))"

fun set_spec :: "setOp \<Rightarrow> bytes set \<Rightarrow> bytes set \<times> setRes" where
  "set_spec (SAdd m) M = (insert m M, SBool (m \<notin> M))"
| "set_spec (SRem m) M = (M - {m}, SBool (m \<in> M))"
| "set_spec (SHas m) M = (M, SBool (m \<in> M))"
| "set_spec SLen M = (M, SInt (int (card M)))"

fun set_valid :: "setOp \<Rightarrow> bool" where
  "set_valid (SAdd m) = slice_ok m"
| "set_valid x = True"

interpretation set_ref: op_refinement set_inv set_members set_exec set_spec set_valid
proof
  fix s x
  assume inv: "set_inv s" and "set_valid x"
  then show "\<exists>s' r. set_exec x s = Some (s', r) \<and> set_inv s' \<and> set_spec x (set_members s) = (set_members s', r)"
    using st.add[OF inv] st.remove[OF inv] st.contains[OF inv] st.len[OF inv]
    by (cases x) fastforce+
qed

section \<open>Sorted sets\<close>

text \<open>
  The abstract sorted set maps a member to the sort key of its score (equal for 0 and -0,
  which no comparison tells apart). A range by rank lists members by ascending key, ties by
  member.
\<close>

datatype zsetOp = ZAdd bytes float64 | ZScore bytes | ZRange int int | ZLen
datatype zsetRes = ZBool bool | ZKey "int option" | ZKeys "(int \<times> bytes) list" | ZInt int

fun zset_exec :: "zsetOp \<Rightarrow> mcZSet \<Rightarrow> (mcZSet \<times> zsetRes) option" where
  "zset_exec (ZAdd m sc) z = map_option (map_prod id ZBool) (ZSet_Add z m sc)"
| "zset_exec (ZScore m) z = map_option (\<lambda>s. (z, ZKey (map_option f64_key s))) (ZSet_Score z m)"
| "zset_exec (ZRange i j) z = map_option (\<lambda>es. (z, ZKeys (map zkey es))) (ZSet_Range z i j)"
| "zset_exec ZLen z = Some (z, ZInt (ZSet_Len z))"

definition ranking :: "(bytes \<rightharpoonup> int) \<Rightarrow> (int \<times> bytes) list" where
  "ranking f = sorted_list_of_set {(k, m). f m = Some k}"

fun zset_spec :: "zsetOp \<Rightarrow> (bytes \<rightharpoonup> int) \<Rightarrow> (bytes \<rightharpoonup> int) \<times> zsetRes" where
  "zset_spec (ZAdd m sc) f = (f(m \<mapsto> f64_key sc), ZBool (f m = None))"
| "zset_spec (ZScore m) f = (f, ZKey (f m))"
| "zset_spec (ZRange i j) f = (f, ZKeys (slice_of i j (ranking f)))"
| "zset_spec ZLen f = (f, ZInt (int (card (dom f))))"

fun zset_valid :: "zsetOp \<Rightarrow> bool" where
  "zset_valid (ZAdd m sc) = (slice_ok m \<and> \<not> f64_isNaN sc)"
| "zset_valid x = True"

definition zset_keys :: "mcZSet \<Rightarrow> (bytes \<rightharpoonup> int)" where
  "zset_keys z = score_keys (map_of (zset_entries z))"

lemma slice_of_map: "slice_of i j (map f xs) = map f (slice_of i j xs)"
  by (auto simp: slice_of_def take_map drop_map split: option.splits)

lemma ranking_entries:
  assumes "zsorted es" "distinct (map fst es)"
  shows "ranking (score_keys (map_of es)) = map zkey es"
proof -
  have "{(k, m). score_keys (map_of es) m = Some k} = set (map zkey es)"
    using assms(2) by (force simp: score_keys_def zkey_def image_iff dest: map_of_SomeD)
  moreover have "sorted (map zkey es)" "distinct (map zkey es)"
    using assms(1) by (simp_all add: zsorted_def strict_sorted_iff)
  ultimately show ?thesis
    unfolding ranking_def using sorted_list_of_set.idem_if_sorted_distinct by metis
qed

interpretation zset_ref: op_refinement zset_inv zset_keys zset_exec zset_spec zset_valid
proof
  fix s x
  assume inv: "zset_inv s" and v: "zset_valid x"
  show "\<exists>s' r. zset_exec x s = Some (s', r) \<and> zset_inv s' \<and> zset_spec x (zset_keys s) = (zset_keys s', r)"
  proof (cases x)
    case (ZAdd m sc)
    with zs.add[OF inv, of m sc] v obtain s' sc' where
      "ZSet_Add s m sc = Some (s', m \<notin> fst ` set (zset_entries s))" "zset_inv s'" "f64_eq sc' sc"
      "map_of (zset_entries s') = (map_of (zset_entries s))(m \<mapsto> sc')" by auto
    then show ?thesis
      using ZAdd
      by (auto simp: zset_keys_def score_keys_def fun_eq_iff f64_eq_def map_of_eq_None_notin)
  next
    case ZLen
    have "dom (zset_keys s) = dom (map_of (zset_entries s))" by (auto simp: zset_keys_def score_keys_def)
    with ZLen inv zs.len_card[OF inv] show ?thesis by simp
  qed (use inv zs.score[OF inv] zs.range_rank[OF inv] ranking_entries[OF zs.sorted[OF inv] zs.members_distinct[OF inv]]
      in \<open>auto simp: zset_keys_def score_keys_def[of _ m for m] slice_of_map\<close>)
qed

end
