(* ===== verification/Keyspace.thy ===== *)
theory Keyspace
  imports Value
begin

text \<open>
  The key space of one shard, \<open>internal/keyspace\<close>: a map from key to entry, and an index of
  the keys that carry a deadline. Every operation reads the clock at most once, so the
  reading is its argument \<open>now\<close>. A collection is a pointer in Go; a handler that changes
  it changes what the map holds, which \<open>Keyspace_poke\<close> writes out.

  The locale \<open>ttl_store\<close> is what the command handlers rely on. It is interpreted on one
  keyspace here and on the sharded database in theory \<open>Shard\<close>.
\<close>

section \<open>Entries (entry.go)\<close>

record Entry =
  Entry_Value :: Value
  ExpireAt :: gotime

definition HasExpiry :: "Entry \<Rightarrow> bool" where
  "HasExpiry e \<longleftrightarrow> \<not> isZero (ExpireAt e)"

definition expired :: "Entry \<Rightarrow> gotime \<Rightarrow> bool" where
  "expired e now \<longleftrightarrow> HasExpiry e \<and> \<not> before now (ExpireAt e)"

section \<open>The key space (keyspace.go)\<close>

record Keyspace =
  ks_entries :: "(bytes, Entry) gomap"
  ks_withTTL :: "(bytes, unit) gomap"

definition Keyspace_New :: Keyspace where
  "Keyspace_New = \<lparr>ks_entries = [], ks_withTTL = []\<rparr>"

definition Keyspace_peek :: "Keyspace \<Rightarrow> gotime \<Rightarrow> bytes \<Rightarrow> Entry option" where
  "Keyspace_peek k now key =
     (case map_of (ks_entries k) key of
        None \<Rightarrow> None
      | Some e \<Rightarrow> if expired e now then None else Some e)"

definition Keyspace_Lookup :: "Keyspace \<Rightarrow> gotime \<Rightarrow> bytes \<Rightarrow> Entry option" where
  "Keyspace_Lookup k now key = Keyspace_peek k now key"

definition Keyspace_Get :: "Keyspace \<Rightarrow> gotime \<Rightarrow> bytes \<Rightarrow> Value option" where
  "Keyspace_Get k now key =
     (case Keyspace_peek k now key of None \<Rightarrow> None | Some e \<Rightarrow> Some (Entry_Value e))"

definition Keyspace_GetBytes :: "Keyspace \<Rightarrow> gotime \<Rightarrow> bytes \<Rightarrow> Value option" where
  "Keyspace_GetBytes k now key =
     (case map_of (ks_entries k) key of
        None \<Rightarrow> None
      | Some e \<Rightarrow> if expired e now then None else Some (Entry_Value e))"

definition Keyspace_ExistsBytes :: "Keyspace \<Rightarrow> gotime \<Rightarrow> bytes \<Rightarrow> bool" where
  "Keyspace_ExistsBytes k now key =
     (case map_of (ks_entries k) key of None \<Rightarrow> False | Some e \<Rightarrow> \<not> expired e now)"

definition Keyspace_Exists :: "Keyspace \<Rightarrow> gotime \<Rightarrow> bytes \<Rightarrow> bool" where
  "Keyspace_Exists k now key \<longleftrightarrow> Keyspace_peek k now key \<noteq> None"

definition Keyspace_Set :: "Keyspace \<Rightarrow> bytes \<Rightarrow> Value \<Rightarrow> Keyspace" where
  "Keyspace_Set k key v =
     k\<lparr>ks_entries := AList.update key \<lparr>Entry_Value = v, ExpireAt = zeroTime\<rparr> (ks_entries k),
       ks_withTTL := AList.delete key (ks_withTTL k)\<rparr>"

definition Keyspace_SetEntry :: "Keyspace \<Rightarrow> bytes \<Rightarrow> Entry \<Rightarrow> Keyspace" where
  "Keyspace_SetEntry k key e =
     (let k1 = k\<lparr>ks_entries := AList.update key e (ks_entries k)\<rparr>
      in if HasExpiry e then k1\<lparr>ks_withTTL := AList.update key () (ks_withTTL k1)\<rparr>
         else k1\<lparr>ks_withTTL := AList.delete key (ks_withTTL k1)\<rparr>)"

definition Keyspace_SetExpire ::
  "Keyspace \<Rightarrow> gotime \<Rightarrow> bytes \<Rightarrow> gotime \<Rightarrow> Keyspace \<times> bool" where
  "Keyspace_SetExpire k now key at =
     (case Keyspace_peek k now key of
        None \<Rightarrow> (k, False)
      | Some e \<Rightarrow>
          (k\<lparr>ks_entries := AList.update key (e\<lparr>ExpireAt := at\<rparr>) (ks_entries k),
             ks_withTTL := AList.update key () (ks_withTTL k)\<rparr>, True))"

definition Keyspace_Persist :: "Keyspace \<Rightarrow> gotime \<Rightarrow> bytes \<Rightarrow> Keyspace \<times> bool" where
  "Keyspace_Persist k now key =
     (case Keyspace_peek k now key of
        None \<Rightarrow> (k, False)
      | Some e \<Rightarrow>
          if \<not> HasExpiry e then (k, False)
          else (k\<lparr>ks_entries := AList.update key (e\<lparr>ExpireAt := zeroTime\<rparr>) (ks_entries k),
                  ks_withTTL := AList.delete key (ks_withTTL k)\<rparr>, True))"

definition Keyspace_Take :: "Keyspace \<Rightarrow> gotime \<Rightarrow> bytes \<Rightarrow> Keyspace \<times> Entry option \<times> bool" where
  "Keyspace_Take k now key =
     (case map_of (ks_entries k) key of
        None \<Rightarrow> (k, None, False)
      | Some e \<Rightarrow>
          (k\<lparr>ks_entries := AList.delete key (ks_entries k),
             ks_withTTL := AList.delete key (ks_withTTL k)\<rparr>, Some e, \<not> expired e now))"

definition Keyspace_Delete :: "Keyspace \<Rightarrow> gotime \<Rightarrow> bytes \<Rightarrow> Keyspace \<times> bool" where
  "Keyspace_Delete k now key =
     (case map_of (ks_entries k) key of
        None \<Rightarrow> (k, False)
      | Some e \<Rightarrow>
          (k\<lparr>ks_entries := AList.delete key (ks_entries k),
             ks_withTTL := AList.delete key (ks_withTTL k)\<rparr>, \<not> expired e now))"

text \<open>
  The loop of \<open>SampleExpired\<close> over the keys of the index, in the order the runtime visits
  them; it deletes only the key it is visiting.
\<close>

fun sample_loop ::
  "gotime \<Rightarrow> int \<Rightarrow> bytes list \<Rightarrow> Keyspace \<Rightarrow> int \<Rightarrow> int \<Rightarrow> Keyspace \<times> int \<times> int" where
  "sample_loop now limit [] k examined evicted = (k, examined, evicted)"
| "sample_loop now limit (key # keys) k examined evicted =
     (if examined \<ge> limit then (k, examined, evicted)
      else (case map_of (ks_entries k) key of
          None \<Rightarrow>
            sample_loop now limit keys (k\<lparr>ks_withTTL := AList.delete key (ks_withTTL k)\<rparr>)
              (examined + 1) evicted
        | Some e \<Rightarrow>
            if \<not> HasExpiry e then
              sample_loop now limit keys (k\<lparr>ks_withTTL := AList.delete key (ks_withTTL k)\<rparr>)
                (examined + 1) evicted
            else if expired e now then
              sample_loop now limit keys
                (k\<lparr>ks_entries := AList.delete key (ks_entries k),
                   ks_withTTL := AList.delete key (ks_withTTL k)\<rparr>)
                (examined + 1) (evicted + 1)
            else sample_loop now limit keys k (examined + 1) evicted))"

definition Keyspace_SampleExpired ::
  "(bytes list \<Rightarrow> bytes list) \<Rightarrow> Keyspace \<Rightarrow> gotime \<Rightarrow> int \<Rightarrow> Keyspace \<times> int \<times> int" where
  "Keyspace_SampleExpired pick k now limit =
     sample_loop now limit (range_order pick (map fst (ks_withTTL k))) k 0 0"

definition Keyspace_Len :: "Keyspace \<Rightarrow> int" where
  "Keyspace_Len k = int (length (ks_entries k))"

definition Keyspace_Range :: "(bytes list \<Rightarrow> bytes list) \<Rightarrow> Keyspace \<Rightarrow> (bytes \<times> Entry) list" where
  "Keyspace_Range pick k = range_map pick (ks_entries k)"

definition Keyspace_Flush :: "Keyspace \<Rightarrow> Keyspace" where
  "Keyspace_Flush k = k\<lparr>ks_entries := [], ks_withTTL := []\<rparr>"

text \<open>The effect of mutating, through its pointer, the collection stored under \<open>key\<close>.\<close>

definition Keyspace_poke :: "Keyspace \<Rightarrow> bytes \<Rightarrow> Value \<Rightarrow> Keyspace" where
  "Keyspace_poke k key v =
     (case map_of (ks_entries k) key of
        None \<Rightarrow> k
      | Some e \<Rightarrow> k\<lparr>ks_entries := AList.update key (e\<lparr>Entry_Value := v\<rparr>) (ks_entries k)\<rparr>)"

section \<open>The store contract\<close>

type_synonym store = "bytes \<rightharpoonup> Entry"

text \<open>What a read sees of a store: an entry past its deadline is hidden.\<close>

definition live :: "gotime \<Rightarrow> store \<Rightarrow> store" where
  "live now m key = (case m key of None \<Rightarrow> None | Some e \<Rightarrow> if expired e now then None else Some e)"

definition fresh_entry :: "Value \<Rightarrow> Entry" where
  "fresh_entry v = \<lparr>Entry_Value = v, ExpireAt = zeroTime\<rparr>"

lemma fresh_entry_simps [simp]:
  "Entry_Value (fresh_entry v) = v" "ExpireAt (fresh_entry v) = zeroTime"
  "\<not> HasExpiry (fresh_entry v)" "\<not> expired (fresh_entry v) now"
  by (simp_all add: fresh_entry_def HasExpiry_def isZero_def expired_def)

lemma live_upd: "live now (m(k \<mapsto> e)) k' = (if k' = k then (if expired e now then None else Some e) else live now m k')"
  by (simp add: live_def)

lemma live_del: "live now (m(k := None)) k' = (if k' = k then None else live now m k')"
  by (simp add: live_def)

locale ttl_store =
  fixes inv :: "'s \<Rightarrow> bool"
    and ents :: "'s \<Rightarrow> store"
    and lookup :: "'s \<Rightarrow> gotime \<Rightarrow> bytes \<Rightarrow> Entry option"
    and put :: "'s \<Rightarrow> bytes \<Rightarrow> Value \<Rightarrow> 's"
    and put_entry :: "'s \<Rightarrow> bytes \<Rightarrow> Entry \<Rightarrow> 's"
    and set_expire :: "'s \<Rightarrow> gotime \<Rightarrow> bytes \<Rightarrow> gotime \<Rightarrow> 's \<times> bool"
    and persist :: "'s \<Rightarrow> gotime \<Rightarrow> bytes \<Rightarrow> 's \<times> bool"
    and remove :: "'s \<Rightarrow> gotime \<Rightarrow> bytes \<Rightarrow> 's \<times> bool"
    and poke :: "'s \<Rightarrow> bytes \<Rightarrow> Value \<Rightarrow> 's"
    and flush :: "'s \<Rightarrow> 's"
    and len :: "'s \<Rightarrow> int"
  assumes finite_ents: "inv s \<Longrightarrow> finite (dom (ents s))"
    and values_ok: "inv s \<Longrightarrow> ents s k = Some e \<Longrightarrow> value_ok (Entry_Value e)"
    and lookup: "inv s \<Longrightarrow> lookup s now k = live now (ents s) k"
    and put: "inv s \<Longrightarrow> value_ok v \<Longrightarrow> inv (put s k v) \<and> ents (put s k v) = (ents s)(k \<mapsto> fresh_entry v)"
    and put_entry: "inv s \<Longrightarrow> value_ok (Entry_Value e) \<Longrightarrow>
      inv (put_entry s k e) \<and> ents (put_entry s k e) = (ents s)(k \<mapsto> e)"
    and set_expire: "inv s \<Longrightarrow>
      \<exists>s'. set_expire s now k at = (s', live now (ents s) k \<noteq> None) \<and> inv s'
        \<and> ents s' = (case live now (ents s) k of
            None \<Rightarrow> ents s | Some e \<Rightarrow> (ents s)(k \<mapsto> e\<lparr>ExpireAt := at\<rparr>))"
    and persist: "inv s \<Longrightarrow>
      \<exists>s'. persist s now k = (s', (case live now (ents s) k of None \<Rightarrow> False | Some e \<Rightarrow> HasExpiry e))
        \<and> inv s'
        \<and> ents s' = (case live now (ents s) k of
            None \<Rightarrow> ents s | Some e \<Rightarrow> (ents s)(k \<mapsto> e\<lparr>ExpireAt := zeroTime\<rparr>))"
    and remove: "inv s \<Longrightarrow>
      \<exists>s'. remove s now k = (s', live now (ents s) k \<noteq> None) \<and> inv s' \<and> ents s' = (ents s)(k := None)"
    and poke: "inv s \<Longrightarrow> value_ok v \<Longrightarrow> ents s k = Some e \<Longrightarrow>
      inv (poke s k v) \<and> ents (poke s k v) = (ents s)(k \<mapsto> e\<lparr>Entry_Value := v\<rparr>)"
    and flush: "inv s \<Longrightarrow> inv (flush s) \<and> ents (flush s) = Map.empty"
    and len: "inv s \<Longrightarrow> len s = int (card (dom (ents s)))"
begin

lemma lookup_SomeD:
  "inv s \<Longrightarrow> lookup s now k = Some e \<Longrightarrow> ents s k = Some e \<and> \<not> expired e now \<and> value_ok (Entry_Value e)"
  by (auto simp: lookup live_def values_ok split: option.splits if_splits)

text \<open>A stored value is read back at every later time, whatever deadline the key had before.\<close>

lemma lookup_put: "inv s \<Longrightarrow> value_ok v \<Longrightarrow> lookup (put s k v) now k = Some (fresh_entry v)"
  using put[of s v k] by (simp add: lookup live_upd)

text \<open>A deadline hides the key from the deadline on, inclusive, and not before.\<close>

lemma lookup_set_expire:
  assumes "inv s" "lookup s now k = Some e" "at \<noteq> zeroTime"
  shows "lookup (fst (set_expire s now k at)) later k =
    (if later < at then Some (e\<lparr>ExpireAt := at\<rparr>) else None)"
proof -
  have l: "live now (ents s) k = Some e" using assms lookup by simp
  with set_expire[OF assms(1), of now k at] obtain s' where
    "set_expire s now k at = (s', True)" "inv s'" "ents s' = (ents s)(k \<mapsto> e\<lparr>ExpireAt := at\<rparr>)"
    by auto
  with assms(3) show ?thesis
    by (auto simp: lookup live_upd expired_def HasExpiry_def isZero_def before_def)
qed

text \<open>\<open>PERSIST\<close> makes a live key last.\<close>

lemma lookup_persist:
  assumes "inv s" "lookup s now k = Some e"
  shows "lookup (fst (persist s now k)) later k = Some (e\<lparr>ExpireAt := zeroTime\<rparr>)"
proof -
  have l: "live now (ents s) k = Some e" using assms lookup by simp
  with persist[OF assms(1), of now k] obtain s' where
    "persist s now k = (s', HasExpiry e)" "inv s'" "ents s' = (ents s)(k \<mapsto> e\<lparr>ExpireAt := zeroTime\<rparr>)"
    by auto
  then show ?thesis by (auto simp: lookup live_upd expired_def HasExpiry_def isZero_def)
qed

text \<open>The loop of \<open>DEL\<close> and \<open>UNLINK\<close>: every key is gone, and the count is the number of
  distinct keys that were live.\<close>

lemma remove_all:
  assumes "inv s"
  shows "\<exists>s'. foldCount (\<lambda>s k. Some (remove s now k)) (s, n) ks =
      Some (s', n + int (card {k \<in> set ks. live now (ents s) k \<noteq> None}))
    \<and> inv s' \<and> ents s' = ents s |` (- set ks)"
  using assms
proof (induction ks arbitrary: s n)
  case (Cons k ks)
  from remove[OF Cons.prems, of now k] obtain s1 where
    1: "remove s now k = (s1, live now (ents s) k \<noteq> None)" "inv s1" "ents s1 = (ents s)(k := None)"
    by auto
  let ?b = "live now (ents s) k \<noteq> None"
  let ?L = "\<lambda>s ks. {k \<in> set ks. live now (ents s) k \<noteq> None}"
  from Cons.IH[OF 1(2), of "if ?b then n + 1 else n"] obtain s2 where
    2: "foldCount (\<lambda>s k. Some (remove s now k)) (s1, if ?b then n + 1 else n) ks =
      Some (s2, (if ?b then n + 1 else n) + int (card (?L s1 ks)))"
      "inv s2" "ents s2 = ents s1 |` (- set ks)" by blast
  have "?L s (k # ks) = (if ?b then insert k (?L s1 ks) else ?L s1 ks)" "k \<notin> ?L s1 ks"
    by (auto simp: 1(3) live_del)
  then have "int (card (?L s (k # ks))) = (if ?b then 1 else 0) + int (card (?L s1 ks))" by simp
  moreover have "ents s2 = ents s |` (- set (k # ks))"
    by (auto simp: 2(3) 1(3) restrict_map_def fun_eq_iff)
  ultimately show ?case using 1(1) 2(1,2) by auto
qed (simp add: restrict_map_def)

end

section \<open>The key space implements the contract\<close>

text \<open>The index covers the keys with a deadline and holds only stored keys. It may hold a key
  whose deadline is the zero time, which \<open>SetExpire\<close> does not tell apart.\<close>

definition ks_inv :: "Keyspace \<Rightarrow> bool" where
  "ks_inv k \<longleftrightarrow>
     gomap_ok (ks_entries k) \<and> gomap_ok (ks_withTTL k)
     \<and> (\<forall>key e. map_of (ks_entries k) key = Some e \<longrightarrow>
          value_ok (Entry_Value e) \<and> (HasExpiry e \<longrightarrow> map_of (ks_withTTL k) key \<noteq> None))
     \<and> dom (map_of (ks_withTTL k)) \<subseteq> dom (map_of (ks_entries k))"

abbreviation ks_ents :: "Keyspace \<Rightarrow> store" where
  "ks_ents k \<equiv> map_of (ks_entries k)"

lemma ks_inv_New [simp]: "ks_inv Keyspace_New" "ks_ents Keyspace_New = Map.empty"
  by (simp_all add: ks_inv_def Keyspace_New_def)

lemma Keyspace_peek_live: "Keyspace_peek k now key = live now (ks_ents k) key"
  by (simp add: Keyspace_peek_def live_def)

text \<open>The allocation-free read paths agree with the ordinary ones.\<close>

lemma Keyspace_bytes_paths:
  "Keyspace_GetBytes k now key = Keyspace_Get k now key"
  "Keyspace_ExistsBytes k now key = Keyspace_Exists k now key"
  by (auto simp: Keyspace_GetBytes_def Keyspace_Get_def Keyspace_ExistsBytes_def
      Keyspace_Exists_def Keyspace_peek_def split: option.splits)

lemma ks_inv_SetEntry:
  assumes "ks_inv k" "value_ok (Entry_Value e)"
  shows "ks_inv (Keyspace_SetEntry k key e)" "ks_ents (Keyspace_SetEntry k key e) = (ks_ents k)(key \<mapsto> e)"
  using assms by (auto simp: Keyspace_SetEntry_def ks_inv_def)

lemma Keyspace_Set_SetEntry: "Keyspace_Set k key v = Keyspace_SetEntry k key (fresh_entry v)"
  by (simp add: Keyspace_Set_def Keyspace_SetEntry_def) (simp add: fresh_entry_def)

lemma Keyspace_Take_Delete:
  "Keyspace_Delete k now key = (fst (Keyspace_Take k now key), snd (snd (Keyspace_Take k now key)))"
  by (simp add: Keyspace_Delete_def Keyspace_Take_def split: option.split)

lemma ks_live_Some:
  "live now (ks_ents k) key = Some e \<Longrightarrow> ks_ents k key = Some e"
  by (auto simp: live_def split: option.splits if_splits)

interpretation ks: ttl_store ks_inv ks_ents Keyspace_Lookup Keyspace_Set Keyspace_SetEntry
  Keyspace_SetExpire Keyspace_Persist Keyspace_Delete Keyspace_poke Keyspace_Flush Keyspace_Len
proof
  fix s now k e v at
  assume inv: "ks_inv s"
  show "finite (dom (ks_ents s))" by (rule finite_dom_map_of)
  show "value_ok (Entry_Value e)" if "ks_ents s k = Some e" using inv that by (auto simp: ks_inv_def)
  show "Keyspace_Lookup s now k = live now (ks_ents s) k"
    by (simp add: Keyspace_Lookup_def Keyspace_peek_live)
  show "ks_inv (Keyspace_SetEntry s k e) \<and> ks_ents (Keyspace_SetEntry s k e) = (ks_ents s)(k \<mapsto> e)"
    if "value_ok (Entry_Value e)" using ks_inv_SetEntry[OF inv that] by simp
  show "ks_inv (Keyspace_Set s k v) \<and> ks_ents (Keyspace_Set s k v) = (ks_ents s)(k \<mapsto> fresh_entry v)"
    if "value_ok v" unfolding Keyspace_Set_SetEntry using ks_inv_SetEntry[OF inv, of "fresh_entry v"] that by simp
  show "\<exists>s'. Keyspace_SetExpire s now k at = (s', live now (ks_ents s) k \<noteq> None) \<and> ks_inv s'
      \<and> ks_ents s' = (case live now (ks_ents s) k of None \<Rightarrow> ks_ents s
          | Some e \<Rightarrow> (ks_ents s)(k \<mapsto> e\<lparr>ExpireAt := at\<rparr>))"
    using inv by (cases "live now (ks_ents s) k")
      (auto simp: Keyspace_SetExpire_def Keyspace_peek_live ks_inv_def dest!: ks_live_Some)
  show "\<exists>s'. Keyspace_Persist s now k
        = (s', case live now (ks_ents s) k of None \<Rightarrow> False | Some e \<Rightarrow> HasExpiry e) \<and> ks_inv s'
      \<and> ks_ents s' = (case live now (ks_ents s) k of None \<Rightarrow> ks_ents s
          | Some e \<Rightarrow> (ks_ents s)(k \<mapsto> e\<lparr>ExpireAt := zeroTime\<rparr>))"
  proof (cases "live now (ks_ents s) k")
    case (Some e)
    with inv show ?thesis
      by (cases "HasExpiry e")
        (auto simp: Keyspace_Persist_def Keyspace_peek_live ks_inv_def HasExpiry_def isZero_def fun_upd_idem
          dest!: ks_live_Some)
  qed (use inv in \<open>simp add: Keyspace_Persist_def Keyspace_peek_live\<close>)
  show "\<exists>s'. Keyspace_Delete s now k = (s', live now (ks_ents s) k \<noteq> None) \<and> ks_inv s'
      \<and> ks_ents s' = (ks_ents s)(k := None)"
    using inv by (cases "ks_ents s k") (auto simp: Keyspace_Delete_def live_def ks_inv_def fun_upd_idem)
  show "ks_inv (Keyspace_poke s k v) \<and> ks_ents (Keyspace_poke s k v) = (ks_ents s)(k \<mapsto> e\<lparr>Entry_Value := v\<rparr>)"
    if "value_ok v" "ks_ents s k = Some e"
    using inv that by (auto simp: Keyspace_poke_def ks_inv_def HasExpiry_def)
  show "ks_inv (Keyspace_Flush s) \<and> ks_ents (Keyspace_Flush s) = Map.empty"
    by (simp add: Keyspace_Flush_def ks_inv_def)
  show "Keyspace_Len s = int (card (dom (ks_ents s)))"
    using inv by (simp add: Keyspace_Len_def ks_inv_def gomap_length_card)
qed

section \<open>Active expiry\<close>

text \<open>The keys active expiry may evict at \<open>now\<close>.\<close>

definition expired_keys :: "gotime \<Rightarrow> store \<Rightarrow> bytes set" where
  "expired_keys now m = {key. \<exists>e. m key = Some e \<and> expired e now}"

lemma live_restrict: "E \<subseteq> expired_keys now m \<Longrightarrow> live now (m |` (- E)) = live now m"
  by (auto simp: live_def expired_keys_def restrict_map_def fun_eq_iff split: option.splits)

lemma expired_later: "expired e now \<Longrightarrow> now \<le> later \<Longrightarrow> expired e later"
  by (auto simp: expired_def before_def)

lemma live_restrict_later:
  "E \<subseteq> expired_keys now m \<Longrightarrow> now \<le> later \<Longrightarrow> live later (m |` (- E)) = live later m"
  using live_restrict[of E later m] expired_later by (fastforce simp: expired_keys_def)

lemma ks_inv_drop_index:
  assumes "ks_inv k" "\<forall>e. ks_ents k key = Some e \<longrightarrow> \<not> HasExpiry e"
  shows "ks_inv (k\<lparr>ks_withTTL := AList.delete key (ks_withTTL k)\<rparr>)"
  using assms by (auto simp: ks_inv_def)

lemma ks_inv_evict:
  assumes "ks_inv k"
  shows "ks_inv (k\<lparr>ks_entries := AList.delete key (ks_entries k),
     ks_withTTL := AList.delete key (ks_withTTL k)\<rparr>)"
  using assms by (auto simp: ks_inv_def)

lemma sample_loop_spec:
  assumes "sample_loop now limit keys k ex ev = (k', ex', ev')" "ks_inv k" "distinct keys"
  shows "\<exists>E. E \<subseteq> set keys \<inter> expired_keys now (ks_ents k) \<and> ks_inv k' \<and> ks_ents k' = ks_ents k |` (- E)
    \<and> ev' = ev + int (card E) \<and> ex \<le> ex' \<and> ex' \<le> max ex limit
    \<and> (ex' < limit \<longrightarrow> E = set keys \<inter> expired_keys now (ks_ents k))"
  using assms
proof (induction keys arbitrary: k ex ev)
  case (Cons key keys)
  have nin: "key \<notin> set keys" and d: "distinct keys" using Cons.prems(3) by simp_all
  show ?case
  proof (cases "ex \<ge> limit")
    case True
    with Cons.prems show ?thesis by (intro exI[of _ "{}"]) (auto simp: restrict_map_def)
  next
    case False
    show ?thesis
    proof (cases "key \<in> expired_keys now (ks_ents k)")
      case True
      then obtain e where e: "ks_ents k key = Some e" "expired e now" by (auto simp: expired_keys_def)
      then have h: "HasExpiry e" by (simp add: expired_def)
      let ?k = "k\<lparr>ks_entries := AList.delete key (ks_entries k),
        ks_withTTL := AList.delete key (ks_withTTL k)\<rparr>"
      have "sample_loop now limit keys ?k (ex + 1) (ev + 1) = (k', ex', ev')"
        using Cons.prems(1) False e h by simp
      from Cons.IH[OF this ks_inv_evict[OF Cons.prems(2)] d] obtain E where
        E: "E \<subseteq> set keys \<inter> expired_keys now (ks_ents ?k)" "ks_inv k'" "ks_ents k' = ks_ents ?k |` (- E)"
          "ev' = ev + 1 + int (card E)" "ex + 1 \<le> ex'" "ex' \<le> max (ex + 1) limit"
          "ex' < limit \<longrightarrow> E = set keys \<inter> expired_keys now (ks_ents ?k)" by blast
      have X: "set keys \<inter> expired_keys now (ks_ents ?k) = set keys \<inter> expired_keys now (ks_ents k)"
        using nin by (auto simp: expired_keys_def)
      have "key \<notin> E" "finite E" using E(1) nin finite_subset[of E "set keys"] by auto
      moreover have "ks_ents ?k |` (- E) = ks_ents k |` (- insert key E)"
        by (auto simp: restrict_map_def fun_eq_iff)
      ultimately show ?thesis
        using E True False X by (intro exI[of _ "insert key E"]) auto
    next
      case nexp: False
      let ?drop = "\<forall>e. ks_ents k key = Some e \<longrightarrow> \<not> HasExpiry e"
      let ?k = "if ?drop then k\<lparr>ks_withTTL := AList.delete key (ks_withTTL k)\<rparr> else k"
      have "sample_loop now limit keys ?k (ex + 1) ev = (k', ex', ev')"
        using Cons.prems(1) False nexp by (cases "ks_ents k key") (auto simp: expired_keys_def)
      moreover have "ks_inv ?k" using ks_inv_drop_index[of k key] Cons.prems(2) by simp
      moreover have S: "ks_ents ?k = ks_ents k" by simp
      ultimately obtain E where
        E: "E \<subseteq> set keys \<inter> expired_keys now (ks_ents k)" "ks_inv k'" "ks_ents k' = ks_ents k |` (- E)"
          "ev' = ev + int (card E)" "ex + 1 \<le> ex'" "ex' \<le> max (ex + 1) limit"
          "ex' < limit \<longrightarrow> E = set keys \<inter> expired_keys now (ks_ents k)"
        using Cons.IH[of ?k "ex + 1" ev, OF _ _ d, unfolded S] by blast
      then show ?thesis using False nexp by (intro exI[of _ E]) auto
    qed
  qed
qed (auto simp: restrict_map_def)

lemma Keyspace_SampleExpired_spec:
  assumes "Keyspace_SampleExpired pick k now limit = (k', examined, evicted)" "ks_inv k"
  shows "\<exists>E. E \<subseteq> expired_keys now (ks_ents k) \<and> ks_inv k' \<and> ks_ents k' = ks_ents k |` (- E)
    \<and> evicted = int (card E) \<and> 0 \<le> examined \<and> examined \<le> max 0 limit
    \<and> (examined < limit \<longrightarrow> E = expired_keys now (ks_ents k))"
proof -
  have "expired_keys now (ks_ents k) \<subseteq> set (range_order pick (map fst (ks_withTTL k)))"
  proof
    fix key assume "key \<in> expired_keys now (ks_ents k)"
    then have "map_of (ks_withTTL k) key \<noteq> None"
      using assms(2) by (auto simp: ks_inv_def expired_keys_def expired_def)
    then show "key \<in> set (range_order pick (map fst (ks_withTTL k)))"
      by (auto simp: map_of_eq_None_notin)
  qed
  then have "set (range_order pick (map fst (ks_withTTL k))) \<inter> expired_keys now (ks_ents k)
      = expired_keys now (ks_ents k)" by blast
  moreover have "distinct (range_order pick (map fst (ks_withTTL k)))"
    using assms(2) by (simp add: ks_inv_def gomap_ok_def)
  ultimately show ?thesis
    using sample_loop_spec[OF assms(1)[unfolded Keyspace_SampleExpired_def] assms(2)] by auto
qed

end
