(* ===== verification/Shard.thy ===== *)
theory Shard
  imports Keyspace
begin

text \<open>
  The sharded database of \<open>internal/shard/shard.go\<close>: a list of key spaces, a key routed by
  its hash. The hash is \<open>maphash\<close> with a seed drawn at start, so it is an argument
  \<open>hash\<close> of every operation, an arbitrary function from key to 64-bit word; \<open>maphash.Bytes\<close>
  and \<open>maphash.String\<close> agree on equal contents. The database implements the same contract
  \<open>ttl_store\<close> as one key space. The mutexes are modelled in theory \<open>Locks\<close>; here are
  the lists of shards the lock helpers acquire.
\<close>

section \<open>The database\<close>

type_synonym keyhash = "bytes \<Rightarrow> 64 word"

record DB =
  db_shards :: "Keyspace list"
  db_reap :: "Value list option" \<comment> \<open>the values handed to the reaper, when one is installed\<close>

definition DB_New :: "int \<Rightarrow> DB" where
  "DB_New shards =
     (let n = (if shards < 1 then 1 else shards)
      in \<lparr>db_shards = replicate (nat n) Keyspace_New, db_reap = None\<rparr>)"

definition DB_Shards :: "DB \<Rightarrow> int" where
  "DB_Shards db = int (length (db_shards db))"

definition indexBytes :: "keyhash \<Rightarrow> DB \<Rightarrow> bytes \<Rightarrow> nat" where
  "indexBytes hash db key = unat (hash key) mod length (db_shards db)"

definition keyspaceFor :: "keyhash \<Rightarrow> DB \<Rightarrow> bytes \<Rightarrow> Keyspace" where
  "keyspaceFor hash db key = db_shards db ! indexBytes hash db key"

text \<open>The database after the key space that owns \<open>key\<close> became \<open>k\<close>.\<close>

definition with_keyspace :: "keyhash \<Rightarrow> DB \<Rightarrow> bytes \<Rightarrow> Keyspace \<Rightarrow> DB" where
  "with_keyspace hash db key k = db\<lparr>db_shards := (db_shards db)[indexBytes hash db key := k]\<rparr>"

definition DB_Get :: "keyhash \<Rightarrow> DB \<Rightarrow> gotime \<Rightarrow> bytes \<Rightarrow> Value option" where
  "DB_Get hash db now key = Keyspace_Get (keyspaceFor hash db key) now key"

definition DB_GetBytes :: "keyhash \<Rightarrow> DB \<Rightarrow> gotime \<Rightarrow> bytes \<Rightarrow> Value option" where
  "DB_GetBytes hash db now key = Keyspace_GetBytes (keyspaceFor hash db key) now key"

definition DB_ExistsBytes :: "keyhash \<Rightarrow> DB \<Rightarrow> gotime \<Rightarrow> bytes \<Rightarrow> bool" where
  "DB_ExistsBytes hash db now key = Keyspace_ExistsBytes (keyspaceFor hash db key) now key"

definition DB_Lookup :: "keyhash \<Rightarrow> DB \<Rightarrow> gotime \<Rightarrow> bytes \<Rightarrow> Entry option" where
  "DB_Lookup hash db now key = Keyspace_Lookup (keyspaceFor hash db key) now key"

definition DB_Exists :: "keyhash \<Rightarrow> DB \<Rightarrow> gotime \<Rightarrow> bytes \<Rightarrow> bool" where
  "DB_Exists hash db now key = Keyspace_Exists (keyspaceFor hash db key) now key"

definition DB_Set :: "keyhash \<Rightarrow> DB \<Rightarrow> bytes \<Rightarrow> Value \<Rightarrow> DB" where
  "DB_Set hash db key v = with_keyspace hash db key (Keyspace_Set (keyspaceFor hash db key) key v)"

definition DB_SetEntry :: "keyhash \<Rightarrow> DB \<Rightarrow> bytes \<Rightarrow> Entry \<Rightarrow> DB" where
  "DB_SetEntry hash db key e =
     with_keyspace hash db key (Keyspace_SetEntry (keyspaceFor hash db key) key e)"

definition DB_SetExpire :: "keyhash \<Rightarrow> DB \<Rightarrow> gotime \<Rightarrow> bytes \<Rightarrow> gotime \<Rightarrow> DB \<times> bool" where
  "DB_SetExpire hash db now key at =
     (case Keyspace_SetExpire (keyspaceFor hash db key) now key at of
        (k, b) \<Rightarrow> (with_keyspace hash db key k, b))"

definition DB_Persist :: "keyhash \<Rightarrow> DB \<Rightarrow> gotime \<Rightarrow> bytes \<Rightarrow> DB \<times> bool" where
  "DB_Persist hash db now key =
     (case Keyspace_Persist (keyspaceFor hash db key) now key of
        (k, b) \<Rightarrow> (with_keyspace hash db key k, b))"

definition DB_Delete :: "keyhash \<Rightarrow> DB \<Rightarrow> gotime \<Rightarrow> bytes \<Rightarrow> DB \<times> bool" where
  "DB_Delete hash db now key =
     (case Keyspace_Delete (keyspaceFor hash db key) now key of
        (k, b) \<Rightarrow> (with_keyspace hash db key k, b))"

definition DB_Flush :: "DB \<Rightarrow> DB" where
  "DB_Flush db = db\<lparr>db_shards := map Keyspace_Flush (db_shards db)\<rparr>"

definition DB_Len :: "DB \<Rightarrow> int" where
  "DB_Len db = foldl (\<lambda>n ks. n + Keyspace_Len ks) 0 (db_shards db)"

definition DB_EachEntry :: "(bytes list \<Rightarrow> bytes list) \<Rightarrow> DB \<Rightarrow> (bytes \<times> Entry) list" where
  "DB_EachEntry pick db = concat (map (Keyspace_Range pick) (db_shards db))"

definition DB_Restore :: "keyhash \<Rightarrow> DB \<Rightarrow> bytes \<Rightarrow> Entry \<Rightarrow> DB" where
  "DB_Restore hash db key e =
     with_keyspace hash db key (Keyspace_SetEntry (keyspaceFor hash db key) key e)"

definition DB_SetReaper :: "DB \<Rightarrow> DB" where
  "DB_SetReaper db = db\<lparr>db_reap := Some []\<rparr>"

definition DB_Unlink :: "keyhash \<Rightarrow> DB \<Rightarrow> gotime \<Rightarrow> bytes \<Rightarrow> DB \<times> bool" where
  "DB_Unlink hash db now key =
     (case Keyspace_Take (keyspaceFor hash db key) now key of
        (k, e, alive) \<Rightarrow>
          let db1 = with_keyspace hash db key k
          in (case (db_reap db1, e) of
                (Some vs, Some e') \<Rightarrow>
                  if alive \<and> IsCollection (Entry_Value e')
                  then (db1\<lparr>db_reap := Some (vs @ [Entry_Value e'])\<rparr>, alive)
                  else (db1, alive)
              | _ \<Rightarrow> (db1, alive)))"

text \<open>Writing through the pointer of the collection stored under \<open>key\<close>.\<close>

definition DB_poke :: "keyhash \<Rightarrow> DB \<Rightarrow> bytes \<Rightarrow> Value \<Rightarrow> DB" where
  "DB_poke hash db key v =
     with_keyspace hash db key (Keyspace_poke (keyspaceFor hash db key) key v)"

fun expire_shards ::
  "(bytes list \<Rightarrow> bytes list) \<Rightarrow> gotime \<Rightarrow> int \<Rightarrow> Keyspace list \<Rightarrow> int \<Rightarrow> int
     \<Rightarrow> Keyspace list \<times> int \<times> int" where
  "expire_shards pick now limit [] examined evicted = ([], examined, evicted)"
| "expire_shards pick now limit (k # ks) examined evicted =
     (case Keyspace_SampleExpired pick k now limit of
        (k', ex, ev) \<Rightarrow>
          (case expire_shards pick now limit ks (examined + ex) (evicted + ev) of
             (ks', r) \<Rightarrow> (k' # ks', r)))"

definition DB_ExpireCycle ::
  "(bytes list \<Rightarrow> bytes list) \<Rightarrow> DB \<Rightarrow> gotime \<Rightarrow> int \<Rightarrow> DB \<times> int \<times> int" where
  "DB_ExpireCycle pick db now limitPerShard =
     (case expire_shards pick now limitPerShard (db_shards db) 0 0 of
        (ks, r) \<Rightarrow> (db\<lparr>db_shards := ks\<rparr>, r))"

section \<open>The shards a lock helper acquires\<close>

fun shard_dedup :: "(nat, unit) gomap \<Rightarrow> nat list \<Rightarrow> nat list \<Rightarrow> nat list" where
  "shard_dedup seen idx [] = idx"
| "shard_dedup seen idx (i # is) =
     (if map_of seen i \<noteq> None then shard_dedup seen idx is
      else shard_dedup (AList.update i () seen) (idx @ [i]) is)"

definition shardSet :: "keyhash \<Rightarrow> DB \<Rightarrow> bytes list \<Rightarrow> nat list" where
  "shardSet hash db keys =
     (case keys of
        [] \<Rightarrow> []
      | [k] \<Rightarrow> [indexBytes hash db k]
      | _ \<Rightarrow> sortSlice (<) (shard_dedup [] [] (map (indexBytes hash db) keys)))"

section \<open>The database implements the store contract\<close>

definition db_ents :: "keyhash \<Rightarrow> DB \<Rightarrow> store" where
  "db_ents hash db key = ks_ents (keyspaceFor hash db key) key"

text \<open>Every key lies in the shard its hash names.\<close>

definition db_inv :: "keyhash \<Rightarrow> DB \<Rightarrow> bool" where
  "db_inv hash db \<longleftrightarrow>
     db_shards db \<noteq> []
     \<and> (\<forall>i < length (db_shards db). ks_inv (db_shards db ! i)
          \<and> (\<forall>key \<in> dom (ks_ents (db_shards db ! i)). indexBytes hash db key = i))"

lemma indexBytes_less: "db_shards db \<noteq> [] \<Longrightarrow> indexBytes hash db key < length (db_shards db)"
  by (simp add: indexBytes_def)

lemma indexBytes_cong:
  "length (db_shards db') = length (db_shards db) \<Longrightarrow> indexBytes hash db' key = indexBytes hash db key"
  by (simp add: indexBytes_def)

lemma with_keyspace_simps [simp]:
  "length (db_shards (with_keyspace hash db key k)) = length (db_shards db)"
  "db_reap (with_keyspace hash db key k) = db_reap db"
  "indexBytes h (with_keyspace hash db key k) key' = indexBytes h db key'"
  by (simp_all add: with_keyspace_def indexBytes_def)

lemma db_shards_with_keyspace:
  "db_shards (with_keyspace hash db key k) = (db_shards db)[indexBytes hash db key := k]"
  by (simp add: with_keyspace_def)

lemma db_inv_New [simp]: "db_inv hash (DB_New n)" "db_ents hash (DB_New n) = Map.empty"
  by (auto simp: db_inv_def DB_New_def db_ents_def keyspaceFor_def fun_eq_iff indexBytes_def)

lemma db_invD:
  assumes "db_inv hash db" "i < length (db_shards db)"
  shows "ks_inv (db_shards db ! i)" "ks_ents (db_shards db ! i) key = Some e \<Longrightarrow> indexBytes hash db key = i"
  using assms by (auto simp: db_inv_def dom_def)

lemma db_inv_keyspaceFor: "db_inv hash db \<Longrightarrow> ks_inv (keyspaceFor hash db key)"
  by (simp add: db_inv_def keyspaceFor_def indexBytes_less)

text \<open>An operation on the owning key space that changes only \<open>key\<close> there changes only
  \<open>key\<close> in the database.\<close>

lemma with_keyspace_lift:
  assumes "db_inv hash db" "ks_inv k" "\<forall>key'. key' \<noteq> key \<longrightarrow> ks_ents k key' = ks_ents (keyspaceFor hash db key) key'"
  shows "db_inv hash (with_keyspace hash db key k)"
    "db_ents hash (with_keyspace hash db key k) = (db_ents hash db)(key := ks_ents k key)"
proof -
  let ?i = "indexBytes hash db key"
  have i: "?i < length (db_shards db)" using assms(1) by (simp add: db_inv_def indexBytes_less)
  have "indexBytes hash db key' = ?i" if "key' \<in> dom (ks_ents k)" for key'
    using assms(3) that db_invD(2)[OF assms(1) i, of key']
    by (cases "key' = key") (auto simp: keyspaceFor_def dom_def)
  then show "db_inv hash (with_keyspace hash db key k)"
    using assms(1,2) i by (auto simp: db_inv_def db_shards_with_keyspace nth_list_update split: if_splits)
  show "db_ents hash (with_keyspace hash db key k) = (db_ents hash db)(key := ks_ents k key)"
  proof
    fix key'
    show "db_ents hash (with_keyspace hash db key k) key' = ((db_ents hash db)(key := ks_ents k key)) key'"
      using assms(3) i
      by (cases "indexBytes hash db key' = ?i")
         (auto simp: db_ents_def keyspaceFor_def db_shards_with_keyspace)
  qed
qed

lemma db_ents_live: "live now (db_ents hash db) key = live now (ks_ents (keyspaceFor hash db key)) key"
  by (simp add: live_def db_ents_def)

lemma db_lift_result:
  assumes "db_inv hash db" "ks_inv k" "ks_ents k = (ks_ents (keyspaceFor hash db key))(key := x)"
  shows "db_inv hash (with_keyspace hash db key k)
    \<and> db_ents hash (with_keyspace hash db key k) = (db_ents hash db)(key := x)"
  using with_keyspace_lift[OF assms(1,2), of key] assms(3) by simp

lemma upd_case_option:
  "(case z of None \<Rightarrow> m | Some e \<Rightarrow> m(k \<mapsto> f e)) =
   m(k := (case z of None \<Rightarrow> m k | Some e \<Rightarrow> Some (f e)))"
  by (auto split: option.split)

lemma db_dom: "db_inv hash db \<Longrightarrow>
  dom (db_ents hash db) = (\<Union>i < length (db_shards db). dom (ks_ents (db_shards db ! i)))"
  by (force simp: db_inv_def db_ents_def keyspaceFor_def dom_def indexBytes_def)

lemma foldl_add_map: "foldl (\<lambda>n k. n + f k) (c::int) xs = c + (\<Sum>k \<leftarrow> xs. f k)"
  by (induction xs arbitrary: c) auto

lemma DB_Len_card:
  assumes "db_inv hash db"
  shows "DB_Len db = int (card (dom (db_ents hash db)))"
proof -
  let ?D = "\<lambda>i. dom (ks_ents (db_shards db ! i))"
  have "card (dom (db_ents hash db)) = (\<Sum>i < length (db_shards db). card (?D i))"
    unfolding db_dom[OF assms]
  proof (rule card_UN_disjoint)
    show "\<forall>i \<in> {..<length (db_shards db)}. \<forall>j \<in> {..<length (db_shards db)}. i \<noteq> j \<longrightarrow> ?D i \<inter> ?D j = {}"
      using db_invD(2)[OF assms] by (auto simp: dom_def) metis
  qed (auto simp: finite_dom_map_of)
  moreover have "Keyspace_Len (db_shards db ! i) = int (card (?D i))" if "i < length (db_shards db)" for i
    using assms that ks.len by (simp add: db_inv_def)
  ultimately show ?thesis
    by (simp add: DB_Len_def foldl_add_map sum_list_sum_nth atLeast0LessThan)
qed

lemma DB_Flush_law:
  assumes "db_inv hash db"
  shows "db_inv hash (DB_Flush db) \<and> db_ents hash (DB_Flush db) = Map.empty"
proof -
  have "ks_inv (Keyspace_Flush k)" "ks_ents (Keyspace_Flush k) = Map.empty" for k
    by (simp_all add: Keyspace_Flush_def ks_inv_def)
  with assms show ?thesis
    by (auto simp: db_inv_def DB_Flush_def db_ents_def keyspaceFor_def indexBytes_def fun_eq_iff)
qed

interpretation db: ttl_store "db_inv hash" "db_ents hash" "DB_Lookup hash" "DB_Set hash"
  "DB_SetEntry hash" "DB_SetExpire hash" "DB_Persist hash" "DB_Delete hash" "DB_poke hash" DB_Flush DB_Len
  for hash
proof
  fix s now k e v at
  assume inv: "db_inv hash s"
  note K = db_inv_keyspaceFor[OF inv, of k]
  note lift = db_lift_result[OF inv]
  show "finite (dom (db_ents hash s))"
    by (simp add: db_dom[OF inv] finite_dom_map_of)
  show "value_ok (Entry_Value e)" if "db_ents hash s k = Some e"
    using ks.values_ok[OF K] that by (simp add: db_ents_def)
  show "DB_Lookup hash s now k = live now (db_ents hash s) k"
    using ks.lookup[OF K] by (simp add: DB_Lookup_def db_ents_live)
  show "db_inv hash (DB_Set hash s k v) \<and> db_ents hash (DB_Set hash s k v) = (db_ents hash s)(k \<mapsto> fresh_entry v)"
    if "value_ok v" using ks.put[OF K that, of k] by (auto simp: DB_Set_def intro!: lift)
  show "db_inv hash (DB_SetEntry hash s k e) \<and> db_ents hash (DB_SetEntry hash s k e) = (db_ents hash s)(k \<mapsto> e)"
    if "value_ok (Entry_Value e)" using ks.put_entry[OF K that, of k] by (auto simp: DB_SetEntry_def intro!: lift)
  show "db_inv hash (DB_poke hash s k v) \<and> db_ents hash (DB_poke hash s k v) = (db_ents hash s)(k \<mapsto> e\<lparr>Entry_Value := v\<rparr>)"
    if "value_ok v" "db_ents hash s k = Some e"
    using ks.poke[OF K that(1), of k e] that(2) lift[of _ k] by (simp add: DB_poke_def db_ents_def[of hash s k])
  show "\<exists>s'. DB_SetExpire hash s now k at = (s', live now (db_ents hash s) k \<noteq> None) \<and> db_inv hash s'
      \<and> db_ents hash s' = (case live now (db_ents hash s) k of None \<Rightarrow> db_ents hash s
          | Some e \<Rightarrow> (db_ents hash s)(k \<mapsto> e\<lparr>ExpireAt := at\<rparr>))"
  proof -
    from ks.set_expire[OF K, of now k at] obtain k' where
      k': "Keyspace_SetExpire (keyspaceFor hash s k) now k at = (k', live now (db_ents hash s) k \<noteq> None)"
        "ks_inv k'" "ks_ents k' = (case live now (db_ents hash s) k of None \<Rightarrow> ks_ents (keyspaceFor hash s k)
          | Some e \<Rightarrow> (ks_ents (keyspaceFor hash s k))(k \<mapsto> e\<lparr>ExpireAt := at\<rparr>))"
      by (auto simp: db_ents_live)
    from lift[OF k'(2,3)[unfolded upd_case_option]] k'(1) show ?thesis
      unfolding upd_case_option db_ents_def[of hash s k] by (simp add: DB_SetExpire_def)
  qed
  show "\<exists>s'. DB_Persist hash s now k = (s', case live now (db_ents hash s) k of None \<Rightarrow> False | Some e \<Rightarrow> HasExpiry e)
      \<and> db_inv hash s'
      \<and> db_ents hash s' = (case live now (db_ents hash s) k of None \<Rightarrow> db_ents hash s
          | Some e \<Rightarrow> (db_ents hash s)(k \<mapsto> e\<lparr>ExpireAt := zeroTime\<rparr>))"
  proof -
    from ks.persist[OF K, of now k] obtain k' where
      k': "Keyspace_Persist (keyspaceFor hash s k) now k
          = (k', case live now (db_ents hash s) k of None \<Rightarrow> False | Some e \<Rightarrow> HasExpiry e)"
        "ks_inv k'" "ks_ents k' = (case live now (db_ents hash s) k of None \<Rightarrow> ks_ents (keyspaceFor hash s k)
          | Some e \<Rightarrow> (ks_ents (keyspaceFor hash s k))(k \<mapsto> e\<lparr>ExpireAt := zeroTime\<rparr>))"
      by (auto simp: db_ents_live)
    from lift[OF k'(2,3)[unfolded upd_case_option]] k'(1) show ?thesis
      unfolding upd_case_option db_ents_def[of hash s k] by (simp add: DB_Persist_def)
  qed
  show "\<exists>s'. DB_Delete hash s now k = (s', live now (db_ents hash s) k \<noteq> None) \<and> db_inv hash s'
      \<and> db_ents hash s' = (db_ents hash s)(k := None)"
    using ks.remove[OF K, of now k] lift[of _ k] by (fastforce simp: DB_Delete_def db_ents_live)
  show "db_inv hash (DB_Flush s) \<and> db_ents hash (DB_Flush s) = Map.empty" by (rule DB_Flush_law[OF inv])
  show "DB_Len s = int (card (dom (db_ents hash s)))" by (rule DB_Len_card[OF inv])
qed

lemma DB_Get_lookup: "db_inv hash db \<Longrightarrow> DB_Get hash db now key = map_option Entry_Value (live now (db_ents hash db) key)"
  by (auto simp: DB_Get_def Keyspace_Get_def Keyspace_peek_live db_ents_live split: option.splits)

lemma DB_Exists_live: "DB_Exists hash db now key \<longleftrightarrow> live now (db_ents hash db) key \<noteq> None"
  by (simp add: DB_Exists_def Keyspace_Exists_def Keyspace_peek_live db_ents_live)

lemma DB_bytes_paths:
  "DB_GetBytes hash db now key = DB_Get hash db now key"
  "DB_ExistsBytes hash db now key = DB_Exists hash db now key"
  by (simp_all add: DB_GetBytes_def DB_Get_def DB_ExistsBytes_def DB_Exists_def Keyspace_bytes_paths)

lemma DB_Restore_SetEntry: "DB_Restore hash db key e = DB_SetEntry hash db key e"
  by (simp add: DB_Restore_def DB_SetEntry_def)

text \<open>\<open>UNLINK\<close> removes like \<open>DEL\<close>; the reaper gets exactly the live collections.\<close>

lemma DB_Unlink_Delete:
  "fst (DB_Unlink hash db now key)\<lparr>db_reap := db_reap db\<rparr> = fst (DB_Delete hash db now key)"
  "snd (DB_Unlink hash db now key) = snd (DB_Delete hash db now key)"
  by (auto simp: DB_Unlink_def DB_Delete_def Keyspace_Take_Delete with_keyspace_def
      split: prod.splits option.splits)

lemma db_inv_reap [simp]: "db_inv hash (db\<lparr>db_reap := r\<rparr>) = db_inv hash db"
  "db_ents hash (db\<lparr>db_reap := r\<rparr>) = db_ents hash db"
  by (auto simp: db_inv_def db_ents_def keyspaceFor_def indexBytes_def)

lemma DB_Unlink_law:
  assumes "db_inv hash db"
  shows "\<exists>db'. DB_Unlink hash db now k = (db', live now (db_ents hash db) k \<noteq> None) \<and> db_inv hash db'
    \<and> db_ents hash db' = (db_ents hash db)(k := None)"
proof -
  obtain db' b where u: "DB_Unlink hash db now k = (db', b)" by fastforce
  from db.remove[OF assms, of now k] obtain db1 where
    d: "DB_Delete hash db now k = (db1, live now (db_ents hash db) k \<noteq> None)" "db_inv hash db1"
      "db_ents hash db1 = (db_ents hash db)(k := None)" by blast
  with u DB_Unlink_Delete[where hash = hash and db = db and now = now and key = k] have
    "db'\<lparr>db_reap := db_reap db\<rparr> = db1" "b = (live now (db_ents hash db) k \<noteq> None)" by auto
  with u d(2,3) db_inv_reap[where hash = hash and db = db' and r = "db_reap db"] show ?thesis by auto
qed

text \<open>So \<open>UNLINK\<close> may stand for the removal of the store contract.\<close>

interpretation ul: ttl_store "db_inv hash" "db_ents hash" "DB_Lookup hash" "DB_Set hash"
  "DB_SetEntry hash" "DB_SetExpire hash" "DB_Persist hash" "DB_Unlink hash" "DB_poke hash" DB_Flush DB_Len
  for hash
  by unfold_locales
    (rule db.finite_ents db.values_ok db.lookup db.put db.put_entry db.set_expire db.persist DB_Unlink_law
      db.poke db.flush db.len; assumption)+

section \<open>Iteration\<close>

lemma distinct_concat_maps:
  assumes "\<forall>k \<in> set ks. distinct (f k)"
    "\<forall>i < length ks. \<forall>j < length ks. i \<noteq> j \<longrightarrow> set (f (ks ! i)) \<inter> set (f (ks ! j)) = {}"
  shows "distinct (concat (map f ks))"
  using assms
proof (induction ks)
  case (Cons k ks)
  have "set (f k) \<inter> set (f k') = {}" if "k' \<in> set ks" for k'
  proof -
    from that obtain j where "j < length ks" "ks ! j = k'" by (auto simp: in_set_conv_nth)
    with Cons.prems(2)[rule_format, of 0 "Suc j"] show ?thesis by simp
  qed
  moreover have "distinct (concat (map f ks))"
    using Cons.IH Cons.prems(1) Cons.prems(2)[rule_format, of "Suc _" "Suc _"] by auto
  ultimately show ?case using Cons.prems(1) by auto
qed simp

text \<open>An entry of the database is an entry of one of its shards, and only there.\<close>

lemma db_ents_shards:
  assumes "db_inv hash db"
  shows "db_ents hash db key = Some e \<longleftrightarrow> (\<exists>k \<in> set (db_shards db). ks_ents k key = Some e)"
proof
  assume "\<exists>k \<in> set (db_shards db). ks_ents k key = Some e"
  then obtain i where i: "i < length (db_shards db)" "ks_ents (db_shards db ! i) key = Some e"
    by (auto simp: in_set_conv_nth)
  with db_invD(2)[OF assms i] show "db_ents hash db key = Some e"
    by (simp add: db_ents_def keyspaceFor_def)
next
  assume "db_ents hash db key = Some e"
  moreover have "keyspaceFor hash db key \<in> set (db_shards db)"
    using assms by (simp add: keyspaceFor_def db_inv_def indexBytes_less)
  ultimately show "\<exists>k \<in> set (db_shards db). ks_ents k key = Some e"
    by (auto simp: db_ents_def)
qed

lemma DB_EachEntry_spec:
  assumes "db_inv hash db"
  shows "distinct (map fst (DB_EachEntry pick db))" "map_of (DB_EachEntry pick db) = db_ents hash db"
proof -
  let ?R = "Keyspace_Range pick"
  have keys: "fst ` set (?R k) = dom (ks_ents k)" "distinct (map fst (?R k))" if "ks_inv k" for k
    using that by (auto simp: Keyspace_Range_def ks_inv_def dom_map_of_conv_image_fst gomap_ok_def
        simp flip: set_map)
  have K: "ks_inv k" if "k \<in> set (db_shards db)" for k
    using assms that by (auto simp: db_inv_def in_set_conv_nth)
  have disj: "fst ` set (?R (db_shards db ! i)) \<inter> fst ` set (?R (db_shards db ! j)) = {}"
    if "i < length (db_shards db)" "j < length (db_shards db)" "i \<noteq> j" for i j
    using that db_invD[OF assms] by (simp add: keys) (auto simp: dom_def, metis)
  from distinct_concat_maps[of "db_shards db" "\<lambda>k. map fst (?R k)"] disj K keys
  show d: "distinct (map fst (DB_EachEntry pick db))"
    by (simp add: DB_EachEntry_def map_concat comp_def)
  have "map_of (DB_EachEntry pick db) key = Some e \<longleftrightarrow> db_ents hash db key = Some e" for key e
    using d K by (auto simp: db_ents_shards[OF assms] DB_EachEntry_def Keyspace_Range_def ks_inv_def
        set_range_map gomap_ok_def)
  then show "map_of (DB_EachEntry pick db) = db_ents hash db" by (metis ext not_None_eq)
qed

section \<open>Active expiry over the shards\<close>

lemma expire_shards_spec:
  assumes "expire_shards pick now limit ks ex ev = (ks', ex', ev')" "\<forall>k \<in> set ks. ks_inv k"
  shows "length ks' = length ks \<and> (\<forall>i < length ks. ks_inv (ks' ! i)
      \<and> (\<exists>E \<subseteq> expired_keys now (ks_ents (ks ! i)). ks_ents (ks' ! i) = ks_ents (ks ! i) |` (- E)))
    \<and> ex \<le> ex' \<and> ex' \<le> ex + int (length ks) * max 0 limit"
  using assms
proof (induction ks arbitrary: ks' ex ev)
  case (Cons k ks)
  obtain k1 ex1 ev1 where 1: "Keyspace_SampleExpired pick k now limit = (k1, ex1, ev1)"
    using prod_cases3 by blast
  obtain ks2 where 2: "expire_shards pick now limit ks (ex + ex1) (ev + ev1) = (ks2, ex', ev')" "ks' = k1 # ks2"
    using Cons.prems(1) 1 by (auto split: prod.splits)
  from Keyspace_SampleExpired_spec[OF 1] Cons.prems(2) obtain E where
    E: "E \<subseteq> expired_keys now (ks_ents k)" "ks_inv k1" "ks_ents k1 = ks_ents k |` (- E)"
      "0 \<le> ex1" "ex1 \<le> max 0 limit" by auto
  from Cons.IH[OF 2(1)] Cons.prems(2) E show ?case
    by (auto simp: 2(2) nth_Cons algebra_simps split: nat.split)
qed simp

text \<open>Shards from which only expired keys were removed.\<close>

lemma shards_expired:
  assumes inv: "db_inv hash db" and later: "now \<le> later" and len: "length ks = length (db_shards db)"
    and S: "\<And>i. i < length ks \<Longrightarrow> ks_inv (ks ! i)
      \<and> (\<exists>E \<subseteq> expired_keys now (ks_ents (db_shards db ! i)). ks_ents (ks ! i) = ks_ents (db_shards db ! i) |` (- E))"
  shows "db_inv hash (db\<lparr>db_shards := ks\<rparr>)" "live later (db_ents hash (db\<lparr>db_shards := ks\<rparr>)) = live later (db_ents hash db)"
proof -
  have idx: "indexBytes hash (db\<lparr>db_shards := ks\<rparr>) key = indexBytes hash db key" for key
    using len by (simp add: indexBytes_def)
  show "db_inv hash (db\<lparr>db_shards := ks\<rparr>)"
    unfolding db_inv_def idx
  proof (intro conjI allI impI ballI)
    show "db_shards (db\<lparr>db_shards := ks\<rparr>) \<noteq> []" using inv len by (auto simp: db_inv_def)
    fix i assume "i < length (db_shards (db\<lparr>db_shards := ks\<rparr>))"
    then have i: "i < length ks" by simp
    then show "ks_inv (db_shards (db\<lparr>db_shards := ks\<rparr>) ! i)" using S by simp
    fix key assume "key \<in> dom (ks_ents (db_shards (db\<lparr>db_shards := ks\<rparr>) ! i))"
    moreover from S[OF i] obtain E where "ks_ents (ks ! i) = ks_ents (db_shards db ! i) |` (- E)" by blast
    ultimately have "key \<in> dom (ks_ents (db_shards db ! i))" by auto
    then show "indexBytes hash db key = i" using inv i len by (auto simp: db_inv_def)
  qed
  show "live later (db_ents hash (db\<lparr>db_shards := ks\<rparr>)) = live later (db_ents hash db)"
  proof
    fix key
    let ?i = "indexBytes hash db key"
    have "?i < length ks" using inv len by (simp add: db_inv_def indexBytes_less)
    from S[OF this] obtain E where "E \<subseteq> expired_keys now (ks_ents (db_shards db ! ?i))"
      "ks_ents (ks ! ?i) = ks_ents (db_shards db ! ?i) |` (- E)" by blast
    then have "live later (ks_ents (ks ! ?i)) = live later (ks_ents (db_shards db ! ?i))"
      using live_restrict_later[OF _ later] by simp
    then show "live later (db_ents hash (db\<lparr>db_shards := ks\<rparr>)) key = live later (db_ents hash db) key"
      by (simp add: db_ents_live keyspaceFor_def idx)
  qed
qed

lemma DB_ExpireCycle_spec:
  assumes "DB_ExpireCycle pick db now limit = (db', ex, ev)" "db_inv hash db" "now \<le> later"
  shows "db_inv hash db'" "live later (db_ents hash db') = live later (db_ents hash db)"
    "0 \<le> ex" "ex \<le> DB_Shards db * max 0 limit"
proof -
  obtain ks where r: "expire_shards pick now limit (db_shards db) 0 0 = (ks, ex, ev)"
    and db': "db' = db\<lparr>db_shards := ks\<rparr>"
    using assms(1) by (auto simp: DB_ExpireCycle_def split: prod.splits)
  have "\<forall>k \<in> set (db_shards db). ks_inv k"
    using assms(2) by (auto simp: db_inv_def in_set_conv_nth)
  note S = expire_shards_spec[OF r this]
  show "db_inv hash db'" "live later (db_ents hash db') = live later (db_ents hash db)"
    using shards_expired[OF assms(2,3), of ks] S by (simp_all add: db')
  show "0 \<le> ex" "ex \<le> DB_Shards db * max 0 limit" using S by (simp_all add: DB_Shards_def)
qed

text \<open>The body of the loop of \<open>ExpireCycle\<close>, one critical section of one shard.\<close>

definition DB_ExpireShard :: "(bytes list \<Rightarrow> bytes list) \<Rightarrow> DB \<Rightarrow> nat \<Rightarrow> gotime \<Rightarrow> int \<Rightarrow> DB" where
  "DB_ExpireShard pick db i now limitPerShard =
     (case Keyspace_SampleExpired pick (db_shards db ! i) now limitPerShard of
        (k, ex, ev) \<Rightarrow> db\<lparr>db_shards := (db_shards db)[i := k]\<rparr>)"

text \<open>A cycle is the shards one after the other, each under its own lock.\<close>

lemma expire_shards_map: "fst (expire_shards pick now limit ks ex ev) = map (\<lambda>k. fst (Keyspace_SampleExpired pick k now limit)) ks"
  by (induction ks arbitrary: ex ev) (auto split: prod.splits dest: arg_cong[of _ _ fst])

lemma ExpireCycle_shards:
  "fst (DB_ExpireCycle pick db now limit) = foldl (\<lambda>db i. DB_ExpireShard pick db i now limit) db [0..<length (db_shards db)]"
proof -
  let ?f = "\<lambda>k. fst (Keyspace_SampleExpired pick k now limit)" and ?ks = "db_shards db"
  have "foldl (\<lambda>db i. DB_ExpireShard pick db i now limit) db [0..<n] = db\<lparr>db_shards := map ?f (take n ?ks) @ drop n ?ks\<rparr>"
    if "n \<le> length ?ks" for n
    using that
  proof (induction n)
    case (Suc n)
    then have n: "n < length ?ks" by simp
    then have "(map ?f (take n ?ks) @ drop n ?ks)[n := ?f (?ks ! n)] = map ?f (take (Suc n) ?ks) @ drop (Suc n) ?ks"
      by (simp add: list_update_append take_Suc_conv_app_nth Cons_nth_drop_Suc[symmetric])
    with Suc n show ?case by (simp add: DB_ExpireShard_def nth_append split: prod.split) (auto dest: arg_cong[of _ _ fst])
  qed simp
  from this[of "length ?ks"] show ?thesis
    using expire_shards_map[of pick now limit ?ks 0 0] by (auto simp: DB_ExpireCycle_def split: prod.splits)
qed

lemma DB_ExpireShard_spec:
  assumes "db_inv hash db" "now \<le> later" "i < length (db_shards db)"
  shows "db_inv hash (DB_ExpireShard pick db i now limit)"
    "live later (db_ents hash (DB_ExpireShard pick db i now limit)) = live later (db_ents hash db)"
    "length (db_shards (DB_ExpireShard pick db i now limit)) = length (db_shards db)"
proof -
  obtain k ex ev where r: "Keyspace_SampleExpired pick (db_shards db ! i) now limit = (k, ex, ev)" using prod_cases3 by blast
  have inv: "ks_inv (db_shards db ! j)" if "j < length (db_shards db)" for j using assms(1) that by (simp add: db_inv_def)
  from Keyspace_SampleExpired_spec[OF r inv[OF assms(3)]] obtain E where
    E: "E \<subseteq> expired_keys now (ks_ents (db_shards db ! i))" "ks_inv k" "ks_ents k = ks_ents (db_shards db ! i) |` (- E)" by blast
  have e: "\<exists>F \<subseteq> expired_keys now (ks_ents (db_shards db ! j)). ks_ents (db_shards db ! j) = ks_ents (db_shards db ! j) |` (- F)" for j
    by (rule exI[of _ "{}"]) (simp add: restrict_map_def)
  have "ks_inv ((db_shards db)[i := k] ! j) \<and> (\<exists>F \<subseteq> expired_keys now (ks_ents (db_shards db ! j)).
      ks_ents ((db_shards db)[i := k] ! j) = ks_ents (db_shards db ! j) |` (- F))" if "j < length ((db_shards db)[i := k])" for j
    using that inv[of j] e[of j] E by (cases "j = i") auto
  from shards_expired[OF assms(1,2) _ this] r
  show "db_inv hash (DB_ExpireShard pick db i now limit)"
    "live later (db_ents hash (DB_ExpireShard pick db i now limit)) = live later (db_ents hash db)"
    by (simp_all add: DB_ExpireShard_def)
  show "length (db_shards (DB_ExpireShard pick db i now limit)) = length (db_shards db)"
    using r by (simp add: DB_ExpireShard_def)
qed

section \<open>Lock order\<close>

lemma shard_dedup_spec:
  "distinct idx \<Longrightarrow> dom (map_of seen) = set idx \<Longrightarrow>
   distinct (shard_dedup seen idx is) \<and> set (shard_dedup seen idx is) = set idx \<union> set is"
proof (induction seen idx "is" rule: shard_dedup.induct)
  case (2 seen idx i "is")
  show ?case
  proof (cases "i \<in> set idx")
    case True
    then have "map_of seen i \<noteq> None" using 2(4) by auto
    with 2 True show ?thesis by auto
  next
    case False
    then have n: "map_of seen i = None" using 2(4) by auto
    have "dom (map_of (AList.update i () seen)) = set (idx @ [i])" using 2(4) by simp
    with 2(2)[OF _ _ this] 2(3) n False show ?thesis by simp
  qed
qed auto

text \<open>The shards of a set of keys, each once and in ascending order.\<close>

lemma shardSet_spec:
  "sorted_wrt (<) (shardSet hash db keys)" "set (shardSet hash db keys) = indexBytes hash db ` set keys"
proof -
  let ?idx = "shard_dedup [] [] (map (indexBytes hash db) keys)"
  have D: "distinct ?idx" "set ?idx = indexBytes hash db ` set keys"
    using shard_dedup_spec[of "[]" "[]"] by auto
  have S: "sorted_wrt (<) (sortSlice (<) ?idx)"
    using sortSlice_sorted[of ?idx "(<)" "\<lambda>i. i"] D(1) by simp
  consider (none) "keys = []" | (one) k where "keys = [k]" | (many) "shardSet hash db keys = sortSlice (<) ?idx"
    by (cases keys rule: remdups_adj.cases) (auto simp: shardSet_def)
  then have "sorted_wrt (<) (shardSet hash db keys) \<and> set (shardSet hash db keys) = indexBytes hash db ` set keys"
  proof cases
    case many
    show ?thesis unfolding many using S D(2) by simp
  qed (simp_all add: shardSet_def)
  then show "sorted_wrt (<) (shardSet hash db keys)"
    "set (shardSet hash db keys) = indexBytes hash db ` set keys" by simp_all
qed

end
