(* ===== verification/StoreRefine.thy ===== *)
theory StoreRefine
  imports Collections Shard
begin

text \<open>
  Sequences of store operations. A key space, and a database of any number of shards under
  any hash, both implement the one abstract store: a partial map from keys to entries, read
  through \<open>live\<close>. The two refinements are interpretations of \<open>op_refinement\<close>, so a
  client cannot tell a sharded database from a single key space.
\<close>

datatype storeOp =
    OpSet bytes Value
  | OpSetEntry bytes Entry
  | OpSetExpire gotime bytes gotime
  | OpPersist gotime bytes
  | OpDelete gotime bytes
  | OpLookup gotime bytes
  | OpFlush
  | OpLen

datatype storeRes = StDone | StBool bool | StEntry "Entry option" | StInt int

text \<open>The abstract store.\<close>

fun store_spec :: "storeOp \<Rightarrow> store \<Rightarrow> store \<times> storeRes" where
  "store_spec (OpSet k v) m = (m(k \<mapsto> fresh_entry v), StDone)"
| "store_spec (OpSetEntry k e) m = (m(k \<mapsto> e), StDone)"
| "store_spec (OpSetExpire now k at) m =
     (case live now m k of
        None \<Rightarrow> (m, StBool False)
      | Some e \<Rightarrow> (m(k \<mapsto> e\<lparr>ExpireAt := at\<rparr>), StBool True))"
| "store_spec (OpPersist now k) m =
     (case live now m k of
        None \<Rightarrow> (m, StBool False)
      | Some e \<Rightarrow> (m(k \<mapsto> e\<lparr>ExpireAt := zeroTime\<rparr>), StBool (HasExpiry e)))"
| "store_spec (OpDelete now k) m = (m(k := None), StBool (live now m k \<noteq> None))"
| "store_spec (OpLookup now k) m = (m, StEntry (live now m k))"
| "store_spec OpFlush m = (Map.empty, StDone)"
| "store_spec OpLen m = (m, StInt (int (card (dom m))))"

fun store_valid :: "storeOp \<Rightarrow> bool" where
  "store_valid (OpSet k v) = value_ok v"
| "store_valid (OpSetEntry k e) = value_ok (Entry_Value e)"
| "store_valid x = True"

fun ks_exec :: "storeOp \<Rightarrow> Keyspace \<Rightarrow> (Keyspace \<times> storeRes) option" where
  "ks_exec (OpSet k v) s = Some (Keyspace_Set s k v, StDone)"
| "ks_exec (OpSetEntry k e) s = Some (Keyspace_SetEntry s k e, StDone)"
| "ks_exec (OpSetExpire now k at) s = Some (map_prod id StBool (Keyspace_SetExpire s now k at))"
| "ks_exec (OpPersist now k) s = Some (map_prod id StBool (Keyspace_Persist s now k))"
| "ks_exec (OpDelete now k) s = Some (map_prod id StBool (Keyspace_Delete s now k))"
| "ks_exec (OpLookup now k) s = Some (s, StEntry (Keyspace_Lookup s now k))"
| "ks_exec OpFlush s = Some (Keyspace_Flush s, StDone)"
| "ks_exec OpLen s = Some (s, StInt (Keyspace_Len s))"

fun db_exec :: "keyhash \<Rightarrow> storeOp \<Rightarrow> DB \<Rightarrow> (DB \<times> storeRes) option" where
  "db_exec hash (OpSet k v) s = Some (DB_Set hash s k v, StDone)"
| "db_exec hash (OpSetEntry k e) s = Some (DB_SetEntry hash s k e, StDone)"
| "db_exec hash (OpSetExpire now k at) s = Some (map_prod id StBool (DB_SetExpire hash s now k at))"
| "db_exec hash (OpPersist now k) s = Some (map_prod id StBool (DB_Persist hash s now k))"
| "db_exec hash (OpDelete now k) s = Some (map_prod id StBool (DB_Delete hash s now k))"
| "db_exec hash (OpLookup now k) s = Some (s, StEntry (DB_Lookup hash s now k))"
| "db_exec hash OpFlush s = Some (DB_Flush s, StDone)"
| "db_exec hash OpLen s = Some (s, StInt (DB_Len s))"

text \<open>Any implementation of the contract \<open>ttl_store\<close> refines the abstract store.\<close>

context ttl_store
begin

fun exec :: "storeOp \<Rightarrow> 's \<Rightarrow> ('s \<times> storeRes) option" where
  "exec (OpSet k v) s = Some (put s k v, StDone)"
| "exec (OpSetEntry k e) s = Some (put_entry s k e, StDone)"
| "exec (OpSetExpire now k at) s = Some (map_prod id StBool (set_expire s now k at))"
| "exec (OpPersist now k) s = Some (map_prod id StBool (persist s now k))"
| "exec (OpDelete now k) s = Some (map_prod id StBool (remove s now k))"
| "exec (OpLookup now k) s = Some (s, StEntry (lookup s now k))"
| "exec OpFlush s = Some (flush s, StDone)"
| "exec OpLen s = Some (s, StInt (len s))"

lemma exec_refines:
  assumes "inv s" "store_valid x"
  shows "\<exists>s' r. exec x s = Some (s', r) \<and> inv s' \<and> store_spec x (ents s) = (ents s', r)"
proof (cases x)
  case (OpSetExpire now k at)
  with set_expire[OF assms(1), of now k at] show ?thesis by (auto split: option.splits)
next
  case (OpPersist now k)
  with persist[OF assms(1), of now k] show ?thesis by (auto split: option.splits)
next
  case (OpDelete now k)
  with remove[OF assms(1), of now k] show ?thesis by auto
qed (use assms put put_entry lookup flush len in auto)

end

lemma ks_exec_eq: "ks_exec = ks.exec"
proof (intro ext)
  show "ks_exec x s = ks.exec x s" for x s by (cases x) simp_all
qed

lemma db_exec_eq: "db_exec hash = db.exec hash"
proof (intro ext)
  show "db_exec hash x s = db.exec hash x s" for x s by (cases x) simp_all
qed

interpretation ks_ref: op_refinement ks_inv ks_ents ks_exec store_spec store_valid
  unfolding ks_exec_eq by unfold_locales (rule ks.exec_refines)

interpretation db_ref: op_refinement "db_inv hash" "db_ents hash" "db_exec hash" store_spec store_valid
  for hash
  unfolding db_exec_eq by unfold_locales (rule db.exec_refines)

end
