(* ===== verification/Resp.thy ===== *)
theory Resp
  imports Pack
begin

text \<open>
  The wire protocol: \<open>internal/resp\<close> (requests read, replies written). A connection is the sequence of
  bytes it delivers before it ends; a reader returns what it parsed and the bytes left, or
  the error the code returns. The line buffer of \<open>bufio\<close> (16 KiB) and the size limits are
  part of the model.
\<close>

section \<open>Reading from a stream\<close>

definition bindE :: "'e + 'a \<Rightarrow> ('a \<Rightarrow> 'e + 'b) \<Rightarrow> 'e + 'b" where
  "bindE x f = (case x of Inl e \<Rightarrow> Inl e | Inr a \<Rightarrow> f a)"

lemma bindE_simps [simp]: "bindE (Inl e) f = Inl e" "bindE (Inr a) f = f a"
  by (simp_all add: bindE_def)

abbreviation maxBulkLen :: int where "maxBulkLen \<equiv> 536870912"
abbreviation maxMultiBulkLen :: int where "maxMultiBulkLen \<equiv> 1048576"
abbreviation directReadLimit :: nat where "directReadLimit \<equiv> 65536"
abbreviation readBufferSize :: nat where "readBufferSize \<equiv> 16384"

definition eofIsUnexpected :: "ioErr \<Rightarrow> ioErr" where
  "eofIsUnexpected err = (if err = EOF then UnexpectedEOF else err)"

text \<open>\<open>bufio.Reader.ReadByte\<close> and \<open>io.ReadFull\<close>.\<close>

fun readByte :: "bytes \<Rightarrow> ioErr + char \<times> bytes" where
  "readByte [] = Inl EOF"
| "readByte (c # s) = Inr (c, s)"

definition readFull :: "nat \<Rightarrow> bytes \<Rightarrow> ioErr + bytes \<times> bytes" where
  "readFull n s =
     (if length s < n then Inl (if s = [] then EOF else UnexpectedEOF)
      else Inr (take n s, drop n s))"

text \<open>The bytes up to and including the first line feed, and the rest.\<close>

fun split_lf :: "bytes \<Rightarrow> (bytes \<times> bytes) option" where
  "split_lf [] = None"
| "split_lf (c # s) =
     (if c = CHR 0x0A then Some ([c], s)
      else (case split_lf s of None \<Rightarrow> None | Some (l, r) \<Rightarrow> Some (c # l, r)))"

text \<open>
  \<open>bufio.Reader.ReadSlice\<close> on a line feed: a line that does not fit the buffer with its
  terminator is \<open>ErrBufferFull\<close>.
\<close>

definition readSlice :: "bytes \<Rightarrow> ioErr + bytes \<times> bytes" where
  "readSlice s =
     (case split_lf (take readBufferSize s) of
        Some (l, r) \<Rightarrow> Inr (l, drop (length l) s)
      | None \<Rightarrow> if length s \<ge> readBufferSize then Inl (Malformed ''line too long'') else Inl EOF)"

definition readLine :: "bytes \<Rightarrow> ioErr + bytes \<times> bytes" where
  "readLine s =
     (case readSlice s of
        Inl err \<Rightarrow> Inl (eofIsUnexpected err)
      | Inr (line, rest) \<Rightarrow>
          let n = length line
          in if n < 2 \<or> line ! (n - 2) \<noteq> CHR 0x0D
             then Inl (Malformed ''line not terminated by CRLF'')
             else Inr (take (n - 2) line, rest))"

definition readCount :: "bytes \<Rightarrow> ioErr + int \<times> bytes" where
  "readCount s =
     bindE (readLine s) (\<lambda>(line, rest).
       case parseInt line of
         None \<Rightarrow> Inl (Malformed ''invalid count'')
       | Some n \<Rightarrow> Inr (n, rest))"

definition expectCRLF :: "bytes \<Rightarrow> ioErr + unit \<times> bytes" where
  "expectCRLF s =
     (case readByte s of
        Inl err \<Rightarrow> Inl (eofIsUnexpected err)
      | Inr (cr, s1) \<Rightarrow>
          (case readByte s1 of
             Inl err \<Rightarrow> Inl (eofIsUnexpected err)
           | Inr (lf, s2) \<Rightarrow>
               if cr \<noteq> CHR 0x0D \<or> lf \<noteq> CHR 0x0A
               then Inl (Malformed ''bulk not terminated by CRLF'') else Inr ((), s2)))"

lemma readFull_length: "readFull n s = Inr (b, s') \<Longrightarrow> length b = n"
  by (auto simp: readFull_def split: if_splits)

text \<open>The chunked loop of \<open>readN\<close>.\<close>

function readChunks :: "nat \<Rightarrow> bytes \<Rightarrow> bytes \<Rightarrow> ioErr + bytes \<times> bytes" where
  "readChunks n buf s =
     (if length buf < n then
        (let want = (if n - length buf > directReadLimit then directReadLimit else n - length buf)
         in case readFull want s of
              Inl err \<Rightarrow> Inl (eofIsUnexpected err)
            | Inr (chunk, s') \<Rightarrow> readChunks n (buf @ chunk) s')
      else Inr (buf, s))"
  by pat_completeness auto
termination by (relation "measure (\<lambda>(n, buf, s). n - length buf)") (auto dest!: readFull_length)

declare readChunks.simps [simp del]

definition readN :: "nat \<Rightarrow> bytes \<Rightarrow> ioErr + bytes \<times> bytes" where
  "readN n s =
     (if n \<le> directReadLimit then
        (case readFull n s of Inl err \<Rightarrow> Inl (eofIsUnexpected err) | Inr r \<Rightarrow> Inr r)
      else readChunks n [] s)"

definition readBulk :: "bytes \<Rightarrow> ioErr + bytes \<times> bytes" where
  "readBulk s =
     bindE (readCount s) (\<lambda>(n, s1).
       if n < 0 \<or> n > maxBulkLen then Inl (Malformed ''bulk length out of range'')
       else bindE (readN (nat n) s1) (\<lambda>(body, s2).
         bindE (expectCRLF s2) (\<lambda>(u, s3). Inr (body, s3))))"

fun readArgs :: "nat \<Rightarrow> bytes \<Rightarrow> ioErr + bytes list \<times> bytes" where
  "readArgs 0 s = Inr ([], s)"
| "readArgs (Suc n) s =
     (case readByte s of
        Inl err \<Rightarrow> Inl (eofIsUnexpected err)
      | Inr (marker, s1) \<Rightarrow>
          if marker \<noteq> CHR ''$'' then Inl (Malformed ''expected $'')
          else bindE (readBulk s1) (\<lambda>(arg, s2).
            bindE (readArgs n s2) (\<lambda>(args, s3). Inr (arg # args, s3))))"

definition readMultiBulk :: "bytes \<Rightarrow> ioErr + bytes list \<times> bytes" where
  "readMultiBulk s =
     bindE (readCount s) (\<lambda>(n, s1).
       if n \<le> 0 then Inr ([], s1)
       else if n > maxMultiBulkLen then Inl (Malformed ''multi-bulk count too large'')
       else readArgs (nat n) s1)"

text \<open>
  \<open>bytes.Fields\<close>: the number of bytes of the white-space rune at the head, 0 when there is
  none. Bytes inside another rune are never the first byte of one of these, so a scan byte by
  byte finds the same separators as a scan rune by rune.
\<close>

fun space_len :: "bytes \<Rightarrow> nat" where
  "space_len [] = 0"
| "space_len (c # s) =
     (let n = byteval c
      in if n \<in> {9, 10, 11, 12, 13, 32} then 1
         else if n = 194 then (case s of d # _ \<Rightarrow> if byteval d \<in> {133, 160} then 2 else 0 | _ \<Rightarrow> 0)
         else if n = 225 then
           (case s of d # e # _ \<Rightarrow> if byteval d = 154 \<and> byteval e = 128 then 3 else 0 | _ \<Rightarrow> 0)
         else if n = 226 then
           (case s of
              d # e # _ \<Rightarrow>
                if byteval d = 128 \<and> (128 \<le> byteval e \<and> byteval e \<le> 138 \<or> byteval e \<in> {168, 169, 175})
                   \<or> byteval d = 129 \<and> byteval e = 159
                then 3 else 0
            | _ \<Rightarrow> 0)
         else if n = 227 then
           (case s of d # e # _ \<Rightarrow> if byteval d = 128 \<and> byteval e = 128 then 3 else 0 | _ \<Rightarrow> 0)
         else 0)"

function fields_scan :: "bytes \<Rightarrow> bytes \<Rightarrow> bytes list" where
  "fields_scan cur s =
     (case s of
        [] \<Rightarrow> if cur = [] then [] else [cur]
      | c # s' \<Rightarrow>
          if space_len s = 0 then fields_scan (cur @ [c]) s'
          else (if cur = [] then [] else [cur]) @ fields_scan [] (drop (space_len s) s))"
  by pat_completeness auto
termination by (relation "measure (\<lambda>(cur, s). length s)") (auto simp del: space_len.simps)

declare fields_scan.simps [simp del]

definition bytesFields :: "bytes \<Rightarrow> bytes list" where
  "bytesFields line = fields_scan [] line"

definition readInline :: "bytes \<Rightarrow> ioErr + bytes list \<times> bytes" where
  "readInline s = bindE (readLine s) (\<lambda>(line, rest). Inr (bytesFields line, rest))"

definition ReadRequest :: "bytes \<Rightarrow> ioErr + bytes list \<times> bytes" where
  "ReadRequest s =
     (case readByte s of
        Inl err \<Rightarrow> Inl err
      | Inr (prefix, s1) \<Rightarrow> if prefix = CHR ''*'' then readMultiBulk s1 else readInline s)"

section \<open>Replies\<close>

datatype Reply =
    RNil
  | RSimple bytes
  | RError bytes
  | RInt int
  | RBulk bytes
  | RArray "Reply list"

definition Reply_OK :: Reply where "Reply_OK = RSimple ''OK''"

fun IsError :: "Reply \<Rightarrow> bool" where
  "IsError (RError s) = True"
| "IsError r = False"

text \<open>Structural equality and the rendering for logs; \<open>quote\<close> is \<open>strconv.Quote\<close>.\<close>

fun Reply_Equal :: "Reply \<Rightarrow> Reply \<Rightarrow> bool" and Replies_Equal :: "Reply list \<Rightarrow> Reply list \<Rightarrow> bool" where
  "Reply_Equal (RSimple a) (RSimple b) = (a = b)"
| "Reply_Equal (RError a) (RError b) = (a = b)"
| "Reply_Equal (RInt m) (RInt n) = (m = n)"
| "Reply_Equal (RBulk a) (RBulk b) = (a = b)"
| "Reply_Equal (RArray as) (RArray bs) = (length as = length bs \<and> Replies_Equal as bs)"
| "Reply_Equal RNil RNil = True"
| "Reply_Equal _ _ = False"
| "Replies_Equal (a # as) (b # bs) = (Reply_Equal a b \<and> Replies_Equal as bs)"
| "Replies_Equal _ _ = True"

fun Reply_String :: "(bytes \<Rightarrow> bytes) \<Rightarrow> Reply \<Rightarrow> bytes" where
  "Reply_String quote RNil = ''(nil)''"
| "Reply_String quote (RSimple s) = s"
| "Reply_String quote (RError s) = ''(error) '' @ s"
| "Reply_String quote (RInt n) = formatInt n"
| "Reply_String quote (RBulk b) = quote b"
| "Reply_String quote (RArray rs) =
     ''['' @ (case map (Reply_String quote) rs of [] \<Rightarrow> [] | t # ts \<Rightarrow> t @ concat (map (\<lambda>t. '' '' @ t) ts)) @ '']''"

lemma Reply_Equal_iff:
  "Reply_Equal r q \<longleftrightarrow> r = q" "length rs = length qs \<Longrightarrow> Replies_Equal rs qs \<longleftrightarrow> rs = qs"
  by (induction r q and rs qs rule: Reply_Equal_Replies_Equal.induct) auto

fun Elements :: "Reply \<Rightarrow> Reply list" where
  "Elements (RArray rs) = rs"
| "Elements r = []"

text \<open>
  The writer keeps the first error and drops everything after it. \<open>w_fault n\<close> says
  whether the \<open>n\<close>-th write to the buffered stream fails. \<open>w_flushed\<close> counts the bytes that
  are on the stream for certain, those before the last successful \<open>Flush\<close>.
\<close>

record Writer =
  w_out :: bytes
  w_err :: bool
  w_calls :: nat
  w_fault :: "nat \<Rightarrow> bool"
  w_flushed :: nat

definition Writer_write :: "Writer \<Rightarrow> bytes \<Rightarrow> Writer" where
  "Writer_write w p =
     (if w_err w then w
      else if w_fault w (w_calls w) then w\<lparr>w_err := True, w_calls := w_calls w + 1\<rparr>
      else w\<lparr>w_out := w_out w @ p, w_calls := w_calls w + 1\<rparr>)"

abbreviation CRLF :: bytes where
  "CRLF \<equiv> [CHR 0x0D, CHR 0x0A]"

definition Writer_writeFrame :: "Writer \<Rightarrow> char \<Rightarrow> bytes \<Rightarrow> Writer" where
  "Writer_writeFrame w prefix s = Writer_write (Writer_write (Writer_write w [prefix]) s) CRLF"

definition Writer_writeBulk :: "Writer \<Rightarrow> bytes \<Rightarrow> Writer" where
  "Writer_writeBulk w b =
     Writer_write (Writer_write (Writer_write (Writer_write (Writer_write w ''$'')
       (formatInt (int (length b)))) CRLF) b) CRLF"

fun Writer_writeReply :: "Writer \<Rightarrow> Reply \<Rightarrow> Writer" where
  "Writer_writeReply w RNil = Writer_write w (''$-1'' @ CRLF)"
| "Writer_writeReply w (RSimple s) = Writer_writeFrame w CHR ''+'' s"
| "Writer_writeReply w (RError s) = Writer_writeFrame w CHR ''-'' s"
| "Writer_writeReply w (RInt n) = Writer_write (Writer_write (Writer_write w '':'') (formatInt n)) CRLF"
| "Writer_writeReply w (RBulk b) = Writer_writeBulk w b"
| "Writer_writeReply w (RArray rs) =
     foldl Writer_writeReply
       (Writer_write (Writer_write (Writer_write w ''*'') (formatInt (int (length rs)))) CRLF) rs"

text \<open>\<open>WriteReply\<close> reports whether an error has occurred.\<close>

definition WriteReply :: "Writer \<Rightarrow> Reply \<Rightarrow> Writer \<times> bool" where
  "WriteReply w r = (let w' = Writer_writeReply w r in (w', w_err w'))"

definition Writer_Flush :: "Writer \<Rightarrow> Writer \<times> bool" where
  "Writer_Flush w =
     (if w_err w then (w, True)
      else if w_fault w (w_calls w) then (w\<lparr>w_err := True, w_calls := w_calls w + 1\<rparr>, True)
      else (w\<lparr>w_flushed := length (w_out w), w_calls := w_calls w + 1\<rparr>, False))"

text \<open>The bytes of a reply when nothing fails.\<close>

fun encodeReply :: "Reply \<Rightarrow> bytes" where
  "encodeReply RNil = ''$-1'' @ CRLF"
| "encodeReply (RSimple s) = ''+'' @ s @ CRLF"
| "encodeReply (RError s) = ''-'' @ s @ CRLF"
| "encodeReply (RInt n) = '':'' @ formatInt n @ CRLF"
| "encodeReply (RBulk b) = ''$'' @ formatInt (int (length b)) @ CRLF @ b @ CRLF"
| "encodeReply (RArray rs) = ''*'' @ formatInt (int (length rs)) @ CRLF @ concat (map encodeReply rs)"

text \<open>The bytes of a request, as the clients send it.\<close>

definition writeCommand :: "bytes list \<Rightarrow> bytes option" where
  "writeCommand args =
     (if args = [] then None
      else Some (''*'' @ formatInt (int (length args)) @ CRLF
        @ concat (map (\<lambda>a. ''$'' @ formatInt (int (length a)) @ CRLF @ a @ CRLF) args)))"

section \<open>The request round trip\<close>

lemma split_lf_line: "CHR 0x0A \<notin> set l \<Longrightarrow> split_lf (l @ CHR 0x0A # r) = Some (l @ [CHR 0x0A], r)"
  by (induction l) auto

lemma readLine_CRLF [codec_simps]:
  assumes "CHR 0x0A \<notin> set l" "length l + 2 \<le> readBufferSize"
  shows "readLine (l @ CRLF @ rest) = Inr (l, rest)"
proof -
  have "take readBufferSize (l @ CRLF @ rest) = (l @ [CHR 0x0D]) @ CHR 0x0A # take (readBufferSize - length l - 2) rest"
    using assms(2) by (simp add: take_Cons' eval_nat_numeral(3)[symmetric])
  then have "readSlice (l @ CRLF @ rest) = Inr (l @ CRLF, rest)"
    using split_lf_line[of "l @ [CHR 0x0D]"] assms(1) by (simp add: readSlice_def)
  then show ?thesis by (simp add: readLine_def nth_append)
qed

lemma utoa_digits: "c \<in> set (utoa n) \<Longrightarrow> \<exists>d < 10. c = digit_char d"
proof (induction n rule: utoa.induct)
  case (1 n)
  then show ?case by (subst (asm) (2) utoa.simps) (auto split: if_splits intro: exI[of _ "n mod 10"])
qed

lemma digit_char_not_lf: "d < 10 \<Longrightarrow> digit_char d \<noteq> CHR 0x0A"
  by (auto dest!: arg_cong[where f = byteval] simp: digit_char_def)

lemma formatInt_no_lf: "CHR 0x0A \<notin> set (formatInt n)"
proof -
  have "CHR 0x0A \<notin> set (utoa k)" for k
  proof
    assume "CHR 0x0A \<in> set (utoa k)"
    from utoa_digits[OF this] obtain d where "d < 10" "digit_char d = CHR 0x0A" by metis
    with digit_char_not_lf show False by metis
  qed
  then show ?thesis by (simp add: formatInt_def)
qed

lemma utoa_length: "n < 10 ^ k \<Longrightarrow> 0 < k \<Longrightarrow> length (utoa n) \<le> k"
proof (induction n arbitrary: k rule: utoa.induct)
  case (1 n)
  show ?case
  proof (cases "n < 10")
    case False
    with 1(2) obtain k' where k: "k = Suc k'" "0 < k'" by (cases k; cases "k - 1") auto
    have "n div 10 < 10 ^ k'" using 1(2) k by (simp add: less_mult_imp_div_less mult.commute)
    with 1(1)[OF False this k(2)] k False show ?thesis by (simp add: utoa.simps[of n])
  qed (use 1 in \<open>simp add: utoa.simps[of n]\<close>)
qed

lemma formatInt_length: "int64_ok n \<Longrightarrow> length (formatInt n) \<le> 20"
  using utoa_length[of "nat (- n)" 19] utoa_length[of "nat n" 19]
  by (auto simp: formatInt_def int64_ok_def nat_less_iff)

lemma readCount_format [codec_simps]:
  "int64_ok n \<Longrightarrow> readCount (formatInt n @ CRLF @ rest) = Inr (n, rest)"
  using formatInt_length[of n]
  by (simp add: readCount_def readLine_CRLF[OF formatInt_no_lf, simplified] parseInt_formatInt)

text \<open>The chunked read is the direct one.\<close>

lemma readChunks_spec:
  "length buf \<le> n \<Longrightarrow> readChunks n buf s =
   (if length s < n - length buf then Inl UnexpectedEOF
    else Inr (buf @ take (n - length buf) s, drop (n - length buf) s))"
proof (induction n buf s rule: readChunks.induct)
  case (1 n buf s)
  show ?case
  proof (cases "length buf < n")
    case True
    define want where "want = (if n - length buf > directReadLimit then directReadLimit else n - length buf)"
    have w: "want \<le> n - length buf" by (simp add: want_def)
    show ?thesis
    proof (cases "length s < want")
      case less: True
      then show ?thesis
        using True w by (subst readChunks.simps) (auto simp: readFull_def eofIsUnexpected_def simp flip: want_def)
    next
      case False
      then have f: "readFull want s = Inr (take want s, drop want s)" by (simp add: readFull_def)
      have "readChunks n buf s = readChunks n (buf @ take want s) (drop want s)"
        using True f by (subst readChunks.simps) (simp flip: want_def)
      also have "\<dots> = (if length (drop want s) < n - length (buf @ take want s) then Inl UnexpectedEOF
          else Inr ((buf @ take want s) @ take (n - length (buf @ take want s)) (drop want s),
                    drop (n - length (buf @ take want s)) (drop want s)))"
        using 1(1)[OF True want_def f] w False True by (simp del: append_assoc)
      also have "length (buf @ take want s) = length buf + want" using False by simp
      finally have r: "readChunks n buf s = (if length (drop want s) < n - (length buf + want) then Inl UnexpectedEOF
          else Inr ((buf @ take want s) @ take (n - (length buf + want)) (drop want s),
                    drop (n - (length buf + want)) (drop want s)))" .
      define m where "m = n - (length buf + want)"
      have m: "n - (length buf + want) = m" "n - length buf = want + m" using w by (simp_all add: m_def)
      have "drop (want + m) s = drop m (drop want s)" "length s < want + m \<longleftrightarrow> length s - want < m"
        using False by (auto simp: add.commute)
      then show ?thesis unfolding r m by (simp add: take_add del: drop_drop)
    qed
  qed (use 1 in \<open>simp add: readChunks.simps[of n buf s]\<close>)
qed

lemma readN_spec:
  "readN n s = (if length s < n then Inl UnexpectedEOF else Inr (take n s, drop n s))"
  using readChunks_spec[of "[]" n s] by (auto simp: readN_def readFull_def eofIsUnexpected_def)

definition bulk_ok :: "bytes \<Rightarrow> bool" where
  "bulk_ok b \<longleftrightarrow> int (length b) \<le> maxBulkLen"

lemma readBulk_format [codec_simps]:
  assumes "bulk_ok b"
  shows "readBulk (formatInt (int (length b)) @ CRLF @ b @ CRLF @ rest) = Inr (b, rest)"
proof -
  have "int64_ok (int (length b))" using assms by (simp add: bulk_ok_def int64_ok_def)
  then show ?thesis
    using assms
    by (simp add: readBulk_def readCount_format[simplified] bulk_ok_def readN_spec expectCRLF_def)
qed

abbreviation encodeArg :: "bytes \<Rightarrow> bytes" where
  "encodeArg a \<equiv> ''$'' @ formatInt (int (length a)) @ CRLF @ a @ CRLF"

lemma readArgs_format:
  "\<forall>a \<in> set args. bulk_ok a \<Longrightarrow> readArgs (length args) (concat (map encodeArg args) @ rest) = Inr (args, rest)"
  by (induction args) (simp_all add: readBulk_format[simplified])

lemma ReadRequest_writeCommand:
  assumes "args \<noteq> []" "int (length args) \<le> maxMultiBulkLen" "\<forall>a \<in> set args. bulk_ok a"
  shows "\<exists>wire. writeCommand args = Some wire \<and> ReadRequest (wire @ rest) = Inr (args, rest)"
proof -
  have "int64_ok (int (length args))" using assms(2) by (simp add: int64_ok_def)
  moreover have "concat (map encodeArg args) @ rest = concat (map encodeArg args) @ rest" ..
  ultimately show ?thesis
    using assms readArgs_format[OF assms(3), of rest]
    by (simp add: writeCommand_def ReadRequest_def readMultiBulk_def readCount_format[simplified])
qed

section \<open>The reply round trip\<close>

text \<open>Without a fault the writer produces the encoding; after a fault it writes nothing more.\<close>

definition no_fault :: "Writer \<Rightarrow> bool" where
  "no_fault w \<longleftrightarrow> \<not> w_err w \<and> (\<forall>n. \<not> w_fault w n)"

lemma Writer_write_ok: "no_fault w \<Longrightarrow> no_fault (Writer_write w p) \<and> w_out (Writer_write w p) = w_out w @ p"
  by (simp add: Writer_write_def no_fault_def)

lemma foldl_writeReply_ok:
  assumes "\<And>r w. r \<in> set rs \<Longrightarrow> no_fault w \<Longrightarrow>
      no_fault (Writer_writeReply w r) \<and> w_out (Writer_writeReply w r) = w_out w @ encodeReply r"
  shows "no_fault w \<Longrightarrow> no_fault (foldl Writer_writeReply w rs)
    \<and> w_out (foldl Writer_writeReply w rs) = w_out w @ concat (map encodeReply rs)"
  using assms by (induction rs arbitrary: w) auto

lemma Writer_writeReply_ok:
  "no_fault w \<Longrightarrow> no_fault (Writer_writeReply w r) \<and> w_out (Writer_writeReply w r) = w_out w @ encodeReply r"
proof (induction r arbitrary: w)
  case (RArray rs)
  let ?w = "Writer_write (Writer_write (Writer_write w ''*'') (formatInt (int (length rs)))) CRLF"
  have "no_fault ?w" "w_out ?w = w_out w @ ''*'' @ formatInt (int (length rs)) @ CRLF"
    using RArray.prems Writer_write_ok by simp_all
  with foldl_writeReply_ok[of rs ?w] RArray.IH show ?case by simp
qed (simp_all add: Writer_write_ok Writer_writeFrame_def Writer_writeBulk_def)

lemma Writer_write_err: "w_err w \<Longrightarrow> Writer_write w p = w"
  by (simp add: Writer_write_def)

lemma Writer_writeReply_sticky: "w_err w \<Longrightarrow> Writer_writeReply w r = w"
proof (induction r arbitrary: w)
  case (RArray rs)
  have "foldl Writer_writeReply w rs = w"
    using RArray by (induction rs) auto
  with RArray.prems show ?case by (simp add: Writer_write_err)
qed (simp_all add: Writer_write_err Writer_writeFrame_def Writer_writeBulk_def)

text \<open>A read never hands out bytes that were not there, and it consumes at least one byte.\<close>

lemma split_lf_append: "split_lf s = Some (l, r) \<Longrightarrow> s = l @ r \<and> l \<noteq> []"
  by (induction s arbitrary: l r) (auto split: if_splits option.splits)

lemma readLine_consumes: "readLine s = Inr (l, r) \<Longrightarrow> length r < length s"
proof -
  assume a: "readLine s = Inr (l, r)"
  then obtain l' r' where "split_lf (take readBufferSize s) = Some (l', r')" "r = drop (length l') s"
    by (auto simp: readLine_def readSlice_def split: sum.splits option.splits if_splits)
  with split_lf_append[of "take readBufferSize s" l' r'] show ?thesis
    by (metis (no_types) append_eq_conv_conj drop_all length_append length_drop length_greater_0_conv
        diff_less list.size(3) not_less take_all_iff append_Nil2 drop_eq_Nil nat_less_le take_eq_Nil2
        split_lf.simps(1) option.distinct(1))
qed

lemma readLine_bound: "readLine s = Inr (l, r) \<Longrightarrow> length l + 2 \<le> readBufferSize"
proof -
  assume a: "readLine s = Inr (l, r)"
  then obtain l' r' where l': "split_lf (take readBufferSize s) = Some (l', r')" "l = take (length l' - 2) l'" "2 \<le> length l'"
    by (auto simp: readLine_def readSlice_def split: sum.splits option.splits if_splits)
  have "length l' \<le> length (take readBufferSize s)" using split_lf_append[OF l'(1)] by (metis length_append le_add1)
  with l'(2,3) show ?thesis by simp linarith
qed

lemma readCount_consumes: "readCount s = Inr (n, r) \<Longrightarrow> length r < length s"
  by (auto simp: readCount_def bindE_def dest!: readLine_consumes split: sum.splits option.splits)

lemma readBulk_bound:
  assumes "readBulk s = Inr (b, r)"
  shows "bulk_ok b" "length r < length s"
proof -
  from assms obtain n s1 s2 where
    n: "readCount s = Inr (n, s1)" "\<not> n < 0" "n \<le> maxBulkLen" "readN (nat n) s1 = Inr (b, s2)" "expectCRLF s2 = Inr ((), r)"
    by (auto simp: readBulk_def bindE_def split: sum.splits if_splits)
  have "length s2 \<le> length s1" "length b = nat n" using n(4) by (auto simp: readN_spec split: if_splits)
  moreover have "length r \<le> length s2"
    using n(5) by (cases s2 rule: remdups_adj.cases) (auto simp: expectCRLF_def split: if_splits)
  ultimately show "bulk_ok b" "length r < length s"
    using n(2,3) readCount_consumes[OF n(1)] by (simp_all add: bulk_ok_def)
qed

lemma readArgs_bound:
  "readArgs n s = Inr (args, r) \<Longrightarrow> length args = n \<and> (\<forall>a \<in> set args. bulk_ok a) \<and> length r \<le> length s"
proof (induction n arbitrary: s args)
  case (Suc n)
  then obtain c s1 arg s2 args' where
    "s = c # s1" "readBulk s1 = Inr (arg, s2)" "readArgs n s2 = Inr (args', r)" "args = arg # args'"
    by (cases s) (auto simp: bindE_def split: sum.splits if_splits)
  with Suc.IH[of s2 args'] readBulk_bound[of s1 arg s2] show ?case by auto
qed simp

lemma fields_scan_bound:
  "length (fields_scan cur s) \<le> Suc (length s) \<and> (\<forall>f \<in> set (fields_scan cur s). length f \<le> length cur + length s)"
proof (induction cur s rule: fields_scan.induct)
  case (1 cur s)
  show ?case
  proof (cases s)
    case (Cons c s')
    show ?thesis
    proof (cases "space_len s = 0")
      case True
      with 1(1)[OF Cons True] Cons show ?thesis by (subst (1 2) fields_scan.simps) (auto simp del: space_len.simps)
    next
      case False
      have "fields_scan cur s = (if cur = [] then [] else [cur]) @ fields_scan [] (drop (space_len s) s)"
        using Cons False by (subst fields_scan.simps) (simp del: space_len.simps)
      moreover have "length (drop (space_len s) s) < length s" using Cons False by (simp del: space_len.simps)
      moreover note 1(2)[OF Cons False]
      ultimately show ?thesis by (auto simp del: space_len.simps simp: Ball_def intro: order_trans)
    qed
  qed (simp add: fields_scan.simps)
qed

text \<open>Every request the reader accepts is within the limits and uses up input.\<close>

lemma ReadRequest_bound:
  assumes "ReadRequest s = Inr (args, r)"
  shows "int (length args) \<le> maxMultiBulkLen \<and> (\<forall>a \<in> set args. bulk_ok a) \<and> length r < length s"
proof (cases s)
  case (Cons c s1)
  show ?thesis
  proof (cases "c = CHR ''*''")
    case True
    with assms Cons obtain n s2 where n: "readCount s1 = Inr (n, s2)"
      and d: "n \<le> 0 \<and> args = [] \<and> r = s2 \<or> 0 < n \<and> n \<le> maxMultiBulkLen \<and> readArgs (nat n) s2 = Inr (args, r)"
      by (auto simp: ReadRequest_def readMultiBulk_def bindE_def split: sum.splits if_splits)
    from d readArgs_bound[of "nat n" s2 args r] readCount_consumes[OF n] Cons show ?thesis by auto
  next
    case False
    with assms Cons obtain l where l: "readLine s = Inr (l, r)" "args = bytesFields l"
      by (auto simp: ReadRequest_def readInline_def bindE_def split: sum.splits)
    with fields_scan_bound[of "[]" l] readLine_bound[OF l(1)] readLine_consumes[OF l(1)] show ?thesis
      by (fastforce simp: bytesFields_def bulk_ok_def)
  qed
qed (use assms in \<open>simp add: ReadRequest_def\<close>)

end
