(* ===== verification/Codec.thy ===== *)
theory Codec
  imports Value Resp
begin

text \<open>
  The on-disk encoding of values: \<open>internal/persistence/codec.go\<close>. A writer gives the
  bytes it appends to the buffered stream; a decoder takes the bytes left in the stream and
  gives the value with the bytes after it, or the error the code returns. \<open>None\<close> is a
  panic: \<open>make\<close> with a length beyond the address space of the Go runtime (a length that
  is merely too large for the machine ends the process and is not modelled).
\<close>

section \<open>Decoders\<close>

type_synonym 'a decode = "(ioErr + 'a \<times> bytes) option"

definition bindD :: "'a decode \<Rightarrow> ('a \<Rightarrow> bytes \<Rightarrow> 'b decode) \<Rightarrow> 'b decode" where
  "bindD x f =
     (case x of
        None \<Rightarrow> None
      | Some (Inl err) \<Rightarrow> Some (Inl err)
      | Some (Inr (a, s)) \<Rightarrow> f a s)"

definition returnD :: "'a \<Rightarrow> bytes \<Rightarrow> 'a decode" where
  "returnD a s = Some (Inr (a, s))"

text \<open>A call that may panic, between two reads.\<close>

definition callD :: "'a option \<Rightarrow> bytes \<Rightarrow> 'a decode" where
  "callD x s = map_option (\<lambda>a. Inr (a, s)) x"

definition mapErrD :: "(ioErr \<Rightarrow> ioErr) \<Rightarrow> 'a decode \<Rightarrow> 'a decode" where
  "mapErrD f x = map_option (\<lambda>r. case r of Inl err \<Rightarrow> Inl (f err) | Inr y \<Rightarrow> Inr y) x"

lemma bindD_simps [simp]:
  "bindD None f = None" "bindD (Some (Inl err)) f = Some (Inl err)" "bindD (Some (Inr (a, s))) f = f a s"
  "bindD (returnD a s) f = f a s"
  by (simp_all add: bindD_def returnD_def)

lemma mapErrD_simps [simp]:
  "mapErrD f None = None" "mapErrD f (Some (Inl err)) = Some (Inl (f err))"
  "mapErrD f (Some (Inr y)) = Some (Inr y)"
  by (simp_all add: mapErrD_def)

text \<open>A counted loop over a stream.\<close>

fun readLoop :: "nat \<Rightarrow> ('s \<Rightarrow> bytes \<Rightarrow> 's decode) \<Rightarrow> 's \<Rightarrow> bytes \<Rightarrow> 's decode" where
  "readLoop 0 body acc s = returnD acc s"
| "readLoop (Suc n) body acc s = bindD (body acc s) (\<lambda>acc' s'. readLoop n body acc' s')"

section \<open>The code (codec.go)\<close>

abbreviation maxAlloc :: nat where
  "maxAlloc \<equiv> 281474976710656"

abbreviation tagString :: char where "tagString \<equiv> CHR ''s''"
abbreviation tagList :: char where "tagList \<equiv> CHR ''l''"
abbreviation tagHash :: char where "tagHash \<equiv> CHR ''h''"
abbreviation tagSet :: char where "tagSet \<equiv> CHR ''p''"
abbreviation tagZSet :: char where "tagZSet \<equiv> CHR ''z''"

definition writeUvarint :: "nat \<Rightarrow> bytes" where
  "writeUvarint n = putUvarint n"

definition writeBytes :: "bytes \<Rightarrow> bytes" where
  "writeBytes b = writeUvarint (length b) @ b"

definition readBytes :: "bytes \<Rightarrow> bytes decode" where
  "readBytes s =
     bindD (Some (readUvarint s)) (\<lambda>n s1. if n > maxAlloc then None else Some (readFull n s1))"

definition writeElements :: "char \<Rightarrow> bytes list \<Rightarrow> bytes" where
  "writeElements tag elems = tag # writeUvarint (length elems) @ concat (map writeBytes elems)"

definition writeScore :: "float64 \<Rightarrow> bytes" where
  "writeScore score = putUint64 score"

text \<open>\<open>writeValue\<close>: a panic of an accessor, the error for the zero value, or the bytes.\<close>

fun writeValue :: "(bytes list \<Rightarrow> bytes list) \<Rightarrow> Value \<Rightarrow> (ioErr + bytes) option" where
  "writeValue pick (MakeString b) = Some (Inr (tagString # writeBytes b))"
| "writeValue pick (MakeList l) =
     map_option (\<lambda>elems. Inr (writeElements tagList elems)) (List_Range l 0 (-1))"
| "writeValue pick (MakeHash h) =
     map_option (\<lambda>pairs. Inr (tagHash # writeUvarint (length pairs div 2) @ concat (map writeBytes pairs)))
       (Hash_Pairs pick h)"
| "writeValue pick (MakeSet st) =
     map_option (\<lambda>ms. Inr (writeElements tagSet ms)) (Set_Members pick st)"
| "writeValue pick (MakeZSet z) =
     map_option (\<lambda>ms. Inr (tagZSet # writeUvarint (length ms)
         @ concat (map (\<lambda>(m, score). writeBytes m @ writeScore score) ms))) (ZSet_Range z 0 (-1))"
| "writeValue pick ZeroValue = Some (Inl (Malformed ''cannot encode value kind''))"

definition readElements :: "('s \<Rightarrow> bytes \<Rightarrow> 's option) \<Rightarrow> 's \<Rightarrow> bytes \<Rightarrow> 's decode" where
  "readElements add acc s =
     bindD (Some (readUvarint s)) (\<lambda>n s1.
       readLoop n (\<lambda>acc s2. bindD (readBytes s2) (\<lambda>b s3. callD (add acc b) s3)) acc s1)"

definition readScore :: "bytes \<Rightarrow> float64 decode" where
  "readScore s = bindD (Some (readFull 8 s)) (\<lambda>sb s1. returnD (getUint64 sb) s1)"

definition readValue :: "(nat \<Rightarrow> bool) \<Rightarrow> Limits \<Rightarrow> bytes \<Rightarrow> Value decode" where
  "readValue draws limits s =
     bindD (Some (readByte s)) (\<lambda>tag s1.
       if tag = tagString then bindD (readBytes s1) (\<lambda>b. returnD (MakeString b))
       else if tag = tagList then
         bindD (readElements List_PushBack (NewList (Lim_List limits)) s1) (\<lambda>l. returnD (MakeList l))
       else if tag = tagHash then
         bindD (Some (readUvarint s1)) (\<lambda>n s2.
           bindD (readLoop n (\<lambda>h s3.
               bindD (readBytes s3) (\<lambda>field s4.
               bindD (readBytes s4) (\<lambda>val s5. callD (map_option fst (Hash_Set h field val)) s5)))
             (NewHash (Lim_Hash limits)) s2) (\<lambda>h. returnD (MakeHash h)))
       else if tag = tagSet then
         bindD (readElements (\<lambda>st b. map_option fst (Set_Add st b)) (NewSet (Lim_Set limits)) s1)
           (\<lambda>st. returnD (MakeSet st))
       else if tag = tagZSet then
         bindD (Some (readUvarint s1)) (\<lambda>n s2.
           bindD (readLoop n (\<lambda>z s3.
               bindD (readBytes s3) (\<lambda>member s4.
               bindD (readScore s4) (\<lambda>score s5. callD (map_option fst (ZSet_Add z member score)) s5)))
             (NewZSet draws (Lim_ZSet limits)) s2) (\<lambda>z. returnD (MakeZSet z)))
       else Some (Inl (Malformed ''unknown value tag'')))"

definition unexpectedEOF :: "ioErr \<Rightarrow> ioErr" where
  "unexpectedEOF err = (if err = EOF then UnexpectedEOF else err)"

section \<open>Composable round trips\<close>

text \<open>
  \<open>parses d bs x\<close>: the decoder reads \<open>bs\<close> as \<open>x\<close> whatever follows, and a stream that
  stops inside \<open>bs\<close> is an end-of-file error, never another value and never a panic.
\<close>

definition parses :: "(bytes \<Rightarrow> 'a decode) \<Rightarrow> bytes \<Rightarrow> 'a \<Rightarrow> bool" where
  "parses d bs x \<longleftrightarrow>
     (\<forall>rest. d (bs @ rest) = returnD x rest)
     \<and> (\<forall>p q. bs = p @ q \<and> q \<noteq> [] \<longrightarrow> d p \<in> {Some (Inl EOF), Some (Inl UnexpectedEOF)})"

lemma parsesI:
  assumes "\<And>rest. d (bs @ rest) = returnD x rest"
    "\<And>p q. bs = p @ q \<Longrightarrow> q \<noteq> [] \<Longrightarrow> d p = Some (Inl EOF) \<or> d p = Some (Inl UnexpectedEOF)"
  shows "parses d bs x"
  using assms by (auto simp: parses_def)

lemma parsesD:
  assumes "parses d bs x"
  shows "d (bs @ rest) = returnD x rest"
    "bs = p @ q \<Longrightarrow> q \<noteq> [] \<Longrightarrow> d p = Some (Inl EOF) \<or> d p = Some (Inl UnexpectedEOF)"
  using assms by (auto simp: parses_def)

lemma parses_return: "parses (returnD x) [] x"
  by (rule parsesI) simp_all

lemma parses_call: "c = Some x \<Longrightarrow> parses (callD c) [] x"
  by (rule parsesI) (simp_all add: callD_def returnD_def)

lemma parses_bind:
  assumes "parses d bs x" "parses (f x) cs y"
  shows "parses (\<lambda>s. bindD (d s) f) (bs @ cs) y"
proof (rule parsesI)
  show "bindD (d ((bs @ cs) @ rest)) f = returnD y rest" for rest
    using parsesD(1)[OF assms(1), of "cs @ rest"] parsesD(1)[OF assms(2), of rest] by simp
  fix p q assume pq: "bs @ cs = p @ q" "q \<noteq> []"
  from pq(1) obtain r where "bs = p @ r \<and> q = r @ cs \<or> p = bs @ r \<and> cs = r @ q"
    by (auto simp: append_eq_append_conv2)
  then consider (inside) r where "bs = p @ r" "r \<noteq> []" | (after) r where "p = bs @ r" "cs = r @ q"
    by (cases "r = []") auto
  then show "bindD (d p) f = Some (Inl EOF) \<or> bindD (d p) f = Some (Inl UnexpectedEOF)"
  proof cases
    case (inside r)
    with parsesD(2)[OF assms(1) inside] show ?thesis by auto
  next
    case (after r)
    with parsesD(1)[OF assms(1), of r] parsesD(2)[OF assms(2) after(2) pq(2)] show ?thesis by auto
  qed
qed

lemma parses_cong: "parses d bs x \<Longrightarrow> (\<And>s. d s = d' s) \<Longrightarrow> parses d' bs x"
  by (simp add: parses_def)

lemma parses_byte: "parses (\<lambda>s. Some (readByte s)) [c] c"
  by (rule parsesI) (auto simp: returnD_def Cons_eq_append_conv)

lemma parses_full: "parses (\<lambda>s. Some (readFull n s)) b b" if "length b = n"
proof (rule parsesI)
  show "Some (readFull n (b @ rest)) = returnD b rest" for rest using that by (simp add: readFull_def returnD_def)
  fix p q assume "b = p @ q" "q \<noteq> []"
  then have "length p < n" using that by auto
  then show "Some (readFull n p) = Some (Inl EOF) \<or> Some (readFull n p) = Some (Inl UnexpectedEOF)"
    by (auto simp: readFull_def)
qed

text \<open>A loop that decodes the elements it has written.\<close>

lemma parses_loop:
  assumes "\<And>acc x acc'. x \<in> set xs \<Longrightarrow> add acc x = Some acc' \<Longrightarrow> parses (body acc) (enc x) acc'"
  shows "foldM add acc xs = Some res \<Longrightarrow> parses (readLoop (length xs) body acc) (concat (map enc xs)) res"
  using assms
proof (induction xs arbitrary: acc)
  case Nil
  then show ?case using parses_cong[OF parses_return] by fastforce
next
  case (Cons x xs)
  then obtain acc' where a: "add acc x = Some acc'" "foldM add acc' xs = Some res"
    by (auto simp: bind_Some_iff)
  from parses_bind[OF Cons.prems(2)[OF _ a(1)], of "readLoop (length xs) body" "concat (map enc xs)" res]
    Cons.IH[OF a(2)] Cons.prems(2) show ?case by (auto simp: comp_def elim!: parses_cong)
qed

subsection \<open>Numbers and byte strings\<close>

lemma readUvarint_from_prefix:
  "putUvarint n = p @ q \<Longrightarrow> q \<noteq> [] \<Longrightarrow> n < 2 ^ (64 - 7 * i) \<Longrightarrow> i \<le> 9 \<Longrightarrow>
   readUvarint_from i x p = Inl (if i = 0 \<and> p = [] then EOF else UnexpectedEOF)"
proof (induction n arbitrary: p i x rule: putUvarint.induct)
  case (1 n)
  show ?case
  proof (cases p)
    case (Cons c cs)
    have n: "128 \<le> n" using "1.prems"(1,2) Cons by (subst (asm) putUvarint.simps) (auto split: if_splits)
    then have c: "c = char_of (n mod 128 + 128)" "putUvarint (n div 128) = cs @ q"
      using "1.prems"(1) Cons by (subst (asm) putUvarint.simps, simp)+
    from uvarint_step_bound[OF n "1.prems"(3,4)] have b: "n div 128 < 2 ^ (64 - 7 * Suc i)" "Suc i \<le> 9" "i < 9"
      by auto
    from "1.IH"[OF _ c(2) "1.prems"(2) b(1,2)] n b(3) show ?thesis
      using byteval_more[of n] by (simp add: Cons c(1))
  qed (use "1.prems" in auto)
qed

lemma readUvarint_prefix:
  "putUvarint n = p @ q \<Longrightarrow> q \<noteq> [] \<Longrightarrow> n < 2 ^ 64 \<Longrightarrow>
   readUvarint p = Inl (if p = [] then EOF else UnexpectedEOF)"
  using readUvarint_from_prefix[of n p q 0] by (simp add: readUvarint_def)

lemma parses_uvarint:
  assumes "n < 2 ^ 64"
  shows "parses (\<lambda>s. Some (readUvarint s)) (writeUvarint n) n"
proof (rule parsesI)
  show "Some (readUvarint (writeUvarint n @ rest)) = returnD n rest" for rest
    using readUvarint_put[OF assms, of rest] by (simp add: writeUvarint_def returnD_def)
  fix p q assume "writeUvarint n = p @ q" "q \<noteq> []"
  from readUvarint_prefix[OF this[unfolded writeUvarint_def] assms]
  show "Some (readUvarint p) = Some (Inl EOF) \<or> Some (readUvarint p) = Some (Inl UnexpectedEOF)" by auto
qed

text \<open>What a Go slice of bytes can be.\<close>

definition alloc_ok :: "bytes \<Rightarrow> bool" where
  "alloc_ok b \<longleftrightarrow> length b \<le> maxAlloc"

lemma alloc_ok_slice: "alloc_ok b \<Longrightarrow> slice_ok b"
  by (simp add: alloc_ok_def slice_ok_def)

lemma parses_bytes: "alloc_ok b \<Longrightarrow> parses readBytes (writeBytes b) b"
  unfolding readBytes_def writeBytes_def
  by (rule parses_bind[OF parses_uvarint]) (auto simp: alloc_ok_def intro: parses_cong[OF parses_full[OF refl]])

lemma parses_score: "parses readScore (writeScore sc) sc"
proof -
  have "parses readScore (writeScore sc @ []) sc"
    unfolding readScore_def writeScore_def
    by (rule parses_bind[OF parses_full]) (auto intro: parses_cong[OF parses_return])
  then show ?thesis by simp
qed

subsection \<open>Values\<close>

lemma parses_elements:
  assumes "\<forall>x \<in> set xs. alloc_ok x" "length xs < 2 ^ 64" "foldM add acc xs = Some res"
  shows "parses (readElements add acc) (writeUvarint (length xs) @ concat (map writeBytes xs)) res"
  unfolding readElements_def
proof (rule parses_bind[OF parses_uvarint[OF assms(2)]], rule parses_loop[OF _ assms(3)])
  fix acc x acc' assume x: "x \<in> set xs" "add acc x = Some acc'"
  from parses_bind[OF parses_bytes, of x "\<lambda>b. callD (add acc b)" "[]" acc'] parses_call[OF x(2)] assms(1) x(1)
  show "parses (\<lambda>s2. bindD (readBytes s2) (\<lambda>b s3. callD (add acc b) s3)) (writeBytes x) acc'" by simp
qed

lemma parses_tagged:
  assumes "parses (f c) bs x"
  shows "parses (\<lambda>s. bindD (Some (readByte s)) f) (c # bs) x"
  using parses_bind[OF parses_byte, of f c bs x] assms by simp

lemma parses_wrap: "parses d bs x \<Longrightarrow> parses (\<lambda>s. bindD (d s) (\<lambda>y. returnD (g y))) bs (g x)"
  using parses_bind[of d bs x "\<lambda>y. returnD (g y)" "[]" "g x"] parses_return[of "g x"] by simp

lemma parses_counted:
  assumes "length xs < 2 ^ 64" "foldM add acc xs = Some res"
    "\<And>acc x acc'. x \<in> set xs \<Longrightarrow> add acc x = Some acc' \<Longrightarrow> parses (body acc) (enc x) acc'"
  shows "parses (\<lambda>s. bindD (Some (readUvarint s)) (\<lambda>n s1. bindD (readLoop n body acc s1) (\<lambda>y. returnD (g y))))
    (writeUvarint (length xs) @ concat (map enc xs)) (g res)"
  by (rule parses_bind[OF parses_uvarint[OF assms(1)]], rule parses_wrap, rule parses_loop[OF assms(3,2)])

text \<open>A pair of byte strings, and a member with its score.\<close>

lemma parses_pair:
  assumes "alloc_ok f" "alloc_ok v" "c f v = Some res"
  shows "parses (\<lambda>s. bindD (readBytes s) (\<lambda>f s1. bindD (readBytes s1) (\<lambda>v s2. callD (c f v) s2)))
    (writeBytes f @ writeBytes v) res"
proof -
  have "parses (\<lambda>s. bindD (readBytes s) (\<lambda>v s2. callD (c f v) s2)) (writeBytes v @ []) res"
    by (rule parses_bind[OF parses_bytes[OF assms(2)]]) (rule parses_call[where c = "c f v", OF assms(3)])
  from parses_bind[where f = "\<lambda>f s1. bindD (readBytes s1) (\<lambda>v s2. callD (c f v) s2)",
      OF parses_bytes[OF assms(1)] this] show ?thesis by simp
qed

lemma parses_scored:
  assumes "alloc_ok m" "c m sc = Some res"
  shows "parses (\<lambda>s. bindD (readBytes s) (\<lambda>m s1. bindD (readScore s1) (\<lambda>sc s2. callD (c m sc) s2)))
    (writeBytes m @ writeScore sc) res"
proof -
  have "parses (\<lambda>s. bindD (readScore s) (\<lambda>sc s2. callD (c m sc) s2)) (writeScore sc @ []) res"
    by (rule parses_bind[OF parses_score]) (rule parses_call[where c = "c m sc", OF assms(2)])
  from parses_bind[where f = "\<lambda>m s1. bindD (readScore s1) (\<lambda>sc s2. callD (c m sc) s2)",
      OF parses_bytes[OF assms(1)] this] show ?thesis by simp
qed

text \<open>The values that fit the address space, which every value of a running server does.\<close>

fun value_small :: "Value \<Rightarrow> bool" where
  "value_small ZeroValue = False"
| "value_small (MakeString b) = alloc_ok b"
| "value_small (MakeList l) = (length (list_elems l) < 2 ^ 64 \<and> (\<forall>b \<in> set (list_elems l). alloc_ok b))"
| "value_small (MakeHash h) =
     (card (dom (hash_fields h)) < 2 ^ 64
      \<and> (\<forall>f v. hash_fields h f = Some v \<longrightarrow> alloc_ok f \<and> alloc_ok v))"
| "value_small (MakeSet s) = (card (set_members s) < 2 ^ 64 \<and> (\<forall>m \<in> set_members s. alloc_ok m))"
| "value_small (MakeZSet z) =
     (length (zset_entries z) < 2 ^ 64 \<and> (\<forall>e \<in> set (zset_entries z). alloc_ok (fst e)))"

definition value_codes :: "(bytes list \<Rightarrow> bytes list) \<Rightarrow> (nat \<Rightarrow> bool) \<Rightarrow> Limits \<Rightarrow> Value \<Rightarrow> bool" where
  "value_codes pick draws limits v \<longleftrightarrow>
     (\<exists>bs v'. writeValue pick v = Some (Inr bs) \<and> parses (readValue draws limits) bs v'
       \<and> value_ok v' \<and> abs_value v' = abs_value v)"

lemma value_codesI:
  "writeValue pick v = Some (Inr (tag # bs)) \<Longrightarrow> parses (readValue draws limits) (tag # bs) v' \<Longrightarrow>
   value_ok v' \<Longrightarrow> abs_value v' = abs_value v \<Longrightarrow> value_codes pick draws limits v"
  unfolding value_codes_def by blast

lemma list_codes:
  assumes "list_inv l" "value_small (MakeList l)"
  shows "value_codes pick draws limits (MakeList l)"
proof -
  let ?es = "list_elems l"
  from ls.push_back_all[OF list_inv_New(1), of ?es "Lim_List limits"] assms(2) alloc_ok_slice obtain l' where
    l': "foldM List_PushBack (NewList (Lim_List limits)) ?es = Some l'" "list_inv l'" "list_elems l' = ?es" by auto
  have "parses (readElements List_PushBack (NewList (Lim_List limits)))
      (writeUvarint (length ?es) @ concat (map writeBytes ?es)) l'"
    using parses_elements[OF _ _ l'(1)] assms(2) by auto
  then have "parses (readValue draws limits) (tagList # writeUvarint (length ?es) @ concat (map writeBytes ?es)) (MakeList l')"
    unfolding readValue_def by (intro parses_tagged) (auto intro: parses_wrap)
  with l' ls.elem_range[OF assms(1), of 0 "-1"] show ?thesis
    by (intro value_codesI[where v' = "MakeList l'"]) (auto simp: writeElements_def)
qed

lemma foldM_foldCount:
  "foldM (\<lambda>s b. map_option fst (f s b)) a xs = map_option fst (foldCount f (a, n) xs)"
proof (induction xs arbitrary: a n)
  case (Cons x xs)
  show ?case
  proof (cases "f a x")
    case (Some p)
    then show ?thesis using Cons by (cases p) simp
  qed simp
qed simp

lemma set_codes:
  assumes "set_inv s" "value_small (MakeSet s)"
  shows "value_codes pick draws limits (MakeSet s)"
proof -
  from st.all[OF assms(1), of pick] obtain ms where
    ms: "Set_Members pick s = Some ms" "distinct ms" "set ms = set_members s" by blast
  from st.add_all[OF set_inv_New(1), of ms "Lim_Set limits" 0] assms(2) ms(3) alloc_ok_slice obtain s' where
    s': "foldM (\<lambda>st b. map_option fst (Set_Add st b)) (NewSet (Lim_Set limits)) ms = Some s'"
      "set_inv s'" "set_members s' = set ms" by (auto simp: foldM_foldCount[where n = 0])
  have "length ms < 2 ^ 64" using assms(2) distinct_card[OF ms(2)] ms(3) by simp
  from parses_elements[OF _ this s'(1)] assms(2) ms(3)
  have "parses (readValue draws limits) (tagSet # writeUvarint (length ms) @ concat (map writeBytes ms)) (MakeSet s')"
    unfolding readValue_def by (intro parses_tagged) (auto intro: parses_wrap)
  with s' ms show ?thesis
    by (intro value_codesI[where v' = "MakeSet s'"]) (auto simp: writeElements_def)
qed

lemma hash_codes:
  assumes "hash_inv h" "value_small (MakeHash h)"
  shows "value_codes pick draws limits (MakeHash h)"
proof -
  from hs.pairs[OF assms(1), of pick] obtain ps where
    ps: "Hash_Pairs pick h = Some (flat ps)" "distinct (map fst ps)" "map_of ps = hash_fields h" by blast
  have ok: "alloc_ok f \<and> alloc_ok v" if "(f, v) \<in> set ps" for f v
    using assms(2) map_of_is_SomeI[OF ps(2) that] ps(3) by simp
  let ?add = "\<lambda>h p. map_option fst (Hash_Set h (fst p) (snd p))"
  have "\<forall>(f, v) \<in> set ps. slice_ok f \<and> slice_ok v" using ok alloc_ok_slice by blast
  from hs.store_all[OF hash_inv_New(1) this, of "Lim_Hash limits" 0] obtain h' where
    h': "foldM ?add (NewHash (Lim_Hash limits)) ps = Some h'" "hash_inv h'" "hash_fields h' = map_of (rev ps)"
    by (auto simp: foldM_foldCount[where n = 0] case_prod_unfold)
  have "map_of (rev ps) = map_of ps" using ps(2) by (intro map_of_eqI) (auto simp: rev_map[symmetric] intro: map_of_is_SomeI)
  have len: "length (flat ps) div 2 = length ps" "length ps < 2 ^ 64"
    using assms(2) gomap_length_card[of ps] ps(2,3) by (simp_all add: flat_def length_concat comp_def case_prod_unfold gomap_ok_def sum_list_triv)
  have enc: "concat (map writeBytes (flat ps)) = concat (map (\<lambda>p. writeBytes (fst p) @ writeBytes (snd p)) ps)"
    by (induction ps) (auto simp: flat_def)
  have "parses (readValue draws limits) (tagHash # writeUvarint (length ps) @ concat (map writeBytes (flat ps))) (MakeHash h')"
    unfolding readValue_def enc using ok by (auto intro!: parses_tagged parses_counted[OF len(2) h'(1)] parses_pair)
  with h' ps len \<open>map_of (rev ps) = map_of ps\<close> show ?thesis
    by (intro value_codesI[where v' = "MakeHash h'"]) auto
qed

lemma zset_codes:
  assumes "zset_inv z" "value_small (MakeZSet z)"
  shows "value_codes pick draws limits (MakeZSet z)"
proof -
  let ?es = "zset_entries z"
  have "\<forall>e \<in> set ?es. slice_ok (fst e)" using assms(2) alloc_ok_slice by auto
  from zs.add_sorted[OF zset_inv_New zs.sorted[OF assms(1)] zs.members_distinct[OF assms(1)] this, of draws "Lim_ZSet limits"]
  obtain z' where z': "foldM (\<lambda>z (m, sc). map_option fst (ZSet_Add z m sc)) (NewZSet draws (Lim_ZSet limits)) ?es = Some z'"
    "zset_inv z'" "zset_entries z' = ?es" by blast
  have "length ?es < 2 ^ 64" using assms(2) by simp
  have "parses (readValue draws limits) (tagZSet # writeUvarint (length ?es)
      @ concat (map (\<lambda>(m, score). writeBytes m @ writeScore score) ?es)) (MakeZSet z')"
    unfolding readValue_def using assms(2)
    by (auto intro!: parses_tagged parses_counted[OF _ z'(1)] parses_scored) (metis fst_conv)
  with z' zs.range_rank[OF assms(1), of 0 "-1"] show ?thesis
    by (intro value_codesI[where v' = "MakeZSet z'"]) auto
qed

lemma string_codes: "alloc_ok b \<Longrightarrow> value_codes pick draws limits (MakeString b)"
proof -
  assume "alloc_ok b"
  then have "parses (readValue draws limits) (tagString # writeBytes b) (MakeString b)"
    unfolding readValue_def by (intro parses_tagged) (auto intro: parses_wrap parses_bytes)
  with \<open>alloc_ok b\<close> show ?thesis
    by (intro value_codesI[where v' = "MakeString b"]) (auto simp: alloc_ok_slice)
qed

lemma value_roundtrip: "value_ok v \<Longrightarrow> value_small v \<Longrightarrow> value_codes pick draws limits v"
  using string_codes list_codes hash_codes set_codes zset_codes by (cases v) auto

end
