(* ===== verification/Snapshot.thy ===== *)
theory Snapshot
  imports Codec
begin

text \<open>
  Snapshots: \<open>internal/persistence/snapshot.go\<close>. The callbacks \<open>emit\<close> and \<open>apply\<close>
  are the list of records the caller passes to \<open>write\<close> and a function on the state the
  caller builds. The loop of \<open>ReadSnapshot\<close> ends on every input, because a record takes
  at least one byte.
\<close>

section \<open>Framed streams\<close>

text \<open>
  A decoder frames \<open>bs\<close> as \<open>x\<close> when it reads \<open>bs\<close> as \<open>x\<close> whatever follows, reports a
  clean end of file on the empty stream, and an unexpected one inside \<open>bs\<close>. The contract
  of a stream of records is that every good record is framed; its client lemma carries the
  frames over to whole lists.
\<close>

definition frames :: "(bytes \<Rightarrow> 'a decode) \<Rightarrow> bytes \<Rightarrow> 'a \<Rightarrow> bool" where
  "frames d bs x \<longleftrightarrow>
     (\<forall>rest. d (bs @ rest) = returnD x rest)
     \<and> (\<forall>p q. bs = p @ q \<and> q \<noteq> [] \<longrightarrow> d p = Some (Inl (if p = [] then EOF else UnexpectedEOF)))"

lemma framesD:
  assumes "frames d bs x"
  shows "d (bs @ rest) = returnD x rest"
    "bs = p @ q \<Longrightarrow> q \<noteq> [] \<Longrightarrow> d p = Some (Inl (if p = [] then EOF else UnexpectedEOF))"
  using assms by (auto simp: frames_def)

locale framed_stream =
  fixes enc :: "'a \<Rightarrow> bytes" and dec :: "bytes \<Rightarrow> 'a decode" and good :: "'a \<Rightarrow> bool" and view :: "'a \<Rightarrow> 'v"
  assumes frame: "good x \<Longrightarrow> \<exists>y. frames dec (enc x) y \<and> view y = view x"
begin

lemma frame_all:
  "\<forall>x \<in> set xs. good x \<Longrightarrow> \<exists>ys. list_all2 (frames dec) (map enc xs) ys \<and> map view ys = map view xs"
proof (induction xs)
  case (Cons x xs)
  with frame[of x] obtain y ys where "frames dec (enc x) y" "view y = view x"
    "list_all2 (frames dec) (map enc xs) ys" "map view ys = map view xs" by auto
  then show ?case by (intro exI[of _ "y # ys"]) simp
qed simp

end

text \<open>A first number read as it is, and the rest with end of file mapped: how both record
  formats are read.\<close>

lemma frames_headed:
  assumes "n < 2 ^ 64" "parses (f n) bs x"
  shows "frames (\<lambda>s. bindD (Some (readUvarint s)) (\<lambda>m s1. mapErrD unexpectedEOF (f m s1))) (writeUvarint n @ bs) x"
  unfolding frames_def
proof (intro conjI allI impI)
  fix rest
  show "bindD (Some (readUvarint ((writeUvarint n @ bs) @ rest))) (\<lambda>m s1. mapErrD unexpectedEOF (f m s1)) = returnD x rest"
    using parsesD(1)[OF parses_uvarint[OF assms(1)], of "bs @ rest"] parsesD(1)[OF assms(2), of rest]
    by (simp add: returnD_def)
next
  fix p q assume pq: "writeUvarint n @ bs = p @ q \<and> q \<noteq> []"
  then obtain r where "writeUvarint n = p @ r \<and> q = r @ bs \<or> p = writeUvarint n @ r \<and> bs = r @ q"
    by (auto simp: append_eq_append_conv2)
  then consider (inside) r where "writeUvarint n = p @ r" "r \<noteq> []" | (after) r where "p = writeUvarint n @ r" "bs = r @ q"
    by (cases "r = []") auto
  then show "bindD (Some (readUvarint p)) (\<lambda>m s1. mapErrD unexpectedEOF (f m s1)) =
      Some (Inl (if p = [] then EOF else UnexpectedEOF))"
  proof cases
    case (inside r)
    with readUvarint_prefix[of n p r] assms(1) show ?thesis by (simp add: writeUvarint_def)
  next
    case (after r)
    then have "p \<noteq> []" by (simp add: writeUvarint_def)
    with after parsesD(1)[OF parses_uvarint[OF assms(1)], of r] parsesD(2)[OF assms(2) after(2)] pq
    show ?thesis by (auto simp: returnD_def unexpectedEOF_def)
  qed
qed

section \<open>Decoders consume\<close>

definition shrinks :: "(bytes \<Rightarrow> 'a decode) \<Rightarrow> bool" where
  "shrinks d \<longleftrightarrow> (\<forall>s x r. d s = Some (Inr (x, r)) \<longrightarrow> length r \<le> length s)"

lemma shrinks_bind: "shrinks d \<Longrightarrow> (\<And>x. shrinks (f x)) \<Longrightarrow> shrinks (\<lambda>s. bindD (d s) f)"
  unfolding shrinks_def bindD_def by (auto split: option.splits sum.splits) (meson order_trans)

lemma shrinks_basic:
  "shrinks (returnD x)" "shrinks (callD c)" "shrinks (\<lambda>s. None)" "shrinks (\<lambda>s. Some (Inl e))"
  "shrinks (\<lambda>s. Some (readFull n s))" "shrinks (\<lambda>s. Some (readByte s))"
proof -
  have "readByte s = Inr (c, r) \<Longrightarrow> length r \<le> length s" for s c r by (cases s) auto
  then show "shrinks (\<lambda>s. Some (readByte s))" by (auto simp: shrinks_def)
qed (auto simp: shrinks_def returnD_def callD_def readFull_def split: if_splits)

lemma readUvarint_from_consumes: "readUvarint_from i x s = Inr (n, r) \<Longrightarrow> length r < length s"
  by (induction i x s rule: readUvarint_from.induct) (auto split: if_splits intro: less_SucI)

lemma readUvarint_consumes: "readUvarint s = Inr (n, r) \<Longrightarrow> length r < length s"
  unfolding readUvarint_def by (rule readUvarint_from_consumes)

lemma shrinks_uvarint: "shrinks (\<lambda>s. Some (readUvarint s))"
  by (auto simp: shrinks_def dest: readUvarint_consumes)

lemma shrinks_loop: "(\<And>acc. shrinks (body acc)) \<Longrightarrow> shrinks (readLoop n body acc)"
proof (induction n arbitrary: acc)
  case 0
  then show ?case by (simp add: shrinks_def returnD_def)
next
  case (Suc n)
  then have "shrinks (\<lambda>s. bindD (body acc s) (\<lambda>acc' s'. readLoop n body acc' s'))" by (intro shrinks_bind) auto
  then show ?case by (simp add: shrinks_def)
qed

lemma shrinks_if: "(P \<Longrightarrow> shrinks d) \<Longrightarrow> (\<not> P \<Longrightarrow> shrinks e) \<Longrightarrow> shrinks (\<lambda>s. if P then d s else e s)"
  by (auto simp: shrinks_def)

lemma shrinks_mapErr: "shrinks d \<Longrightarrow> shrinks (\<lambda>s. mapErrD f (d s))"
  unfolding shrinks_def mapErrD_def by (force split: sum.splits)

lemma shrinks_bytes: "shrinks readBytes"
  unfolding readBytes_def by (intro shrinks_bind shrinks_uvarint shrinks_if shrinks_basic)

lemma shrinks_value: "shrinks (readValue draws limits)"
  unfolding readValue_def readElements_def readScore_def
  by (intro shrinks_bind shrinks_if shrinks_basic shrinks_bytes shrinks_uvarint shrinks_loop)

section \<open>The code (snapshot.go)\<close>

definition snapshotMagic :: bytes where
  "snapshotMagic = ''MEMCORE-SNAP1'' @ [CHR 0x0A]"

record Record =
  rec_DB :: int
  rec_Key :: bytes
  rec_ExpireAt :: int
  rec_Value :: Value

text \<open>The conversion \<open>uint64(n)\<close> of an \<open>int\<close>.\<close>

definition toUint64 :: "int \<Rightarrow> nat" where
  "toUint64 n = nat (n mod 18446744073709551616)"

definition writeRecord :: "(bytes list \<Rightarrow> bytes list) \<Rightarrow> Record \<Rightarrow> (ioErr + bytes) option" where
  "writeRecord pick r =
     map_option (\<lambda>res. case res of
         Inl err \<Rightarrow> Inl err
       | Inr v \<Rightarrow> Inr (writeUvarint (toUint64 (rec_DB r)) @ writeBytes (rec_Key r)
           @ putUint64 (word_of_int (rec_ExpireAt r)) @ v))
       (writeValue pick (rec_Value r))"

definition readRecord :: "(nat \<Rightarrow> bool) \<Rightarrow> Limits \<Rightarrow> bytes \<Rightarrow> Record decode" where
  "readRecord draws limits s =
     bindD (Some (readUvarint s)) (\<lambda>db s1.
       mapErrD unexpectedEOF (
         bindD (readBytes s1) (\<lambda>key s2.
         bindD (Some (readFull 8 s2)) (\<lambda>ts s3.
         bindD (readValue draws limits s3) (\<lambda>v.
           returnD \<lparr>rec_DB = toInt db, rec_Key = key, rec_ExpireAt = sint (getUint64 ts), rec_Value = v\<rparr>)))))"

text \<open>The records are written one after the other; the first error ends the snapshot.\<close>

fun writeRecords :: "(bytes list \<Rightarrow> bytes list) \<Rightarrow> Record list \<Rightarrow> (ioErr + bytes) option" where
  "writeRecords pick [] = Some (Inr [])"
| "writeRecords pick (r # rs) =
     Option.bind (writeRecord pick r) (\<lambda>res. case res of
         Inl err \<Rightarrow> Some (Inl err)
       | Inr bs \<Rightarrow> map_option (\<lambda>res'. case res' of Inl err \<Rightarrow> Inl err | Inr cs \<Rightarrow> Inr (bs @ cs)) (writeRecords pick rs))"

definition WriteSnapshot :: "(bytes list \<Rightarrow> bytes list) \<Rightarrow> int \<Rightarrow> Record list \<Rightarrow> (ioErr + bytes) option" where
  "WriteSnapshot pick baseGen recs =
     map_option (\<lambda>res. case res of
         Inl err \<Rightarrow> Inl err
       | Inr bs \<Rightarrow> Inr (snapshotMagic @ writeUvarint (toUint64 baseGen) @ bs))
       (writeRecords pick recs)"

lemma shrinks_record: "readRecord draws limits s = Some (Inr (r, s')) \<Longrightarrow> length s' < length s"
proof -
  let ?f = "\<lambda>db s1. mapErrD unexpectedEOF (bindD (readBytes s1) (\<lambda>key s2. bindD (Some (readFull 8 s2)) (\<lambda>ts s3.
      bindD (readValue draws limits s3) (\<lambda>v.
        returnD \<lparr>rec_DB = toInt db, rec_Key = key, rec_ExpireAt = sint (getUint64 ts), rec_Value = v\<rparr>))))"
  have sh: "shrinks (?f db)" for db
    by (intro shrinks_mapErr shrinks_bind shrinks_bytes shrinks_basic shrinks_value)
  assume "readRecord draws limits s = Some (Inr (r, s'))"
  then obtain db s1 where 1: "readUvarint s = Inr (db, s1)" "?f db s1 = Some (Inr (r, s'))"
    by (cases "readUvarint s") (auto simp: readRecord_def)
  from sh[of db] 1(2) have "length s' \<le> length s1" unfolding shrinks_def by blast
  with readUvarint_consumes[OF 1(1)] show ?thesis by simp
qed

text \<open>The loop of \<open>ReadSnapshot\<close>: the state built, and the error that ended it, if any.\<close>

function snapshotLoop ::
  "(nat \<Rightarrow> bool) \<Rightarrow> Limits \<Rightarrow> ('st \<Rightarrow> Record \<Rightarrow> (ioErr + 'st) option) \<Rightarrow> 'st \<Rightarrow> bytes \<Rightarrow> ('st \<times> ioErr option) option" where
  "snapshotLoop draws limits app st s =
     (case readRecord draws limits s of
        None \<Rightarrow> None
      | Some (Inl err) \<Rightarrow> if err = EOF then Some (st, None) else Some (st, Some err)
      | Some (Inr (r, s')) \<Rightarrow>
          (case app st r of
             None \<Rightarrow> None
           | Some (Inl err) \<Rightarrow> Some (st, Some err)
           | Some (Inr st') \<Rightarrow> snapshotLoop draws limits app st' s'))"
  by pat_completeness auto
termination
  by (relation "measure (\<lambda>(draws, limits, app, st, s). length s)") (auto dest: shrinks_record)

declare snapshotLoop.simps [simp del]

text \<open>\<open>ReadSnapshot\<close>: the base generation, the state, and the error.\<close>

definition ReadSnapshot ::
  "(nat \<Rightarrow> bool) \<Rightarrow> Limits \<Rightarrow> ('st \<Rightarrow> Record \<Rightarrow> (ioErr + 'st) option) \<Rightarrow> 'st \<Rightarrow> bytes \<Rightarrow> (int \<times> 'st \<times> ioErr option) option" where
  "ReadSnapshot draws limits app st s =
     (case readFull (length snapshotMagic) s of
        Inl err \<Rightarrow> if err = EOF then Some (0, st, None) else Some (0, st, Some err)
      | Inr (magic, s1) \<Rightarrow>
          if magic \<noteq> snapshotMagic then Some (0, st, Some (Malformed ''snapshot magic mismatch''))
          else (case readUvarint s1 of
              Inl err \<Rightarrow> Some (0, st, Some (unexpectedEOF err))
            | Inr (baseGen, s2) \<Rightarrow>
                map_option (\<lambda>(st', err). (toInt baseGen, st', err))
                  (snapshotLoop draws limits app st s2)))"

text \<open>\<open>snapshotBaseGen\<close> on the contents of the snapshot file.\<close>

definition snapshotBaseGen :: "bytes option \<Rightarrow> int option" where
  "snapshotBaseGen file =
     (case file of
        None \<Rightarrow> None
      | Some s \<Rightarrow>
          (case readFull (length snapshotMagic) s of
             Inl err \<Rightarrow> None
           | Inr (magic, s1) \<Rightarrow>
               if magic \<noteq> snapshotMagic then None
               else (case readUvarint s1 of Inl err \<Rightarrow> None | Inr (gen, s2) \<Rightarrow> Some (toInt gen))))"

section \<open>Round trip\<close>

definition good_record :: "Record \<Rightarrow> bool" where
  "good_record r \<longleftrightarrow>
     0 \<le> rec_DB r \<and> int64_ok (rec_DB r) \<and> alloc_ok (rec_Key r) \<and> int64_ok (rec_ExpireAt r)
     \<and> value_ok (rec_Value r) \<and> value_small (rec_Value r)"

definition record_view :: "Record \<Rightarrow> (int \<times> bytes \<times> int) \<times> absValue \<times> bool" where
  "record_view r = ((rec_DB r, rec_Key r, rec_ExpireAt r), abs_value (rec_Value r), value_ok (rec_Value r))"

definition recordBytes :: "(bytes list \<Rightarrow> bytes list) \<Rightarrow> Record \<Rightarrow> bytes" where
  "recordBytes pick r = (case writeRecord pick r of Some (Inr bs) \<Rightarrow> bs | _ \<Rightarrow> [])"

lemma toUint64_toInt: "0 \<le> n \<Longrightarrow> int64_ok n \<Longrightarrow> toUint64 n < 2 ^ 64 \<and> toInt (toUint64 n) = n"
  by (auto simp: toUint64_def toInt_def int64_ok_def wrap64_id)

lemma sint_word_of_int: "int64_ok n \<Longrightarrow> sint (word_of_int n :: 64 word) = n"
  by (simp add: int64_ok_def sint_sbintrunc' signed_take_bit_int_eq_self)

lemma record_frames:
  assumes "good_record r"
  shows "\<exists>bs r'. writeRecord pick r = Some (Inr bs) \<and> frames (readRecord draws limits) bs r' \<and> record_view r' = record_view r"
proof -
  from value_roundtrip[of "rec_Value r" pick draws limits] assms obtain bs v' where
    v: "writeValue pick (rec_Value r) = Some (Inr bs)" "parses (readValue draws limits) bs v'" "value_ok v'"
      "abs_value v' = abs_value (rec_Value r)" by (auto simp: good_record_def value_codes_def)
  let ?ts = "putUint64 (word_of_int (rec_ExpireAt r))"
  let ?r = "\<lambda>db key ts v. \<lparr>rec_DB = toInt db, rec_Key = key, rec_ExpireAt = sint (getUint64 ts), rec_Value = v\<rparr>"
  let ?n = "toUint64 (rec_DB r)"
  have "parses (\<lambda>s3. bindD (readValue draws limits s3) (\<lambda>v. returnD (?r ?n (rec_Key r) ?ts v))) bs (?r ?n (rec_Key r) ?ts v')"
    by (rule parses_wrap[OF v(2)])
  from parses_bind[where f = "\<lambda>ts s3. bindD (readValue draws limits s3) (\<lambda>v. returnD (?r ?n (rec_Key r) ts v))",
      OF parses_full this, of 8]
  have "parses (\<lambda>s2. bindD (Some (readFull 8 s2)) (\<lambda>ts s3. bindD (readValue draws limits s3) (\<lambda>v. returnD (?r ?n (rec_Key r) ts v))))
      (?ts @ bs) (?r ?n (rec_Key r) ?ts v')" by simp
  from parses_bind[where f = "\<lambda>key s2. bindD (Some (readFull 8 s2)) (\<lambda>ts s3. bindD (readValue draws limits s3)
      (\<lambda>v. returnD (?r ?n key ts v)))", OF parses_bytes this] assms
  have P: "parses (\<lambda>s1. bindD (readBytes s1) (\<lambda>key s2. bindD (Some (readFull 8 s2)) (\<lambda>ts s3. bindD (readValue draws limits s3)
      (\<lambda>v. returnD (?r ?n key ts v))))) (writeBytes (rec_Key r) @ ?ts @ bs) (?r ?n (rec_Key r) ?ts v')"
    by (simp add: good_record_def)
  have "?n < 2 ^ 64" using toUint64_toInt[of "rec_DB r"] assms by (simp add: good_record_def)
  from frames_headed[where f = "\<lambda>db s1. bindD (readBytes s1) (\<lambda>key s2. bindD (Some (readFull 8 s2)) (\<lambda>ts s3.
      bindD (readValue draws limits s3) (\<lambda>v. returnD (?r db key ts v))))", OF this P]
  have "frames (readRecord draws limits) (writeUvarint ?n @ writeBytes (rec_Key r) @ ?ts @ bs) (?r ?n (rec_Key r) ?ts v')"
    unfolding readRecord_def by simp
  with v assms toUint64_toInt[of "rec_DB r"] sint_word_of_int[of "rec_ExpireAt r"] show ?thesis
    by (auto simp: writeRecord_def record_view_def good_record_def)
qed

interpretation snap: framed_stream "recordBytes pick" "readRecord draws limits" good_record record_view
  for pick draws limits
proof
  fix r assume "good_record r"
  from record_frames[OF this, of pick draws limits] show "\<exists>y. frames (readRecord draws limits) (recordBytes pick r) y \<and> record_view y = record_view r"
    by (auto simp: recordBytes_def)
qed

lemma writeRecords_good:
  "\<forall>r \<in> set rs. good_record r \<Longrightarrow> writeRecords pick rs = Some (Inr (concat (map (recordBytes pick) rs)))"
proof (induction rs)
  case (Cons r rs)
  with record_frames[of r pick undefined undefined] show ?case by (auto simp: recordBytes_def)
qed simp

text \<open>The callback applied to a list of records, up to its first error.\<close>

fun applyAll :: "('st \<Rightarrow> 'r \<Rightarrow> ('e + 'st) option) \<Rightarrow> 'st \<Rightarrow> 'r list \<Rightarrow> ('st \<times> 'e option) option" where
  "applyAll app st [] = Some (st, None)"
| "applyAll app st (r # rs) =
     (case app st r of
        None \<Rightarrow> None
      | Some (Inl err) \<Rightarrow> Some (st, Some err)
      | Some (Inr st') \<Rightarrow> applyAll app st' rs)"

lemma snapshotLoop_frames:
  assumes "list_all2 (frames (readRecord draws limits)) bss ys"
    "\<And>st'. snapshotLoop draws limits app st' tail = Some (st', e)"
  shows "snapshotLoop draws limits app st (concat bss @ tail) =
    map_option (\<lambda>(st', err). (st', case err of None \<Rightarrow> e | Some x \<Rightarrow> Some x)) (applyAll app st ys)"
  using assms(1)
proof (induction arbitrary: st rule: list_all2_induct)
  case (Cons bs bss y ys)
  from framesD(1)[OF Cons.hyps(1), of "concat bss @ tail"] Cons.IH show ?case
    by (subst snapshotLoop.simps) (auto simp: returnD_def split: option.split sum.split)
qed (simp add: assms(2))

lemma snapshotLoop_end: "snapshotLoop draws limits app st [] = Some (st, None)"
  by (subst snapshotLoop.simps) (simp add: readRecord_def readUvarint_def)

lemma snapshot_header:
  assumes "0 \<le> gen" "int64_ok gen"
  shows "ReadSnapshot draws limits app st (snapshotMagic @ writeUvarint (toUint64 gen) @ bs) =
      map_option (\<lambda>(st', err). (gen, st', err)) (snapshotLoop draws limits app st bs)"
    "snapshotBaseGen (Some (snapshotMagic @ writeUvarint (toUint64 gen) @ bs)) = Some gen"
  using toUint64_toInt[OF assms] readUvarint_put[of "toUint64 gen" bs]
  by (simp_all add: ReadSnapshot_def snapshotBaseGen_def readFull_def writeUvarint_def)

text \<open>A snapshot of good records reads back as the same records, in order.\<close>

lemma ReadSnapshot_Write:
  assumes "\<forall>r \<in> set recs. good_record r" "0 \<le> gen" "int64_ok gen"
  shows "\<exists>file ys. WriteSnapshot pick gen recs = Some (Inr file) \<and> map record_view ys = map record_view recs
    \<and> snapshotBaseGen (Some file) = Some gen
    \<and> (\<forall>app (st :: 'st). ReadSnapshot draws limits app st file = map_option (\<lambda>(st', err). (gen, st', err)) (applyAll app st ys))"
proof -
  from snap.frame_all[OF assms(1), of draws limits pick] obtain ys where
    ys: "list_all2 (frames (readRecord draws limits)) (map (recordBytes pick) recs) ys" "map record_view ys = map record_view recs"
    by blast
  let ?bs = "concat (map (recordBytes pick) recs)"
  have "snapshotLoop draws limits app st ?bs = applyAll app st ys" for app :: "'st \<Rightarrow> Record \<Rightarrow> (ioErr + 'st) option" and st
  proof -
    have "(\<lambda>(st', err). (st', case err of None \<Rightarrow> None | Some x \<Rightarrow> Some x)) = (\<lambda>p :: 'st \<times> ioErr option. p)"
      by (auto simp: fun_eq_iff split: option.split)
    with snapshotLoop_frames[where app = app and st = st, OF ys(1) snapshotLoop_end] show ?thesis
      by (simp add: option.map_ident)
  qed
  with ys(2) writeRecords_good[OF assms(1), of pick] show ?thesis
    by (intro exI[of _ "snapshotMagic @ writeUvarint (toUint64 gen) @ ?bs"] exI[of _ ys])
       (auto simp: WriteSnapshot_def snapshot_header[OF assms(2,3)])
qed

end
