(* ===== verification/AppendLog.thy ===== *)
theory AppendLog
  imports Snapshot "HOL-Library.Sublist"
begin

text \<open>
  The append log: \<open>internal/persistence/appendlog.go\<close>. A data directory maps file names
  to contents as the operating system would serve them. System calls can fail:
  \<open>st_fault n\<close> says whether the \<open>n\<close>-th call of a store fails and how many bytes a failing
  write still puts into the file. The buffered writer of \<open>bufio\<close> (4096 bytes, sticky error)
  is part of the model, because what reaches the file before a crash depends on it. The mutex
  of the store is modelled in theory \<open>Locks\<close>; here its methods are atomic.
\<close>

section \<open>Files\<close>

type_synonym dir = "(bytes, bytes) gomap"

abbreviation snapshotName :: bytes where "snapshotName \<equiv> ''memcore.snapshot''"
abbreviation snapshotTmp :: bytes where "snapshotTmp \<equiv> ''memcore.snapshot.tmp''"
abbreviation appendName :: bytes where "appendName \<equiv> ''memcore.aof''"
abbreviation FSyncAlways :: bytes where "FSyncAlways \<equiv> ''always''"
abbreviation bufioSize :: nat where "bufioSize \<equiv> 4096"

record Store =
  st_dir :: dir
  st_fsync :: bytes
  st_gen :: int
  st_open :: bool \<comment> \<open>whether the file of the active segment is open\<close>
  st_buf :: bytes
  st_err :: bool \<comment> \<open>the error of the buffered writer, which sticks\<close>
  st_synced :: nat \<comment> \<open>how much of the active segment is known to be on stable storage\<close>
  st_calls :: nat
  st_fault :: "nat \<Rightarrow> nat option"

definition segmentPath :: "int \<Rightarrow> bytes" where
  "segmentPath gen = appendName @ ''.'' @ formatInt gen"

text \<open>
  \<open>fmt.Sscanf(name, "memcore.aof.%d", &gen)\<close>: the literal prefix, then blanks, an optional
  sign and digits; what follows is ignored, and a number out of range is an error.
\<close>

definition scanInt :: "bytes \<Rightarrow> int option" where
  "scanInt s =
     (let s1 = dropWhile (\<lambda>c. c \<in> {CHR '' '', CHR 0x09, CHR 0x0B, CHR 0x0C, CHR 0x0D}) s;
          sign = (case s1 of c # cs \<Rightarrow> if c = CHR ''+'' \<or> c = CHR ''-'' then [c] else [] | [] \<Rightarrow> []);
          digits = takeWhile (\<lambda>c. digit_val c \<noteq> None) (drop (length sign) s1)
      in if digits = [] then None else parseInt (sign @ digits))"

definition scanSegment :: "bytes \<Rightarrow> int option" where
  "scanSegment name =
     (let prefix = appendName @ ''.''
      in if take (length prefix) name = prefix then scanInt (drop (length prefix) name) else None)"

definition highestSegment :: "dir \<Rightarrow> int" where
  "highestSegment d =
     foldl (\<lambda>highest (name, c). case scanSegment name of
         Some gen \<Rightarrow> if gen > highest then gen else highest
       | None \<Rightarrow> highest) 0 d"

section \<open>System calls\<close>

definition fileAppend :: "bytes \<Rightarrow> bytes \<Rightarrow> dir \<Rightarrow> dir" where
  "fileAppend name p d = (case map_of d name of None \<Rightarrow> d | Some c \<Rightarrow> AList.update name (c @ p) d)"

definition sysWrite :: "Store \<Rightarrow> bytes \<Rightarrow> bytes \<Rightarrow> Store \<times> nat \<times> bool" where
  "sysWrite s name p =
     (let n = (case st_fault s (st_calls s) of None \<Rightarrow> length p | Some k \<Rightarrow> min k (length p))
      in (s\<lparr>st_dir := fileAppend name (take n p) (st_dir s), st_calls := st_calls s + 1\<rparr>, n,
          st_fault s (st_calls s) = None))"

text \<open>A call whose effect on the directory is \<open>f\<close> when it succeeds.\<close>

definition sysCall :: "Store \<Rightarrow> (dir \<Rightarrow> dir) \<Rightarrow> Store \<times> bool" where
  "sysCall s f =
     (if st_fault s (st_calls s) = None
      then (s\<lparr>st_dir := f (st_dir s), st_calls := st_calls s + 1\<rparr>, True)
      else (s\<lparr>st_calls := st_calls s + 1\<rparr>, False))"

text \<open>Calls on the file of the active segment, which fail once it is closed.\<close>

definition segWrite :: "Store \<Rightarrow> bytes \<Rightarrow> Store \<times> nat \<times> bool" where
  "segWrite s p = (if st_open s then sysWrite s (segmentPath (st_gen s)) p else (s, 0, False))"

definition segCall :: "Store \<Rightarrow> Store \<times> bool" where
  "segCall s = (if st_open s then sysCall s (\<lambda>d. d) else (s, False))"

definition segClose :: "Store \<Rightarrow> Store \<times> bool" where
  "segClose s = (case segCall s of (s', ok) \<Rightarrow> (s'\<lparr>st_open := False\<rparr>, ok))"

section \<open>The buffered writer\<close>

definition bufFlush :: "Store \<Rightarrow> Store" where
  "bufFlush s =
     (if st_err s \<or> st_buf s = [] then s
      else (case segWrite s (st_buf s) of
          (s', n, ok) \<Rightarrow>
            if ok then s'\<lparr>st_buf := []\<rparr> else s'\<lparr>st_buf := drop n (st_buf s), st_err := True\<rparr>))"

function bufWrite :: "Store \<Rightarrow> bytes \<Rightarrow> Store" where
  "bufWrite s p =
     (if length p > bufioSize - length (st_buf s) \<and> \<not> st_err s then
        (if st_buf s = [] then
           (case segWrite s p of
              (s', n, ok) \<Rightarrow> bufWrite (s'\<lparr>st_err := \<not> ok\<rparr>) (drop n p))
         else
           let n = bufioSize - length (st_buf s)
           in bufWrite (bufFlush (s\<lparr>st_buf := st_buf s @ take n p\<rparr>)) (drop n p))
      else if st_err s then s
      else s\<lparr>st_buf := st_buf s @ p\<rparr>)"
  by pat_completeness auto
termination
  by (relation "measure (\<lambda>(s, p). if st_err s then 0 else 2 * length p + (if st_buf s = [] then 0 else 1))")
     (auto simp: segWrite_def sysWrite_def bufFlush_def split: option.splits prod.splits if_splits)

declare bufWrite.simps [simp del]

section \<open>The store\<close>

definition openSegment :: "Store \<Rightarrow> int \<Rightarrow> Store \<times> bool" where
  "openSegment s gen =
     (case sysCall s (\<lambda>d. case map_of d (segmentPath gen) of
          None \<Rightarrow> AList.update (segmentPath gen) [] d | Some c \<Rightarrow> d) of
        (s', ok) \<Rightarrow>
          if \<not> ok then (s', False)
          else (s'\<lparr>st_gen := gen, st_open := True, st_buf := [], st_err := False, st_synced := 0\<rparr>, True))"

text \<open>\<open>Open\<close>; the first call of the store is \<open>MkdirAll\<close>.\<close>

definition Open :: "dir \<Rightarrow> bytes \<Rightarrow> (nat \<Rightarrow> nat option) \<Rightarrow> Store option" where
  "Open d fsync fault =
     (let s = \<lparr>st_dir = d, st_fsync = fsync, st_gen = 0, st_open = False, st_buf = [], st_err = False, st_synced = 0,
               st_calls = 0, st_fault = fault\<rparr>
      in case sysCall s (\<lambda>d. d) of
           (s1, ok) \<Rightarrow>
             if \<not> ok then None
             else
               let highest = highestSegment d;
                   gen = (case snapshotBaseGen (map_of d snapshotName) of
                       Some base \<Rightarrow> if base > highest then base else highest
                     | None \<Rightarrow> highest)
               in case openSegment s1 gen of (s2, ok2) \<Rightarrow> if ok2 then Some s2 else None)"

definition Store_NextGen :: "Store \<Rightarrow> int" where
  "Store_NextGen s = st_gen s + 1"

text \<open>The writes of \<open>writeCommand\<close>, in order.\<close>

definition commandPieces :: "int \<Rightarrow> bytes list \<Rightarrow> bytes list" where
  "commandPieces db args =
     [writeUvarint (toUint64 db), writeUvarint (length args)]
     @ concat (map (\<lambda>a. [writeUvarint (length a), a]) args)"

definition Log_writeCommand :: "Store \<Rightarrow> int \<Rightarrow> bytes list \<Rightarrow> Store" where
  "Log_writeCommand s db args = foldl bufWrite s (commandPieces db args)"

definition flushLocked :: "Store \<Rightarrow> Store \<times> bool" where
  "flushLocked s =
     (let s1 = bufFlush s
      in if st_err s1 then (s1, False)
         else (case segCall s1 of
             (s2, ok) \<Rightarrow>
               if ok then (s2\<lparr>st_synced := (case map_of (st_dir s2) (segmentPath (st_gen s2)) of
                   None \<Rightarrow> 0 | Some c \<Rightarrow> length c)\<rparr>, True)
               else (s2, False)))"

definition Store_Append :: "Store \<Rightarrow> int \<Rightarrow> bytes list \<Rightarrow> Store \<times> bool" where
  "Store_Append s db args =
     (let s1 = Log_writeCommand s db args
      in if st_err s1 then (s1, False)
         else if st_fsync s1 = FSyncAlways then flushLocked s1 else (s1, True))"

definition Store_Flush :: "Store \<Rightarrow> Store \<times> bool" where
  "Store_Flush s = flushLocked s"

definition Store_Close :: "Store \<Rightarrow> Store \<times> bool" where
  "Store_Close s =
     (case flushLocked s of (s1, ok) \<Rightarrow> if \<not> ok then (s1, False) else segClose s1)"

definition Store_Rotate :: "Store \<Rightarrow> Store \<times> int option" where
  "Store_Rotate s =
     (let s1 = bufFlush s
      in if st_err s1 then (s1, None)
         else (case segClose s1 of
             (s2, ok) \<Rightarrow>
               if \<not> ok then (s2, None)
               else (case openSegment s2 (st_gen s2 + 1) of
                   (s3, ok3) \<Rightarrow> if \<not> ok3 then (s3, None) else (s3, Some (st_gen s3)))))"

text \<open>The loop of \<open>InstallSnapshot\<close> that removes the covered segments and ignores errors.\<close>

fun removeSegments :: "Store \<Rightarrow> int list \<Rightarrow> Store" where
  "removeSegments s [] = s"
| "removeSegments s (g # gs) =
     removeSegments (fst (sysCall s (\<lambda>d. AList.delete (segmentPath g) d))) gs"

definition InstallSnapshot :: "Store \<Rightarrow> bytes \<Rightarrow> int \<Rightarrow> Store \<times> bool" where
  "InstallSnapshot s snapshot baseGen =
     (case sysCall s (\<lambda>d. AList.update snapshotTmp [] d) of
        (s1, ok1) \<Rightarrow>
          if \<not> ok1 then (s1, False)
          else (case sysWrite s1 snapshotTmp snapshot of
              (s2, n, ok2) \<Rightarrow>
                if \<not> ok2 then (fst (sysCall s2 (\<lambda>d. d)), False)
                else (case sysCall s2 (\<lambda>d. d) of
                    (s3, ok3) \<Rightarrow>
                      if \<not> ok3 then (fst (sysCall s3 (\<lambda>d. d)), False)
                      else (case sysCall s3 (\<lambda>d. d) of
                          (s4, ok4) \<Rightarrow>
                            if \<not> ok4 then (s4, False)
                            else (case sysCall s4 (\<lambda>d. case map_of d snapshotTmp of
                                  None \<Rightarrow> d
                                | Some c \<Rightarrow> AList.update snapshotName c (AList.delete snapshotTmp d)) of
                                (s5, ok5) \<Rightarrow>
                                  if \<not> ok5 then (s5, False)
                                  else (removeSegments s5 [0..baseGen - 1], True))))))"

definition readCommand :: "bytes \<Rightarrow> (int \<times> bytes list) decode" where
  "readCommand s =
     bindD (Some (readUvarint s)) (\<lambda>d s1.
       mapErrD unexpectedEOF (
         bindD (Some (readUvarint s1)) (\<lambda>n s2.
           if n * 24 > maxAlloc then None
           else bindD (readLoop n (\<lambda>acc s3. bindD (readBytes s3) (\<lambda>a. returnD (acc @ [a]))) [] s2)
             (\<lambda>args. returnD (toInt d, args)))))"

section \<open>What reaches the file\<close>

abbreviation seg :: "Store \<Rightarrow> bytes option" where
  "seg s \<equiv> map_of (st_dir s) (segmentPath (st_gen s))"

text \<open>
  \<open>wrote s s' p\<close>: the store went from \<open>s\<close> to \<open>s'\<close> by passing \<open>p\<close> to its writer. Without
  an error, file and buffer together grew by \<open>p\<close>; with one, the file holds a prefix of that.
\<close>

definition wrote :: "Store \<Rightarrow> Store \<Rightarrow> bytes \<Rightarrow> bool" where
  "wrote s s' p \<longleftrightarrow>
     st_gen s' = st_gen s \<and> st_fsync s' = st_fsync s \<and> st_open s' = st_open s
     \<and> (\<forall>name. name \<noteq> segmentPath (st_gen s) \<longrightarrow> map_of (st_dir s') name = map_of (st_dir s) name)
     \<and> (st_err s \<longrightarrow> seg s' = seg s \<and> st_err s')
     \<and> (\<forall>c. seg s = Some c \<longrightarrow> (\<exists>c'. seg s' = Some c' \<and> prefix c c' \<and> prefix c' (c @ st_buf s @ p)
          \<and> (st_err s' \<or> c' @ st_buf s' = c @ st_buf s @ p)))"

lemma wroteD:
  assumes "wrote s s' p"
  shows "st_gen s' = st_gen s" "st_fsync s' = st_fsync s" "st_open s' = st_open s"
    "name \<noteq> segmentPath (st_gen s) \<Longrightarrow> map_of (st_dir s') name = map_of (st_dir s) name"
    "st_err s \<Longrightarrow> seg s' = seg s \<and> st_err s'"
    "seg s = Some c \<Longrightarrow> \<exists>c'. seg s' = Some c' \<and> prefix c c' \<and> prefix c' (c @ st_buf s @ p)
       \<and> (st_err s' \<or> c' @ st_buf s' = c @ st_buf s @ p)"
  using assms unfolding wrote_def by blast+

lemma wrote_trans:
  assumes "wrote s s1 p" "wrote s1 s2 q"
  shows "wrote s s2 (p @ q)"
  unfolding wrote_def
proof (intro conjI allI impI)
  note A = wroteD[OF assms(1)] and B = wroteD[OF assms(2)]
  show "st_gen s2 = st_gen s" "st_fsync s2 = st_fsync s" "st_open s2 = st_open s" using A(1-3) B(1-3) by simp_all
  show "map_of (st_dir s2) name = map_of (st_dir s) name" if "name \<noteq> segmentPath (st_gen s)" for name
    using A(1,4) B(4) that by simp
  show "seg s2 = seg s" "st_err s2" if "st_err s" using A(5)[OF that] B(5) by simp_all
  fix c assume c: "seg s = Some c"
  from A(6)[OF this] obtain c1 where
    1: "seg s1 = Some c1" "prefix c c1" "prefix c1 (c @ st_buf s @ p)"
      "st_err s1 \<or> c1 @ st_buf s1 = c @ st_buf s @ p" by blast
  show "\<exists>c'. seg s2 = Some c' \<and> prefix c c' \<and> prefix c' (c @ st_buf s @ p @ q)
      \<and> (st_err s2 \<or> c' @ st_buf s2 = c @ st_buf s @ p @ q)"
  proof (cases "st_err s1")
    case True
    with B(5) 1 show ?thesis by (auto intro: prefix_order.trans)
  next
    case False
    then have e: "c1 @ st_buf s1 @ q = c @ st_buf s @ p @ q" using 1(4) by simp
    from B(6)[OF 1(1)] 1(2) show ?thesis unfolding e by (auto intro: prefix_order.trans)
  qed
qed

lemma wrote_refl: "wrote s s []"
  by (auto simp: wrote_def prefix_def)

lemma wrote_write:
  assumes "\<not> st_err s" "st_buf s = []"
  shows "case segWrite s p of (s', n, ok) \<Rightarrow>
    n \<le> length p \<and> (ok \<longrightarrow> n = length p) \<and> st_buf s' = [] \<and> st_err s' = False
    \<and> wrote s (s'\<lparr>st_err := \<not> ok\<rparr>) (take n p)
    \<and> (\<not> ok \<longrightarrow> wrote s (s'\<lparr>st_err := True\<rparr>) p)"
  using assms
  by (auto simp: segWrite_def sysWrite_def wrote_def fileAppend_def Let_def prefix_def split: option.splits)
     (metis append_take_drop_id)+

lemma wrote_flush: "wrote s (bufFlush s) []"
proof (cases "st_err s \<or> st_buf s = []")
  case True
  then show ?thesis by (simp add: bufFlush_def wrote_refl)
next
  case False
  then show ?thesis
    by (auto simp: bufFlush_def segWrite_def sysWrite_def wrote_def fileAppend_def Let_def prefix_def split: option.splits)
       (metis append_take_drop_id)+
qed

lemma bufFlush_empty: "\<not> st_err (bufFlush s) \<Longrightarrow> st_buf (bufFlush s) = []"
  by (auto simp: bufFlush_def segWrite_def sysWrite_def split: if_splits prod.splits)

lemma wrote_buffer: "\<not> st_err s \<Longrightarrow> wrote s (s\<lparr>st_buf := st_buf s @ p\<rparr>) p"
  by (auto simp: wrote_def prefix_def)

lemma wrote_bufWrite: "wrote s (bufWrite s p) p"
proof (induction s p rule: bufWrite.induct)
  case (1 s p)
  show ?case
  proof (cases "length p > bufioSize - length (st_buf s) \<and> \<not> st_err s")
    case False
    then show ?thesis
      using wrote_buffer[of s p] by (subst bufWrite.simps) (auto simp: wrote_def prefix_def)
  next
    case True
    show ?thesis
    proof (cases "st_buf s = []")
      case empty: True
      obtain s' n ok where w: "segWrite s p = (s', n, ok)" using prod_cases3 by blast
      with wrote_write[of s p] True empty have
        "wrote s (s'\<lparr>st_err := \<not> ok\<rparr>) (take n p)" by simp
      from wrote_trans[OF this "1.IH"(1)[OF True empty w[symmetric] refl]] True empty w
      show ?thesis by (subst bufWrite.simps) simp
    next
      case False
      let ?n = "bufioSize - length (st_buf s)"
      have "wrote s (bufFlush (s\<lparr>st_buf := st_buf s @ take ?n p\<rparr>)) (take ?n p)"
        using wrote_trans[OF wrote_buffer wrote_flush, of s "take ?n p"] True by simp
      from wrote_trans[OF this "1.IH"(2)[OF True False refl]] True False
      show ?thesis by (subst bufWrite.simps) simp
    qed
  qed
qed

lemma wrote_pieces: "wrote s (foldl bufWrite s ps) (concat ps)"
proof (induction ps arbitrary: s)
  case (Cons p ps)
  from wrote_trans[OF wrote_bufWrite Cons.IH, of s p] show ?case by simp
qed (simp add: wrote_refl)

section \<open>Log records\<close>

definition encodeCommand :: "int \<times> bytes list \<Rightarrow> bytes" where
  "encodeCommand c = concat (commandPieces (fst c) (snd c))"

definition good_command :: "int \<times> bytes list \<Rightarrow> bool" where
  "good_command c \<longleftrightarrow>
     0 \<le> fst c \<and> int64_ok (fst c) \<and> length (snd c) * 24 \<le> maxAlloc \<and> (\<forall>a \<in> set (snd c). alloc_ok a)"

lemma foldM_collect: "foldM (\<lambda>acc a. Some (acc @ [a])) acc xs = Some (acc @ xs)"
  by (induction xs arbitrary: acc) auto

lemma command_frames:
  assumes "good_command c"
  shows "frames readCommand (encodeCommand c) c"
proof -
  obtain db args where c: "c = (db, args)" by (cases c)
  let ?n = "toUint64 db"
  let ?loop = "\<lambda>n. readLoop n (\<lambda>acc s3. bindD (readBytes s3) (\<lambda>a. returnD (acc @ [a]))) []"
  let ?f = "\<lambda>d s1. bindD (Some (readUvarint s1)) (\<lambda>n s2. if n * 24 > maxAlloc then None
      else bindD (?loop n s2) (\<lambda>args. returnD (toInt d, args)))"
  have n: "?n < 2 ^ 64" "toInt ?n = db" using toUint64_toInt[of db] assms by (auto simp: c good_command_def)
  have l: "length args < 2 ^ 64" "length args * 24 \<le> maxAlloc" using assms by (auto simp: c good_command_def)
  have "parses (?loop (length args)) (concat (map writeBytes args)) args"
    using assms
    by (intro parses_loop[where add = "\<lambda>acc a. Some (acc @ [a])"]) (auto simp: foldM_collect c good_command_def intro!: parses_wrap parses_bytes)
  from parses_wrap[OF this, of "\<lambda>args. (toInt ?n, args)"] l(2)
  have "parses (\<lambda>s2. if length args * 24 > maxAlloc then None else bindD (?loop (length args) s2) (\<lambda>args. returnD (toInt ?n, args)))
      (concat (map writeBytes args)) (db, args)" by (simp add: n(2))
  from parses_bind[where f = "\<lambda>n s2. if n * 24 > maxAlloc then None else bindD (?loop n s2) (\<lambda>args. returnD (toInt ?n, args))",
      OF parses_uvarint[OF l(1)] this]
  have "parses (?f ?n) (writeUvarint (length args) @ concat (map writeBytes args)) (db, args)" by simp
  from frames_headed[where f = ?f, OF n(1) this]
  have "frames readCommand (writeUvarint ?n @ writeUvarint (length args) @ concat (map writeBytes args)) (db, args)"
    unfolding readCommand_def by simp
  moreover have "concat (concat (map (\<lambda>a. [writeUvarint (length a), a]) args)) = concat (map writeBytes args)"
    by (induction args) (auto simp: writeBytes_def)
  ultimately show ?thesis by (simp add: c encodeCommand_def commandPieces_def)
qed

interpretation log: framed_stream encodeCommand readCommand good_command "\<lambda>c. c"
  by unfold_locales (blast intro: command_frames)

lemma shrinks_command: "readCommand s = Some (Inr (c, s')) \<Longrightarrow> length s' < length s"
proof -
  let ?f = "\<lambda>d s1. mapErrD unexpectedEOF (bindD (Some (readUvarint s1)) (\<lambda>n s2. if n * 24 > maxAlloc then None
      else bindD (readLoop n (\<lambda>acc s3. bindD (readBytes s3) (\<lambda>a. returnD (acc @ [a]))) [] s2) (\<lambda>args. returnD (toInt d, args))))"
  have sh: "shrinks (?f d)" for d
    by (intro shrinks_mapErr shrinks_bind shrinks_uvarint shrinks_bytes shrinks_basic shrinks_if shrinks_loop)
  assume "readCommand s = Some (Inr (c, s'))"
  then obtain d s1 where 1: "readUvarint s = Inr (d, s1)" "?f d s1 = Some (Inr (c, s'))"
    by (cases "readUvarint s") (auto simp: readCommand_def)
  from sh[of d] 1(2) have "length s' \<le> length s1" unfolding shrinks_def by blast
  with readUvarint_consumes[OF 1(1)] show ?thesis by simp
qed

section \<open>Sequences of appends\<close>

datatype logOp = LAppend int "bytes list" | LFlush

fun log_exec :: "logOp \<Rightarrow> Store \<Rightarrow> Store \<times> bool" where
  "log_exec (LAppend db args) s = Store_Append s db args"
| "log_exec LFlush s = Store_Flush s"

fun log_bytes :: "logOp \<Rightarrow> bytes" where
  "log_bytes (LAppend db args) = encodeCommand (db, args)"
| "log_bytes LFlush = []"

lemma wrote_flushLocked: "wrote s (fst (flushLocked s)) []"
proof -
  have "wrote (bufFlush s) (s'\<lparr>st_synced := n\<rparr>) [] \<and> wrote (bufFlush s) s' []" if "segCall (bufFlush s) = (s', ok)" for s' ok n
    using that by (auto simp: segCall_def sysCall_def wrote_def prefix_def split: if_splits)
  then show ?thesis
    using wrote_trans[OF wrote_flush, of s _ "[]"] wrote_flush[of s] by (auto simp: flushLocked_def split: prod.split)
qed

lemma wrote_op: "wrote s (fst (log_exec x s)) (log_bytes x)"
proof (cases x)
  case (LAppend db args)
  have w: "wrote s (Log_writeCommand s db args) (encodeCommand (db, args))"
    using wrote_pieces[of s "commandPieces db args"] by (simp add: Log_writeCommand_def encodeCommand_def)
  with wrote_trans[OF w wrote_flushLocked] LAppend show ?thesis by (simp add: Store_Append_def)
qed (simp add: Store_Flush_def wrote_flushLocked)

definition log_run :: "logOp list \<Rightarrow> Store \<Rightarrow> Store" where
  "log_run xs s = foldl (\<lambda>s x. fst (log_exec x s)) s xs"

lemma wrote_run: "wrote s (log_run xs s) (concat (map log_bytes xs))"
  unfolding log_run_def
proof (induction xs arbitrary: s)
  case (Cons x xs)
  from wrote_trans[OF wrote_op Cons.IH, of s x] show ?case by simp
qed (simp add: wrote_refl)

text \<open>An append succeeds as long as the segment is open and no call fails.\<close>

definition sound :: "Store \<Rightarrow> bool" where
  "sound s \<longleftrightarrow> st_open s \<and> \<not> st_err s \<and> (\<forall>n. st_fault s n = None)"

lemma sound_flush: "sound s \<Longrightarrow> sound (bufFlush s)"
  by (simp add: sound_def bufFlush_def segWrite_def sysWrite_def)

lemma sound_bufWrite: "sound s \<Longrightarrow> sound (bufWrite s p)"
proof (induction s p rule: bufWrite.induct)
  case (1 s p)
  show ?case
  proof (cases "length p > bufioSize - length (st_buf s)")
    case False
    with 1(3) show ?thesis by (subst bufWrite.simps) (simp add: sound_def)
  next
    case True
    have c: "length p > bufioSize - length (st_buf s) \<and> \<not> st_err s" using True 1(3) by (simp add: sound_def)
    show ?thesis
    proof (cases "st_buf s = []")
      case empty: True
      obtain s' n ok where w: "segWrite s p = (s', n, ok)" using prod_cases3 by blast
      then have "sound (s'\<lparr>st_err := \<not> ok\<rparr>)" using 1(3) by (auto simp: segWrite_def sysWrite_def sound_def)
      from 1(1)[OF c empty w[symmetric] refl this] c empty w show ?thesis by (subst bufWrite.simps) simp
    next
      case False
      let ?n = "bufioSize - length (st_buf s)"
      have "sound (s\<lparr>st_buf := st_buf s @ take ?n p\<rparr>)" using 1(3) by (simp add: sound_def)
      from 1(2)[OF c False refl sound_flush[OF this]] c False show ?thesis by (subst bufWrite.simps) simp
    qed
  qed
qed

lemma sound_pieces: "sound s \<Longrightarrow> sound (foldl bufWrite s ps)"
  by (induction ps arbitrary: s) (auto intro: sound_bufWrite)

lemma Append_succeeds: "sound s \<Longrightarrow> \<exists>s'. Store_Append s db args = (s', True) \<and> sound s'"
proof -
  assume "sound s"
  then have w: "sound (Log_writeCommand s db args)"
    unfolding Log_writeCommand_def by (rule sound_pieces)
  from sound_flush[OF this] w show ?thesis
    by (auto simp: Store_Append_def flushLocked_def segCall_def sysCall_def sound_def Let_def)
qed

text \<open>An append that reports success under the policy \<open>always\<close> is on stable storage.\<close>

lemma Append_always:
  assumes "st_fsync s = FSyncAlways" "seg s = Some c" "Store_Append s db args = (s', True)"
  shows "seg s' = Some (c @ st_buf s @ encodeCommand (db, args))" "st_synced s' = length (c @ st_buf s @ encodeCommand (db, args))"
    "st_buf s' = []"
proof -
  let ?s1 = "Log_writeCommand s db args"
  have w: "wrote s ?s1 (encodeCommand (db, args))"
    using wrote_pieces[of s "commandPieces db args"] by (simp add: Log_writeCommand_def encodeCommand_def)
  have f: "flushLocked ?s1 = (s', True)" "\<not> st_err ?s1"
    using assms(1,3) wroteD(2)[OF w] by (auto simp: Store_Append_def split: if_splits)
  from f(1) have b: "\<not> st_err (bufFlush ?s1)" "st_dir s' = st_dir (bufFlush ?s1)" "st_gen s' = st_gen (bufFlush ?s1)"
    "st_buf s' = st_buf (bufFlush ?s1)"
    "st_synced s' = (case seg s' of None \<Rightarrow> 0 | Some c \<Rightarrow> length c)"
    by (auto simp: flushLocked_def segCall_def sysCall_def split: if_splits prod.splits)
  from wroteD(6)[OF wrote_trans[OF w wrote_flush] assms(2)] b(1) bufFlush_empty[OF b(1)]
  have "seg (bufFlush ?s1) = Some (c @ st_buf s @ encodeCommand (db, args))" by auto
  with b bufFlush_empty[OF b(1)] show "seg s' = Some (c @ st_buf s @ encodeCommand (db, args))"
    "st_synced s' = length (c @ st_buf s @ encodeCommand (db, args))" "st_buf s' = []" by simp_all
qed

end
