(* ===== verification/Recovery.thy ===== *)
theory Recovery
  imports AppendLog
begin

text \<open>
  Recovery at boot: \<open>internal/persistence/recover.go\<close>. The callbacks \<open>restore\<close> and
  \<open>replay\<close> are functions on the state the caller builds; they report an error or, with
  \<open>None\<close>, a panic. Reading a file is assumed to succeed when the file exists. Then what
  recovery sees after a crash: a prefix of the log, and a snapshot that was installed
  completely or not at all.
\<close>

section \<open>The code (recover.go)\<close>

type_synonym 'st replayer = "'st \<Rightarrow> int \<times> bytes list \<Rightarrow> (ioErr + 'st) option"

text \<open>The loop of \<open>replaySegment\<close>: state, number of commands, error.\<close>

function replayLoop :: "'st replayer \<Rightarrow> 'st \<Rightarrow> int \<Rightarrow> bytes \<Rightarrow> ('st \<times> int \<times> ioErr option) option" where
  "replayLoop replay st n s =
     (case readCommand s of
        None \<Rightarrow> None
      | Some (Inl err) \<Rightarrow>
          if err = EOF \<or> err = UnexpectedEOF then Some (st, n, None) else Some (st, n, Some err)
      | Some (Inr (c, s')) \<Rightarrow>
          (case replay st c of
             None \<Rightarrow> None
           | Some (Inl err) \<Rightarrow> Some (st, n, Some err)
           | Some (Inr st') \<Rightarrow> replayLoop replay st' (n + 1) s'))"
  by pat_completeness auto
termination by (relation "measure (\<lambda>(replay, st, n, s). length s)") (auto dest: shrinks_command)

declare replayLoop.simps [simp del]

definition replaySegment :: "'st replayer \<Rightarrow> dir \<Rightarrow> 'st \<Rightarrow> int \<Rightarrow> ('st \<times> int \<times> ioErr option) option" where
  "replaySegment replay d st gen =
     (case map_of d (segmentPath gen) of
        None \<Rightarrow> Some (st, 0, None)
      | Some file \<Rightarrow> replayLoop replay st 0 file)"

fun replayGens :: "'st replayer \<Rightarrow> dir \<Rightarrow> 'st \<Rightarrow> int \<Rightarrow> int list \<Rightarrow> ('st \<times> int \<times> ioErr option) option" where
  "replayGens replay d st n0 [] = Some (st, n0, None)"
| "replayGens replay d st n0 (gen # gens) =
     (case replaySegment replay d st gen of
        None \<Rightarrow> None
      | Some (st', n, Some err) \<Rightarrow> Some (st', n0 + n, Some err)
      | Some (st', n, None) \<Rightarrow> replayGens replay d st' (n0 + n) gens)"

definition replaySegments :: "'st replayer \<Rightarrow> dir \<Rightarrow> 'st \<Rightarrow> int \<Rightarrow> ('st \<times> int \<times> ioErr option) option" where
  "replaySegments replay d st baseGen = replayGens replay d st 0 [baseGen..highestSegment d]"

text \<open>\<open>loadSnapshot\<close>: base generation, records loaded, state, error.\<close>

definition loadSnapshot ::
  "(nat \<Rightarrow> bool) \<Rightarrow> Limits \<Rightarrow> ('st \<Rightarrow> Record \<Rightarrow> (ioErr + 'st) option) \<Rightarrow> dir \<Rightarrow> 'st \<Rightarrow> (int \<times> int \<times> 'st \<times> ioErr option) option" where
  "loadSnapshot draws limits restore d st =
     (case map_of d snapshotName of
        None \<Rightarrow> Some (0, 0, st, None)
      | Some file \<Rightarrow>
          map_option (\<lambda>(gen, (n, st'), err). (gen, n, st', err))
            (ReadSnapshot draws limits
              (\<lambda>(n, st) r. map_option (\<lambda>res. case res of Inl err \<Rightarrow> Inl err | Inr st' \<Rightarrow> Inr (n + 1, st')) (restore st r))
              (0, st) file))"

definition Recover ::
  "(nat \<Rightarrow> bool) \<Rightarrow> Limits \<Rightarrow> ('st \<Rightarrow> Record \<Rightarrow> (ioErr + 'st) option) \<Rightarrow> 'st replayer \<Rightarrow> dir \<Rightarrow> 'st \<Rightarrow>
   ('st \<times> int \<times> int \<times> ioErr option) option" where
  "Recover draws limits restore replay d st =
     Option.bind (loadSnapshot draws limits restore d st) (\<lambda>(baseGen, loaded, st1, err).
       case err of
         Some e \<Rightarrow> Some (st1, loaded, 0, Some e)
       | None \<Rightarrow>
           map_option (\<lambda>(st2, replayed, err2). (st2, loaded, replayed, err2)) (replaySegments replay d st1 baseGen))"

section \<open>Replaying a prefix of the log\<close>

text \<open>A prefix of a concatenation: whole pieces, then the beginning of the next one.\<close>

lemma prefix_concat:
  assumes "prefix c (concat bss)"
  obtains k p where "k \<le> length bss" "c = concat (take k bss) @ p"
    "p = [] \<or> (k < length bss \<and> (\<exists>q. bss ! k = p @ q \<and> q \<noteq> []))"
proof -
  have "\<exists>k p. k \<le> length bss \<and> c = concat (take k bss) @ p
      \<and> (p = [] \<or> (k < length bss \<and> (\<exists>q. bss ! k = p @ q \<and> q \<noteq> [])))"
    using assms
  proof (induction bss arbitrary: c)
    case (Cons bs bss)
    then obtain r where "c @ r = bs @ concat bss" by (auto simp: prefix_def)
    then obtain us where "c = bs @ us \<and> concat bss = us @ r \<or> c @ us = bs \<and> r = us @ concat bss"
      by (metis append_eq_append_conv2)
    then consider (inside) q where "bs = c @ q" "q \<noteq> []" | (after) c' where "c = bs @ c'" "prefix c' (concat bss)"
      by (cases "us = []") (auto simp: prefix_def)
    then show ?case
    proof cases
      case inside
      then show ?thesis by (intro exI[of _ 0] exI[of _ c]) auto
    next
      case (after c')
      with Cons.IH[OF after(2)] obtain k p where
        "k \<le> length bss" "c' = concat (take k bss) @ p"
        "p = [] \<or> (k < length bss \<and> (\<exists>q. bss ! k = p @ q \<and> q \<noteq> []))" by blast
      with after show ?thesis by (intro exI[of _ "Suc k"] exI[of _ p]) auto
    qed
  qed simp
  with that show thesis by blast
qed

definition replayAll :: "'st replayer \<Rightarrow> 'st \<Rightarrow> int \<Rightarrow> (int \<times> bytes list) list \<Rightarrow> ('st \<times> int \<times> ioErr option) option" where
  "replayAll replay st n cs =
     map_option (\<lambda>((st', m), err). (st', m, err))
       (applyAll (\<lambda>(st, m) c. map_option (\<lambda>res. case res of Inl err \<Rightarrow> Inl err | Inr st' \<Rightarrow> Inr (st', m + 1)) (replay st c)) (st, n) cs)"

lemma replayAll_simps [simp]:
  "replayAll replay st n [] = Some (st, n, None)"
  "replayAll replay st n (c # cs) =
     (case replay st c of
        None \<Rightarrow> None
      | Some (Inl err) \<Rightarrow> Some (st, n, Some err)
      | Some (Inr st') \<Rightarrow> replayAll replay st' (n + 1) cs)"
  by (auto simp: replayAll_def split: option.split sum.split)

text \<open>A log that ends inside a record replays as if it ended before it.\<close>

lemma replayLoop_cut:
  assumes "\<forall>c \<in> set cs. good_command c" "p = [] \<or> (\<exists>c q. good_command c \<and> encodeCommand c = p @ q \<and> q \<noteq> [])"
  shows "replayLoop replay st n (concat (map encodeCommand cs) @ p) = replayAll replay st n cs"
  using assms(1)
proof (induction cs arbitrary: st n)
  case Nil
  have "\<exists>err \<in> {EOF, UnexpectedEOF}. readCommand p = Some (Inl err)"
  proof (cases "p = []")
    case True
    then show ?thesis by (simp add: readCommand_def readUvarint_def)
  next
    case False
    with assms(2) obtain c q where "good_command c" "encodeCommand c = p @ q" "q \<noteq> []" by blast
    from framesD(2)[OF command_frames[OF this(1)] this(2,3)] False show ?thesis by simp
  qed
  then show ?case by (subst replayLoop.simps) auto
next
  case (Cons c cs)
  with framesD(1)[OF command_frames, of c "concat (map encodeCommand cs) @ p"] show ?case
    by (subst replayLoop.simps) (auto simp: returnD_def split: option.split sum.split)
qed

lemma replay_prefix:
  assumes "\<forall>c \<in> set cs. good_command c" "prefix file (concat (map encodeCommand cs))"
  shows "\<exists>k \<le> length cs. \<forall>replay (st :: 'st) n. replayLoop replay st n file = replayAll replay st n (take k cs)"
proof -
  from prefix_concat[OF assms(2)] obtain k p where
    k: "k \<le> length cs" "file = concat (take k (map encodeCommand cs)) @ p"
      "p = [] \<or> (k < length cs \<and> (\<exists>q. map encodeCommand cs ! k = p @ q \<and> q \<noteq> []))" by (auto simp del: take_map)
  have "p = [] \<or> (\<exists>c q. good_command c \<and> encodeCommand c = p @ q \<and> q \<noteq> [])"
  proof (cases "p = []")
    case False
    then obtain q where "k < length cs" "encodeCommand (cs ! k) = p @ q" "q \<noteq> []" using k(3) by auto
    moreover from this(1) have "good_command (cs ! k)" using assms(1) by simp
    ultimately show ?thesis by blast
  qed simp
  moreover have "\<forall>c \<in> set (take k cs). good_command c" using assms(1) by (auto dest: in_set_takeD)
  ultimately have "replayLoop replay st n file = replayAll replay st n (take k cs)" for replay :: "'st replayer" and st n
    using replayLoop_cut[of "take k cs" p replay st n] k(2) by (simp add: take_map)
  with k(1) show ?thesis by blast
qed

section \<open>What recovery looks at\<close>

text \<open>
  Recovery reads the snapshot file and the segments, and a missing segment counts as an
  empty one; a temporary snapshot, an empty segment and other files make no difference.
\<close>

lemma utoa_all_digits: "\<forall>c \<in> set (utoa n). digit_val c \<noteq> None"
  by (induction n rule: utoa.induct) (subst utoa.simps, auto)

lemma scanInt_formatInt:
  assumes "int64_ok g"
  shows "scanInt (formatInt g) = Some g"
proof -
  let ?blank = "\<lambda>c. c \<in> {CHR '' '', CHR 0x09, CHR 0x0B, CHR 0x0C, CHR 0x0D}"
  have T: "takeWhile (\<lambda>c. digit_val c \<noteq> None) (utoa n) = utoa n" for n
    using utoa_all_digits[of n] by (simp only: takeWhile_eq_all_conv)
  have U: "\<exists>c cs. utoa n = c # cs \<and> digit_val c \<noteq> None" for n
    using utoa_hd[of n] by auto
  have B: "\<not> ?blank c" "c \<noteq> CHR ''+''" "c \<noteq> CHR ''-''" if "digit_val c \<noteq> None" for c
    using that by (auto simp: digit_val_def)
  show ?thesis
  proof (cases "g < 0")
    case True
    then have f: "formatInt g = CHR ''-'' # utoa (nat (- g))" by (simp add: formatInt_def)
    have "scanInt (CHR ''-'' # utoa n) = parseInt (CHR ''-'' # utoa n)" for n
      using U[of n] by (simp add: scanInt_def T del: not_None_eq)
    with parseInt_formatInt[OF assms] show ?thesis by (simp add: f)
  next
    case False
    then have f: "formatInt g = utoa (nat g)" by (simp add: formatInt_def)
    have "scanInt (utoa n) = parseInt (utoa n)" for n
    proof -
      from U[of n] obtain c cs where c: "utoa n = c # cs" "digit_val c \<noteq> None" by blast
      from B[OF c(2)] c show ?thesis
        by (simp add: scanInt_def T[of n, unfolded c(1)] del: takeWhile.simps not_None_eq)
    qed
    with parseInt_formatInt[OF assms] f show ?thesis by simp
  qed
qed

lemma scan_segmentPath: "int64_ok g \<Longrightarrow> scanSegment (segmentPath g) = Some g"
  using scanInt_formatInt[of g] by (simp add: scanSegment_def segmentPath_def)

lemma segmentPath_inj: "int64_ok g \<Longrightarrow> int64_ok h \<Longrightarrow> segmentPath g = segmentPath h \<longleftrightarrow> g = h"
  by (metis scan_segmentPath option.inject)

lemma segmentPath_names [simp]: "segmentPath g \<noteq> snapshotName" "segmentPath g \<noteq> snapshotTmp"
  "snapshotName \<noteq> segmentPath g" "snapshotTmp \<noteq> segmentPath g"
  by (simp_all add: segmentPath_def)

definition highestStep :: "int \<Rightarrow> bytes \<times> bytes \<Rightarrow> int" where
  "highestStep highest e =
     (case scanSegment (fst e) of Some gen \<Rightarrow> if gen > highest then gen else highest | None \<Rightarrow> highest)"

lemma highestSegment_step: "highestSegment d = foldl highestStep 0 d"
  unfolding highestSegment_def
  by (rule foldl_cong) (auto simp: highestStep_def fun_eq_iff)

lemma highestStep_ge: "h \<le> highestStep h e"
  by (simp add: highestStep_def split: option.split)

lemma highestFold_ge: "h \<le> foldl highestStep h d"
proof (induction d arbitrary: h)
  case (Cons e d)
  with highestStep_ge[of h e] show ?case by (auto intro: order_trans)
qed simp

lemma highestSegment_upper:
  assumes "(name, c) \<in> set d" "scanSegment name = Some g"
  shows "g \<le> highestSegment d"
proof -
  from split_list[OF assms(1)] obtain d1 d2 where d: "d = d1 @ (name, c) # d2" by blast
  have "g \<le> highestStep (foldl highestStep 0 d1) (name, c)" using assms(2) by (simp add: highestStep_def)
  also have "\<dots> \<le> foldl highestStep (highestStep (foldl highestStep 0 d1) (name, c)) d2" by (rule highestFold_ge)
  finally show ?thesis by (simp add: highestSegment_step d)
qed

lemma scanSegment_range: "scanSegment name = Some g \<Longrightarrow> int64_ok g"
  using parseInt_range by (auto simp: scanSegment_def scanInt_def Let_def split: if_splits)

lemma highestSegment_ok: "0 \<le> highestSegment d \<and> int64_ok (highestSegment d)"
proof -
  have S: "0 \<le> h \<and> int64_ok h \<Longrightarrow> 0 \<le> highestStep h e \<and> int64_ok (highestStep h e)" for h e
    by (auto simp: highestStep_def split: option.split dest: scanSegment_range)
  have "0 \<le> h \<and> int64_ok h \<Longrightarrow> 0 \<le> foldl highestStep h d \<and> int64_ok (foldl highestStep h d)" for h
  proof (induction d arbitrary: h)
    case (Cons e d)
    from Cons.IH[OF S[OF Cons.prems]] show ?case by simp
  qed simp
  from this[of 0] show ?thesis by (simp add: highestSegment_step int64_ok_def)
qed

definition segfile :: "dir \<Rightarrow> int \<Rightarrow> bytes" where
  "segfile d g = (case map_of d (segmentPath g) of None \<Rightarrow> [] | Some f \<Rightarrow> f)"

lemma segfile_beyond: "highestSegment d < g \<Longrightarrow> int64_ok g \<Longrightarrow> segfile d g = []"
  using highestSegment_upper[of "segmentPath g" _ d g] scan_segmentPath[of g]
  by (fastforce simp: segfile_def dest: map_of_SomeD split: option.split)

lemma replayLoop_empty: "replayLoop replay st n [] = Some (st, n, None)"
  by (subst replayLoop.simps) (simp add: readCommand_def readUvarint_def)

lemma replaySegment_view: "replaySegment replay d st g = replayLoop replay st 0 (segfile d g)"
  by (simp add: replaySegment_def segfile_def replayLoop_empty split: option.split)

lemma replayGens_append:
  assumes "\<forall>g \<in> set gs'. segfile d g = []"
  shows "replayGens replay d st n (gs @ gs') = replayGens replay d st n gs"
proof -
  have "replayGens replay d st n gs' = Some (st, n, None)" for st n
    using assms by (induction gs' arbitrary: n) (auto simp: replaySegment_view replayLoop_empty)
  then show ?thesis
    by (induction gs arbitrary: st n) (auto split: option.split)
qed

lemma replayGens_extend:
  assumes "highestSegment d \<le> H" "int64_ok H"
  shows "replayGens replay d st n [base..H] = replayGens replay d st n [base..highestSegment d]"
proof -
  have e: "segfile d g = []" if "highestSegment d < g" "g \<le> H" for g
    using segfile_beyond[of d g] that assms(2) highestSegment_ok[of d] by (auto simp: int64_ok_def)
  show ?thesis
  proof (cases "base \<le> highestSegment d + 1")
    case True
    then have "[base..H] = [base..highestSegment d] @ [highestSegment d + 1..H]"
      using upto_split2[of base "highestSegment d" H] assms(1)
      by (cases "base = highestSegment d + 1") auto
    with replayGens_append[of "[highestSegment d + 1..H]" d] e show ?thesis by auto
  next
    case False
    with replayGens_append[of "[base..H]" d replay st n "[]"] e show ?thesis by auto
  qed
qed

lemma replayGens_cong:
  "\<forall>g \<in> set gs. segfile d g = segfile d' g \<Longrightarrow> replayGens replay d st n gs = replayGens replay d' st n gs"
  by (induction gs arbitrary: st n) (auto simp: replaySegment_view split: option.split)

lemma Recover_view:
  assumes "map_of d snapshotName = map_of d' snapshotName" "\<And>g. int64_ok g \<Longrightarrow> segfile d g = segfile d' g"
  shows "Recover draws limits restore replay d st = Recover draws limits restore replay d' st"
proof -
  let ?H = "max (highestSegment d) (highestSegment d')"
  have H: "int64_ok ?H" using highestSegment_ok[of d] highestSegment_ok[of d'] by (simp add: max_def)
  have "replaySegments replay d st1 base = replaySegments replay d' st1 base" if "int64_ok base" for st1 base
  proof -
    have "replayGens replay d st1 0 [base..?H] = replayGens replay d' st1 0 [base..?H]"
      using assms(2) that H by (intro replayGens_cong) (auto simp: int64_ok_def)
    then show ?thesis
      using replayGens_extend[OF _ H, of d replay st1 0 base] replayGens_extend[OF _ H, of d' replay st1 0 base]
      by (simp add: replaySegments_def)
  qed
  moreover have "int64_ok base" if "loadSnapshot draws limits restore d st = Some (base, n, st1, err)" for base n st1 err
    using that
    by (auto simp: loadSnapshot_def ReadSnapshot_def toInt_def split: option.splits sum.splits if_splits) (simp_all add: int64_ok_def)
  moreover have "loadSnapshot draws limits restore d st = loadSnapshot draws limits restore d' st"
    by (simp add: loadSnapshot_def assms(1))
  ultimately show ?thesis
    by (auto simp: Recover_def split: option.split intro!: bind_option_cong)
qed

section \<open>Rotation and installation of a snapshot\<close>

definition store_wf :: "Store \<Rightarrow> bool" where
  "store_wf s \<longleftrightarrow> 0 \<le> st_gen s \<and> st_gen s < maxInt64 \<and> highestSegment (st_dir s) \<le> st_gen s \<and> seg s \<noteq> None"

lemma store_wf_gens: "store_wf s \<Longrightarrow> int64_ok (st_gen s) \<and> int64_ok (st_gen s + 1)"
  by (auto simp: store_wf_def int64_ok_def)

lemma segClose_same: "segClose s = (s', ok) \<Longrightarrow> st_dir s' = st_dir s \<and> st_gen s' = st_gen s"
  by (auto simp: segClose_def segCall_def sysCall_def split: if_splits)

lemma openSegment_effect:
  assumes "openSegment s gen = (s', ok)"
  shows "ok \<Longrightarrow> st_gen s' = gen" "segfile (st_dir s') g = segfile (st_dir s) g"
    "name \<noteq> segmentPath gen \<Longrightarrow> map_of (st_dir s') name = map_of (st_dir s) name"
    "map_of (st_dir s) name = Some c \<Longrightarrow> map_of (st_dir s') name = Some c"
  using assms by (auto simp: openSegment_def sysCall_def segfile_def split: if_splits option.splits)

text \<open>
  \<open>Rotate\<close> appends a prefix of the buffer to the active segment, all of it when it
  succeeds, and leaves everything else as it was.
\<close>

lemma Rotate_effect:
  assumes "seg s = Some c" "Store_Rotate s = (s', r)"
  obtains c' where "prefix c c'" "prefix c' (c @ st_buf s)" "r \<noteq> None \<Longrightarrow> c' = c @ st_buf s"
    "\<And>g. segmentPath g \<noteq> segmentPath (st_gen s) \<Longrightarrow> segfile (st_dir s') g = segfile (st_dir s) g"
    "segfile (st_dir s') (st_gen s) = c'"
    "map_of (st_dir s') snapshotName = map_of (st_dir s) snapshotName"
proof -
  let ?f = "bufFlush s"
  from wroteD[OF wrote_flush] have F: "st_gen ?f = st_gen s"
    "\<And>name. name \<noteq> segmentPath (st_gen s) \<Longrightarrow> map_of (st_dir ?f) name = map_of (st_dir s) name" by blast+
  from wroteD(6)[OF wrote_flush assms(1)] F(1) obtain c' where
    c': "map_of (st_dir ?f) (segmentPath (st_gen s)) = Some c'" "prefix c c'" "prefix c' (c @ st_buf s)"
      "st_err ?f \<or> c' @ st_buf ?f = c @ st_buf s" by auto
  have view: "segfile (st_dir s') g = segfile (st_dir ?f) g"
    "map_of (st_dir s') snapshotName = map_of (st_dir ?f) snapshotName" for g
    using assms(2) segClose_same openSegment_effect(2,3) segmentPath_names
    by (auto simp: Store_Rotate_def Let_def split: if_splits prod.splits)
  have "c' = c @ st_buf s" if "r \<noteq> None"
  proof -
    have "\<not> st_err ?f" using assms(2) that by (auto simp: Store_Rotate_def split: if_splits)
    with c'(4) bufFlush_empty show ?thesis by simp
  qed
  with that[OF c'(2,3)] view F c'(1) show thesis by (auto simp: segfile_def)
qed

lemma removeSegments_effect:
  assumes "name \<notin> segmentPath ` set gs"
  shows "map_of (st_dir (removeSegments s gs)) name = map_of (st_dir s) name"
  using assms by (induction gs arbitrary: s) (auto simp: sysCall_def)

text \<open>
  \<open>InstallSnapshot\<close> either leaves the snapshot and all segments alone and reports an error,
  or replaces the snapshot as a whole; then only segments it covers are gone.
\<close>

lemma Install_effect:
  assumes "InstallSnapshot s snap base = (s', ok)"
  shows "\<not> ok \<Longrightarrow> name \<noteq> snapshotTmp \<Longrightarrow> map_of (st_dir s') name = map_of (st_dir s) name"
    "ok \<Longrightarrow> map_of (st_dir s') snapshotName = Some snap"
    "ok \<Longrightarrow> g \<notin> {0..<base} \<Longrightarrow> int64_ok g \<Longrightarrow> int64_ok base \<Longrightarrow> segfile (st_dir s') g = segfile (st_dir s) g"
    "ok \<Longrightarrow> g \<notin> {0..<base} \<Longrightarrow> int64_ok g \<Longrightarrow> int64_ok base \<Longrightarrow>
       map_of (st_dir s') (segmentPath g) = map_of (st_dir s) (segmentPath g)"
proof -
  show "map_of (st_dir s') name = map_of (st_dir s) name" if "\<not> ok" "name \<noteq> snapshotTmp"
    using assms that by (auto simp: InstallSnapshot_def sysCall_def sysWrite_def fileAppend_def Let_def split: if_splits option.splits)
  let ?s5 = "s\<lparr>st_dir := AList.update snapshotName snap (AList.delete snapshotTmp (AList.update snapshotTmp snap (st_dir s))),
    st_calls := Suc (Suc (Suc (Suc (Suc (st_calls s)))))\<rparr>"
  have s': "s' = removeSegments ?s5 [0..base - 1]" if ok
    using assms that by (cases ok) (auto simp: InstallSnapshot_def sysCall_def sysWrite_def fileAppend_def Let_def split: if_splits)
  show "map_of (st_dir s') snapshotName = Some snap" if ok
  proof -
    have "snapshotName \<notin> segmentPath ` set [0..base - 1]" using segmentPath_names(1) by (metis imageE)
    from removeSegments_effect[OF this, of ?s5] s'[OF that] show ?thesis by simp
  qed
  show seg: "map_of (st_dir s') (segmentPath g) = map_of (st_dir s) (segmentPath g)" if ok "g \<notin> {0..<base}" "int64_ok g" "int64_ok base"
  proof -
    have "segmentPath g \<noteq> segmentPath h" if "h \<in> {0..base - 1}" for h
    proof -
      have "int64_ok h" "g \<noteq> h" using that \<open>g \<notin> {0..<base}\<close> \<open>int64_ok base\<close> by (auto simp: int64_ok_def)
      with segmentPath_inj \<open>int64_ok g\<close> show ?thesis by blast
    qed
    then have "segmentPath g \<notin> segmentPath ` set [0..base - 1]" by fastforce
    from removeSegments_effect[OF this, of ?s5] s'[OF that(1)] show ?thesis by simp
  qed
  then show "segfile (st_dir s') g = segfile (st_dir s) g" if ok "g \<notin> {0..<base}" "int64_ok g" "int64_ok base"
    using that by (simp add: segfile_def)
qed

end
