(* ===== verification/Config.thy ===== *)
theory Config
  imports Pack
begin

text \<open>
  Configuration: the boot configuration and its validation (\<open>internal/config/config.go\<close>),
  and the parameters \<open>CONFIG SET\<close> changes at run time (\<open>internal/config/settings.go\<close>).
  An error is the fixed part of its message. \<open>runtime.GOMAXPROCS\<close> is an argument.
\<close>

section \<open>Boot configuration (config.go)\<close>

record NetworkCfg =
  Host :: bytes
  Port :: int
  Databases :: int
  Shards :: int

record ExpiryCfg =
  Interval :: duration
  SamplePerShard :: int

record PersistenceCfg =
  PersistEnabled :: bool
  PersistDir :: bytes
  FSync :: bytes
  CompactEvery :: duration

record MetricsCfg =
  MetricsEnabled :: bool
  MetricsHost :: bytes
  MetricsPort :: int
  SlowThresholdCfg :: duration

record LogCfg =
  LogLevel :: int \<comment> \<open>\<open>slog.Level\<close>: debug is -4, info 0, warn 4, error 8\<close>
  LogFormat :: bytes

record Config =
  cfg_Network :: NetworkCfg
  cfg_Limits :: Limits
  cfg_Expiry :: ExpiryCfg
  cfg_Persistence :: PersistenceCfg
  cfg_Metrics :: MetricsCfg
  cfg_Log :: LogCfg

definition defaultShards :: "int \<Rightarrow> int" where
  "defaultShards gomaxprocs =
     (let n = gomaxprocs * 16;
          n1 = (if n > 1024 then 1024 else n)
      in if n1 < 1 then 1 else n1)"

definition Default :: "int \<Rightarrow> Config" where
  "Default gomaxprocs =
     (let compact = \<lparr>MaxEntries = 128, MaxBytes = 64\<rparr>
      in \<lparr>cfg_Network = \<lparr>Host = ''127.0.0.1'', Port = 6380, Databases = 16, Shards = defaultShards gomaxprocs\<rparr>,
          cfg_Limits = \<lparr>Lim_List = compact, Lim_Hash = compact, Lim_Set = compact, Lim_ZSet = compact\<rparr>,
          cfg_Expiry = \<lparr>Interval = 100 * 1000000, SamplePerShard = 20\<rparr>,
          cfg_Persistence = \<lparr>PersistEnabled = False, PersistDir = ''data'', FSync = ''everysec'',
            CompactEvery = 5 * 60 * 1000000000\<rparr>,
          cfg_Metrics = \<lparr>MetricsEnabled = False, MetricsHost = ''127.0.0.1'', MetricsPort = 9121,
            SlowThresholdCfg = 10 * 1000000\<rparr>,
          cfg_Log = \<lparr>LogLevel = 0, LogFormat = ''text''\<rparr>\<rparr>)"

definition bad_thresholds :: "Thresholds \<Rightarrow> bool" where
  "bad_thresholds th \<longleftrightarrow> MaxEntries th < 0 \<or> MaxBytes th < 0"

definition Validate :: "Config \<Rightarrow> bytes option" where
  "Validate c =
     (if Host (cfg_Network c) = [] then Some ''network host must not be empty''
      else if Port (cfg_Network c) < 1 \<or> Port (cfg_Network c) > 65535 then Some ''network port out of range''
      else if Databases (cfg_Network c) < 1 then Some ''databases must be at least 1''
      else if Shards (cfg_Network c) < 1 then Some ''shards must be at least 1''
      else if list_ex bad_thresholds
          [Lim_List (cfg_Limits c), Lim_Hash (cfg_Limits c), Lim_Set (cfg_Limits c), Lim_ZSet (cfg_Limits c)]
        then Some ''compact-encoding thresholds must not be negative''
      else if Interval (cfg_Expiry c) < 0 then Some ''expiry interval must not be negative''
      else if SamplePerShard (cfg_Expiry c) < 0 then Some ''expiry sample size must not be negative''
      else if PersistEnabled (cfg_Persistence c) \<and> PersistDir (cfg_Persistence c) = []
        then Some ''persistence directory must be set''
      else if PersistEnabled (cfg_Persistence c)
          \<and> FSync (cfg_Persistence c) \<notin> {''always'', ''everysec'', ''no''}
        then Some ''fsync policy must be always, everysec, or no''
      else if MetricsEnabled (cfg_Metrics c) \<and> (MetricsPort (cfg_Metrics c) < 1 \<or> MetricsPort (cfg_Metrics c) > 65535)
        then Some ''metrics port out of range''
      else if SlowThresholdCfg (cfg_Metrics c) < 0 then Some ''slow-command threshold must not be negative''
      else if LogFormat (cfg_Log c) \<notin> {''text'', ''json''} then Some ''log format must be text or json''
      else None)"

definition joinHostPort :: "bytes \<Rightarrow> bytes \<Rightarrow> bytes" where
  "joinHostPort host port =
     (if CHR '':'' \<in> set host \<or> CHR ''%'' \<in> set host then ''['' @ host @ '']:'' @ port
      else host @ '':'' @ port)"

definition Network_Addr :: "NetworkCfg \<Rightarrow> bytes" where
  "Network_Addr n = joinHostPort (Host n) (formatInt (Port n))"

definition Metrics_Addr :: "MetricsCfg \<Rightarrow> bytes" where
  "Metrics_Addr m = joinHostPort (MetricsHost m) (formatInt (MetricsPort m))"

section \<open>Reloadable settings (settings.go)\<close>

record Reloadable =
  SlowThreshold :: duration
  ExpirySample :: int
  SlowLogEnabled :: bool

definition paramSlowThreshold :: bytes where "paramSlowThreshold = ''slowlog-threshold-ms''"
definition paramExpirySample :: bytes where "paramExpirySample = ''expiry-sample-per-shard''"
definition paramSlowLog :: bytes where "paramSlowLog = ''slowlog-enabled''"

lemma params_distinct [simp]:
  "paramSlowThreshold \<noteq> paramExpirySample" "paramSlowThreshold \<noteq> paramSlowLog"
  "paramExpirySample \<noteq> paramSlowLog" "paramExpirySample \<noteq> paramSlowThreshold"
  "paramSlowLog \<noteq> paramSlowThreshold" "paramSlowLog \<noteq> paramExpirySample"
  by (simp_all add: paramSlowThreshold_def paramExpirySample_def paramSlowLog_def)

definition boolParam :: "bool \<Rightarrow> bytes" where
  "boolParam b = (if b then ''yes'' else ''no'')"

definition parseBoolParam :: "bytes \<Rightarrow> bool option" where
  "parseBoolParam s =
     (if s \<in> {''yes'', ''1'', ''true''} then Some True
      else if s \<in> {''no'', ''0'', ''false''} then Some False else None)"

definition Settings_Get :: "Reloadable \<Rightarrow> bytes \<Rightarrow> bytes option" where
  "Settings_Get r name =
     (if name = paramSlowThreshold then Some (formatInt (milliseconds (SlowThreshold r)))
      else if name = paramExpirySample then Some (formatInt (ExpirySample r))
      else if name = paramSlowLog then Some (boolParam (SlowLogEnabled r))
      else None)"

definition Settings_All :: "Reloadable \<Rightarrow> (bytes \<times> bytes) list" where
  "Settings_All r =
     [(paramSlowThreshold, formatInt (milliseconds (SlowThreshold r))),
      (paramExpirySample, formatInt (ExpirySample r)),
      (paramSlowLog, boolParam (SlowLogEnabled r))]"

datatype settingsErr = NotNonNegative bytes | NotYesNo bytes | UnknownParam bytes

text \<open>\<open>time.Duration(ms) * time.Millisecond\<close> is an \<open>int64\<close> product.\<close>

definition Settings_Set :: "Reloadable \<Rightarrow> bytes \<Rightarrow> bytes \<Rightarrow> settingsErr + Reloadable" where
  "Settings_Set r name val =
     (if name = paramSlowThreshold then
        (case parseInt val of
           None \<Rightarrow> Inl (NotNonNegative name)
         | Some ms \<Rightarrow> if ms < 0 then Inl (NotNonNegative name)
                      else Inr (r\<lparr>SlowThreshold := wrap64 (ms * 1000000)\<rparr>))
      else if name = paramExpirySample then
        (case parseInt val of
           None \<Rightarrow> Inl (NotNonNegative name)
         | Some n \<Rightarrow> if n < 0 then Inl (NotNonNegative name) else Inr (r\<lparr>ExpirySample := n\<rparr>))
      else if name = paramSlowLog then
        (case parseBoolParam val of
           None \<Rightarrow> Inl (NotYesNo name)
         | Some b \<Rightarrow> Inr (r\<lparr>SlowLogEnabled := b\<rparr>))
      else Inl (UnknownParam name))"

section \<open>Facts\<close>

lemma defaultShards_range: "1 \<le> defaultShards g \<and> defaultShards g \<le> 1024"
  by (simp add: defaultShards_def)

lemma Default_valid: "Validate (Default g) = None"
  using defaultShards_range[of g] by (simp add: Validate_def Default_def bad_thresholds_def)

text \<open>What the rest of the system may rely on after validation.\<close>

lemma Validate_sound:
  assumes "Validate c = None"
  shows "1 \<le> Port (cfg_Network c)" "Port (cfg_Network c) \<le> 65535" "1 \<le> Databases (cfg_Network c)"
    "1 \<le> Shards (cfg_Network c)" "\<not> bad_thresholds (Lim_List (cfg_Limits c))"
    "0 \<le> Interval (cfg_Expiry c)" "0 \<le> SamplePerShard (cfg_Expiry c)"
  using assms by (auto simp: Validate_def split: if_splits)

lemma sdiv_mult_cancel: "0 \<le> (ms::int) \<Longrightarrow> (ms * 1000000) sdiv 1000000 = ms"
  by (cases "ms = 0") (simp_all add: signed_divide_int_def sgn_mult)

text \<open>A value read back after it was set: for the threshold, as long as the product does not
  leave the \<open>int64\<close> range.\<close>

lemma Settings_roundtrip:
  "0 \<le> ms \<Longrightarrow> ms \<le> 9223372036854 \<Longrightarrow>
     \<exists>r'. Settings_Set r paramSlowThreshold (formatInt ms) = Inr r' \<and> Settings_Get r' paramSlowThreshold = Some (formatInt ms)"
  "0 \<le> n \<Longrightarrow> int64_ok n \<Longrightarrow>
     \<exists>r'. Settings_Set r paramExpirySample (formatInt n) = Inr r' \<and> Settings_Get r' paramExpirySample = Some (formatInt n)"
  by (auto simp: Settings_Set_def Settings_Get_def parseInt_formatInt int64_ok_def wrap64_id milliseconds_def sdiv_mult_cancel)

lemma Settings_Set_frame:
  assumes "Settings_Set r name val = Inr r'" "name' \<noteq> name"
  shows "Settings_Get r' name' = Settings_Get r name'"
  using assms by (auto simp: Settings_Set_def Settings_Get_def split: if_splits option.splits)

lemma Settings_Set_error:
  "(\<exists>e. Settings_Set r name val = Inl e) \<longleftrightarrow>
     (name \<in> {paramSlowThreshold, paramExpirySample} \<and> (parseInt val = None \<or> (\<exists>n < 0. parseInt val = Some n)))
     \<or> (name = paramSlowLog \<and> parseBoolParam val = None)
     \<or> name \<notin> {paramSlowThreshold, paramExpirySample, paramSlowLog}"
  by (auto simp: Settings_Set_def split: option.splits)

end
