(* ===== verification/Command.thy ===== *)
theory Command
  imports Shard Resp Config
begin

text \<open>
  The command set of \<open>internal/command\<close>. A handler takes the session and the request and
  returns the session and a reply; \<open>None\<close> is a panic (or a loop that does not end). The
  session carries the databases, which connections share; the clock is read once per
  command. What the handlers take from the Go runtime and from the tables of \<open>strconv\<close>,
  \<open>strings\<close> and \<open>fmt\<close> is collected in the record \<open>runtime\<close> and is arbitrary.
\<close>

section \<open>Sessions (command.go)\<close>

record runtime =
  rt_hash :: keyhash
  rt_pick :: "bytes list \<Rightarrow> bytes list" \<comment> \<open>order of a \<open>range\<close> over a map\<close>
  rt_draws :: "nat \<Rightarrow> bool" \<comment> \<open>random levels of a new sorted set\<close>
  rt_parseFloat :: "bytes \<Rightarrow> float64 option" \<comment> \<open>\<open>strconv.ParseFloat\<close>\<close>
  rt_formatFloat :: "float64 \<Rightarrow> bytes" \<comment> \<open>\<open>strconv.FormatFloat(f, 'g', -1, 64)\<close>\<close>
  rt_toUpper :: "bytes \<Rightarrow> bytes"
  rt_toLower :: "bytes \<Rightarrow> bytes"
  rt_equalFold :: "bytes \<Rightarrow> bytes \<Rightarrow> bool"
  rt_quote :: "bytes \<Rightarrow> bytes" \<comment> \<open>the \<open>%q\<close> verb\<close>

record Context =
  ctx_databases :: "DB list"
  ctx_index :: nat
  ctx_Limits :: Limits
  ctx_Settings :: "Reloadable option"
  ctx_now :: gotime

definition NewContext :: "gotime \<Rightarrow> DB list \<Rightarrow> Limits \<Rightarrow> Reloadable option \<Rightarrow> Context" where
  "NewContext now databases limits settings =
     \<lparr>ctx_databases = databases, ctx_index = 0, ctx_Limits = limits, ctx_Settings = settings, ctx_now = now\<rparr>"

definition Context_DB :: "Context \<Rightarrow> nat" where
  "Context_DB c = ctx_index c"

definition ctx_Keyspace :: "Context \<Rightarrow> DB" where
  "ctx_Keyspace c = ctx_databases c ! ctx_index c"

text \<open>The session after the selected database became \<open>db\<close>.\<close>

definition with_db :: "Context \<Rightarrow> DB \<Rightarrow> Context" where
  "with_db c db = c\<lparr>ctx_databases := (ctx_databases c)[ctx_index c := db]\<rparr>"

definition Context_Select :: "Context \<Rightarrow> int \<Rightarrow> Context option" where
  "Context_Select c index =
     (if index < 0 \<or> index \<ge> int (length (ctx_databases c)) then None
      else Some (c\<lparr>ctx_index := nat index\<rparr>))"

type_synonym handler = "runtime \<Rightarrow> Context \<Rightarrow> bytes list \<Rightarrow> (Context \<times> Reply) option"

record Command =
  cmd_name :: bytes
  cmd_arity :: int
  cmd_run :: handler
  cmd_readOnly :: bool
  cmd_wholeDB :: bool
  cmd_firstKey :: int
  cmd_lastKey :: int
  cmd_keyStep :: int

definition SingleKey :: "Command \<Rightarrow> bool" where
  "SingleKey c \<longleftrightarrow> cmd_firstKey c = 1 \<and> cmd_lastKey c = 1 \<and> cmd_keyStep c = 1 \<and> \<not> cmd_wholeDB c"

definition Keys :: "Command \<Rightarrow> bytes list \<Rightarrow> bytes list" where
  "Keys c args =
     (if cmd_firstKey c = 0 \<or> cmd_wholeDB c then []
      else
        let last1 = (if cmd_lastKey c < 0 then int (length args) + cmd_lastKey c else cmd_lastKey c);
            last2 = (if last1 \<ge> int (length args) then int (length args) - 1 else last1)
        in if cmd_firstKey c > last2 then []
           else map (\<lambda>i. args ! nat i)
             (filter (\<lambda>i. (i - cmd_firstKey c) mod cmd_keyStep c = 0) [cmd_firstKey c..last2]))"

definition accepts :: "Command \<Rightarrow> int \<Rightarrow> bool" where
  "accepts c n = (if cmd_arity c \<ge> 0 then n = cmd_arity c else n \<ge> - cmd_arity c)"

definition msgWrongType :: bytes where
  "msgWrongType = ''WRONGTYPE Operation against a key holding the wrong kind of value''"

definition msgNotInteger :: bytes where
  "msgNotInteger = ''ERR value is not an integer or out of range''"

definition plain :: "bytes \<Rightarrow> int \<Rightarrow> handler \<Rightarrow> Command" where
  "plain name arity run =
     \<lparr>cmd_name = name, cmd_arity = arity, cmd_run = run, cmd_readOnly = False, cmd_wholeDB = False,
      cmd_firstKey = 0, cmd_lastKey = 0, cmd_keyStep = 0\<rparr>"

definition readKey :: "bytes \<Rightarrow> int \<Rightarrow> handler \<Rightarrow> Command" where
  "readKey name arity run =
     \<lparr>cmd_name = name, cmd_arity = arity, cmd_run = run, cmd_readOnly = True, cmd_wholeDB = False,
      cmd_firstKey = 1, cmd_lastKey = 1, cmd_keyStep = 1\<rparr>"

definition writeKey :: "bytes \<Rightarrow> int \<Rightarrow> handler \<Rightarrow> Command" where
  "writeKey name arity run =
     \<lparr>cmd_name = name, cmd_arity = arity, cmd_run = run, cmd_readOnly = False, cmd_wholeDB = False,
      cmd_firstKey = 1, cmd_lastKey = 1, cmd_keyStep = 1\<rparr>"

definition readKeys :: "bytes \<Rightarrow> int \<Rightarrow> handler \<Rightarrow> Command" where
  "readKeys name arity run =
     \<lparr>cmd_name = name, cmd_arity = arity, cmd_run = run, cmd_readOnly = True, cmd_wholeDB = False,
      cmd_firstKey = 1, cmd_lastKey = -1, cmd_keyStep = 1\<rparr>"

definition writeKeys :: "bytes \<Rightarrow> int \<Rightarrow> handler \<Rightarrow> Command" where
  "writeKeys name arity run =
     \<lparr>cmd_name = name, cmd_arity = arity, cmd_run = run, cmd_readOnly = False, cmd_wholeDB = False,
      cmd_firstKey = 1, cmd_lastKey = -1, cmd_keyStep = 1\<rparr>"

definition wholeDB :: "bytes \<Rightarrow> int \<Rightarrow> handler \<Rightarrow> Command" where
  "wholeDB name arity run =
     \<lparr>cmd_name = name, cmd_arity = arity, cmd_run = run, cmd_readOnly = False, cmd_wholeDB = True,
      cmd_firstKey = 0, cmd_lastKey = 0, cmd_keyStep = 0\<rparr>"

text \<open>\<open>args[i]\<close>, a panic out of range.\<close>

definition arg :: "bytes list \<Rightarrow> nat \<Rightarrow> bytes option" where
  "arg args i = (if i < length args then Some (args ! i) else None)"

definition lookupEntry :: "runtime \<Rightarrow> Context \<Rightarrow> bytes \<Rightarrow> Entry option" where
  "lookupEntry rt c key = DB_Lookup (rt_hash rt) (ctx_Keyspace c) (ctx_now c) key"

definition storeValue :: "runtime \<Rightarrow> Context \<Rightarrow> bytes \<Rightarrow> Value \<Rightarrow> Context" where
  "storeValue rt c key v = with_db c (DB_Set (rt_hash rt) (ctx_Keyspace c) key v)"

definition pokeValue :: "runtime \<Rightarrow> Context \<Rightarrow> bytes \<Rightarrow> Value \<Rightarrow> Context" where
  "pokeValue rt c key v = with_db c (DB_poke (rt_hash rt) (ctx_Keyspace c) key v)"

definition deleteKey :: "runtime \<Rightarrow> Context \<Rightarrow> bytes \<Rightarrow> Context" where
  "deleteKey rt c key = with_db c (fst (DB_Delete (rt_hash rt) (ctx_Keyspace c) (ctx_now c) key))"

section \<open>Strings (strings.go)\<close>

definition cmdGet :: handler where
  "cmdGet rt c args = do {
     k \<leftarrow> arg args 1;
     (case DB_GetBytes (rt_hash rt) (ctx_Keyspace c) (ctx_now c) k of
        None \<Rightarrow> Some (c, RNil)
      | Some v \<Rightarrow>
          if Value_Kind v \<noteq> KindString then Some (c, RError msgWrongType)
          else map_option (\<lambda>s. (c, RBulk s)) (Value_Str v)) }"

definition cmdSet :: handler where
  "cmdSet rt c args = do {
     k \<leftarrow> arg args 1;
     v \<leftarrow> arg args 2;
     Some (storeValue rt c k (MakeString v), Reply_OK) }"

definition msgOverflow :: bytes where
  "msgOverflow = ''ERR increment or decrement would overflow''"

definition incrBy :: "runtime \<Rightarrow> Context \<Rightarrow> bytes \<Rightarrow> int \<Rightarrow> (Context \<times> Reply) option" where
  "incrBy rt c key delta =
     (let e = lookupEntry rt c key;
          cur = (case e of
             None \<Rightarrow> Some (Inr 0)
           | Some e' \<Rightarrow>
               if Value_Kind (Entry_Value e') \<noteq> KindString then Some (Inl (RError msgWrongType))
               else (case Value_Str (Entry_Value e') of
                   None \<Rightarrow> None
                 | Some s \<Rightarrow>
                     (case parseInt s of
                        None \<Rightarrow> Some (Inl (RError msgNotInteger))
                      | Some n \<Rightarrow> Some (Inr n))))
      in case cur of
           None \<Rightarrow> None
         | Some (Inl r) \<Rightarrow> Some (c, r)
         | Some (Inr n) \<Rightarrow>
             if (delta > 0 \<and> n > maxInt64 - delta) \<or> (delta < 0 \<and> n < minInt64 - delta)
             then Some (c, RError msgOverflow)
             else
               let n1 = wrap64 (n + delta);
                   next_value = MakeString (formatInt n1)
               in Some (case e of
                    Some e' \<Rightarrow>
                      with_db c (DB_SetEntry (rt_hash rt) (ctx_Keyspace c) key (e'\<lparr>Entry_Value := next_value\<rparr>))
                  | None \<Rightarrow> storeValue rt c key next_value, RInt n1))"

definition cmdIncr :: handler where
  "cmdIncr rt c args = Option.bind (arg args 1) (\<lambda>k. incrBy rt c k 1)"

definition cmdDecr :: handler where
  "cmdDecr rt c args = Option.bind (arg args 1) (\<lambda>k. incrBy rt c k (-1))"

section \<open>Keys (keys.go)\<close>

definition cmdDel :: handler where
  "cmdDel rt c args = do {
     k \<leftarrow> arg args 0;
     (db, n) \<leftarrow> foldCount (\<lambda>db key. Some (DB_Delete (rt_hash rt) db (ctx_now c) key)) (ctx_Keyspace c, 0) (drop 1 args);
     Some (with_db c db, RInt n) }"

definition cmdUnlink :: handler where
  "cmdUnlink rt c args = do {
     k \<leftarrow> arg args 0;
     (db, n) \<leftarrow> foldCount (\<lambda>db key. Some (DB_Unlink (rt_hash rt) db (ctx_now c) key)) (ctx_Keyspace c, 0) (drop 1 args);
     Some (with_db c db, RInt n) }"

definition cmdExists :: handler where
  "cmdExists rt c args = do {
     k \<leftarrow> arg args 0;
     (db, n) \<leftarrow> foldCount (\<lambda>db key. Some (db, DB_ExistsBytes (rt_hash rt) db (ctx_now c) key)) (ctx_Keyspace c, 0) (drop 1 args);
     Some (c, RInt n) }"

definition setExpire :: "runtime \<Rightarrow> Context \<Rightarrow> bytes \<Rightarrow> gotime \<Rightarrow> Context \<times> Reply" where
  "setExpire rt c key at =
     (case DB_SetExpire (rt_hash rt) (ctx_Keyspace c) (ctx_now c) key at of
        (db, ok) \<Rightarrow> (with_db c db, RInt (if ok then 1 else 0)))"

definition cmdExpire :: handler where
  "cmdExpire rt c args = do {
     a \<leftarrow> arg args 2;
     k \<leftarrow> arg args 1;
     (case parseInt a of
        None \<Rightarrow> Some (c, RError msgNotInteger)
      | Some secs \<Rightarrow> Some (setExpire rt c k (addTime (ctx_now c) (secondsDuration secs)))) }"

definition cmdPExpireAt :: handler where
  "cmdPExpireAt rt c args = do {
     a \<leftarrow> arg args 2;
     k \<leftarrow> arg args 1;
     (case parseInt a of
        None \<Rightarrow> Some (c, RError msgNotInteger)
      | Some ms \<Rightarrow> Some (setExpire rt c k (unixMilli ms))) }"

definition cmdTTL :: handler where
  "cmdTTL rt c args = do {
     k \<leftarrow> arg args 1;
     Some (c, case lookupEntry rt c k of
         None \<Rightarrow> RInt (-2)
       | Some e \<Rightarrow>
           if \<not> HasExpiry e then RInt (-1)
           else
             let ms = milliseconds (subTime (ExpireAt e) (ctx_now c));
                 ms1 = (if ms < 0 then 0 else ms)
             in RInt ((ms1 + 500) sdiv 1000)) }"

definition cmdPersist :: handler where
  "cmdPersist rt c args = do {
     k \<leftarrow> arg args 1;
     (case DB_Persist (rt_hash rt) (ctx_Keyspace c) (ctx_now c) k of
        (db, ok) \<Rightarrow> Some (with_db c db, RInt (if ok then 1 else 0))) }"

definition cmdType :: handler where
  "cmdType rt c args = do {
     k \<leftarrow> arg args 1;
     Some (c, case lookupEntry rt c k of
         None \<Rightarrow> RSimple ''none''
       | Some e \<Rightarrow> RSimple (Kind_String (Value_Kind (Entry_Value e)))) }"

end
