(* ===== verification/CollCommands.thy ===== *)
theory CollCommands
  imports Command
begin

text \<open>
  The collection commands: \<open>lists.go\<close>, \<open>hashes.go\<close>, \<open>sets.go\<close> and \<open>zsets.go\<close> of
  \<open>internal/command\<close>. A handler mutates the stored collection through its pointer
  (\<open>pokeValue\<close>) or stores a new one, and drops the key when the collection is empty.
\<close>

section \<open>Lists (lists.go)\<close>

definition pushAll :: "bool \<Rightarrow> mcList \<Rightarrow> bytes list \<Rightarrow> mcList option" where
  "pushAll front = foldM (\<lambda>l v. if front then List_PushFront l v else List_PushBack l v)"

definition listPush :: "runtime \<Rightarrow> Context \<Rightarrow> bytes list \<Rightarrow> bool \<Rightarrow> (Context \<times> Reply) option" where
  "listPush rt c args front = do {
     key \<leftarrow> arg args 1;
     (case lookupEntry rt c key of
        Some e \<Rightarrow>
          if Value_Kind (Entry_Value e) \<noteq> KindList then Some (c, RError msgWrongType)
          else do {
            l \<leftarrow> Value_List (Entry_Value e);
            l' \<leftarrow> pushAll front l (drop 2 args);
            Some (pokeValue rt c key (MakeList l'), RInt (List_Len l')) }
      | None \<Rightarrow> do {
          l' \<leftarrow> pushAll front (NewList (Lim_List (ctx_Limits c))) (drop 2 args);
          Some (storeValue rt c key (MakeList l'), RInt (List_Len l')) }) }"

definition cmdLPush :: handler where
  "cmdLPush rt c args = listPush rt c args True"

definition cmdRPush :: handler where
  "cmdRPush rt c args = listPush rt c args False"

text \<open>
  \<open>make([]resp.Reply, 0, count)\<close>: a \<open>Reply\<close> takes 80 bytes, and a request beyond the
  address space of the runtime (2 to the 48 bytes) panics. A smaller one the machine cannot
  serve ends the process and is not modelled.
\<close>

definition makeReplies :: "int \<Rightarrow> unit option" where
  "makeReplies n = (if n * 80 > 281474976710656 then None else Some ())"

fun pop_loop :: "(mcList \<Rightarrow> (mcList \<times> bytes option) option) \<Rightarrow> nat \<Rightarrow> mcList \<Rightarrow> (mcList \<times> bytes list) option" where
  "pop_loop pop 0 l = Some (l, [])"
| "pop_loop pop (Suc n) l = do {
     (l1, v) \<leftarrow> pop l;
     (case v of
        None \<Rightarrow> Some (l1, [])
      | Some b \<Rightarrow> do {
          (l2, bs) \<leftarrow> pop_loop pop n l1;
          Some (l2, b # bs) }) }"

definition dropIfEmpty :: "runtime \<Rightarrow> Context \<Rightarrow> bytes \<Rightarrow> Value \<Rightarrow> int \<Rightarrow> Context" where
  "dropIfEmpty rt c key v len =
     (let c1 = pokeValue rt c key v in if len = 0 then deleteKey rt c1 key else c1)"

text \<open>The argument check of \<open>listPop\<close>: the count, or the error reply.\<close>

definition popCount :: "bytes list \<Rightarrow> (Reply + int) option" where
  "popCount args =
     (if length args > 3 then
        Option.bind (arg args 0) (\<lambda>name. Some (Inl (RError (''ERR wrong number of arguments for '' @ [CHR 0x27] @ name @ [CHR 0x27] @ '' command''))))
      else if length args = 3 then
        (case parseInt (args ! 2) of
           None \<Rightarrow> Some (Inl (RError msgNotInteger))
         | Some n \<Rightarrow> if n < 0 then Some (Inl (RError ''ERR value is out of range, must be positive'')) else Some (Inr n))
      else Some (Inr 1))"

definition listPop :: "runtime \<Rightarrow> Context \<Rightarrow> bytes list \<Rightarrow> bool \<Rightarrow> (Context \<times> Reply) option" where
  "listPop rt c args front = do {
     r \<leftarrow> popCount args;
     (case r of
        Inl err \<Rightarrow> Some (c, err)
      | Inr cnt \<Rightarrow> do {
          key \<leftarrow> arg args 1;
          (case lookupEntry rt c key of
             None \<Rightarrow> Some (c, RNil)
           | Some e \<Rightarrow>
               if Value_Kind (Entry_Value e) \<noteq> KindList then Some (c, RError msgWrongType)
               else do {
                 l \<leftarrow> Value_List (Entry_Value e);
                 let pop = (if front then List_PopFront else List_PopBack);
                 (if length args \<noteq> 3 then do {
                    (l', v) \<leftarrow> pop l;
                    Some (dropIfEmpty rt c key (MakeList l') (List_Len l'),
                      RBulk (case v of None \<Rightarrow> [] | Some b \<Rightarrow> b)) }
                  else do {
                    u \<leftarrow> makeReplies cnt;
                    (l', bs) \<leftarrow> pop_loop pop (nat cnt) l;
                    Some (dropIfEmpty rt c key (MakeList l') (List_Len l'), RArray (map RBulk bs)) }) }) }) }"

definition cmdLPop :: handler where
  "cmdLPop rt c args = listPop rt c args True"

definition cmdRPop :: handler where
  "cmdRPop rt c args = listPop rt c args False"

definition cmdLRange :: handler where
  "cmdLRange rt c args = do {
     a \<leftarrow> arg args 2;
     b \<leftarrow> arg args 3;
     key \<leftarrow> arg args 1;
     (case (parseInt a, parseInt b) of
        (Some start, Some stop) \<Rightarrow>
          (case lookupEntry rt c key of
             None \<Rightarrow> Some (c, RArray [])
           | Some e \<Rightarrow>
               if Value_Kind (Entry_Value e) \<noteq> KindList then Some (c, RError msgWrongType)
               else do {
                 l \<leftarrow> Value_List (Entry_Value e);
                 elems \<leftarrow> List_Range l start stop;
                 Some (c, RArray (map RBulk elems)) })
      | _ \<Rightarrow> Some (c, RError msgNotInteger)) }"

definition cmdLLen :: handler where
  "cmdLLen rt c args = do {
     key \<leftarrow> arg args 1;
     (case lookupEntry rt c key of
        None \<Rightarrow> Some (c, RInt 0)
      | Some e \<Rightarrow>
          if Value_Kind (Entry_Value e) \<noteq> KindList then Some (c, RError msgWrongType)
          else do {
            l \<leftarrow> Value_List (Entry_Value e);
            Some (c, RInt (List_Len l)) }) }"

section \<open>Hashes (hashes.go)\<close>

text \<open>The pairs a loop \<open>for i := 2; i+1 < len(args); i += 2\<close> visits.\<close>

fun pairs_of :: "bytes list \<Rightarrow> (bytes \<times> bytes) list" where
  "pairs_of (a # b # xs) = (a, b) # pairs_of xs"
| "pairs_of xs = []"

definition hsetAll :: "mcHash \<Rightarrow> bytes list \<Rightarrow> (mcHash \<times> int) option" where
  "hsetAll h args = foldCount (\<lambda>h (f, v). Hash_Set h f v) (h, 0) (pairs_of (drop 2 args))"

definition cmdHSet :: handler where
  "cmdHSet rt c args =
     (if length args mod 2 \<noteq> 0
      then Some (c, RError (''ERR wrong number of arguments for '' @ [CHR 0x27] @ ''hset'' @ [CHR 0x27] @ '' command''))
      else do {
        key \<leftarrow> arg args 1;
        (case lookupEntry rt c key of
           Some e \<Rightarrow>
             if Value_Kind (Entry_Value e) \<noteq> KindHash then Some (c, RError msgWrongType)
             else do {
               h \<leftarrow> Value_Hash (Entry_Value e);
               (h', added) \<leftarrow> hsetAll h args;
               Some (pokeValue rt c key (MakeHash h'), RInt added) }
         | None \<Rightarrow> do {
             (h', added) \<leftarrow> hsetAll (NewHash (Lim_Hash (ctx_Limits c))) args;
             Some (storeValue rt c key (MakeHash h'), RInt added) }) })"

definition cmdHGet :: handler where
  "cmdHGet rt c args = do {
     key \<leftarrow> arg args 1;
     (case lookupEntry rt c key of
        None \<Rightarrow> Some (c, RNil)
      | Some e \<Rightarrow>
          if Value_Kind (Entry_Value e) \<noteq> KindHash then Some (c, RError msgWrongType)
          else do {
            h \<leftarrow> Value_Hash (Entry_Value e);
            f \<leftarrow> arg args 2;
            v \<leftarrow> Hash_Get h f;
            Some (c, case v of None \<Rightarrow> RNil | Some b \<Rightarrow> RBulk b) }) }"

definition cmdHDel :: handler where
  "cmdHDel rt c args = do {
     key \<leftarrow> arg args 1;
     (case lookupEntry rt c key of
        None \<Rightarrow> Some (c, RInt 0)
      | Some e \<Rightarrow>
          if Value_Kind (Entry_Value e) \<noteq> KindHash then Some (c, RError msgWrongType)
          else do {
            h \<leftarrow> Value_Hash (Entry_Value e);
            (h', removed) \<leftarrow> foldCount Hash_Delete (h, 0) (drop 2 args);
            Some (dropIfEmpty rt c key (MakeHash h') (Hash_Len h'), RInt removed) }) }"

definition cmdHGetAll :: handler where
  "cmdHGetAll rt c args = do {
     key \<leftarrow> arg args 1;
     (case lookupEntry rt c key of
        None \<Rightarrow> Some (c, RArray [])
      | Some e \<Rightarrow>
          if Value_Kind (Entry_Value e) \<noteq> KindHash then Some (c, RError msgWrongType)
          else do {
            h \<leftarrow> Value_Hash (Entry_Value e);
            ps \<leftarrow> Hash_Pairs (rt_pick rt) h;
            Some (c, RArray (map RBulk ps)) }) }"

section \<open>Sets (sets.go)\<close>

definition cmdSAdd :: handler where
  "cmdSAdd rt c args = do {
     key \<leftarrow> arg args 1;
     (case lookupEntry rt c key of
        Some e \<Rightarrow>
          if Value_Kind (Entry_Value e) \<noteq> KindSet then Some (c, RError msgWrongType)
          else do {
            s \<leftarrow> Value_Set (Entry_Value e);
            (s', added) \<leftarrow> foldCount Set_Add (s, 0) (drop 2 args);
            Some (pokeValue rt c key (MakeSet s'), RInt added) }
      | None \<Rightarrow> do {
          (s', added) \<leftarrow> foldCount Set_Add (NewSet (Lim_Set (ctx_Limits c)), 0) (drop 2 args);
          Some (storeValue rt c key (MakeSet s'), RInt added) }) }"

definition cmdSRem :: handler where
  "cmdSRem rt c args = do {
     key \<leftarrow> arg args 1;
     (case lookupEntry rt c key of
        None \<Rightarrow> Some (c, RInt 0)
      | Some e \<Rightarrow>
          if Value_Kind (Entry_Value e) \<noteq> KindSet then Some (c, RError msgWrongType)
          else do {
            s \<leftarrow> Value_Set (Entry_Value e);
            (s', removed) \<leftarrow> foldCount Set_Remove (s, 0) (drop 2 args);
            Some (dropIfEmpty rt c key (MakeSet s') (Set_Len s'), RInt removed) }) }"

definition cmdSMembers :: handler where
  "cmdSMembers rt c args = do {
     key \<leftarrow> arg args 1;
     (case lookupEntry rt c key of
        None \<Rightarrow> Some (c, RArray [])
      | Some e \<Rightarrow>
          if Value_Kind (Entry_Value e) \<noteq> KindSet then Some (c, RError msgWrongType)
          else do {
            s \<leftarrow> Value_Set (Entry_Value e);
            ms \<leftarrow> Set_Members (rt_pick rt) s;
            Some (c, RArray (map RBulk ms)) }) }"

text \<open>The loop of \<open>cmdSInter\<close> that collects the sets: an early reply, or all of them.\<close>

fun sinter_sets :: "runtime \<Rightarrow> Context \<Rightarrow> bytes list \<Rightarrow> mcSet list \<Rightarrow> (Reply + mcSet list) option" where
  "sinter_sets rt c [] sets = Some (Inr sets)"
| "sinter_sets rt c (raw # raws) sets =
     (case lookupEntry rt c raw of
        None \<Rightarrow> Some (Inl (RArray []))
      | Some e \<Rightarrow>
          if Value_Kind (Entry_Value e) \<noteq> KindSet then Some (Inl (RError msgWrongType))
          else Option.bind (Value_Set (Entry_Value e)) (\<lambda>s. sinter_sets rt c raws (sets @ [s])))"

fun smallest_from :: "mcSet list \<Rightarrow> nat \<Rightarrow> nat list \<Rightarrow> nat" where
  "smallest_from sets best [] = best"
| "smallest_from sets best (i # is) =
     smallest_from sets (if Set_Len (sets ! i) < Set_Len (sets ! best) then i else best) is"

text \<open>Whether every set but the \<open>skip\<close>-th contains \<open>m\<close>, stopping at the first that does not.\<close>

fun in_all :: "nat \<Rightarrow> bytes \<Rightarrow> nat \<Rightarrow> mcSet list \<Rightarrow> bool option" where
  "in_all skip m i [] = Some True"
| "in_all skip m i (s # ss) =
     (if i = skip then in_all skip m (Suc i) ss
      else Option.bind (Set_Contains s m) (\<lambda>b. if \<not> b then Some False else in_all skip m (Suc i) ss))"

fun sinter_members :: "nat \<Rightarrow> mcSet list \<Rightarrow> bytes list \<Rightarrow> bytes list option" where
  "sinter_members skip sets [] = Some []"
| "sinter_members skip sets (m # ms) = do {
     b \<leftarrow> in_all skip m 0 sets;
     out \<leftarrow> sinter_members skip sets ms;
     Some (if b then m # out else out) }"

definition cmdSInter :: handler where
  "cmdSInter rt c args = do {
     k \<leftarrow> arg args 0;
     r \<leftarrow> sinter_sets rt c (drop 1 args) [];
     (case r of
        Inl reply \<Rightarrow> Some (c, reply)
      | Inr sets \<Rightarrow>
          if sets = [] then None
          else do {
            let smallest = smallest_from sets 0 [0..<length sets];
            ms \<leftarrow> Set_Members (rt_pick rt) (sets ! smallest);
            out \<leftarrow> sinter_members smallest sets ms;
            Some (c, RArray (map RBulk out)) }) }"

section \<open>Sorted sets (zsets.go)\<close>

definition isInf :: "float64 \<Rightarrow> bool \<Rightarrow> bool" where
  "isInf f negative \<longleftrightarrow> f64_mag f = f64_inf_mag \<and> f64_neg f = negative"

definition formatScore :: "runtime \<Rightarrow> float64 \<Rightarrow> bytes" where
  "formatScore rt f =
     (if isInf f False then ''inf'' else if isInf f True then ''-inf'' else rt_formatFloat rt f)"

fun parseScores :: "runtime \<Rightarrow> (bytes \<times> bytes) list \<Rightarrow> (bytes \<times> float64) list option" where
  "parseScores rt [] = Some []"
| "parseScores rt ((a, m) # ps) =
     (case rt_parseFloat rt a of
        None \<Rightarrow> None
      | Some score \<Rightarrow>
          if f64_isNaN score then None
          else map_option (\<lambda>qs. (m, score) # qs) (parseScores rt ps))"

definition zaddAll :: "mcZSet \<Rightarrow> (bytes \<times> float64) list \<Rightarrow> (mcZSet \<times> int) option" where
  "zaddAll z ps = foldCount (\<lambda>z (m, s). ZSet_Add z m s) (z, 0) ps"

definition cmdZAdd :: handler where
  "cmdZAdd rt c args =
     (if length args mod 2 \<noteq> 0
      then Some (c, RError (''ERR wrong number of arguments for '' @ [CHR 0x27] @ ''zadd'' @ [CHR 0x27] @ '' command''))
      else (case parseScores rt (pairs_of (drop 2 args)) of
          None \<Rightarrow> Some (c, RError ''ERR value is not a valid float'')
        | Some ps \<Rightarrow> do {
            key \<leftarrow> arg args 1;
            (case lookupEntry rt c key of
               Some e \<Rightarrow>
                 if Value_Kind (Entry_Value e) \<noteq> KindZSet then Some (c, RError msgWrongType)
                 else do {
                   z \<leftarrow> Value_ZSet (Entry_Value e);
                   (z', added) \<leftarrow> zaddAll z ps;
                   Some (pokeValue rt c key (MakeZSet z'), RInt added) }
             | None \<Rightarrow> do {
                 (z', added) \<leftarrow> zaddAll (NewZSet (rt_draws rt) (Lim_ZSet (ctx_Limits c))) ps;
                 Some (storeValue rt c key (MakeZSet z'), RInt added) }) }))"

definition cmdZRange :: handler where
  "cmdZRange rt c args =
     (if length args = 4 \<or> length args = 5 \<and> rt_equalFold rt (args ! 4) ''WITHSCORES'' then do {
        let withScores = (length args \<noteq> 4);
        a \<leftarrow> arg args 2;
        b \<leftarrow> arg args 3;
        key \<leftarrow> arg args 1;
        (case (parseInt a, parseInt b) of
           (Some start, Some stop) \<Rightarrow>
             (case lookupEntry rt c key of
                None \<Rightarrow> Some (c, RArray [])
              | Some e \<Rightarrow>
                  if Value_Kind (Entry_Value e) \<noteq> KindZSet then Some (c, RError msgWrongType)
                  else do {
                    z \<leftarrow> Value_ZSet (Entry_Value e);
                    ms \<leftarrow> ZSet_Range z start stop;
                    Some (c, RArray (if \<not> withScores then map (\<lambda>(m, s). RBulk m) ms
                      else concat (map (\<lambda>(m, s). [RBulk m, RBulk (formatScore rt s)]) ms))) })
         | _ \<Rightarrow> Some (c, RError msgNotInteger)) }
      else Some (c, RError ''ERR syntax error''))"

definition cmdZScore :: handler where
  "cmdZScore rt c args = do {
     key \<leftarrow> arg args 1;
     (case lookupEntry rt c key of
        None \<Rightarrow> Some (c, RNil)
      | Some e \<Rightarrow>
          if Value_Kind (Entry_Value e) \<noteq> KindZSet then Some (c, RError msgWrongType)
          else do {
            z \<leftarrow> Value_ZSet (Entry_Value e);
            m \<leftarrow> arg args 2;
            s \<leftarrow> ZSet_Score z m;
            Some (c, case s of None \<Rightarrow> RNil | Some sc \<Rightarrow> RBulk (formatScore rt sc)) }) }"

end
