(* ===== verification/Registry.thy ===== *)
theory Registry
  imports CollCommands
begin

text \<open>
  The server commands (\<open>server.go\<close>) and the command table (\<open>registry.go\<close>) of
  \<open>internal/command\<close>, with the seven groups of commands that fill it.
\<close>

section \<open>Server commands (server.go)\<close>

definition cmdSelect :: handler where
  "cmdSelect rt c args = do {
     a \<leftarrow> arg args 1;
     (case parseInt a of
        None \<Rightarrow> Some (c, RError ''ERR value is not an integer or out of range'')
      | Some idx \<Rightarrow>
          (case Context_Select c idx of
             None \<Rightarrow> Some (c, RError ''ERR DB index is out of range'')
           | Some c' \<Rightarrow> Some (c', Reply_OK))) }"

abbreviation quoted :: "bytes \<Rightarrow> bytes" where
  "quoted s \<equiv> [CHR 0x27] @ s @ [CHR 0x27]"

definition msgArgs :: "bytes \<Rightarrow> bytes" where
  "msgArgs name = ''ERR wrong number of arguments for '' @ quoted name @ '' command''"

definition cmdPing :: handler where
  "cmdPing rt c args =
     (if length args = 1 then Some (c, RSimple ''PONG'')
      else if length args = 2 then Some (c, RBulk (args ! 1))
      else Some (c, RError (msgArgs ''ping'')))"

definition cmdFlushDB :: handler where
  "cmdFlushDB rt c args = Some (with_db c (DB_Flush (ctx_Keyspace c)), Reply_OK)"

definition configGet :: "runtime \<Rightarrow> Reloadable \<Rightarrow> bytes \<Rightarrow> Reply" where
  "configGet rt settings pattern =
     (if pattern = ''*'' then
        RArray (concat (map (\<lambda>(n, v). [RBulk n, RBulk v]) (Settings_All settings)))
      else (case Settings_Get settings (rt_toLower rt pattern) of
          Some v \<Rightarrow> RArray [RBulk (rt_toLower rt pattern), RBulk v]
        | None \<Rightarrow> RArray []))"

text \<open>The text of an error of \<open>Settings.Set\<close>.\<close>

fun settingsErr_msg :: "runtime \<Rightarrow> settingsErr \<Rightarrow> bytes" where
  "settingsErr_msg rt (NotNonNegative name) = ''config: invalid: '' @ name @ '' must be a non-negative integer''"
| "settingsErr_msg rt (NotYesNo name) = ''config: invalid: '' @ name @ '' must be yes or no''"
| "settingsErr_msg rt (UnknownParam name) =
     ''config: invalid: unknown or non-reloadable parameter '' @ rt_quote rt name"

definition cmdConfig :: handler where
  "cmdConfig rt c args =
     (case ctx_Settings c of
        None \<Rightarrow> Some (c, RError ''ERR CONFIG is unavailable'')
      | Some settings \<Rightarrow> do {
          sub \<leftarrow> arg args 1;
          (if rt_toUpper rt sub = ''GET'' then
             (if length args \<noteq> 3 then Some (c, RError (msgArgs ''config|get''))
              else Some (c, configGet rt settings (args ! 2)))
           else if rt_toUpper rt sub = ''SET'' then
             (if length args \<noteq> 4 then Some (c, RError (msgArgs ''config|set''))
              else (case Settings_Set settings (rt_toLower rt (args ! 2)) (args ! 3) of
                  Inl err \<Rightarrow> Some (c, RError (''ERR '' @ settingsErr_msg rt err))
                | Inr settings' \<Rightarrow> Some (c\<lparr>ctx_Settings := Some settings'\<rparr>, Reply_OK)))
           else Some (c, RError (''ERR unknown CONFIG subcommand '' @ quoted sub))) })"

section \<open>The table (registry.go)\<close>

type_synonym Registry = "(bytes, Command) gomap"

definition stringCommands :: "Command list" where
  "stringCommands =
     [readKey ''get'' 2 cmdGet, writeKey ''set'' 3 cmdSet, writeKey ''incr'' 2 cmdIncr, writeKey ''decr'' 2 cmdDecr]"

definition keyCommands :: "Command list" where
  "keyCommands =
     [writeKeys ''del'' (-2) cmdDel, writeKeys ''unlink'' (-2) cmdUnlink, readKeys ''exists'' (-2) cmdExists,
      writeKey ''expire'' 3 cmdExpire, writeKey ''pexpireat'' 3 cmdPExpireAt, readKey ''ttl'' 2 cmdTTL,
      writeKey ''persist'' 2 cmdPersist, readKey ''type'' 2 cmdType]"

definition listCommands :: "Command list" where
  "listCommands =
     [writeKey ''lpush'' (-3) cmdLPush, writeKey ''rpush'' (-3) cmdRPush, writeKey ''lpop'' (-2) cmdLPop,
      writeKey ''rpop'' (-2) cmdRPop, readKey ''lrange'' 4 cmdLRange, readKey ''llen'' 2 cmdLLen]"

definition hashCommands :: "Command list" where
  "hashCommands =
     [writeKey ''hset'' (-4) cmdHSet, readKey ''hget'' 3 cmdHGet, writeKey ''hdel'' (-3) cmdHDel,
      readKey ''hgetall'' 2 cmdHGetAll]"

definition setCommands :: "Command list" where
  "setCommands =
     [writeKey ''sadd'' (-3) cmdSAdd, writeKey ''srem'' (-3) cmdSRem, readKey ''smembers'' 2 cmdSMembers,
      readKeys ''sinter'' (-2) cmdSInter]"

definition zsetCommands :: "Command list" where
  "zsetCommands =
     [writeKey ''zadd'' (-4) cmdZAdd, readKey ''zrange'' (-4) cmdZRange, readKey ''zscore'' 3 cmdZScore]"

definition serverCommands :: "Command list" where
  "serverCommands =
     [plain ''ping'' (-1) cmdPing, plain ''select'' 2 cmdSelect, plain ''config'' (-2) cmdConfig,
      wholeDB ''flushdb'' (-1) cmdFlushDB]"

text \<open>\<open>register\<close> panics on a duplicate name.\<close>

definition register :: "Registry \<Rightarrow> Command list \<Rightarrow> Registry option" where
  "register r cmds =
     foldM (\<lambda>r c. if map_of r (cmd_name c) \<noteq> None then None else Some (AList.update (cmd_name c) c r)) r cmds"

definition NewRegistry :: "Registry option" where
  "NewRegistry =
     foldM register [] [stringCommands, keyCommands, listCommands, hashCommands, setCommands, zsetCommands, serverCommands]"

definition Registry_Lookup :: "Registry \<Rightarrow> bytes \<Rightarrow> Command option" where
  "Registry_Lookup r name = map_of r name"

definition lowerByte :: "char \<Rightarrow> char" where
  "lowerByte b = (if 65 \<le> byteval b \<and> byteval b \<le> 90 then char_of (byteval b + 32) else b)"

definition lookupFold :: "Registry \<Rightarrow> bytes \<Rightarrow> Command option" where
  "lookupFold r name =
     (if length name = 0 \<or> length name > 32 then None else map_of r (map lowerByte name))"

definition Resolve :: "Registry \<Rightarrow> bytes list \<Rightarrow> Reply + Command" where
  "Resolve r args =
     (case args of
        [] \<Rightarrow> Inl (RError ''ERR empty command'')
      | name # _ \<Rightarrow>
          (case lookupFold r name of
             None \<Rightarrow> Inl (RError (''ERR unknown command '' @ quoted name))
           | Some cmd \<Rightarrow>
               if \<not> accepts cmd (int (length args)) then Inl (RError (msgArgs (cmd_name cmd)))
               else Inr cmd))"

definition Dispatch :: "Registry \<Rightarrow> runtime \<Rightarrow> Context \<Rightarrow> bytes list \<Rightarrow> (Context \<times> Reply) option" where
  "Dispatch r rt c args =
     (case Resolve r args of
        Inl err \<Rightarrow> Some (c, err)
      | Inr cmd \<Rightarrow> cmd_run cmd rt c args)"

section \<open>The table is well formed\<close>

definition allCommands :: "Command list" where
  "allCommands = stringCommands @ keyCommands @ listCommands @ hashCommands @ setCommands @ zsetCommands @ serverCommands"

definition commandTable :: Registry where
  "commandTable = map (\<lambda>c. (cmd_name c, c)) allCommands"

lemma register_fresh:
  "distinct (map fst r @ map cmd_name cmds) \<Longrightarrow> register r cmds = Some (r @ map (\<lambda>c. (cmd_name c, c)) cmds)"
proof (induction cmds arbitrary: r)
  case (Cons c cmds)
  then have n: "cmd_name c \<notin> fst ` set r" by auto
  have "distinct (map fst (r @ [(cmd_name c, c)]) @ map cmd_name cmds)" using Cons.prems by auto
  from Cons.IH[OF this] n show ?case
    by (simp add: register_def update_absent map_of_eq_None_notin)
qed (simp add: register_def)

lemmas command_groups = stringCommands_def keyCommands_def listCommands_def hashCommands_def
  setCommands_def zsetCommands_def serverCommands_def

lemmas command_kinds = plain_def readKey_def writeKey_def readKeys_def writeKeys_def wholeDB_def

lemma names_distinct: "distinct (map cmd_name allCommands)"
  by (simp add: allCommands_def command_groups command_kinds)

lemma NewRegistry_table: "NewRegistry = Some commandTable"
proof -
  have "foldM register r gs = Some (r @ map (\<lambda>c. (cmd_name c, c)) (concat gs))"
    if "distinct (map fst r @ map cmd_name (concat gs))" for r gs
    using that
  proof (induction gs arbitrary: r)
    case (Cons g gs)
    have "register r g = Some (r @ map (\<lambda>c. (cmd_name c, c)) g)"
      using Cons.prems by (intro register_fresh) auto
    moreover have d: "distinct (map fst (r @ map (\<lambda>c. (cmd_name c, c)) g) @ map cmd_name (concat gs))"
      using Cons.prems by (auto simp: comp_def)
    ultimately show ?case using Cons.IH[OF d] by simp
  qed simp
  from this[of "[]" "[stringCommands, keyCommands, listCommands, hashCommands, setCommands, zsetCommands, serverCommands]"]
    names_distinct show ?thesis
    by (simp add: NewRegistry_def commandTable_def allCommands_def)
qed

lemma Resolve_in_table:
  assumes "Resolve commandTable args = Inr cmd"
  shows "cmd \<in> set allCommands" "accepts cmd (int (length args))"
  using assms
  by (auto simp: Resolve_def lookupFold_def commandTable_def dest!: map_of_SomeD split: list.splits option.splits if_splits)

lemma names_short: "cmd \<in> set allCommands \<Longrightarrow> cmd_name cmd \<noteq> [] \<and> length (cmd_name cmd) \<le> 32"
  by (auto simp: allCommands_def command_groups command_kinds)

lemma lookupFold_table:
  assumes "cmd \<in> set allCommands" "map lowerByte name = cmd_name cmd"
  shows "lookupFold commandTable name = Some cmd"
proof -
  have "map_of commandTable (cmd_name cmd) = Some cmd"
    using assms(1) names_distinct by (intro map_of_is_SomeI) (auto simp: commandTable_def comp_def)
  moreover have "length name = length (cmd_name cmd)" using assms(2) by (metis length_map)
  ultimately show ?thesis using names_short[OF assms(1)] assms(2) by (auto simp: lookupFold_def)
qed

end
