(* ===== verification/CommandProps.thy ===== *)
theory CommandProps
  imports Registry
begin

text \<open>
  What each handler does to the session, in terms of the store contract of theory
  \<open>Keyspace\<close> and the collection contracts: the effect on the selected database as a map from
  key to entry, the reply, and what is left alone. \<open>same_session\<close> and \<open>ctx_to\<close> carry the
  framing.
\<close>

section \<open>Sessions and their stores\<close>

definition ctx_inv :: "runtime \<Rightarrow> Context \<Rightarrow> bool" where
  "ctx_inv rt c \<longleftrightarrow> ctx_index c < length (ctx_databases c) \<and> (\<forall>db \<in> set (ctx_databases c). db_inv (rt_hash rt) db)"

definition store_of :: "runtime \<Rightarrow> Context \<Rightarrow> store" where
  "store_of rt c = db_ents (rt_hash rt) (ctx_Keyspace c)"

text \<open>Everything but the selected database is as before.\<close>

definition same_session :: "Context \<Rightarrow> Context \<Rightarrow> bool" where
  "same_session c c' \<longleftrightarrow>
     ctx_index c' = ctx_index c \<and> ctx_Limits c' = ctx_Limits c \<and> ctx_Settings c' = ctx_Settings c
     \<and> ctx_now c' = ctx_now c \<and> length (ctx_databases c') = length (ctx_databases c)
     \<and> (\<forall>i. i \<noteq> ctx_index c \<longrightarrow> ctx_databases c' ! i = ctx_databases c ! i)"

definition ctx_to :: "runtime \<Rightarrow> Context \<Rightarrow> Context \<Rightarrow> store \<Rightarrow> bool" where
  "ctx_to rt c c' m \<longleftrightarrow> ctx_inv rt c' \<and> same_session c c' \<and> store_of rt c' = m"

lemma same_session_refl [simp]: "same_session c c"
  by (simp add: same_session_def)

lemma same_session_trans: "same_session a b \<Longrightarrow> same_session b c \<Longrightarrow> same_session a c"
  by (simp add: same_session_def)

lemma ctx_to_refl: "ctx_inv rt c \<Longrightarrow> ctx_to rt c c (store_of rt c)"
  by (simp add: ctx_to_def)

lemma ctx_to_trans: "ctx_to rt a b m \<Longrightarrow> ctx_to rt b c n \<Longrightarrow> ctx_to rt a c n"
  by (auto simp: ctx_to_def intro: same_session_trans)

lemma ctx_inv_db: "ctx_inv rt c \<Longrightarrow> db_inv (rt_hash rt) (ctx_Keyspace c)"
  by (simp add: ctx_inv_def ctx_Keyspace_def)

lemma with_db_to:
  assumes "ctx_inv rt c" "db_inv (rt_hash rt) db"
  shows "ctx_to rt c (with_db c db) (db_ents (rt_hash rt) db)"
  using assms set_update_subset_insert[of "ctx_databases c" "ctx_index c" db]
  by (auto simp: ctx_to_def ctx_inv_def store_of_def same_session_def with_db_def ctx_Keyspace_def)

lemma lookupEntry_live: "ctx_inv rt c \<Longrightarrow> lookupEntry rt c k = live (ctx_now c) (store_of rt c) k"
  by (simp add: lookupEntry_def store_of_def db.lookup ctx_inv_db)

lemma lookupEntry_SomeD:
  assumes "ctx_inv rt c" "lookupEntry rt c k = Some e"
  shows "store_of rt c k = Some e" "value_ok (Entry_Value e)" "\<not> expired e (ctx_now c)"
  using db.lookup_SomeD[OF ctx_inv_db[OF assms(1)], of "ctx_now c" k e] assms(2)
  by (auto simp: lookupEntry_def store_of_def)

lemma storeValue_to:
  "ctx_inv rt c \<Longrightarrow> value_ok v \<Longrightarrow> ctx_to rt c (storeValue rt c k v) ((store_of rt c)(k \<mapsto> fresh_entry v))"
  using with_db_to[of rt c "DB_Set (rt_hash rt) (ctx_Keyspace c) k v"] db.put[OF ctx_inv_db, of rt c v k]
  by (simp add: storeValue_def store_of_def)

lemma pokeValue_to:
  "ctx_inv rt c \<Longrightarrow> value_ok v \<Longrightarrow> store_of rt c k = Some e \<Longrightarrow>
   ctx_to rt c (pokeValue rt c k v) ((store_of rt c)(k \<mapsto> e\<lparr>Entry_Value := v\<rparr>))"
  using with_db_to[of rt c "DB_poke (rt_hash rt) (ctx_Keyspace c) k v"] db.poke[OF ctx_inv_db, of rt c v k e]
  by (simp add: pokeValue_def store_of_def)

lemma deleteKey_to: "ctx_inv rt c \<Longrightarrow> ctx_to rt c (deleteKey rt c k) ((store_of rt c)(k := None))"
  using with_db_to[of rt c "fst (DB_Delete (rt_hash rt) (ctx_Keyspace c) (ctx_now c) k)"]
    db.remove[OF ctx_inv_db, of rt c "ctx_now c" k]
  by (auto simp: deleteKey_def store_of_def)

lemma dropIfEmpty_to:
  assumes "ctx_inv rt c" "value_ok v" "store_of rt c k = Some e"
  shows "ctx_to rt c (dropIfEmpty rt c k v n)
    ((store_of rt c)(k := if n = 0 then None else Some (e\<lparr>Entry_Value := v\<rparr>)))"
proof -
  note P = pokeValue_to[OF assms]
  then have "ctx_inv rt (pokeValue rt c k v)" by (simp add: ctx_to_def)
  from deleteKey_to[OF this, of k] P show ?thesis
    by (cases "n = 0") (auto simp: dropIfEmpty_def ctx_to_def intro: same_session_trans)
qed

lemma arg_Some [simp]: "i < length args \<Longrightarrow> arg args i = Some (args ! i)"
  by (simp add: arg_def)

lemma arg_Some_le [simp]: "Suc i \<le> length args \<Longrightarrow> arg args i = Some (args ! i)"
  by (simp add: arg_def)

section \<open>Strings\<close>

lemma cmdGet_spec:
  assumes "ctx_inv rt c" "2 \<le> length args"
  shows "cmdGet rt c args = Some (c, case live (ctx_now c) (store_of rt c) (args ! 1) of
      None \<Rightarrow> RNil
    | Some e \<Rightarrow> (case Entry_Value e of MakeString s \<Rightarrow> RBulk s | _ \<Rightarrow> RError msgWrongType))"
  using assms DB_Get_lookup[OF ctx_inv_db[OF assms(1)], of "ctx_now c" "args ! 1"]
  by (auto simp: cmdGet_def DB_bytes_paths store_of_def split: option.splits Value.splits)

lemma cmdSet_spec:
  assumes "ctx_inv rt c" "3 \<le> length args" "slice_ok (args ! 2)"
  shows "\<exists>c'. cmdSet rt c args = Some (c', Reply_OK)
    \<and> ctx_to rt c c' ((store_of rt c)(args ! 1 \<mapsto> fresh_entry (MakeString (args ! 2))))"
  using assms storeValue_to[of rt c "MakeString (args ! 2)" "args ! 1"] by (simp add: cmdSet_def)

lemma formatInt_slice_ok: "int64_ok n \<Longrightarrow> slice_ok (formatInt n)"
  using formatInt_length[of n] by (simp add: slice_ok_def)

text \<open>The four outcomes of \<open>INCR\<close> and \<open>DECR\<close>.\<close>

lemma incrBy_absent:
  assumes "ctx_inv rt c" "live (ctx_now c) (store_of rt c) k = None" "delta \<in> {1, -1}"
  shows "\<exists>c'. incrBy rt c k delta = Some (c', RInt delta)
    \<and> ctx_to rt c c' ((store_of rt c)(k \<mapsto> fresh_entry (MakeString (formatInt delta))))"
proof -
  have "int64_ok delta" using assms(3) by (auto simp: int64_ok_def)
  with assms storeValue_to[of rt c "MakeString (formatInt delta)" k] show ?thesis
    by (auto simp: incrBy_def lookupEntry_live wrap64_id formatInt_slice_ok)
qed

lemma incrBy_number:
  assumes "ctx_inv rt c" "live (ctx_now c) (store_of rt c) k = Some e" "Entry_Value e = MakeString s"
    "parseInt s = Some n" "int64_ok (n + delta)" "delta \<in> {1, -1}"
  shows "\<exists>c'. incrBy rt c k delta = Some (c', RInt (n + delta))
    \<and> ctx_to rt c c' ((store_of rt c)(k \<mapsto> e\<lparr>Entry_Value := MakeString (formatInt (n + delta))\<rparr>))"
proof -
  let ?e = "e\<lparr>Entry_Value := MakeString (formatInt (n + delta))\<rparr>"
  have "db_inv (rt_hash rt) (DB_SetEntry (rt_hash rt) (ctx_Keyspace c) k ?e)"
    "db_ents (rt_hash rt) (DB_SetEntry (rt_hash rt) (ctx_Keyspace c) k ?e) = (store_of rt c)(k \<mapsto> ?e)"
    using db.put_entry[OF ctx_inv_db[OF assms(1)], of ?e k] formatInt_slice_ok[OF assms(5)]
    by (auto simp: store_of_def)
  with with_db_to[OF assms(1) this(1)] assms parseInt_range[OF assms(4)] show ?thesis
    by (auto simp: incrBy_def lookupEntry_live wrap64_id int64_ok_def)
qed

lemma incrBy_errors:
  assumes "ctx_inv rt c" "live (ctx_now c) (store_of rt c) k = Some e"
  shows "Value_Kind (Entry_Value e) \<noteq> KindString \<Longrightarrow> incrBy rt c k delta = Some (c, RError msgWrongType)"
    "Entry_Value e = MakeString s \<Longrightarrow> parseInt s = None \<Longrightarrow> incrBy rt c k delta = Some (c, RError msgNotInteger)"
    "Entry_Value e = MakeString s \<Longrightarrow> parseInt s = Some n \<Longrightarrow> \<not> int64_ok (n + delta) \<Longrightarrow> delta \<in> {1, -1} \<Longrightarrow>
       incrBy rt c k delta = Some (c, RError msgOverflow)"
  using assms parseInt_range[of s n] by (auto simp: incrBy_def lookupEntry_live int64_ok_def)

section \<open>Keys\<close>

lemma cmdDel_spec:
  assumes "ctx_inv rt c" "1 \<le> length args"
  shows "\<exists>c'. cmdDel rt c args =
      Some (c', RInt (int (card {k \<in> set (drop 1 args). live (ctx_now c) (store_of rt c) k \<noteq> None})))
    \<and> ctx_to rt c c' (store_of rt c |` (- set (drop 1 args)))"
proof -
  from db.remove_all[OF ctx_inv_db[OF assms(1)], of "ctx_now c" 0 "drop 1 args"] obtain db where
    d: "foldCount (\<lambda>s k. Some (DB_Delete (rt_hash rt) s (ctx_now c) k)) (ctx_Keyspace c, 0) (drop 1 args) =
      Some (db, int (card {k \<in> set (drop 1 args). live (ctx_now c) (store_of rt c) k \<noteq> None}))"
    "db_inv (rt_hash rt) db" "db_ents (rt_hash rt) db = store_of rt c |` (- set (drop 1 args))"
    by (auto simp: store_of_def)
  with with_db_to[OF assms(1) d(2)] assms(2) show ?thesis by (auto simp: cmdDel_def)
qed

lemma cmdUnlink_spec:
  assumes "ctx_inv rt c" "1 \<le> length args"
  shows "\<exists>c'. cmdUnlink rt c args =
      Some (c', RInt (int (card {k \<in> set (drop 1 args). live (ctx_now c) (store_of rt c) k \<noteq> None})))
    \<and> ctx_to rt c c' (store_of rt c |` (- set (drop 1 args)))"
proof -
  from ul.remove_all[OF ctx_inv_db[OF assms(1)], of "ctx_now c" 0 "drop 1 args"] obtain db where
    d: "foldCount (\<lambda>s k. Some (DB_Unlink (rt_hash rt) s (ctx_now c) k)) (ctx_Keyspace c, 0) (drop 1 args) =
      Some (db, int (card {k \<in> set (drop 1 args). live (ctx_now c) (store_of rt c) k \<noteq> None}))"
    "db_inv (rt_hash rt) db" "db_ents (rt_hash rt) db = store_of rt c |` (- set (drop 1 args))"
    by (auto simp: store_of_def)
  with with_db_to[OF assms(1) d(2)] assms(2) show ?thesis by (auto simp: cmdUnlink_def)
qed

lemma foldCount_count:
  "foldCount (\<lambda>s x. Some (s, P x)) (s, n) xs = Some (s, n + int (length (filter P xs)))"
  by (induction xs arbitrary: n) auto

text \<open>\<open>EXISTS\<close> counts a key as often as it is named.\<close>

lemma cmdExists_spec:
  assumes "1 \<le> length args"
  shows "cmdExists rt c args =
    Some (c, RInt (int (length (filter (\<lambda>k. live (ctx_now c) (store_of rt c) k \<noteq> None) (drop 1 args)))))"
proof -
  have "foldCount (\<lambda>db key. Some (db, DB_ExistsBytes (rt_hash rt) db (ctx_now c) key)) (d, n) ks =
      foldCount (\<lambda>db key. Some (db, DB_ExistsBytes (rt_hash rt) d (ctx_now c) key)) (d, n) ks" for d n ks
    by (induction ks arbitrary: n) auto
  with assms show ?thesis
    by (simp add: cmdExists_def foldCount_count DB_bytes_paths DB_Exists_live store_of_def)
qed

lemma setExpire_spec:
  assumes "ctx_inv rt c"
  shows "\<exists>c'. setExpire rt c k at = (c', RInt (if live (ctx_now c) (store_of rt c) k = None then 0 else 1))
    \<and> ctx_to rt c c' (case live (ctx_now c) (store_of rt c) k of
        None \<Rightarrow> store_of rt c | Some e \<Rightarrow> (store_of rt c)(k \<mapsto> e\<lparr>ExpireAt := at\<rparr>))"
proof -
  from db.set_expire[OF ctx_inv_db[OF assms], of "ctx_now c" k at] obtain db where
    d: "DB_SetExpire (rt_hash rt) (ctx_Keyspace c) (ctx_now c) k at = (db, live (ctx_now c) (store_of rt c) k \<noteq> None)"
    "db_inv (rt_hash rt) db"
    "db_ents (rt_hash rt) db = (case live (ctx_now c) (store_of rt c) k of
        None \<Rightarrow> store_of rt c | Some e \<Rightarrow> (store_of rt c)(k \<mapsto> e\<lparr>ExpireAt := at\<rparr>))"
    unfolding store_of_def by blast
  with with_db_to[OF assms d(2)] show ?thesis by (simp add: setExpire_def)
qed

lemma cmdPersist_spec:
  assumes "ctx_inv rt c" "2 \<le> length args"
  shows "\<exists>c'. cmdPersist rt c args = Some (c', RInt (case live (ctx_now c) (store_of rt c) (args ! 1) of
        None \<Rightarrow> 0 | Some e \<Rightarrow> if HasExpiry e then 1 else 0))
    \<and> ctx_to rt c c' (case live (ctx_now c) (store_of rt c) (args ! 1) of
        None \<Rightarrow> store_of rt c | Some e \<Rightarrow> (store_of rt c)(args ! 1 \<mapsto> e\<lparr>ExpireAt := zeroTime\<rparr>))"
proof -
  from db.persist[OF ctx_inv_db[OF assms(1)], of "ctx_now c" "args ! 1"] obtain db where
    d: "DB_Persist (rt_hash rt) (ctx_Keyspace c) (ctx_now c) (args ! 1) =
      (db, case live (ctx_now c) (store_of rt c) (args ! 1) of None \<Rightarrow> False | Some e \<Rightarrow> HasExpiry e)"
    "db_inv (rt_hash rt) db"
    "db_ents (rt_hash rt) db = (case live (ctx_now c) (store_of rt c) (args ! 1) of
        None \<Rightarrow> store_of rt c | Some e \<Rightarrow> (store_of rt c)(args ! 1 \<mapsto> e\<lparr>ExpireAt := zeroTime\<rparr>))"
    unfolding store_of_def by blast
  with with_db_to[OF assms(1) d(2)] assms(2) show ?thesis
    by (auto simp: cmdPersist_def split: option.splits)
qed

section \<open>Lists\<close>

definition pushed :: "bool \<Rightarrow> bytes list \<Rightarrow> bytes list \<Rightarrow> bytes list" where
  "pushed front vs xs = (if front then rev vs @ xs else xs @ vs)"

lemma pushAll_spec:
  assumes "list_inv l" "\<forall>v \<in> set vs. slice_ok v"
  shows "\<exists>l'. pushAll front l vs = Some l' \<and> list_inv l' \<and> list_elems l' = pushed front vs (list_elems l)
    \<and> List_Len l' = int (length vs + length (list_elems l))"
proof -
  have "\<exists>l'. pushAll front l vs = Some l' \<and> list_inv l' \<and> list_elems l' = pushed front vs (list_elems l)"
    using ls.push_front_all[OF assms] ls.push_back_all[OF assms]
    by (cases front) (auto simp: pushAll_def pushed_def)
  then show ?thesis using ls.len by (fastforce simp: pushed_def)
qed

lemma listPush_spec:
  assumes inv: "ctx_inv rt c" and a: "2 \<le> length args" and ok: "\<forall>v \<in> set (drop 2 args). slice_ok v"
  defines "old \<equiv> live (ctx_now c) (store_of rt c) (args ! 1)"
  shows "old = None \<Longrightarrow> \<exists>c' l. listPush rt c args front = Some (c', RInt (int (length args - 2)))
      \<and> ctx_to rt c c' ((store_of rt c)(args ! 1 \<mapsto> fresh_entry (MakeList l)))
      \<and> list_elems l = pushed front (drop 2 args) []"
    "old = Some e \<Longrightarrow> Value_Kind (Entry_Value e) \<noteq> KindList \<Longrightarrow> listPush rt c args front = Some (c, RError msgWrongType)"
    "old = Some e \<Longrightarrow> Entry_Value e = MakeList l \<Longrightarrow>
      \<exists>c' l'. listPush rt c args front = Some (c', RInt (int (length args - 2 + length (list_elems l))))
      \<and> ctx_to rt c c' ((store_of rt c)(args ! 1 \<mapsto> e\<lparr>Entry_Value := MakeList l'\<rparr>))
      \<and> list_elems l' = pushed front (drop 2 args) (list_elems l)"
proof -
  note L = lookupEntry_live[OF inv, of "args ! 1", folded old_def]
  show "\<exists>c' l. listPush rt c args front = Some (c', RInt (int (length args - 2)))
      \<and> ctx_to rt c c' ((store_of rt c)(args ! 1 \<mapsto> fresh_entry (MakeList l)))
      \<and> list_elems l = pushed front (drop 2 args) []" if "old = None"
  proof -
    from pushAll_spec[OF list_inv_New(1) ok, of front "Lim_List (ctx_Limits c)"] obtain l where
      l: "pushAll front (NewList (Lim_List (ctx_Limits c))) (drop 2 args) = Some l" "list_inv l"
        "list_elems l = pushed front (drop 2 args) []" "List_Len l = int (length args - 2)" by auto
    with storeValue_to[OF inv, of "MakeList l" "args ! 1"] L that a show ?thesis by (auto simp: listPush_def)
  qed
  show "listPush rt c args front = Some (c, RError msgWrongType)"
    if "old = Some e" "Value_Kind (Entry_Value e) \<noteq> KindList" using L that a by (simp add: listPush_def)
  show "\<exists>c' l'. listPush rt c args front = Some (c', RInt (int (length args - 2 + length (list_elems l))))
      \<and> ctx_to rt c c' ((store_of rt c)(args ! 1 \<mapsto> e\<lparr>Entry_Value := MakeList l'\<rparr>))
      \<and> list_elems l' = pushed front (drop 2 args) (list_elems l)"
    if "old = Some e" "Entry_Value e = MakeList l"
  proof -
    note S = lookupEntry_SomeD[OF inv, of "args ! 1" e, unfolded L, OF that(1)]
    from pushAll_spec[OF _ ok, of l front] S(2) that(2) obtain l' where
      "pushAll front l (drop 2 args) = Some l'" "list_inv l'" "list_elems l' = pushed front (drop 2 args) (list_elems l)"
      "List_Len l' = int (length args - 2 + length (list_elems l))" by auto
    with pokeValue_to[OF inv, of "MakeList l'" "args ! 1" e] S(1) L that a show ?thesis by (auto simp: listPush_def)
  qed
qed

lemma pop_loop_front:
  "list_inv l \<Longrightarrow> \<exists>l'. pop_loop List_PopFront n l = Some (l', take n (list_elems l)) \<and> list_inv l'
     \<and> list_elems l' = drop n (list_elems l)"
proof (induction n arbitrary: l)
  case (Suc n)
  from ls.pop_front[OF Suc.prems] obtain l1 where
    1: "List_PopFront l = Some (l1, if list_elems l = [] then None else Some (hd (list_elems l)))" "list_inv l1"
      "list_elems l1 = tl (list_elems l)" by auto
  with Suc.IH[OF 1(2)] show ?case by (cases "list_elems l") auto
qed simp

lemma pop_loop_back:
  "list_inv l \<Longrightarrow> \<exists>l'. pop_loop List_PopBack n l = Some (l', take n (rev (list_elems l))) \<and> list_inv l'
     \<and> list_elems l' = rev (drop n (rev (list_elems l)))"
proof (induction n arbitrary: l)
  case (Suc n)
  from ls.pop_back[OF Suc.prems] obtain l1 where
    1: "List_PopBack l = Some (l1, if list_elems l = [] then None else Some (last (list_elems l)))" "list_inv l1"
      "list_elems l1 = butlast (list_elems l)" by auto
  with Suc.IH[OF 1(2)] show ?case by (cases "list_elems l" rule: rev_cases) auto
qed simp

text \<open>The end a pop works on, as the front of a list.\<close>

definition popEnd :: "bool \<Rightarrow> bytes list \<Rightarrow> bytes list" where
  "popEnd front xs = (if front then xs else rev xs)"

lemma pop_one:
  assumes "list_inv l"
  shows "\<exists>l'. (if front then List_PopFront l else List_PopBack l) =
      Some (l', case popEnd front (list_elems l) of [] \<Rightarrow> None | x # xs \<Rightarrow> Some x)
    \<and> list_inv l' \<and> list_elems l' = popEnd front (drop 1 (popEnd front (list_elems l)))"
proof (cases front)
  case True
  with ls.pop_front[OF assms] show ?thesis by (cases "list_elems l") (auto simp: popEnd_def)
next
  case False
  with ls.pop_back[OF assms] show ?thesis by (cases "list_elems l" rule: rev_cases) (auto simp: popEnd_def)
qed

lemma pop_many:
  assumes "list_inv l"
  shows "\<exists>l'. pop_loop (if front then List_PopFront else List_PopBack) n l =
      Some (l', take n (popEnd front (list_elems l)))
    \<and> list_inv l' \<and> list_elems l' = popEnd front (drop n (popEnd front (list_elems l)))"
  using pop_loop_front[OF assms, of n] pop_loop_back[OF assms, of n] by (cases front) (auto simp: popEnd_def)

text \<open>The store after a pop left \<open>xs\<close>: an empty list takes its key with it.\<close>

definition list_left :: "store \<Rightarrow> bytes \<Rightarrow> Entry \<Rightarrow> mcList \<Rightarrow> store" where
  "list_left m k e l = m(k := if list_elems l = [] then None else Some (e\<lparr>Entry_Value := MakeList l\<rparr>))"

lemma listPop_one_spec:
  assumes inv: "ctx_inv rt c" and a: "length args = 2"
    and old: "live (ctx_now c) (store_of rt c) (args ! 1) = Some e" and l: "Entry_Value e = MakeList l"
  shows "\<exists>c' l'. listPop rt c args front =
      Some (c', RBulk (case popEnd front (list_elems l) of [] \<Rightarrow> [] | x # xs \<Rightarrow> x))
    \<and> list_elems l' = popEnd front (drop 1 (popEnd front (list_elems l)))
    \<and> ctx_to rt c c' (list_left (store_of rt c) (args ! 1) e l')"
proof -
  note S = lookupEntry_SomeD[OF inv, of "args ! 1" e, unfolded lookupEntry_live[OF inv], OF old]
  from pop_one[of l front] S(2) l obtain l' where
    l': "(if front then List_PopFront l else List_PopBack l) =
        Some (l', case popEnd front (list_elems l) of [] \<Rightarrow> None | x # xs \<Rightarrow> Some x)" "list_inv l'"
      "list_elems l' = popEnd front (drop 1 (popEnd front (list_elems l)))" by auto
  then have r: "(if front then List_PopFront else List_PopBack) l =
      Some (l', case popEnd front (list_elems l) of [] \<Rightarrow> None | x # xs \<Rightarrow> Some x)" by (cases front) auto
  have "ctx_to rt c (dropIfEmpty rt c (args ! 1) (MakeList l') (List_Len l')) (list_left (store_of rt c) (args ! 1) e l')"
    using dropIfEmpty_to[OF inv, of "MakeList l'" "args ! 1" e "List_Len l'"] S(1) l'(2) ls.len_zero[OF l'(2)]
    by (simp add: list_left_def)
  with r l'(3) old l a inv show ?thesis
    by (auto simp: listPop_def popCount_def lookupEntry_live split: list.splits)
qed

lemma listPop_many_spec:
  assumes inv: "ctx_inv rt c" and a: "length args = 3" "parseInt (args ! 2) = Some n" "0 \<le> n" "n * 80 \<le> 281474976710656"
    and old: "live (ctx_now c) (store_of rt c) (args ! 1) = Some e" and l: "Entry_Value e = MakeList l"
  shows "\<exists>c' l'. listPop rt c args front = Some (c', RArray (map RBulk (take (nat n) (popEnd front (list_elems l)))))
    \<and> list_elems l' = popEnd front (drop (nat n) (popEnd front (list_elems l)))
    \<and> ctx_to rt c c' (list_left (store_of rt c) (args ! 1) e l')"
proof -
  note S = lookupEntry_SomeD[OF inv, of "args ! 1" e, unfolded lookupEntry_live[OF inv], OF old]
  from pop_many[of l front "nat n"] S(2) l obtain l' where
    l': "pop_loop (if front then List_PopFront else List_PopBack) (nat n) l = Some (l', take (nat n) (popEnd front (list_elems l)))"
      "list_inv l'" "list_elems l' = popEnd front (drop (nat n) (popEnd front (list_elems l)))" by auto
  have "ctx_to rt c (dropIfEmpty rt c (args ! 1) (MakeList l') (List_Len l')) (list_left (store_of rt c) (args ! 1) e l')"
    using dropIfEmpty_to[OF inv, of "MakeList l'" "args ! 1" e "List_Len l'"] S(1) l'(2) ls.len_zero[OF l'(2)]
    by (simp add: list_left_def)
  with l' old l a inv show ?thesis
    by (auto simp: listPop_def popCount_def lookupEntry_live makeReplies_def)
qed

lemma listPop_others:
  assumes inv: "ctx_inv rt c" and a: "2 \<le> length args"
  shows "live (ctx_now c) (store_of rt c) (args ! 1) = None \<Longrightarrow> \<exists>r. listPop rt c args front = Some (c, r)"
    "live (ctx_now c) (store_of rt c) (args ! 1) = Some e \<Longrightarrow> Value_Kind (Entry_Value e) \<noteq> KindList \<Longrightarrow>
       \<exists>r. listPop rt c args front = Some (c, r)"
    "popCount args = Some (Inl err) \<Longrightarrow> listPop rt c args front = Some (c, err)"
    "popCount args \<noteq> None"
  using a by (auto simp: listPop_def popCount_def lookupEntry_live[OF inv] split: option.splits)

end
