(* ===== verification/CollProps.thy ===== *)
theory CollProps
  imports CommandProps
begin

text \<open>
  The effect of the hash, set and sorted-set commands on the session, from the contracts
  \<open>field_map\<close>, \<open>member_set\<close> and \<open>scored_set\<close>.
\<close>

section \<open>Hashes\<close>

lemma set_pairs_of: "(a, b) \<in> set (pairs_of xs) \<Longrightarrow> a \<in> set xs \<and> b \<in> set xs"
  by (induction xs rule: pairs_of.induct) auto

lemma hsetAll_spec:
  assumes "hash_inv h" "\<forall>a \<in> set (drop 2 args). slice_ok a"
  shows "\<exists>h'. hsetAll h args = Some (h', int (card (dom (hash_fields h'))) - int (card (dom (hash_fields h))))
    \<and> hash_inv h' \<and> hash_fields h' = hash_fields h ++ map_of (rev (pairs_of (drop 2 args)))"
proof -
  have "\<forall>(f, v) \<in> set (pairs_of (drop 2 args)). slice_ok f \<and> slice_ok v"
    using assms(2) set_pairs_of by fastforce
  from hs.store_all[OF assms(1) this, of 0] show ?thesis by (simp add: hsetAll_def)
qed

lemma cmdHSet_spec:
  assumes inv: "ctx_inv rt c" and a: "2 \<le> length args" "even (length args)"
    and ok: "\<forall>v \<in> set (drop 2 args). slice_ok v"
  defines "old \<equiv> live (ctx_now c) (store_of rt c) (args ! 1)"
    and "ps \<equiv> map_of (rev (pairs_of (drop 2 args)))"
  shows "old = None \<Longrightarrow> \<exists>c' h. cmdHSet rt c args = Some (c', RInt (int (card (dom ps))))
      \<and> ctx_to rt c c' ((store_of rt c)(args ! 1 \<mapsto> fresh_entry (MakeHash h))) \<and> hash_fields h = ps"
    "old = Some e \<Longrightarrow> Value_Kind (Entry_Value e) \<noteq> KindHash \<Longrightarrow> cmdHSet rt c args = Some (c, RError msgWrongType)"
    "old = Some e \<Longrightarrow> Entry_Value e = MakeHash h \<Longrightarrow>
      \<exists>c' h'. cmdHSet rt c args =
          Some (c', RInt (int (card (dom (hash_fields h'))) - int (card (dom (hash_fields h)))))
      \<and> ctx_to rt c c' ((store_of rt c)(args ! 1 \<mapsto> e\<lparr>Entry_Value := MakeHash h'\<rparr>))
      \<and> hash_fields h' = hash_fields h ++ ps"
proof -
  note L = lookupEntry_live[OF inv, of "args ! 1", folded old_def]
  show "\<exists>c' h. cmdHSet rt c args = Some (c', RInt (int (card (dom ps))))
      \<and> ctx_to rt c c' ((store_of rt c)(args ! 1 \<mapsto> fresh_entry (MakeHash h))) \<and> hash_fields h = ps" if "old = None"
  proof -
    from hsetAll_spec[OF hash_inv_New(1) ok, of "Lim_Hash (ctx_Limits c)"] obtain h where
      h: "hsetAll (NewHash (Lim_Hash (ctx_Limits c))) args = Some (h, int (card (dom ps)))" "hash_inv h" "hash_fields h = ps"
      by (auto simp: ps_def)
    with storeValue_to[OF inv, of "MakeHash h" "args ! 1"] L that a show ?thesis by (auto simp: cmdHSet_def)
  qed
  show "cmdHSet rt c args = Some (c, RError msgWrongType)"
    if "old = Some e" "Value_Kind (Entry_Value e) \<noteq> KindHash" using L that a by (simp add: cmdHSet_def)
  show "\<exists>c' h'. cmdHSet rt c args =
          Some (c', RInt (int (card (dom (hash_fields h'))) - int (card (dom (hash_fields h)))))
      \<and> ctx_to rt c c' ((store_of rt c)(args ! 1 \<mapsto> e\<lparr>Entry_Value := MakeHash h'\<rparr>))
      \<and> hash_fields h' = hash_fields h ++ ps" if "old = Some e" "Entry_Value e = MakeHash h"
  proof -
    note S = lookupEntry_SomeD[OF inv, of "args ! 1" e, unfolded L, OF that(1)]
    from hsetAll_spec[OF _ ok, of h] S(2) that(2) obtain h' where
      "hsetAll h args = Some (h', int (card (dom (hash_fields h'))) - int (card (dom (hash_fields h))))"
      "hash_inv h'" "hash_fields h' = hash_fields h ++ ps" by (auto simp: ps_def)
    with pokeValue_to[OF inv, of "MakeHash h'" "args ! 1" e] S(1) L that a show ?thesis
      by (intro exI[of _ "pokeValue rt c (args ! 1) (MakeHash h')"] exI[of _ h']) (simp add: cmdHSet_def)
  qed
qed

lemma cmdHSet_odd: "odd (length args) \<Longrightarrow> \<exists>r. cmdHSet rt c args = Some (c, r)"
  by (auto simp: cmdHSet_def odd_iff_mod_2_eq_one)

lemma cmdHDel_spec:
  assumes inv: "ctx_inv rt c" and a: "2 \<le> length args"
    and old: "live (ctx_now c) (store_of rt c) (args ! 1) = Some e" and h: "Entry_Value e = MakeHash h"
  shows "\<exists>c' h'. cmdHDel rt c args =
        Some (c', RInt (int (card (dom (hash_fields h))) - int (card (dom (hash_fields h')))))
    \<and> hash_fields h' = hash_fields h |` (- set (drop 2 args))
    \<and> ctx_to rt c c' ((store_of rt c)(args ! 1 :=
        if hash_fields h' = Map.empty then None else Some (e\<lparr>Entry_Value := MakeHash h'\<rparr>)))"
proof -
  note S = lookupEntry_SomeD[OF inv, of "args ! 1" e, unfolded lookupEntry_live[OF inv], OF old]
  from hs.del_all[of h 0 "drop 2 args"] S(2) h obtain h' where
    h': "foldCount Hash_Delete (h, 0) (drop 2 args) =
        Some (h', int (card (dom (hash_fields h))) - int (card (dom (hash_fields h'))))"
      "hash_inv h'" "hash_fields h' = hash_fields h |` (- set (drop 2 args))" by auto
  have "ctx_to rt c (dropIfEmpty rt c (args ! 1) (MakeHash h') (Hash_Len h')) ((store_of rt c)(args ! 1 :=
        if hash_fields h' = Map.empty then None else Some (e\<lparr>Entry_Value := MakeHash h'\<rparr>)))"
    using dropIfEmpty_to[OF inv, of "MakeHash h'" "args ! 1" e "Hash_Len h'"] S(1) h'(2) hs.len_zero[OF h'(2)]
    by simp
  with h'(1,3) h old a inv show ?thesis
    by (intro exI[of _ "dropIfEmpty rt c (args ! 1) (MakeHash h') (Hash_Len h')"] exI[of _ h'])
       (simp add: cmdHDel_def lookupEntry_live)
qed

lemma cmdHDel_others:
  assumes inv: "ctx_inv rt c" and a: "2 \<le> length args"
  shows "live (ctx_now c) (store_of rt c) (args ! 1) = None \<Longrightarrow> cmdHDel rt c args = Some (c, RInt 0)"
    "live (ctx_now c) (store_of rt c) (args ! 1) = Some e \<Longrightarrow> Value_Kind (Entry_Value e) \<noteq> KindHash \<Longrightarrow>
       cmdHDel rt c args = Some (c, RError msgWrongType)"
  using a by (auto simp: cmdHDel_def lookupEntry_live[OF inv])

section \<open>Sets\<close>

lemma cmdSAdd_spec:
  assumes inv: "ctx_inv rt c" and a: "2 \<le> length args" and ok: "\<forall>v \<in> set (drop 2 args). slice_ok v"
  defines "old \<equiv> live (ctx_now c) (store_of rt c) (args ! 1)"
  shows "old = None \<Longrightarrow> \<exists>c' s. cmdSAdd rt c args = Some (c', RInt (int (card (set (drop 2 args)))))
      \<and> ctx_to rt c c' ((store_of rt c)(args ! 1 \<mapsto> fresh_entry (MakeSet s))) \<and> set_members s = set (drop 2 args)"
    "old = Some e \<Longrightarrow> Value_Kind (Entry_Value e) \<noteq> KindSet \<Longrightarrow> cmdSAdd rt c args = Some (c, RError msgWrongType)"
    "old = Some e \<Longrightarrow> Entry_Value e = MakeSet s \<Longrightarrow>
      \<exists>c' s'. cmdSAdd rt c args = Some (c', RInt (int (card (set_members s')) - int (card (set_members s))))
      \<and> ctx_to rt c c' ((store_of rt c)(args ! 1 \<mapsto> e\<lparr>Entry_Value := MakeSet s'\<rparr>))
      \<and> set_members s' = set_members s \<union> set (drop 2 args)"
proof -
  note L = lookupEntry_live[OF inv, of "args ! 1", folded old_def]
  show "\<exists>c' s. cmdSAdd rt c args = Some (c', RInt (int (card (set (drop 2 args)))))
      \<and> ctx_to rt c c' ((store_of rt c)(args ! 1 \<mapsto> fresh_entry (MakeSet s))) \<and> set_members s = set (drop 2 args)"
    if "old = None"
  proof -
    from st.add_all[OF set_inv_New(1) ok, of "Lim_Set (ctx_Limits c)" 0] obtain s where
      "foldCount Set_Add (NewSet (Lim_Set (ctx_Limits c)), 0) (drop 2 args) = Some (s, int (card (set (drop 2 args))))"
      "set_inv s" "set_members s = set (drop 2 args)" by auto
    with storeValue_to[OF inv, of "MakeSet s" "args ! 1"] L that a show ?thesis by (auto simp: cmdSAdd_def)
  qed
  show "cmdSAdd rt c args = Some (c, RError msgWrongType)"
    if "old = Some e" "Value_Kind (Entry_Value e) \<noteq> KindSet" using L that a by (simp add: cmdSAdd_def)
  show "\<exists>c' s'. cmdSAdd rt c args = Some (c', RInt (int (card (set_members s')) - int (card (set_members s))))
      \<and> ctx_to rt c c' ((store_of rt c)(args ! 1 \<mapsto> e\<lparr>Entry_Value := MakeSet s'\<rparr>))
      \<and> set_members s' = set_members s \<union> set (drop 2 args)" if "old = Some e" "Entry_Value e = MakeSet s"
  proof -
    note S = lookupEntry_SomeD[OF inv, of "args ! 1" e, unfolded L, OF that(1)]
    from st.add_all[OF _ ok, of s 0] S(2) that(2) obtain s' where
      s': "foldCount Set_Add (s, 0) (drop 2 args) = Some (s', int (card (set_members s')) - int (card (set_members s)))"
      "set_inv s'" "set_members s' = set_members s \<union> set (drop 2 args)" by auto
    with pokeValue_to[OF inv, of "MakeSet s'" "args ! 1" e] S(1) L that a show ?thesis
      by (intro exI[of _ "pokeValue rt c (args ! 1) (MakeSet s')"] exI[of _ s']) (simp add: cmdSAdd_def)
  qed
qed

lemma cmdSRem_spec:
  assumes inv: "ctx_inv rt c" and a: "2 \<le> length args"
    and old: "live (ctx_now c) (store_of rt c) (args ! 1) = Some e" and s: "Entry_Value e = MakeSet s"
  shows "\<exists>c' s'. cmdSRem rt c args = Some (c', RInt (int (card (set_members s)) - int (card (set_members s'))))
    \<and> set_members s' = set_members s - set (drop 2 args)
    \<and> ctx_to rt c c' ((store_of rt c)(args ! 1 :=
        if set_members s' = {} then None else Some (e\<lparr>Entry_Value := MakeSet s'\<rparr>)))"
proof -
  note S = lookupEntry_SomeD[OF inv, of "args ! 1" e, unfolded lookupEntry_live[OF inv], OF old]
  from st.remove_all[of s 0 "drop 2 args"] S(2) s obtain s' where
    s': "foldCount Set_Remove (s, 0) (drop 2 args) = Some (s', int (card (set_members s)) - int (card (set_members s')))"
      "set_inv s'" "set_members s' = set_members s - set (drop 2 args)" by auto
  have "ctx_to rt c (dropIfEmpty rt c (args ! 1) (MakeSet s') (Set_Len s')) ((store_of rt c)(args ! 1 :=
        if set_members s' = {} then None else Some (e\<lparr>Entry_Value := MakeSet s'\<rparr>)))"
    using dropIfEmpty_to[OF inv, of "MakeSet s'" "args ! 1" e "Set_Len s'"] S(1) s'(2) st.len_zero[OF s'(2)]
    by simp
  with s'(1,3) s old a inv show ?thesis
    by (intro exI[of _ "dropIfEmpty rt c (args ! 1) (MakeSet s') (Set_Len s')"] exI[of _ s'])
       (simp add: cmdSRem_def lookupEntry_live)
qed

lemma cmdSRem_others:
  assumes inv: "ctx_inv rt c" and a: "2 \<le> length args"
  shows "live (ctx_now c) (store_of rt c) (args ! 1) = None \<Longrightarrow> cmdSRem rt c args = Some (c, RInt 0)"
    "live (ctx_now c) (store_of rt c) (args ! 1) = Some e \<Longrightarrow> Value_Kind (Entry_Value e) \<noteq> KindSet \<Longrightarrow>
       cmdSRem rt c args = Some (c, RError msgWrongType)"
  using a by (auto simp: cmdSRem_def lookupEntry_live[OF inv])

subsection \<open>Intersection\<close>

text \<open>The members of the sets a list of keys names; \<open>None\<close> when one of them is missing.\<close>

definition set_at :: "runtime \<Rightarrow> Context \<Rightarrow> bytes \<Rightarrow> mcSet \<Rightarrow> bool" where
  "set_at rt c k s \<longleftrightarrow> (\<exists>e. live (ctx_now c) (store_of rt c) k = Some e \<and> Entry_Value e = MakeSet s)"

lemma set_at_inv: "ctx_inv rt c \<Longrightarrow> set_at rt c k s \<Longrightarrow> set_inv s"
  using lookupEntry_SomeD(2)[of rt c k] by (fastforce simp: set_at_def lookupEntry_live)

lemma sinter_sets_all:
  assumes "ctx_inv rt c" "list_all2 (set_at rt c) ks ss"
  shows "sinter_sets rt c ks sets = Some (Inr (sets @ ss))"
  using assms(2)
proof (induction arbitrary: sets rule: list_all2_induct)
  case (Cons k ks s ss)
  then show ?case using lookupEntry_live[OF assms(1)] by (auto simp: set_at_def)
qed simp

lemma sinter_sets_total:
  assumes "ctx_inv rt c"
  shows "\<exists>r. sinter_sets rt c ks sets = Some r"
proof (induction ks arbitrary: sets)
  case (Cons k ks)
  then show ?case using Value_KindE(4) by (fastforce split: option.splits)
qed simp

lemma sinter_sets_sets:
  assumes "ctx_inv rt c" "sinter_sets rt c ks sets = Some (Inr r)"
  shows "\<exists>ss. r = sets @ ss \<and> list_all2 (set_at rt c) ks ss"
  using assms(2)
proof (induction ks arbitrary: sets)
  case (Cons k ks)
  then obtain e s where e: "lookupEntry rt c k = Some e" "Entry_Value e = MakeSet s"
    and r: "sinter_sets rt c ks (sets @ [s]) = Some (Inr r)"
    by (auto split: option.splits if_splits dest!: Value_KindE(4))
  from Cons.IH[OF r] obtain ss where "r = (sets @ [s]) @ ss" "list_all2 (set_at rt c) ks ss" by blast
  moreover have "set_at rt c k s" using e lookupEntry_live[OF assms(1)] by (auto simp: set_at_def)
  ultimately show ?case by (intro exI[of _ "s # ss"]) simp
qed simp

lemma in_all_spec:
  "\<forall>s \<in> set ss. set_inv s \<Longrightarrow> in_all skip m i ss = Some (\<forall>j < length ss. i + j \<noteq> skip \<longrightarrow> m \<in> set_members (ss ! j))"
proof (induction ss arbitrary: i)
  case (Cons s ss)
  have split: "(\<forall>j < length (s # ss). i + j \<noteq> skip \<longrightarrow> m \<in> set_members ((s # ss) ! j)) \<longleftrightarrow>
      (i \<noteq> skip \<longrightarrow> m \<in> set_members s) \<and> (\<forall>j < length ss. Suc i + j \<noteq> skip \<longrightarrow> m \<in> set_members (ss ! j))"
    by (auto simp: less_Suc_eq_0_disj)
  from Cons st.contains[of s m] show ?case unfolding split by auto
qed simp

lemma sinter_members_spec:
  assumes "\<forall>s \<in> set ss. set_inv s"
  shows "sinter_members skip ss ms = Some (filter (\<lambda>m. \<forall>j < length ss. j \<noteq> skip \<longrightarrow> m \<in> set_members (ss ! j)) ms)"
  using in_all_spec[OF assms, of skip _ 0] by (induction ms) auto

lemma smallest_from_bound:
  "best < length ss \<Longrightarrow> \<forall>i \<in> set is. i < length ss \<Longrightarrow> smallest_from ss best is < length ss"
  by (induction "is" arbitrary: best) auto

lemma cmdSInter_spec:
  assumes inv: "ctx_inv rt c" and a: "2 \<le> length args" and ss: "list_all2 (set_at rt c) (drop 1 args) ss"
  shows "\<exists>out. cmdSInter rt c args = Some (c, RArray (map RBulk out)) \<and> distinct out
    \<and> set out = \<Inter> (set_members ` set ss)"
proof -
  have S: "\<forall>s \<in> set ss. set_inv s"
    using ss by (induction rule: list_all2_induct) (auto dest: set_at_inv[OF inv])
  have ne: "ss \<noteq> []" using ss a by (auto dest!: list_all2_lengthD)
  define sm where "sm = smallest_from ss 0 [0..<length ss]"
  have sm: "sm < length ss" unfolding sm_def using ne by (intro smallest_from_bound) auto
  with S st.all[of "ss ! sm" "rt_pick rt"] obtain ms where
    ms: "Set_Members (rt_pick rt) (ss ! sm) = Some ms" "distinct ms" "set ms = set_members (ss ! sm)" by auto
  let ?out = "filter (\<lambda>m. \<forall>j < length ss. j \<noteq> sm \<longrightarrow> m \<in> set_members (ss ! j)) ms"
  have "set ?out = \<Inter> (set_members ` set ss)"
  proof -
    have "m \<in> \<Inter> (set_members ` set ss) \<longleftrightarrow> (\<forall>j < length ss. m \<in> set_members (ss ! j))" for m
      by (simp add: all_set_conv_all_nth)
    with ms(3) sm show ?thesis by auto
  qed
  moreover have "cmdSInter rt c args = Some (c, RArray (map RBulk ?out))"
    using a ne ms(1) sinter_sets_all[OF inv ss, of "[]"] sinter_members_spec[OF S, of sm ms]
    by (simp add: cmdSInter_def flip: sm_def)
  ultimately show ?thesis using ms(2) by (intro exI[of _ ?out]) simp
qed

lemma cmdSInter_reads:
  assumes inv: "ctx_inv rt c" and a: "2 \<le> length args"
  shows "\<exists>r. cmdSInter rt c args = Some (c, r)"
proof -
  from sinter_sets_total[OF inv] obtain r where r: "sinter_sets rt c (drop 1 args) [] = Some r" by blast
  show ?thesis
  proof (cases r)
    case (Inl x)
    with r a show ?thesis by (simp add: cmdSInter_def)
  next
    case (Inr ss)
    with sinter_sets_sets[OF inv, of "drop 1 args" "[]" ss] r have "list_all2 (set_at rt c) (drop 1 args) ss" by simp
    from cmdSInter_spec[OF inv a this] show ?thesis by blast
  qed
qed

section \<open>Sorted sets\<close>

lemma parseScores_ok:
  "parseScores rt ps = Some qs \<Longrightarrow> \<forall>(a, m) \<in> set ps. slice_ok m \<Longrightarrow> \<forall>(m, sc) \<in> set qs. slice_ok m \<and> \<not> f64_isNaN sc"
proof (induction ps arbitrary: qs)
  case (Cons p ps)
  obtain a m where p: "p = (a, m)" by (cases p)
  with Cons.prems obtain sc qs' where
    "\<not> f64_isNaN sc" "parseScores rt ps = Some qs'" "qs = (m, sc) # qs'" "slice_ok m"
    by (auto split: option.splits if_splits)
  with Cons.IH[of qs'] Cons.prems(2) show ?case by simp
qed simp

lemma cmdZAdd_spec:
  assumes inv: "ctx_inv rt c" and a: "2 \<le> length args" "even (length args)"
    and ok: "\<forall>v \<in> set (drop 2 args). slice_ok v" and ps: "parseScores rt (pairs_of (drop 2 args)) = Some qs"
  defines "old \<equiv> live (ctx_now c) (store_of rt c) (args ! 1)"
  shows "old = None \<Longrightarrow> \<exists>c' z. cmdZAdd rt c args = Some (c', RInt (ZSet_Len z))
      \<and> ctx_to rt c c' ((store_of rt c)(args ! 1 \<mapsto> fresh_entry (MakeZSet z)))
      \<and> score_keys (map_of (zset_entries z)) = score_keys (map_of (rev qs))"
    "old = Some e \<Longrightarrow> Value_Kind (Entry_Value e) \<noteq> KindZSet \<Longrightarrow> cmdZAdd rt c args = Some (c, RError msgWrongType)"
    "old = Some e \<Longrightarrow> Entry_Value e = MakeZSet z \<Longrightarrow>
      \<exists>c' z'. cmdZAdd rt c args = Some (c', RInt (ZSet_Len z' - ZSet_Len z))
      \<and> ctx_to rt c c' ((store_of rt c)(args ! 1 \<mapsto> e\<lparr>Entry_Value := MakeZSet z'\<rparr>))
      \<and> score_keys (map_of (zset_entries z')) = score_keys (map_of (zset_entries z) ++ map_of (rev qs))"
proof -
  note L = lookupEntry_live[OF inv, of "args ! 1", folded old_def]
  have q: "\<forall>(m, sc) \<in> set qs. slice_ok m \<and> \<not> f64_isNaN sc"
    using parseScores_ok[OF ps] ok set_pairs_of by fastforce
  show "\<exists>c' z. cmdZAdd rt c args = Some (c', RInt (ZSet_Len z))
      \<and> ctx_to rt c c' ((store_of rt c)(args ! 1 \<mapsto> fresh_entry (MakeZSet z)))
      \<and> score_keys (map_of (zset_entries z)) = score_keys (map_of (rev qs))" if "old = None"
  proof -
    let ?z = "NewZSet (rt_draws rt) (Lim_ZSet (ctx_Limits c))"
    from zs.add_all[OF zset_inv_New(1) q, of "rt_draws rt" "Lim_ZSet (ctx_Limits c)" 0] obtain z where
      z: "zaddAll ?z qs = Some (z, ZSet_Len z)" "zset_inv z"
        "score_keys (map_of (zset_entries z)) = score_keys (map_of (rev qs))"
      by (auto simp: zaddAll_def zs.len)
    with storeValue_to[OF inv, of "MakeZSet z" "args ! 1"] L that a ps show ?thesis by (auto simp: cmdZAdd_def)
  qed
  show "cmdZAdd rt c args = Some (c, RError msgWrongType)"
    if "old = Some e" "Value_Kind (Entry_Value e) \<noteq> KindZSet" using L that a ps by (simp add: cmdZAdd_def)
  show "\<exists>c' z'. cmdZAdd rt c args = Some (c', RInt (ZSet_Len z' - ZSet_Len z))
      \<and> ctx_to rt c c' ((store_of rt c)(args ! 1 \<mapsto> e\<lparr>Entry_Value := MakeZSet z'\<rparr>))
      \<and> score_keys (map_of (zset_entries z')) = score_keys (map_of (zset_entries z) ++ map_of (rev qs))"
    if "old = Some e" "Entry_Value e = MakeZSet z"
  proof -
    note S = lookupEntry_SomeD[OF inv, of "args ! 1" e, unfolded L, OF that(1)]
    from zs.add_all[OF _ q, of z 0] S(2) that(2) obtain z' where
      "zaddAll z qs = Some (z', ZSet_Len z' - ZSet_Len z)" "zset_inv z'"
      "score_keys (map_of (zset_entries z')) = score_keys (map_of (zset_entries z) ++ map_of (rev qs))"
      by (auto simp: zaddAll_def)
    with pokeValue_to[OF inv, of "MakeZSet z'" "args ! 1" e] S(1) L that a ps show ?thesis
      by (intro exI[of _ "pokeValue rt c (args ! 1) (MakeZSet z')"] exI[of _ z']) (simp add: cmdZAdd_def)
  qed
qed

text \<open>No score is applied unless every score of the request is valid.\<close>

lemma cmdZAdd_rejects:
  "odd (length args) \<or> parseScores rt (pairs_of (drop 2 args)) = None \<Longrightarrow> \<exists>r. cmdZAdd rt c args = Some (c, RError r)"
  by (auto simp: cmdZAdd_def odd_iff_mod_2_eq_one)

lemma cmdZRange_spec:
  assumes inv: "ctx_inv rt c" and a: "length args = 4" "parseInt (args ! 2) = Some i" "parseInt (args ! 3) = Some j"
    and old: "live (ctx_now c) (store_of rt c) (args ! 1) = Some e" and z: "Entry_Value e = MakeZSet z"
  shows "cmdZRange rt c args = Some (c, RArray (map (\<lambda>(m, s). RBulk m) (slice_of i j (zset_entries z))))"
proof -
  note S = lookupEntry_SomeD[OF inv, of "args ! 1" e, unfolded lookupEntry_live[OF inv], OF old]
  with z have "zset_inv z" by simp
  with zs.range_rank[of z i j] old z a inv show ?thesis by (simp add: cmdZRange_def lookupEntry_live)
qed

end
