(* ===== verification/TableProps.thy ===== *)
theory TableProps
  imports CollProps
begin

text \<open>
  Facts about every command of the table at once: a handler returns a reply (it does not
  panic), keeps the session well formed, touches no key it did not declare, and changes
  nothing when the command is read-only. This is what lets the executor lock only the
  shards of the declared keys.
\<close>

section \<open>Read-only handlers\<close>

definition args_ok :: "bytes list \<Rightarrow> bool" where
  "args_ok args \<longleftrightarrow> (\<forall>a \<in> set args. slice_ok a)"

lemma args_ok_drop: "args_ok args \<Longrightarrow> \<forall>v \<in> set (drop n args). slice_ok v"
  by (auto simp: args_ok_def dest: in_set_dropD)

lemma args_ok_nth: "args_ok args \<Longrightarrow> i < length args \<Longrightarrow> slice_ok (args ! i)"
  by (simp add: args_ok_def)

lemma lookup_value_inv:
  assumes "ctx_inv rt c" "lookupEntry rt c k = Some e"
  shows "Entry_Value e = MakeList l \<Longrightarrow> list_inv l" "Entry_Value e = MakeHash h \<Longrightarrow> hash_inv h"
    "Entry_Value e = MakeSet s \<Longrightarrow> set_inv s" "Entry_Value e = MakeZSet z \<Longrightarrow> zset_inv z"
  using lookupEntry_SomeD(2)[OF assms] by auto

lemma reads_strings:
  assumes "ctx_inv rt c" "2 \<le> length args"
  shows "\<exists>r. cmdGet rt c args = Some (c, r)" "\<exists>r. cmdExists rt c args = Some (c, r)"
    "\<exists>r. cmdTTL rt c args = Some (c, r)" "\<exists>r. cmdType rt c args = Some (c, r)"
  using cmdGet_spec[OF assms] cmdExists_spec[of args rt c] assms(2) by (auto simp: cmdTTL_def cmdType_def)

lemma list_entry_cases:
  assumes "ctx_inv rt c"
  obtains (none) "lookupEntry rt c k = None"
    | (other) e where "lookupEntry rt c k = Some e" "Value_Kind (Entry_Value e) \<noteq> KindList"
    | (list) e l where "lookupEntry rt c k = Some e" "Entry_Value e = MakeList l" "list_inv l"
  using lookup_value_inv(1)[OF assms, of k] Value_KindE(2) by (cases "lookupEntry rt c k") blast+

lemma hash_entry_cases:
  assumes "ctx_inv rt c"
  obtains (none) "lookupEntry rt c k = None"
    | (other) e where "lookupEntry rt c k = Some e" "Value_Kind (Entry_Value e) \<noteq> KindHash"
    | (hash) e h where "lookupEntry rt c k = Some e" "Entry_Value e = MakeHash h" "hash_inv h"
  using lookup_value_inv(2)[OF assms, of k] Value_KindE(3) by (cases "lookupEntry rt c k") blast+

lemma set_entry_cases:
  assumes "ctx_inv rt c"
  obtains (none) "lookupEntry rt c k = None"
    | (other) e where "lookupEntry rt c k = Some e" "Value_Kind (Entry_Value e) \<noteq> KindSet"
    | (set) e s where "lookupEntry rt c k = Some e" "Entry_Value e = MakeSet s" "set_inv s"
  using lookup_value_inv(3)[OF assms, of k] Value_KindE(4) by (cases "lookupEntry rt c k") blast+

lemma zset_entry_cases:
  assumes "ctx_inv rt c"
  obtains (none) "lookupEntry rt c k = None"
    | (other) e where "lookupEntry rt c k = Some e" "Value_Kind (Entry_Value e) \<noteq> KindZSet"
    | (zset) e z where "lookupEntry rt c k = Some e" "Entry_Value e = MakeZSet z" "zset_inv z"
  using lookup_value_inv(4)[OF assms, of k] Value_KindE(5) by (cases "lookupEntry rt c k") blast+

lemma reads_lists:
  assumes inv: "ctx_inv rt c" and a: "2 \<le> length args"
  shows "4 \<le> length args \<Longrightarrow> \<exists>r. cmdLRange rt c args = Some (c, r)" "\<exists>r. cmdLLen rt c args = Some (c, r)"
  by (cases rule: list_entry_cases[OF inv, of "args ! 1"];
      use a in \<open>auto simp: cmdLRange_def cmdLLen_def ls.elem_range split: option.split\<close>)+

lemma reads_hashes:
  assumes inv: "ctx_inv rt c" and a: "2 \<le> length args"
  shows "3 \<le> length args \<Longrightarrow> \<exists>r. cmdHGet rt c args = Some (c, r)" "\<exists>r. cmdHGetAll rt c args = Some (c, r)"
proof -
  show "\<exists>r. cmdHGet rt c args = Some (c, r)" if "3 \<le> length args"
    by (cases rule: hash_entry_cases[OF inv, of "args ! 1"]; use a that in \<open>auto simp: cmdHGet_def hs.get\<close>)
  show "\<exists>r. cmdHGetAll rt c args = Some (c, r)"
  proof (cases rule: hash_entry_cases[OF inv, of "args ! 1", case_names none other hash])
    case (hash e h)
    with hs.pairs[of h "rt_pick rt"] a show ?thesis by (auto simp: cmdHGetAll_def)
  qed (use a in \<open>auto simp: cmdHGetAll_def\<close>)
qed

lemma reads_sets:
  assumes inv: "ctx_inv rt c" and a: "2 \<le> length args"
  shows "\<exists>r. cmdSMembers rt c args = Some (c, r)"
proof (cases rule: set_entry_cases[OF inv, of "args ! 1", case_names none other set])
  case (set e s)
  with st.all[of s "rt_pick rt"] a show ?thesis by (auto simp: cmdSMembers_def)
qed (use a in \<open>auto simp: cmdSMembers_def\<close>)

lemma reads_zsets:
  assumes inv: "ctx_inv rt c" and a: "2 \<le> length args"
  shows "4 \<le> length args \<Longrightarrow> \<exists>r. cmdZRange rt c args = Some (c, r)"
    "3 \<le> length args \<Longrightarrow> \<exists>r. cmdZScore rt c args = Some (c, r)"
  by (cases rule: zset_entry_cases[OF inv, of "args ! 1"];
      use a in \<open>auto simp: cmdZRange_def cmdZScore_def zs.range_rank zs.score split: option.split\<close>)+

section \<open>Writing handlers\<close>

definition entry_at :: "runtime \<Rightarrow> Context \<Rightarrow> nat \<Rightarrow> store" where
  "entry_at rt c d = db_ents (rt_hash rt) (ctx_databases c ! d)"

definition touches_only :: "runtime \<Rightarrow> Context \<Rightarrow> Context \<Rightarrow> bytes set \<Rightarrow> bool" where
  "touches_only rt c c' K \<longleftrightarrow>
     ctx_inv rt c' \<and> length (ctx_databases c') = length (ctx_databases c)
     \<and> (\<forall>d < length (ctx_databases c). \<forall>k. (d = ctx_index c \<and> k \<in> K) \<or> entry_at rt c' d k = entry_at rt c d k)"

lemma touches_only_refl: "ctx_inv rt c \<Longrightarrow> touches_only rt c c K"
  by (simp add: touches_only_def)

lemma ctx_to_touches:
  assumes "ctx_to rt c c' m" "\<And>k. k \<notin> K \<Longrightarrow> m k = store_of rt c k"
  shows "touches_only rt c c' K"
proof -
  have "entry_at rt c' d k = entry_at rt c d k" if "d \<noteq> ctx_index c \<or> k \<notin> K" for d k
    using assms that
    by (cases "d = ctx_index c") (auto simp: ctx_to_def same_session_def entry_at_def store_of_def ctx_Keyspace_def)
  with assms(1) show ?thesis by (auto simp: touches_only_def ctx_to_def same_session_def)
qed

definition returns_touching :: "runtime \<Rightarrow> Context \<Rightarrow> bytes set \<Rightarrow> (Context \<times> Reply) option \<Rightarrow> bool" where
  "returns_touching rt c K res \<longleftrightarrow> (\<exists>c' r. res = Some (c', r) \<and> touches_only rt c c' K)"

lemma returns_touchingI: "res = Some (c', r) \<Longrightarrow> touches_only rt c c' K \<Longrightarrow> returns_touching rt c K res"
  by (auto simp: returns_touching_def)

lemma returns_same: "ctx_inv rt c \<Longrightarrow> \<exists>r. res = Some (c, r) \<Longrightarrow> returns_touching rt c K res"
  by (auto simp: returns_touching_def touches_only_refl)

lemma returns_upd:
  assumes "res = Some (c', r)" "ctx_to rt c c' ((store_of rt c)(k := x))"
  shows "returns_touching rt c {k} res"
  using assms(1) ctx_to_touches[OF assms(2), of "{k}"] by (auto intro: returns_touchingI)

lemma writes_set:
  assumes "ctx_inv rt c" "args_ok args" "3 \<le> length args"
  shows "returns_touching rt c {args ! 1} (cmdSet rt c args)"
proof -
  from cmdSet_spec[OF assms(1,3)] args_ok_nth[OF assms(2), of 2] assms(3) obtain c' where
    "cmdSet rt c args = Some (c', Reply_OK)"
    "ctx_to rt c c' ((store_of rt c)(args ! 1 \<mapsto> fresh_entry (MakeString (args ! 2))))" by auto
  then show ?thesis by (rule returns_upd)
qed

lemma writes_incr:
  assumes inv: "ctx_inv rt c" and d: "delta \<in> {1, -1}"
  shows "returns_touching rt c {k} (incrBy rt c k delta)"
proof (cases "live (ctx_now c) (store_of rt c) k")
  case None
  from incrBy_absent[OF inv this d] obtain c' where "incrBy rt c k delta = Some (c', RInt delta)"
    "ctx_to rt c c' ((store_of rt c)(k \<mapsto> fresh_entry (MakeString (formatInt delta))))" by blast
  then show ?thesis by (rule returns_upd)
next
  case (Some e)
  show ?thesis
  proof (cases "Value_Kind (Entry_Value e) = KindString")
    case True
    then obtain s where s: "Entry_Value e = MakeString s" using Value_KindE(1) by blast
    show ?thesis
    proof (cases "\<exists>n. parseInt s = Some n \<and> int64_ok (n + delta)")
      case True
      then obtain n where n: "parseInt s = Some n" "int64_ok (n + delta)" by blast
      from incrBy_number[OF inv Some s n d] obtain c' where "incrBy rt c k delta = Some (c', RInt (n + delta))"
        "ctx_to rt c c' ((store_of rt c)(k \<mapsto> e\<lparr>Entry_Value := MakeString (formatInt (n + delta))\<rparr>))" by blast
      then show ?thesis by (rule returns_upd)
    next
      case False
      then show ?thesis
        using incrBy_errors(2,3)[OF inv Some s] d by (intro returns_same[OF inv]) (cases "parseInt s"; auto)
    qed
  next
    case False
    with incrBy_errors(1)[OF inv Some] show ?thesis by (intro returns_same[OF inv]) auto
  qed
qed

lemma writes_keys:
  assumes inv: "ctx_inv rt c" and a: "1 \<le> length args"
  shows "returns_touching rt c (set (drop 1 args)) (cmdDel rt c args)"
    "returns_touching rt c (set (drop 1 args)) (cmdUnlink rt c args)"
proof -
  have m: "(store_of rt c |` (- set (drop 1 args))) k = store_of rt c k" if "k \<notin> set (drop 1 args)" for k
    using that by (simp add: restrict_map_def)
  from cmdDel_spec[OF inv a] obtain c' r where "cmdDel rt c args = Some (c', r)"
    "ctx_to rt c c' (store_of rt c |` (- set (drop 1 args)))" by blast
  with m show "returns_touching rt c (set (drop 1 args)) (cmdDel rt c args)"
    by (blast intro: returns_touchingI ctx_to_touches)
  from cmdUnlink_spec[OF inv a] obtain c' r where "cmdUnlink rt c args = Some (c', r)"
    "ctx_to rt c c' (store_of rt c |` (- set (drop 1 args)))" by blast
  with m show "returns_touching rt c (set (drop 1 args)) (cmdUnlink rt c args)"
    by (blast intro: returns_touchingI ctx_to_touches)
qed

lemma writes_setExpire:
  assumes inv: "ctx_inv rt c"
  shows "returns_touching rt c {k} (Some (setExpire rt c k at))"
proof -
  from setExpire_spec[OF inv, of k at] obtain c' r where c': "setExpire rt c k at = (c', r)"
    "ctx_to rt c c' (case live (ctx_now c) (store_of rt c) k of
        None \<Rightarrow> store_of rt c | Some e \<Rightarrow> (store_of rt c)(k \<mapsto> e\<lparr>ExpireAt := at\<rparr>))" by blast
  have "Some (setExpire rt c k at) = Some (c', r)" using c'(1) by simp
  then show ?thesis using c'(2) unfolding upd_case_option by (rule returns_upd)
qed

lemma writes_expiry:
  assumes inv: "ctx_inv rt c" and a: "2 \<le> length args"
  shows "3 \<le> length args \<Longrightarrow> returns_touching rt c {args ! 1} (cmdExpire rt c args)"
    "3 \<le> length args \<Longrightarrow> returns_touching rt c {args ! 1} (cmdPExpireAt rt c args)"
    "returns_touching rt c {args ! 1} (cmdPersist rt c args)"
proof -
  show "returns_touching rt c {args ! 1} (cmdExpire rt c args)" if "3 \<le> length args"
    using that writes_setExpire[OF inv] returns_same[OF inv] by (auto simp: cmdExpire_def split: option.splits)
  show "returns_touching rt c {args ! 1} (cmdPExpireAt rt c args)" if "3 \<le> length args"
    using that writes_setExpire[OF inv] returns_same[OF inv] by (auto simp: cmdPExpireAt_def split: option.splits)
  from cmdPersist_spec[OF inv a] obtain c' r where c': "cmdPersist rt c args = Some (c', r)"
    "ctx_to rt c c' (case live (ctx_now c) (store_of rt c) (args ! 1) of
        None \<Rightarrow> store_of rt c | Some e \<Rightarrow> (store_of rt c)(args ! 1 \<mapsto> e\<lparr>ExpireAt := zeroTime\<rparr>))" by blast
  from returns_upd[OF c'(1) c'(2)[unfolded upd_case_option]]
  show "returns_touching rt c {args ! 1} (cmdPersist rt c args)" .
qed


lemma writes_listPush:
  assumes inv: "ctx_inv rt c" and a: "2 \<le> length args" and ok: "args_ok args"
  shows "returns_touching rt c {args ! 1} (listPush rt c args front)"
proof (cases "live (ctx_now c) (store_of rt c) (args ! 1)")
  case None
  from listPush_spec(1)[OF inv a args_ok_drop[OF ok] None] show ?thesis by (blast intro: returns_upd)
next
  case (Some e)
  from listPush_spec(2,3)[OF inv a args_ok_drop[OF ok] Some] Value_KindE(2)[of "Entry_Value e"]
  show ?thesis by (blast intro: returns_upd returns_same[OF inv])
qed

text \<open>A \<open>count\<close> that \<open>LPOP\<close> and \<open>RPOP\<close> cannot allocate replies for.\<close>

definition hugeCount :: "bytes list \<Rightarrow> bool" where
  "hugeCount args \<longleftrightarrow> length args = 3 \<and> (case parseInt (args ! 2) of None \<Rightarrow> False | Some n \<Rightarrow> makeReplies n = None)"

lemma popCount_cases:
  assumes "2 \<le> length args"
  obtains (err) r where "popCount args = Some (Inl r)" | (one) "length args = 2"
    | (many) n where "length args = 3" "parseInt (args ! 2) = Some n" "0 \<le> n"
proof (cases "length args = 3 \<and> parseInt (args ! 2) \<noteq> None")
  case True
  then obtain n where n: "length args = 3" "parseInt (args ! 2) = Some n" by auto
  then show thesis using err many by (cases "n < 0") (auto simp: popCount_def)
next
  case False
  with assms err one show thesis
    by (cases "length args = 2"; cases "length args > 3") (auto simp: popCount_def)
qed

lemma writes_listPop:
  assumes inv: "ctx_inv rt c" and a: "2 \<le> length args" and n: "\<not> hugeCount args"
  shows "returns_touching rt c {args ! 1} (listPop rt c args front)"
proof (cases rule: popCount_cases[OF a, case_names err one many])
  case (err r)
  with listPop_others(3)[OF inv a] show ?thesis by (blast intro: returns_same[OF inv])
next
  case one
  from listPop_others(1,2)[OF inv a] listPop_one_spec[OF inv one] Value_KindE(2) show ?thesis
    unfolding list_left_def
    by (cases "live (ctx_now c) (store_of rt c) (args ! 1)") (blast intro: returns_upd returns_same[OF inv])+
next
  case (many m)
  with n have "m * 80 \<le> 281474976710656" by (auto simp: hugeCount_def makeReplies_def split: if_splits)
  from listPop_others(1,2)[OF inv a] listPop_many_spec[OF inv many this] Value_KindE(2) show ?thesis
    unfolding list_left_def
    by (cases "live (ctx_now c) (store_of rt c) (args ! 1)") (blast intro: returns_upd returns_same[OF inv])+
qed

lemma writes_hset:
  assumes inv: "ctx_inv rt c" and a: "2 \<le> length args" and ok: "args_ok args"
  shows "returns_touching rt c {args ! 1} (cmdHSet rt c args)"
proof (cases "even (length args)")
  case True
  from cmdHSet_spec[OF inv a True args_ok_drop[OF ok]] Value_KindE(3) show ?thesis
    by (cases "live (ctx_now c) (store_of rt c) (args ! 1)") (blast intro: returns_upd returns_same[OF inv])+
next
  case False
  with cmdHSet_odd show ?thesis by (blast intro: returns_same[OF inv])
qed

lemma writes_hdel:
  assumes inv: "ctx_inv rt c" and a: "2 \<le> length args"
  shows "returns_touching rt c {args ! 1} (cmdHDel rt c args)"
  using cmdHDel_spec[OF inv a] cmdHDel_others[OF inv a] Value_KindE(3)
  by (cases "live (ctx_now c) (store_of rt c) (args ! 1)") (blast intro: returns_upd returns_same[OF inv])+

lemma writes_sadd:
  assumes inv: "ctx_inv rt c" and a: "2 \<le> length args" and ok: "args_ok args"
  shows "returns_touching rt c {args ! 1} (cmdSAdd rt c args)"
  using cmdSAdd_spec[OF inv a args_ok_drop[OF ok]] Value_KindE(4)
  by (cases "live (ctx_now c) (store_of rt c) (args ! 1)") (blast intro: returns_upd returns_same[OF inv])+

lemma writes_srem:
  assumes inv: "ctx_inv rt c" and a: "2 \<le> length args"
  shows "returns_touching rt c {args ! 1} (cmdSRem rt c args)"
  using cmdSRem_spec[OF inv a] cmdSRem_others[OF inv a] Value_KindE(4)
  by (cases "live (ctx_now c) (store_of rt c) (args ! 1)") (blast intro: returns_upd returns_same[OF inv])+

lemma writes_zadd:
  assumes inv: "ctx_inv rt c" and a: "2 \<le> length args" and ok: "args_ok args"
  shows "returns_touching rt c {args ! 1} (cmdZAdd rt c args)"
proof (cases "odd (length args) \<or> parseScores rt (pairs_of (drop 2 args)) = None")
  case True
  with cmdZAdd_rejects show ?thesis by (blast intro: returns_same[OF inv])
next
  case False
  then obtain qs where e: "even (length args)" and q: "parseScores rt (pairs_of (drop 2 args)) = Some qs" by auto
  from cmdZAdd_spec[OF inv a e args_ok_drop[OF ok] q] Value_KindE(5) show ?thesis
    by (cases "live (ctx_now c) (store_of rt c) (args ! 1)") (blast intro: returns_upd returns_same[OF inv])+
qed

section \<open>Server commands\<close>

lemma ctx_inv_settings [simp]: "ctx_inv rt (c\<lparr>ctx_Settings := s\<rparr>) = ctx_inv rt c"
  by (simp add: ctx_inv_def)

lemma writes_server:
  assumes inv: "ctx_inv rt c"
  shows "returns_touching rt c {} (cmdPing rt c args)"
    "2 \<le> length args \<Longrightarrow> returns_touching rt c {} (cmdSelect rt c args)"
    "2 \<le> length args \<Longrightarrow> returns_touching rt c {} (cmdConfig rt c args)"
    "returns_touching rt c UNIV (cmdFlushDB rt c args)"
proof -
  show "returns_touching rt c {} (cmdPing rt c args)"
    by (rule returns_same[OF inv]) (auto simp: cmdPing_def)
  show "returns_touching rt c {} (cmdSelect rt c args)" if "2 \<le> length args"
    using that inv
    by (auto simp: cmdSelect_def Context_Select_def returns_touching_def touches_only_def ctx_inv_def entry_at_def
        split: option.splits)
  show "returns_touching rt c {} (cmdConfig rt c args)" if "2 \<le> length args"
    using that inv
    by (auto simp: cmdConfig_def returns_touching_def touches_only_def entry_at_def split: option.splits sum.splits)
  from db.flush[OF ctx_inv_db[OF inv]] have "db_inv (rt_hash rt) (DB_Flush (ctx_Keyspace c))" by simp
  from ctx_to_touches[OF with_db_to[OF inv this]] show "returns_touching rt c UNIV (cmdFlushDB rt c args)"
    by (auto simp: cmdFlushDB_def returns_touching_def)
qed

section \<open>The whole table\<close>

definition declared :: "Command \<Rightarrow> bytes list \<Rightarrow> bytes set" where
  "declared cmd args = (if cmd_wholeDB cmd then UNIV else set (Keys cmd args))"

lemma Keys_one: "2 \<le> length args \<Longrightarrow> Keys (readKey n a h) args = [args ! 1]"
  "2 \<le> length args \<Longrightarrow> Keys (writeKey n a h) args = [args ! 1]"
  by (simp_all add: Keys_def readKey_def writeKey_def upto_single)

lemma map_nth_upto: "map (\<lambda>i. args ! nat i) [1..int (length args) - 1] = drop 1 args"
proof (rule nth_equalityI)
  fix i assume "i < length (map (\<lambda>i. args ! nat i) [1..int (length args) - 1])"
  then have i: "Suc i < length args" by auto
  then have "nat (1 + int i) = Suc i" by simp
  moreover have "[1..int (length args) - 1] ! i = 1 + int i" using i by (intro nth_upto) simp
  ultimately show "map (\<lambda>i. args ! nat i) [1..int (length args) - 1] ! i = drop 1 args ! i" using i by simp
qed simp

lemma Keys_many: "2 \<le> length args \<Longrightarrow> Keys (readKeys n a h) args = drop 1 args"
  "2 \<le> length args \<Longrightarrow> Keys (writeKeys n a h) args = drop 1 args"
  using map_nth_upto[of args] by (simp_all add: Keys_def readKeys_def writeKeys_def)

definition safe :: "Command \<Rightarrow> bool" where
  "safe cmd \<longleftrightarrow> (\<forall>rt c args.
     accepts cmd (int (length args)) \<and> args_ok args \<and> ctx_inv rt c
     \<and> (hugeCount args \<longrightarrow> cmd_name cmd \<notin> {''lpop'', ''rpop''}) \<longrightarrow>
     returns_touching rt c (declared cmd args) (cmd_run cmd rt c args)
     \<and> (cmd_readOnly cmd \<longrightarrow> (\<exists>r. cmd_run cmd rt c args = Some (c, r))))"

text \<open>The least number of words a command accepts.\<close>

definition minArgs :: "int \<Rightarrow> int" where
  "minArgs a = (if a \<ge> 0 then a else - a)"

lemma safe_readKey:
  assumes "2 \<le> minArgs a"
    "\<And>rt c args. \<lbrakk> ctx_inv rt c; 2 \<le> length args; minArgs a \<le> int (length args) \<rbrakk> \<Longrightarrow> \<exists>r. h rt c args = Some (c, r)"
  shows "safe (readKey n a h)" "safe (readKeys n a h)"
  using assms by (auto simp: safe_def readKey_def readKeys_def accepts_def minArgs_def intro!: returns_same split: if_splits)

lemma safe_writeKey:
  assumes "2 \<le> minArgs a"
    "\<And>rt c args. \<lbrakk> ctx_inv rt c; 2 \<le> length args; minArgs a \<le> int (length args); args_ok args;
       hugeCount args \<longrightarrow> n \<notin> {''lpop'', ''rpop''} \<rbrakk> \<Longrightarrow> returns_touching rt c {args ! 1} (h rt c args)"
  shows "safe (writeKey n a h)"
proof -
  have "declared (writeKey n a h) args = {args ! 1}" if "2 \<le> length args" for args
    using Keys_one(2)[OF that, of n a h] by (simp add: declared_def writeKey_def)
  with assms show ?thesis by (auto simp: safe_def writeKey_def accepts_def minArgs_def split: if_splits)
qed

lemma safe_writeKeys:
  assumes "2 \<le> minArgs a"
    "\<And>rt c args. \<lbrakk> ctx_inv rt c; 1 \<le> length args \<rbrakk> \<Longrightarrow> returns_touching rt c (set (drop 1 args)) (h rt c args)"
  shows "safe (writeKeys n a h)"
proof -
  have "declared (writeKeys n a h) args = set (drop 1 args)" if "2 \<le> length args" for args
    using Keys_many(2)[OF that, of n a h] by (simp add: declared_def writeKeys_def)
  with assms show ?thesis by (auto simp: safe_def writeKeys_def accepts_def minArgs_def split: if_splits)
qed

lemma safe_plain:
  assumes "\<And>rt c args. ctx_inv rt c \<Longrightarrow> minArgs a \<le> int (length args) \<Longrightarrow> returns_touching rt c {} (h rt c args)"
  shows "safe (plain n a h)"
  using assms by (auto simp: safe_def plain_def accepts_def minArgs_def declared_def Keys_def split: if_splits)

lemma safe_wholeDB:
  assumes "\<And>rt c args. ctx_inv rt c \<Longrightarrow> returns_touching rt c UNIV (h rt c args)"
  shows "safe (wholeDB n a h)"
  using assms by (auto simp: safe_def wholeDB_def declared_def)

lemma safe_strings: "\<forall>cmd \<in> set stringCommands. safe cmd"
  unfolding stringCommands_def
  by (auto simp: minArgs_def cmdIncr_def cmdDecr_def intro!: safe_readKey safe_writeKey reads_strings writes_set writes_incr)

lemma safe_keys: "\<forall>cmd \<in> set keyCommands. safe cmd"
  unfolding keyCommands_def
  by (auto simp: minArgs_def intro!: safe_readKey safe_writeKey safe_writeKeys reads_strings writes_keys writes_expiry)

lemma safe_lists: "\<forall>cmd \<in> set listCommands. safe cmd"
proof -
  have "safe (writeKey ''lpush'' (-3) cmdLPush)" "safe (writeKey ''rpush'' (-3) cmdRPush)"
    by (rule safe_writeKey; simp add: minArgs_def cmdLPush_def cmdRPush_def writes_listPush[simplified])+
  moreover have "safe (writeKey ''lpop'' (-2) cmdLPop)" "safe (writeKey ''rpop'' (-2) cmdRPop)"
    by (rule safe_writeKey; simp add: minArgs_def cmdLPop_def cmdRPop_def writes_listPop[simplified])+
  moreover have "safe (readKey ''lrange'' 4 cmdLRange)" "safe (readKey ''llen'' 2 cmdLLen)"
    by (rule safe_readKey; simp add: minArgs_def reads_lists)+
  ultimately show ?thesis by (simp add: listCommands_def)
qed

lemma safe_hashes: "\<forall>cmd \<in> set hashCommands. safe cmd"
  unfolding hashCommands_def
  by (auto simp: minArgs_def intro!: safe_readKey safe_writeKey reads_hashes writes_hset writes_hdel)

lemma safe_sets: "\<forall>cmd \<in> set setCommands. safe cmd"
  unfolding setCommands_def
  by (auto simp: minArgs_def intro!: safe_readKey safe_writeKey reads_sets cmdSInter_reads writes_sadd writes_srem)

lemma safe_zsets: "\<forall>cmd \<in> set zsetCommands. safe cmd"
  unfolding zsetCommands_def
  by (auto simp: minArgs_def intro!: safe_readKey safe_writeKey reads_zsets writes_zadd)

lemma safe_servers: "\<forall>cmd \<in> set serverCommands. safe cmd"
  unfolding serverCommands_def
  by (auto simp: minArgs_def intro!: safe_plain safe_wholeDB writes_server)

lemma table_safe: "cmd \<in> set allCommands \<Longrightarrow> safe cmd"
  using safe_strings safe_keys safe_lists safe_hashes safe_sets safe_zsets safe_servers
  by (auto simp: allCommands_def)

text \<open>A request that resolves runs its handler to a reply, inside the declared keys.\<close>

lemma Dispatch_total:
  assumes "ctx_inv rt c" "args_ok args" "\<not> hugeCount args"
  shows "\<exists>c' r. Dispatch commandTable rt c args = Some (c', r) \<and> ctx_inv rt c'
    \<and> length (ctx_databases c') = length (ctx_databases c)"
proof (cases "Resolve commandTable args")
  case (Inr cmd)
  from table_safe[OF Resolve_in_table(1)[OF Inr]] Resolve_in_table(2)[OF Inr] assms
  have "returns_touching rt c (declared cmd args) (cmd_run cmd rt c args)" by (simp add: safe_def)
  with Inr show ?thesis by (auto simp: Dispatch_def returns_touching_def touches_only_def)
qed (use assms in \<open>simp add: Dispatch_def\<close>)

end
