(* ===== verification/Locks.thy ===== *)
theory Locks
  imports Shard
begin

text \<open>
  The shard mutexes of \<open>internal/shard/shard.go\<close> and their use by
  \<open>internal/server\<close>, as a step relation over the goroutines of the server. A lock is
  named by database and shard, the append-log mutex comes after all of them, and names are
  ordered lexicographically. A \<open>sync.RWMutex\<close> is modelled with its writer preference:
  \<open>Lock\<close> first announces the writer, which keeps new readers out, then waits for the
  active readers to leave.
\<close>

section \<open>Lock plans\<close>

datatype lockMode = Shared | Exclusive

type_synonym lockId = "nat \<times> nat"
type_synonym 'l plan = "('l \<times> lockMode) list"
type_synonym lockPlan = "lockId plan"

definition LockKeys :: "keyhash \<Rightarrow> nat \<Rightarrow> DB \<Rightarrow> bytes list \<Rightarrow> lockPlan" where
  "LockKeys hash d db keys = map (\<lambda>i. ((d, i), Exclusive)) (shardSet hash db keys)"

definition RLockKeys :: "keyhash \<Rightarrow> nat \<Rightarrow> DB \<Rightarrow> bytes list \<Rightarrow> lockPlan" where
  "RLockKeys hash d db keys = map (\<lambda>i. ((d, i), Shared)) (shardSet hash db keys)"

definition LockAll :: "nat \<Rightarrow> DB \<Rightarrow> lockPlan" where
  "LockAll d db = map (\<lambda>i. ((d, i), Exclusive)) [0..<length (db_shards db)]"

definition LockAt :: "nat \<Rightarrow> nat \<Rightarrow> lockPlan" where
  "LockAt d i = [((d, i), Exclusive)]"

definition RLockAt :: "nat \<Rightarrow> nat \<Rightarrow> lockPlan" where
  "RLockAt d i = [((d, i), Shared)]"

text \<open>\<open>lockAllDatabases\<close> of the server: every shard of every database, for compaction.\<close>

definition lockAllDatabases :: "DB list \<Rightarrow> lockPlan" where
  "lockAllDatabases dbs = concat (map (\<lambda>d. LockAll d (dbs ! d)) [0..<length dbs])"

text \<open>\<open>Store.mu\<close>, taken by \<open>Append\<close> and \<open>Rotate\<close> while the shard locks are held.\<close>

definition storeMu :: "DB list \<Rightarrow> lockPlan" where
  "storeMu dbs = [((length dbs, 0), Exclusive)]"

text \<open>
  Everything a goroutine of the server acquires in one go: a command with or without the
  log record that follows it, one shard of an expiry cycle, a compaction, and the log alone.
\<close>

inductive lock_plan :: "keyhash \<Rightarrow> DB list \<Rightarrow> lockPlan \<Rightarrow> bool" for hash dbs where
  lp_keys: "d < length dbs \<Longrightarrow> lock_plan hash dbs (LockKeys hash d (dbs ! d) keys @ storeMu dbs)"
| lp_rkeys: "d < length dbs \<Longrightarrow> lock_plan hash dbs (RLockKeys hash d (dbs ! d) keys)"
| lp_all: "d < length dbs \<Longrightarrow> lock_plan hash dbs (LockAll d (dbs ! d) @ storeMu dbs)"
| lp_at: "d < length dbs \<Longrightarrow> i < length (db_shards (dbs ! d)) \<Longrightarrow> lock_plan hash dbs (LockAt d i @ storeMu dbs)"
| lp_rat: "d < length dbs \<Longrightarrow> i < length (db_shards (dbs ! d)) \<Longrightarrow> lock_plan hash dbs (RLockAt d i)"
| lp_expire: "d < length dbs \<Longrightarrow> i < length (db_shards (dbs ! d)) \<Longrightarrow> lock_plan hash dbs (LockAt d i)"
| lp_compact: "lock_plan hash dbs (lockAllDatabases dbs @ storeMu dbs)"
| lp_keys0: "d < length dbs \<Longrightarrow> lock_plan hash dbs (LockKeys hash d (dbs ! d) keys)"
| lp_all0: "d < length dbs \<Longrightarrow> lock_plan hash dbs (LockAll d (dbs ! d))"
| lp_store: "lock_plan hash dbs (storeMu dbs)"

section \<open>The step relation\<close>

record 'l lockState =
  lk_writer :: "'l \<Rightarrow> nat option" \<comment> \<open>the goroutine that announced itself as writer\<close>
  lk_readers :: "'l \<Rightarrow> nat set"
  lk_todo :: "nat \<Rightarrow> 'l plan" \<comment> \<open>what each goroutine has still to acquire\<close>
  lk_held :: "nat \<Rightarrow> 'l plan" \<comment> \<open>what it holds, the latest first\<close>

definition lock_init :: "'l lockState" where
  "lock_init = \<lparr>lk_writer = (\<lambda>l. None), lk_readers = (\<lambda>l. {}), lk_todo = (\<lambda>t. []), lk_held = (\<lambda>t. [])\<rparr>"

text \<open>Steps of goroutines that are in the middle of a command.\<close>

inductive lock_step :: "'l lockState \<Rightarrow> 'l lockState \<Rightarrow> bool" where
  st_rlock: "lk_todo s t = (l, Shared) # p \<Longrightarrow> lk_writer s l = None \<Longrightarrow>
    lock_step s (s\<lparr>lk_readers := (lk_readers s)(l := insert t (lk_readers s l)),
      lk_todo := (lk_todo s)(t := p), lk_held := (lk_held s)(t := (l, Shared) # lk_held s t)\<rparr>)"
| st_announce: "lk_todo s t = (l, Exclusive) # p \<Longrightarrow> lk_writer s l = None \<Longrightarrow>
    lock_step s (s\<lparr>lk_writer := (lk_writer s)(l := Some t)\<rparr>)"
| st_lock: "lk_todo s t = (l, Exclusive) # p \<Longrightarrow> lk_writer s l = Some t \<Longrightarrow> lk_readers s l = {} \<Longrightarrow>
    lock_step s (s\<lparr>lk_todo := (lk_todo s)(t := p), lk_held := (lk_held s)(t := (l, Exclusive) # lk_held s t)\<rparr>)"
| st_unlock: "lk_todo s t = [] \<Longrightarrow> lk_held s t = (l, Exclusive) # h \<Longrightarrow>
    lock_step s (s\<lparr>lk_writer := (lk_writer s)(l := None), lk_held := (lk_held s)(t := h)\<rparr>)"
| st_runlock: "lk_todo s t = [] \<Longrightarrow> lk_held s t = (l, Shared) # h \<Longrightarrow>
    lock_step s (s\<lparr>lk_readers := (lk_readers s)(l := lk_readers s l - {t}), lk_held := (lk_held s)(t := h)\<rparr>)"

text \<open>The whole system: an idle goroutine may start any plan.\<close>

inductive lock_reach :: "keyhash \<Rightarrow> DB list \<Rightarrow> lockId lockState \<Rightarrow> bool" for hash dbs where
  lr_init: "lock_reach hash dbs lock_init"
| lr_begin: "lock_reach hash dbs s \<Longrightarrow> lk_todo s t = [] \<Longrightarrow> lk_held s t = [] \<Longrightarrow> lock_plan hash dbs p \<Longrightarrow>
    lock_reach hash dbs (s\<lparr>lk_todo := (lk_todo s)(t := p)\<rparr>)"
| lr_step: "lock_reach hash dbs s \<Longrightarrow> lock_step s s' \<Longrightarrow> lock_reach hash dbs s'"

section \<open>Plans ascend\<close>

definition lock_ids :: "DB list \<Rightarrow> lockId set" where
  "lock_ids dbs = {(d, i). (d < length dbs \<and> i < length (db_shards (dbs ! d))) \<or> (d = length dbs \<and> i = 0)}"

lemma finite_lock_ids: "finite (lock_ids dbs)"
proof -
  have "lock_ids dbs = (SIGMA d : {..<length dbs}. {..<length (db_shards (dbs ! d))}) \<union> {(length dbs, 0)}"
    by (auto simp: lock_ids_def)
  then show ?thesis by simp
qed

definition ascending :: "'l::linorder plan \<Rightarrow> bool" where
  "ascending p \<longleftrightarrow> sorted_wrt (<) (map fst p)"

lemma ascending_append:
  "ascending (p @ q) \<longleftrightarrow> ascending p \<and> ascending q \<and> (\<forall>x \<in> set p. \<forall>y \<in> set q. fst x < fst y)"
  by (auto simp: ascending_def sorted_wrt_append)

lemma ascending_shards:
  "sorted_wrt (<) is \<Longrightarrow> ascending (map (\<lambda>i. ((d, i), m)) is)"
  by (auto simp: ascending_def sorted_wrt_map elim!: sorted_wrt_mono_rel[rotated])

lemma ascending_LockAll: "ascending (LockAll d db)"
  unfolding LockAll_def by (rule ascending_shards) simp

lemma ascending_all:
  "ascending (concat (map (\<lambda>d. LockAll d (dbs ! d)) [m..<n]))"
proof (induction n)
  case (Suc n)
  let ?p = "concat (map (\<lambda>d. LockAll d (dbs ! d)) [m..<n])"
  have "fst (fst x) < n" if "x \<in> set ?p" for x using that by (auto simp: LockAll_def)
  moreover have "fst (fst y) = n" if "y \<in> set (LockAll n (dbs ! n))" for y using that by (auto simp: LockAll_def)
  ultimately have "\<forall>x \<in> set ?p. \<forall>y \<in> set (LockAll n (dbs ! n)). fst x < fst y" by (simp add: less_prod_def)
  with Suc have "ascending (?p @ LockAll n (dbs ! n))" by (simp only: ascending_append ascending_LockAll)
  then show ?case by (cases "m \<le> n") (simp_all add: ascending_def)
qed (simp add: ascending_def)

lemma storeMu_last:
  assumes "ascending p" "fst ` set p \<subseteq> lock_ids dbs" "\<forall>x \<in> set p. fst (fst x) < length dbs"
  shows "ascending (p @ storeMu dbs) \<and> fst ` set (p @ storeMu dbs) \<subseteq> lock_ids dbs"
  using assms by (auto simp: ascending_append storeMu_def less_prod_def lock_ids_def) (auto simp: ascending_def)

lemma lock_plan_ok:
  assumes ne: "\<forall>db \<in> set dbs. db_shards db \<noteq> []" and "lock_plan hash dbs p"
  shows "ascending p \<and> fst ` set p \<subseteq> lock_ids dbs"
proof -
  have K: "ascending (map (\<lambda>i. ((d, i), m)) (shardSet hash (dbs ! d) keys))"
    "fst ` set (map (\<lambda>i. ((d, i), m)) (shardSet hash (dbs ! d) keys)) \<subseteq> lock_ids dbs"
    if "d < length dbs" for d m keys
    using that ne shardSet_spec[of hash "dbs ! d" keys]
    by (auto intro!: ascending_shards simp: lock_ids_def indexBytes_less)
  have A: "fst ` set (LockAll d (dbs ! d)) \<subseteq> lock_ids dbs" if "d < length dbs" for d
    using that by (auto simp: LockAll_def lock_ids_def)
  show ?thesis
    using assms(2)
  proof cases
    case (lp_keys d keys)
    then show ?thesis using storeMu_last[OF K, of d Exclusive keys] by (auto simp: LockKeys_def)
  next
    case (lp_all d)
    then show ?thesis using storeMu_last[OF ascending_LockAll A] by (auto simp: LockAll_def)
  next
    case lp_compact
    have "fst ` set (lockAllDatabases dbs) \<subseteq> lock_ids dbs" using A by (fastforce simp: lockAllDatabases_def)
    with lp_compact show ?thesis
      using storeMu_last[OF ascending_all[of dbs 0 "length dbs"]] by (auto simp: lockAllDatabases_def LockAll_def)
  next
    case (lp_keys0 d keys)
    then show ?thesis using K by (auto simp: LockKeys_def)
  next
    case (lp_rkeys d keys)
    then show ?thesis using K by (auto simp: RLockKeys_def)
  next
    case (lp_all0 d)
    then show ?thesis using A ascending_LockAll by auto
  next
    case (lp_at d i)
    then show ?thesis using storeMu_last[of "LockAt d i"] by (auto simp: LockAt_def ascending_def lock_ids_def)
  qed (auto simp: LockAt_def RLockAt_def storeMu_def ascending_def lock_ids_def)
qed

section \<open>Invariants\<close>

definition lock_inv :: "'l::linorder set \<Rightarrow> 'l lockState \<Rightarrow> bool" where
  "lock_inv L s \<longleftrightarrow>
     (\<forall>t. ascending (rev (lk_held s t) @ lk_todo s t) \<and> fst ` set (lk_todo s t) \<subseteq> L)
     \<and> (\<forall>l t. lk_writer s l = Some t \<longrightarrow>
          (l, Exclusive) \<in> set (lk_held s t) \<or> (\<exists>p. lk_todo s t = (l, Exclusive) # p))
     \<and> (\<forall>l t. (l, Exclusive) \<in> set (lk_held s t) \<longrightarrow> lk_writer s l = Some t \<and> lk_readers s l = {})
     \<and> (\<forall>l t. t \<in> lk_readers s l \<longleftrightarrow> (l, Shared) \<in> set (lk_held s t))"

lemma lock_invD:
  assumes "lock_inv L s"
  shows "ascending (rev (lk_held s t) @ lk_todo s t)" "fst ` set (lk_todo s t) \<subseteq> L"
    "lk_writer s l = Some t \<Longrightarrow> (l, Exclusive) \<in> set (lk_held s t) \<or> (\<exists>p. lk_todo s t = (l, Exclusive) # p)"
    "(l, Exclusive) \<in> set (lk_held s t) \<Longrightarrow> lk_writer s l = Some t \<and> lk_readers s l = {}"
    "t \<in> lk_readers s l \<longleftrightarrow> (l, Shared) \<in> set (lk_held s t)"
  using assms unfolding lock_inv_def by blast+

lemma held_once:
  "ascending (rev (x # h) @ p) \<Longrightarrow> y \<in> set h \<Longrightarrow> fst y < fst x"
  by (auto simp: ascending_append)

lemma lock_inv_step:
  assumes inv: "lock_inv L s" and "lock_step s s'"
  shows "lock_inv L s'"
  using assms(2)
proof cases
  case (st_rlock t l p)
  have "\<forall>t'. (l, Exclusive) \<notin> set (lk_held s t')" using lock_invD(4)[OF inv] st_rlock(3) by fastforce
  moreover have "lk_writer s l' = Some t \<Longrightarrow> (l', Exclusive) \<in> set (lk_held s t)" for l'
    using lock_invD(3)[OF inv, of l' t] st_rlock(2) by auto
  ultimately show ?thesis
    using inv st_rlock lock_invD(1,2)[OF inv, of t] unfolding lock_inv_def by (auto split: if_splits)
next
  case (st_announce t l p)
  then have "\<forall>t'. (l, Exclusive) \<notin> set (lk_held s t')" using lock_invD(4)[OF inv] by fastforce
  then show ?thesis using inv st_announce unfolding lock_inv_def by (auto split: if_splits)
next
  case (st_lock t l p)
  have "lk_writer s l' = Some t \<Longrightarrow> l' \<noteq> l \<Longrightarrow> (l', Exclusive) \<in> set (lk_held s t)" for l'
    using lock_invD(3)[OF inv, of l' t] st_lock(2) by auto
  then show ?thesis
    using inv st_lock lock_invD(1,2)[OF inv, of t] unfolding lock_inv_def by (auto split: if_splits)
next
  case (st_unlock t l h)
  have a: "ascending (rev ((l, Exclusive) # h))" using lock_invD(1)[OF inv, of t] st_unlock by simp
  then have h: "(l, m) \<notin> set h" "ascending (rev h)" for m
    using held_once[of "(l, Exclusive)" h "[]" "(l, m)"] by (auto simp: ascending_append)
  have w: "lk_writer s l = Some t" using lock_invD(4)[OF inv, of l t] st_unlock by simp
  then have "(l, Exclusive) \<notin> set (lk_held s t')" if "t' \<noteq> t" for t'
    using lock_invD(4)[OF inv, of l t'] that by auto
  moreover have "lk_writer s l' = Some t \<Longrightarrow> l' \<noteq> l \<Longrightarrow> (l', Exclusive) \<in> set h"
    "(l', Exclusive) \<in> set h \<Longrightarrow> lk_writer s l' = Some t \<and> lk_readers s l' = {}" for l'
    using lock_invD(3,4)[OF inv, of l' t] st_unlock by auto
  ultimately show ?thesis using inv st_unlock h unfolding lock_inv_def by (auto split: if_splits)
next
  case (st_runlock t l h)
  have a: "ascending (rev ((l, Shared) # h))" using lock_invD(1)[OF inv, of t] st_runlock by simp
  then have h: "(l, m) \<notin> set h" "ascending (rev h)" for m
    using held_once[of "(l, Shared)" h "[]" "(l, m)"] by (auto simp: ascending_append)
  moreover have "lk_writer s l' = Some t \<Longrightarrow> (l', Exclusive) \<in> set h"
    "(l', Exclusive) \<in> set h \<Longrightarrow> lk_writer s l' = Some t \<and> lk_readers s l' = {}" for l'
    using lock_invD(3,4)[OF inv, of l' t] st_runlock by auto
  ultimately show ?thesis using inv st_runlock unfolding lock_inv_def by (auto split: if_splits)
qed

lemma lock_reach_inv:
  assumes "\<forall>db \<in> set dbs. db_shards db \<noteq> []" "lock_reach hash dbs s"
  shows "lock_inv (lock_ids dbs) s"
  using assms(2)
proof induction
  case lr_init
  show ?case by (simp add: lock_inv_def lock_init_def ascending_def)
next
  case (lr_begin s t p)
  note lock_plan_ok[OF assms(1) lr_begin.hyps(4)]
  moreover have "lk_writer s l \<noteq> Some t" for l
    using lock_invD(3)[OF lr_begin.IH, of l t] lr_begin.hyps by auto
  ultimately show ?case using lr_begin unfolding lock_inv_def by auto
next
  case (lr_step s s')
  then show ?case by (blast intro: lock_inv_step)
qed

section \<open>Exclusion and progress\<close>

lemma lock_exclusion:
  assumes "lock_inv L s" "(l, Exclusive) \<in> set (lk_held s t)" "(l, m) \<in> set (lk_held s t')"
  shows "t' = t"
  using lock_invD(4)[OF assms(1,2)] lock_invD(4)[OF assms(1), of l t'] lock_invD(5)[OF assms(1), of t' l] assms(3)
  by (cases m) auto

lemma busy_holder_waits_above:
  assumes "lock_inv L s" "(l, m) \<in> set (lk_held s t)" "\<not> (\<exists>s'. lock_step s s')"
  shows "\<exists>l' m' p. lk_todo s t = (l', m') # p \<and> l < l'"
proof (cases "lk_todo s t")
  case Nil
  obtain l1 m1 h where "lk_held s t = (l1, m1) # h" using assms(2) by (cases "lk_held s t") auto
  with Nil assms(3) st_unlock[of s t] st_runlock[of s t] show ?thesis by (cases m1) blast+
next
  case (Cons x p)
  have "\<forall>y \<in> set (rev (lk_held s t)). \<forall>z \<in> set (lk_todo s t). fst y < fst z"
    using lock_invD(1)[OF assms(1), of t] by (simp add: ascending_append)
  then have "l < fst x" using assms(2) Cons by fastforce
  with Cons show ?thesis by (cases x) auto
qed

lemma no_deadlock:
  assumes inv: "lock_inv L s" and fin: "finite L" and busy: "lk_todo s t0 \<noteq> [] \<or> lk_held s t0 \<noteq> []"
  shows "\<exists>s'. lock_step s s'"
proof (rule ccontr)
  assume stuck: "\<not> (\<exists>s'. lock_step s s')"
  define W where "W = {l. \<exists>t m p. lk_todo s t = (l, m) # p}"
  have "lk_todo s t0 \<noteq> []"
    using busy busy_holder_waits_above[OF inv _ stuck, of _ _ t0]
    by (cases "lk_held s t0") (fastforce, metis list.distinct(1) list.set_intros(1) surj_pair)
  then have "W \<noteq> {}" unfolding W_def by (cases "lk_todo s t0") auto
  moreover have "W \<subseteq> L"
  proof
    fix l assume "l \<in> W"
    then obtain t m p where "lk_todo s t = (l, m) # p" by (auto simp: W_def)
    with lock_invD(2)[OF inv, of t] show "l \<in> L" by simp
  qed
  then have "finite W" using fin finite_subset by blast
  ultimately have max: "Max W \<in> W" "\<And>l. l \<in> W \<Longrightarrow> l \<le> Max W" by simp_all
  then obtain t m p where t: "lk_todo s t = (Max W, m) # p" by (auto simp: W_def)
  have free: "(Max W, m') \<notin> set (lk_held s u)" for m' u
    using busy_holder_waits_above[OF inv _ stuck, of "Max W" m' u] max(2) by (fastforce simp: W_def)
  then have nor: "lk_readers s (Max W) = {}" using lock_invD(5)[OF inv] by blast
  show False
  proof (cases "lk_writer s (Max W)")
    case None
    with t stuck show False by (cases m) (blast intro: st_rlock st_announce)+
  next
    case (Some u)
    with lock_invD(3)[OF inv Some] free obtain q where "lk_todo s u = (Max W, Exclusive) # q" by blast
    with Some nor stuck show False by (blast intro: st_lock)
  qed
qed

section \<open>A run\<close>

text \<open>A goroutine that asks for one shard gets it.\<close>

lemma lock_reach_one:
  assumes "d < length dbs" "i < length (db_shards (dbs ! d))"
  shows "\<exists>s. lock_reach hash dbs s \<and> ((d, i), Exclusive) \<in> set (lk_held s t)"
proof -
  let ?s0 = "lock_init\<lparr>lk_todo := (lk_todo lock_init)(t := LockAt d i)\<rparr>"
  have 0: "lock_reach hash dbs ?s0"
    by (rule lr_begin[OF lr_init _ _ lp_expire]) (simp_all add: lock_init_def assms)
  have "lock_step ?s0 (?s0\<lparr>lk_writer := (lk_writer ?s0)((d, i) := Some t)\<rparr>)"
    by (rule st_announce[of _ _ _ "[]"]) (simp_all add: lock_init_def LockAt_def)
  note 1 = lr_step[OF 0 this]
  let ?s1 = "?s0\<lparr>lk_writer := (lk_writer ?s0)((d, i) := Some t)\<rparr>"
  have "lock_step ?s1 (?s1\<lparr>lk_todo := (lk_todo ?s1)(t := []), lk_held := (lk_held ?s1)(t := ((d, i), Exclusive) # lk_held ?s1 t)\<rparr>)"
    by (rule st_lock) (simp_all add: lock_init_def LockAt_def)
  from lr_step[OF 1 this] show ?thesis by (intro exI conjI) auto
qed

end
