(* ===== verification/Server.thy ===== *)
theory Server
  imports Recovery TableProps Locks
begin

text \<open>
  The server: \<open>internal/server/server.go\<close> and \<open>internal/server/conn.go\<close>, without sockets.
  The databases, the settings and the append log are shared by the connections; a
  connection is the index of its selected database and its two byte streams. A command
  runs atomically here: theory \<open>Locks\<close> has the interleavings, and the plan of locks that
  \<open>execute\<close> takes is \<open>executeLocks\<close>. The clock readings of a request are an argument, one
  per call of \<open>clock.Now\<close>. Calls on the metrics recorder and lines of the slow log are
  recorded as they are made.
\<close>

section \<open>State\<close>

datatype recorderCall = ObserveCommand bytes duration bool | ConnectionOpened | ConnectionClosed

record slowLine =
  slow_command :: bytes
  slow_args :: int
  slow_duration :: duration
  slow_db :: nat

record Server =
  srv_cfg :: NetworkCfg
  srv_listener :: "bytes option" \<comment> \<open>the bound address, once \<open>Listen\<close> has succeeded\<close>
  srv_databases :: "DB list"
  srv_limits :: Limits
  srv_settings :: Reloadable
  srv_reaper :: "Value list" \<comment> \<open>the channel of freed values\<close>
  srv_persistCfg :: PersistenceCfg
  srv_persist :: "Store option"
  srv_metrics :: "recorderCall list option"
  srv_slowLog :: "slowLine list"

record readings =
  at_start :: gotime
  at_run :: gotime
  at_append :: gotime
  at_end :: gotime

definition Server_New :: "Config \<Rightarrow> Server" where
  "Server_New cfg =
     (let dbs = replicate (nat (Databases (cfg_Network cfg))) (DB_New (Shards (cfg_Network cfg)))
      in \<lparr>srv_cfg = cfg_Network cfg, srv_listener = None, srv_databases = map DB_SetReaper dbs, srv_limits = cfg_Limits cfg,
          srv_settings =
            \<lparr>SlowThreshold = SlowThresholdCfg (cfg_Metrics cfg), ExpirySample = SamplePerShard (cfg_Expiry cfg),
             SlowLogEnabled = SlowThresholdCfg (cfg_Metrics cfg) > 0\<rparr>,
          srv_reaper = [], srv_persistCfg = cfg_Persistence cfg, srv_persist = None, srv_metrics = None,
          srv_slowLog = []\<rparr>)"

definition SetRecorder :: "Server \<Rightarrow> Server" where
  "SetRecorder srv = srv\<lparr>srv_metrics := Some []\<rparr>"

text \<open>\<open>net.Listen\<close> gives the bound address or an error.\<close>

definition Server_Listen :: "(bytes \<Rightarrow> bytes option) \<Rightarrow> Server \<Rightarrow> bytes + Server" where
  "Server_Listen netListen srv =
     (case netListen (Network_Addr (srv_cfg srv)) of
        None \<Rightarrow> Inl (''listen on '' @ Network_Addr (srv_cfg srv))
      | Some addr \<Rightarrow> Inr (srv\<lparr>srv_listener := Some addr\<rparr>))"

definition Server_Addr :: "Server \<Rightarrow> bytes option" where
  "Server_Addr srv = srv_listener srv"

definition record_call :: "recorderCall \<Rightarrow> Server \<Rightarrow> Server" where
  "record_call x srv = srv\<lparr>srv_metrics := map_option (\<lambda>xs. xs @ [x]) (srv_metrics srv)\<rparr>"

section \<open>Freed values (server.go)\<close>

abbreviation reaperBuffer :: nat where "reaperBuffer \<equiv> 1024"

definition reapAsync :: "Value list \<Rightarrow> Value \<Rightarrow> Value list" where
  "reapAsync ch v = (if length ch < reaperBuffer then ch @ [v] else ch)"

text \<open>One receive of \<open>runReaper\<close>.\<close>

definition runReaper_receive :: "Server \<Rightarrow> Server" where
  "runReaper_receive srv = srv\<lparr>srv_reaper := tl (srv_reaper srv)\<rparr>"

text \<open>
  The callbacks a command made on the databases: what \<open>db_reap\<close> collected goes through
  \<open>reapAsync\<close> in order.
\<close>

definition reapAll :: "DB list \<Rightarrow> Value list \<Rightarrow> DB list \<times> Value list" where
  "reapAll dbs ch =
     (map (\<lambda>db. db\<lparr>db_reap := map_option (\<lambda>vs. []) (db_reap db)\<rparr>) dbs,
      foldl reapAsync ch (concat (map (\<lambda>db. case db_reap db of None \<Rightarrow> [] | Some vs \<Rightarrow> vs) dbs)))"

section \<open>Sessions\<close>

definition session :: "Server \<Rightarrow> nat \<Rightarrow> gotime \<Rightarrow> Context" where
  "session srv idx now =
     (NewContext now (srv_databases srv) (srv_limits srv) (Some (srv_settings srv)))\<lparr>ctx_index := idx\<rparr>"

text \<open>What a handler did to the shared state.\<close>

definition absorb :: "Server \<Rightarrow> Context \<Rightarrow> Server" where
  "absorb srv c =
     (case reapAll (ctx_databases c) (srv_reaper srv) of
        (dbs, ch) \<Rightarrow>
          srv\<lparr>srv_databases := dbs, srv_reaper := ch,
              srv_settings := (case ctx_Settings c of None \<Rightarrow> srv_settings srv | Some r \<Rightarrow> r)\<rparr>)"

section \<open>Executing a command (conn.go)\<close>

definition persistArgs :: "gotime \<Rightarrow> Command \<Rightarrow> bytes list \<Rightarrow> bytes list" where
  "persistArgs now cmd args =
     (if cmd_name cmd = ''expire'' \<and> length args = 3 then
        (case parseInt (args ! 2) of
           None \<Rightarrow> args
         | Some secs \<Rightarrow>
             let ms = toUnixMilli (addTime now (secondsDuration secs))
             in [''PEXPIREAT'', args ! 1, formatInt ms])
      else args)"

definition lockShards :: "keyhash \<Rightarrow> nat \<Rightarrow> DB \<Rightarrow> Command \<Rightarrow> bytes list \<Rightarrow> lockPlan" where
  "lockShards hash d db cmd args =
     (if cmd_wholeDB cmd then LockAll d db
      else if cmd_readOnly cmd then RLockKeys hash d db (Keys cmd args)
      else LockKeys hash d db (Keys cmd args))"

text \<open>The locks of \<open>execute\<close>: one shard on the fast path, else those of \<open>lockShards\<close>.\<close>

definition executeLocks :: "keyhash \<Rightarrow> DB list \<Rightarrow> nat \<Rightarrow> Command \<Rightarrow> bytes list \<Rightarrow> lockPlan" where
  "executeLocks hash dbs d cmd args =
     (if SingleKey cmd \<and> length args > 1 then
        let sh = indexBytes hash (dbs ! d) (args ! 1)
        in if \<not> cmd_readOnly cmd then LockAt d sh else RLockAt d sh
      else lockShards hash d (dbs ! d) cmd args)"

definition execute ::
  "runtime \<Rightarrow> Server \<Rightarrow> nat \<Rightarrow> readings \<Rightarrow> Command \<Rightarrow> bytes list \<Rightarrow> Server \<times> nat \<times> Reply" where
  "execute rt srv idx at cmd args =
     (case cmd_run cmd rt (session srv idx (at_run at)) args of
        None \<Rightarrow> (srv, idx, RError ''ERR internal server error'')
      | Some (c, reply) \<Rightarrow>
          let srv1 = absorb srv c; idx1 = Context_DB c
          in (case srv_persist srv1 of
                None \<Rightarrow> (srv1, idx1, reply)
              | Some st \<Rightarrow>
                  if \<not> cmd_readOnly cmd \<and> \<not> IsError reply
                  then (srv1\<lparr>srv_persist := Some (fst (Store_Append st (int idx1) (persistArgs (at_append at) cmd args)))\<rparr>,
                        idx1, reply)
                  else (srv1, idx1, reply)))"

definition dispatch ::
  "runtime \<Rightarrow> Registry \<Rightarrow> Server \<Rightarrow> nat \<Rightarrow> readings \<Rightarrow> bytes list \<Rightarrow> Server \<times> nat \<times> Reply" where
  "dispatch rt reg srv idx at args =
     (case Resolve reg args of
        Inl errReply \<Rightarrow> (srv, idx, errReply)
      | Inr cmd \<Rightarrow>
          let rc = srv_settings srv;
              slow = (SlowLogEnabled rc \<and> SlowThreshold rc > 0);
              timed = (srv_metrics srv \<noteq> None \<or> slow)
          in if \<not> timed then execute rt srv idx at cmd args
             else (case execute rt srv idx at cmd args of
                 (srv1, idx1, reply) \<Rightarrow>
                   let elapsed = subTime (at_end at) (at_start at);
                       srv2 = record_call (ObserveCommand (cmd_name cmd) elapsed (IsError reply)) srv1;
                       srv3 = (if slow \<and> elapsed \<ge> SlowThreshold rc
                         then srv2\<lparr>srv_slowLog := srv_slowLog srv2 @
                           [\<lparr>slow_command = cmd_name cmd, slow_args = int (length args) - 1,
                             slow_duration = elapsed, slow_db = idx1\<rparr>]\<rparr>
                         else srv2)
                   in (srv3, idx1, reply)))"

section \<open>A connection (conn.go)\<close>

definition handleReadError :: "Writer \<Rightarrow> ioErr \<Rightarrow> Writer" where
  "handleReadError w err =
     (case err of
        Malformed m \<Rightarrow> fst (Writer_Flush (fst (WriteReply w (RError ''ERR Protocol error''))))
      | _ \<Rightarrow> w)"

text \<open>
  The loop of \<open>serve\<close>. The input is everything the client sends before it closes its
  side; \<open>buffered n s\<close> says whether, after the \<open>n\<close>-th request, part of the rest \<open>s\<close> has
  already arrived in the buffer of the reader.
\<close>

function serveLoop ::
  "runtime \<Rightarrow> Registry \<Rightarrow> (nat \<Rightarrow> readings) \<Rightarrow> (nat \<Rightarrow> bytes \<Rightarrow> bool) \<Rightarrow> nat \<Rightarrow> Server \<Rightarrow> nat \<Rightarrow> Writer \<Rightarrow> bytes
     \<Rightarrow> Server \<times> nat \<times> Writer" where
  "serveLoop rt reg clk buffered n srv idx w s =
     (case ReadRequest s of
        Inl err \<Rightarrow> (srv, idx, handleReadError w err)
      | Inr (args, s') \<Rightarrow>
          if length args = 0 then serveLoop rt reg clk buffered (n + 1) srv idx w s'
          else (case dispatch rt reg srv idx (clk n) args of
              (srv1, idx1, reply) \<Rightarrow>
                (case WriteReply w reply of
                   (w1, failed) \<Rightarrow>
                     if failed then (srv1, idx1, w1)
                     else if \<not> buffered n s' then
                       (case Writer_Flush w1 of
                          (w2, failed2) \<Rightarrow>
                            if failed2 then (srv1, idx1, w2)
                            else serveLoop rt reg clk buffered (n + 1) srv1 idx1 w2 s')
                     else serveLoop rt reg clk buffered (n + 1) srv1 idx1 w1 s')))"
  by pat_completeness auto
termination
  by (relation "measure (\<lambda>(rt, reg, clk, buffered, n, srv, idx, w, s). length s)") (auto dest: ReadRequest_bound)

declare serveLoop.simps [simp del]

definition serve ::
  "runtime \<Rightarrow> Registry \<Rightarrow> (nat \<Rightarrow> readings) \<Rightarrow> (nat \<Rightarrow> bytes \<Rightarrow> bool) \<Rightarrow> Server \<Rightarrow> Writer \<Rightarrow> bytes \<Rightarrow> Server \<times> Writer" where
  "serve rt reg clk buffered srv w s =
     (case serveLoop rt reg clk buffered 0 (record_call ConnectionOpened srv) 0 w s of
        (srv1, idx, w1) \<Rightarrow> (record_call ConnectionClosed srv1, w1))"

section \<open>Recovery and compaction (server.go)\<close>

definition restoreRecord :: "runtime \<Rightarrow> Server \<Rightarrow> Record \<Rightarrow> (ioErr + Server) option" where
  "restoreRecord rt srv r =
     Some (if rec_DB r < 0 \<or> rec_DB r \<ge> int (length (srv_databases srv))
       then Inl (Malformed (''snapshot names database '' @ formatInt (rec_DB r) @ '' out of range''))
       else
         let at = (if rec_ExpireAt r \<noteq> 0 then rec_ExpireAt r else zeroTime);
             i = nat (rec_DB r);
             db = DB_Restore (rt_hash rt) (srv_databases srv ! i) (rec_Key r) \<lparr>Entry_Value = rec_Value r, ExpireAt = at\<rparr>
         in Inr (srv\<lparr>srv_databases := (srv_databases srv)[i := db]\<rparr>))"

text \<open>
  The replay callback works on one session for the whole log; the state is the server, the
  index of that session and the number of commands replayed.
\<close>

definition replayCommand ::
  "runtime \<Rightarrow> Registry \<Rightarrow> (nat \<Rightarrow> gotime) \<Rightarrow> Server \<times> nat \<times> nat \<Rightarrow> int \<times> bytes list
     \<Rightarrow> (ioErr + Server \<times> nat \<times> nat) option" where
  "replayCommand rt reg clk st entry =
     (case (st, entry) of
        ((srv, idx, n), (db, args)) \<Rightarrow>
          (case Context_Select (session srv idx (clk n)) db of
             None \<Rightarrow> Some (Inl (Malformed ''database index out of range''))
           | Some c \<Rightarrow>
               map_option (\<lambda>(c', reply). Inr (absorb srv c', Context_DB c', n + 1)) (Dispatch reg rt c args)))"

text \<open>Both callbacks work on that state; the one for records changes the databases only.\<close>

definition restoreState :: "runtime \<Rightarrow> Server \<times> nat \<times> nat \<Rightarrow> Record \<Rightarrow> (ioErr + Server \<times> nat \<times> nat) option" where
  "restoreState rt st r =
     (case st of
        (srv, idx, n) \<Rightarrow>
          map_option (\<lambda>res. case res of Inl err \<Rightarrow> Inl err | Inr srv' \<Rightarrow> Inr (srv', idx, n)) (restoreRecord rt srv r))"

text \<open>\<open>recover\<close>: the state, records loaded, commands replayed, error.\<close>

definition Server_recover ::
  "runtime \<Rightarrow> Registry \<Rightarrow> (nat \<Rightarrow> gotime) \<Rightarrow> dir \<Rightarrow> Server \<Rightarrow> ((Server \<times> nat \<times> nat) \<times> int \<times> int \<times> ioErr option) option" where
  "Server_recover rt reg clk d srv =
     Recover (rt_draws rt) (srv_limits srv) (restoreState rt) (replayCommand rt reg clk) d (srv, 0, 0)"

text \<open>\<open>openPersistence\<close>: \<open>Inl\<close> is an error of \<open>Open\<close> (\<open>None\<close>) or of the recovery.\<close>

definition openPersistence ::
  "runtime \<Rightarrow> Registry \<Rightarrow> (nat \<Rightarrow> gotime) \<Rightarrow> (nat \<Rightarrow> nat option) \<Rightarrow> dir \<Rightarrow> Server \<Rightarrow> (ioErr option + Server) option" where
  "openPersistence rt reg clk fault d srv =
     (if \<not> PersistEnabled (srv_persistCfg srv) then Some (Inr srv)
      else (case Open d (FSync (srv_persistCfg srv)) fault of
          None \<Rightarrow> Some (Inl None)
        | Some store \<Rightarrow>
            map_option (\<lambda>((srv', idx, n), loaded, replayed, err).
                case err of None \<Rightarrow> Inr srv' | Some e \<Rightarrow> Inl (Some e))
              (Server_recover rt reg clk (st_dir store) (srv\<lparr>srv_persist := Some store\<rparr>))))"

text \<open>The records \<open>emitRecords\<close> passes to \<open>write\<close>, in order.\<close>

definition entryRecord :: "nat \<Rightarrow> bytes \<times> Entry \<Rightarrow> Record" where
  "entryRecord d p =
     \<lparr>rec_DB = int d, rec_Key = fst p, rec_ExpireAt = (if HasExpiry (snd p) then unixNano (ExpireAt (snd p)) else 0),
      rec_Value = Entry_Value (snd p)\<rparr>"

definition emitRecords :: "runtime \<Rightarrow> DB list \<Rightarrow> Record list" where
  "emitRecords rt dbs =
     concat (map (\<lambda>d. map (entryRecord d) (DB_EachEntry (rt_pick rt) (dbs ! d))) [0..<length dbs])"

definition compact :: "runtime \<Rightarrow> DB list \<Rightarrow> Store \<Rightarrow> (Store \<times> bool) option" where
  "compact rt dbs s =
     (let baseGen = Store_NextGen s
      in map_option (\<lambda>res.
           case Store_Rotate s of
             (s1, rerr) \<Rightarrow>
               (case res of
                  Inl werr \<Rightarrow> (s1, False)
                | Inr snap \<Rightarrow>
                    (case rerr of
                       None \<Rightarrow> (s1, False)
                     | Some g \<Rightarrow> InstallSnapshot s1 snap baseGen)))
         (WriteSnapshot (rt_pick rt) baseGen (emitRecords rt dbs)))"

definition finalizePersistence :: "runtime \<Rightarrow> DB list \<Rightarrow> Store \<Rightarrow> (Store \<times> bool) option" where
  "finalizePersistence rt dbs s =
     (case Store_Flush s of
        (s1, ok) \<Rightarrow>
          if \<not> ok then Some (s1, False)
          else map_option (\<lambda>(s2, ok2). if \<not> ok2 then (s2, False) else Store_Close s2) (compact rt dbs s1))"

text \<open>One tick of \<open>runAppendLogFlush\<close> and of \<open>runCompaction\<close>; an error is only logged.\<close>

definition flushTick :: "Server \<Rightarrow> Server" where
  "flushTick srv =
     (if FSync (srv_persistCfg srv) \<noteq> ''everysec'' then srv
      else srv\<lparr>srv_persist := map_option (\<lambda>s. fst (Store_Flush s)) (srv_persist srv)\<rparr>)"

definition compactTick :: "runtime \<Rightarrow> Server \<Rightarrow> Server option" where
  "compactTick rt srv =
     (case srv_persist srv of
        None \<Rightarrow> Some srv
      | Some s \<Rightarrow>
          if CompactEvery (srv_persistCfg srv) \<le> 0 then Some srv
          else map_option (\<lambda>(s', ok). srv\<lparr>srv_persist := Some s'\<rparr>) (compact rt (srv_databases srv) s))"

end
