(* ===== verification/Durability.thy ===== *)
theory Durability
  imports Server
begin

text \<open>
  What survives a restart. The contents of a server are, per database, a map from key to
  abstract value and deadline. A snapshot of them restores them, into any number of shards
  and under any hash seed; a compaction that fails or is cut off at any system call leaves
  the old snapshot and log, or the new snapshot, and nothing in between.
\<close>

section \<open>Contents\<close>

definition abs_entry :: "Entry \<Rightarrow> absValue \<times> gotime" where
  "abs_entry e = (abs_value (Entry_Value e), ExpireAt e)"

definition contents :: "keyhash \<Rightarrow> DB list \<Rightarrow> nat \<Rightarrow> bytes \<rightharpoonup> absValue \<times> gotime" where
  "contents hash dbs d = map_option abs_entry \<circ> db_ents hash (dbs ! d)"

definition dbs_inv :: "keyhash \<Rightarrow> DB list \<Rightarrow> bool" where
  "dbs_inv hash dbs \<longleftrightarrow> dbs \<noteq> [] \<and> int (length dbs) \<le> maxInt64 \<and> (\<forall>db \<in> set dbs. db_inv hash db)"

text \<open>
  Keys and values that fit the address space, so that a reader can allocate what a snapshot
  announces: at most \<open>2 ^ 48\<close> bytes a piece.
\<close>

definition fits :: "bytes \<Rightarrow> Entry \<Rightarrow> bool" where
  "fits k e \<longleftrightarrow>
     alloc_ok k \<and> value_small (Entry_Value e)"

definition dbs_fit :: "keyhash \<Rightarrow> DB list \<Rightarrow> bool" where
  "dbs_fit hash dbs \<longleftrightarrow> (\<forall>db \<in> set dbs. \<forall>k e. db_ents hash db k = Some e \<longrightarrow> fits k e)"

text \<open>
  What a snapshot keeps of a deadline: its nanoseconds in 64 bits, in which an instant
  outside 1678 to 2262 wraps around and the epoch itself means no deadline.
\<close>

definition saved :: "gotime \<Rightarrow> gotime" where
  "saved t = (if t = zeroTime \<or> unixNano t = 0 then zeroTime else unixNano t)"

definition saved_entry :: "absValue \<times> gotime \<Rightarrow> absValue \<times> gotime" where
  "saved_entry p = (fst p, saved (snd p))"

lemma saved_exact: "t = zeroTime \<or> (int64_ok t \<and> t \<noteq> 0) \<Longrightarrow> saved t = t"
  by (auto simp: saved_def unixNano_def wrap64_id)

section \<open>Restoring records\<close>

definition recordEntry :: "Record \<Rightarrow> Entry" where
  "recordEntry r =
     \<lparr>Entry_Value = rec_Value r, ExpireAt = (if rec_ExpireAt r \<noteq> 0 then rec_ExpireAt r else zeroTime)\<rparr>"

definition restoreInto :: "runtime \<Rightarrow> DB list \<Rightarrow> Record \<Rightarrow> DB list" where
  "restoreInto rt dbs r =
     dbs[nat (rec_DB r) := DB_Restore (rt_hash rt) (dbs ! nat (rec_DB r)) (rec_Key r) (recordEntry r)]"

lemma restoreRecord_ok:
  "0 \<le> rec_DB r \<Longrightarrow> rec_DB r < int (length (srv_databases srv)) \<Longrightarrow>
   restoreRecord rt srv r = Some (Inr (srv\<lparr>srv_databases := restoreInto rt (srv_databases srv) r\<rparr>))"
  by (simp add: restoreRecord_def restoreInto_def recordEntry_def Let_def)

lemma applyAll_fold:
  assumes "\<And>st r. r \<in> set rs \<Longrightarrow> P st \<Longrightarrow> app st r = Some (Inr (f st r)) \<and> P (f st r)" "P st"
  shows "applyAll app st rs = Some (foldl f st rs, None)"
  using assms by (induction rs arbitrary: st) auto

lemma restoreInto_ents:
  assumes "dbs_inv (rt_hash rt) dbs" "0 \<le> rec_DB r" "rec_DB r < int (length dbs)" "value_ok (rec_Value r)"
  shows "dbs_inv (rt_hash rt) (restoreInto rt dbs r)" "length (restoreInto rt dbs r) = length dbs"
    "d < length dbs \<Longrightarrow> db_ents (rt_hash rt) (restoreInto rt dbs r ! d) =
       (if rec_DB r = int d then (db_ents (rt_hash rt) (dbs ! d))(rec_Key r \<mapsto> recordEntry r) else db_ents (rt_hash rt) (dbs ! d))"
proof -
  let ?i = "nat (rec_DB r)"
  have i: "?i < length dbs" using assms(2,3) by simp
  then have "db_inv (rt_hash rt) (dbs ! ?i)" using assms(1) by (simp add: dbs_inv_def)
  from db.put_entry[OF this, of "recordEntry r" "rec_Key r"] assms(4) have
    P: "db_inv (rt_hash rt) (DB_Restore (rt_hash rt) (dbs ! ?i) (rec_Key r) (recordEntry r))"
      "db_ents (rt_hash rt) (DB_Restore (rt_hash rt) (dbs ! ?i) (rec_Key r) (recordEntry r)) =
        (db_ents (rt_hash rt) (dbs ! ?i))(rec_Key r \<mapsto> recordEntry r)"
    by (simp_all add: DB_Restore_SetEntry recordEntry_def)
  with assms(1) set_update_subset_insert[of dbs ?i] show "dbs_inv (rt_hash rt) (restoreInto rt dbs r)"
    by (fastforce simp: dbs_inv_def restoreInto_def)
  show "length (restoreInto rt dbs r) = length dbs" by (simp add: restoreInto_def)
  show "d < length dbs \<Longrightarrow> db_ents (rt_hash rt) (restoreInto rt dbs r ! d) =
      (if rec_DB r = int d then (db_ents (rt_hash rt) (dbs ! d))(rec_Key r \<mapsto> recordEntry r) else db_ents (rt_hash rt) (dbs ! d))"
    using P(2) assms(2) i by (auto simp: restoreInto_def nth_list_update)
qed

text \<open>The same on the level of record views: the last record for a key wins.\<close>

type_synonym recordView = "(int \<times> bytes \<times> int) \<times> absValue \<times> bool"

definition viewEntry :: "recordView \<Rightarrow> absValue \<times> gotime" where
  "viewEntry v = (fst (snd v), if snd (snd (fst v)) \<noteq> 0 then snd (snd (fst v)) else zeroTime)"

definition viewInto :: "nat \<Rightarrow> (bytes \<rightharpoonup> absValue \<times> gotime) \<Rightarrow> recordView \<Rightarrow> (bytes \<rightharpoonup> absValue \<times> gotime)" where
  "viewInto d m v = (if fst (fst v) = int d then m(fst (snd (fst v)) \<mapsto> viewEntry v) else m)"

lemma viewEntry_record: "viewEntry (record_view r) = abs_entry (recordEntry r)"
  by (simp add: viewEntry_def record_view_def abs_entry_def recordEntry_def)

lemma restore_fold:
  assumes "dbs_inv (rt_hash rt) dbs" "\<forall>r \<in> set rs. 0 \<le> rec_DB r \<and> rec_DB r < int (length dbs) \<and> value_ok (rec_Value r)"
  shows "dbs_inv (rt_hash rt) (foldl (restoreInto rt) dbs rs) \<and> length (foldl (restoreInto rt) dbs rs) = length dbs
    \<and> (\<forall>d < length dbs. contents (rt_hash rt) (foldl (restoreInto rt) dbs rs) d =
         foldl (viewInto d) (contents (rt_hash rt) dbs d) (map record_view rs))"
  using assms
proof (induction rs arbitrary: dbs)
  case (Cons r rs)
  note R = restoreInto_ents[OF Cons.prems(1), of r]
  have ok: "0 \<le> rec_DB r" "rec_DB r < int (length dbs)" "value_ok (rec_Value r)" using Cons.prems(2) by auto
  have "contents (rt_hash rt) (restoreInto rt dbs r) d = viewInto d (contents (rt_hash rt) dbs d) (record_view r)"
    if "d < length dbs" for d
    using R(3)[OF ok that]
    by (auto simp: contents_def viewInto_def viewEntry_record fun_eq_iff) (auto simp: record_view_def)
  with Cons.IH[OF R(1)[OF ok]] R(2)[OF ok] Cons.prems(2) show ?case by auto
qed simp

section \<open>The records of a snapshot\<close>

lemma foldl_upd_distinct:
  assumes "distinct (map fst ps)"
  shows "foldl (\<lambda>m (k, v). m(k \<mapsto> v)) Map.empty ps = map_of ps"
proof -
  have "foldl (\<lambda>m (k, v). m(k \<mapsto> v)) m ps = m ++ map_of (rev ps)" for m :: "'a \<rightharpoonup> 'b" and ps
    by (induction ps arbitrary: m) (auto simp: map_add_def fun_eq_iff split: option.split)
  moreover have "map_of (rev ps) = map_of ps"
    using assms by (subst map_of_inject_set) (simp_all add: rev_map[symmetric])
  ultimately show ?thesis by simp
qed

lemma viewInto_other: "(\<And>v. v \<in> set vs \<Longrightarrow> fst (fst v) \<noteq> int d) \<Longrightarrow> foldl (viewInto d) m vs = m"
  by (induction vs arbitrary: m) (auto simp: viewInto_def)

lemma view_entryRecord: "viewEntry (record_view (entryRecord d (k, e))) = saved_entry (abs_entry e)"
  by (auto simp: viewEntry_record recordEntry_def entryRecord_def abs_entry_def saved_entry_def saved_def HasExpiry_def isZero_def)

lemma view_db:
  assumes "db_inv hash db"
  shows "foldl (viewInto d) Map.empty (map record_view (map (entryRecord d) (DB_EachEntry pick db)))
    = map_option (saved_entry \<circ> abs_entry) \<circ> db_ents hash db"
proof -
  let ?es = "DB_EachEntry pick db"
  note E = DB_EachEntry_spec[OF assms(1), of pick]
  have "foldl (viewInto d) m (map record_view (map (entryRecord d) ps))
      = foldl (\<lambda>m (k, v). m(k \<mapsto> v)) m (map (\<lambda>(k, e). (k, saved_entry (abs_entry e))) ps)" for m ps
  proof (induction ps arbitrary: m)
    case (Cons p ps)
    obtain k e where p: "p = (k, e)" by fastforce
    have "viewInto d m (record_view (entryRecord d p)) = m(k \<mapsto> saved_entry (abs_entry e))"
      using view_entryRecord[of d k e] by (simp add: p viewInto_def) (simp add: record_view_def entryRecord_def)
    with Cons show ?case by (simp add: p del: fun_upd_apply)
  qed simp
  then have "foldl (viewInto d) Map.empty (map record_view (map (entryRecord d) ?es))
      = foldl (\<lambda>m (k, v). m(k \<mapsto> v)) Map.empty (map (\<lambda>(k, e). (k, saved_entry (abs_entry e))) ?es)" by blast
  also have "\<dots> = map_of (map (\<lambda>(k, e). (k, saved_entry (abs_entry e))) ?es)"
    using E(1) by (intro foldl_upd_distinct) (simp add: comp_def case_prod_unfold)
  also have "\<dots> = map_option (saved_entry \<circ> abs_entry) \<circ> db_ents hash db"
    using E(2) by (simp add: map_of_map fun_eq_iff comp_def)
  finally show ?thesis .
qed

lemma view_emit:
  assumes "dbs_inv hash dbs" "d < length dbs"
  shows "foldl (viewInto d) Map.empty (map record_view (emitRecords rt dbs)) = map_option saved_entry \<circ> contents hash dbs d"
proof -
  let ?vs = "\<lambda>i. map record_view (map (entryRecord i) (DB_EachEntry (rt_pick rt) (dbs ! i)))"
  have skip: "foldl (viewInto d) m (concat (map ?vs is)) = m" if "d \<notin> set is" for m "is"
    using that by (intro viewInto_other) (auto simp: record_view_def entryRecord_def)
  have "[0..<length dbs] = [0..<d] @ d # [Suc d..<length dbs]"
    using assms(2) by (metis append_Cons append_Nil le_add1 less_imp_add_positive upt_add_eq_append upt_conv_Cons zero_le)
  then have "map record_view (emitRecords rt dbs) =
      concat (map ?vs [0..<d]) @ ?vs d @ concat (map ?vs [Suc d..<length dbs])"
    by (simp add: emitRecords_def map_concat comp_def)
  then have "foldl (viewInto d) Map.empty (map record_view (emitRecords rt dbs)) = foldl (viewInto d) Map.empty (?vs d)"
    using skip[of "[0..<d]"] skip[of "[Suc d..<length dbs]"] by (simp only: foldl_append) simp
  also have "\<dots> = map_option saved_entry \<circ> contents hash dbs d"
  proof -
    have "db_inv hash (dbs ! d)" using assms nth_mem[OF assms(2)] unfolding dbs_inv_def by blast
    from view_db[OF this] show ?thesis by (simp add: contents_def option.map_comp fun_eq_iff comp_def)
  qed
  finally show ?thesis .
qed

lemma emit_good:
  assumes "dbs_inv hash dbs" "dbs_fit hash dbs" "r \<in> set (emitRecords rt dbs)"
  shows "good_record r \<and> rec_DB r < int (length dbs)"
proof -
  from assms(3) obtain d p where d: "d < length dbs" "p \<in> set (DB_EachEntry (rt_pick rt) (dbs ! d))" "r = entryRecord d p"
    by (auto simp: emitRecords_def)
  then have inv: "db_inv hash (dbs ! d)" using assms(1) by (simp add: dbs_inv_def)
  from DB_EachEntry_spec[OF this, of "rt_pick rt"] d(2) have e: "db_ents hash (dbs ! d) (fst p) = Some (snd p)"
    by (metis map_of_is_SomeI prod.collapse)
  with assms(2) nth_mem[OF d(1)] have "fits (fst p) (snd p)" unfolding dbs_fit_def by blast
  moreover have "minInt64 \<le> wrap64 x \<and> wrap64 x \<le> maxInt64" for x using int64_ok_wrap64[of x] by (simp only: int64_ok_def)
  ultimately show ?thesis using e db.values_ok[OF inv e] d assms(1)
    by (auto simp: good_record_def entryRecord_def fits_def dbs_inv_def int64_ok_def unixNano_def)
qed

section \<open>A snapshot restores the contents\<close>

definition empty_dbs :: "keyhash \<Rightarrow> DB list \<Rightarrow> bool" where
  "empty_dbs hash dbs \<longleftrightarrow> dbs_inv hash dbs \<and> (\<forall>db \<in> set dbs. db_ents hash db = Map.empty)"

text \<open>The boot server \<open>srv0\<close> recovers to a server that differs in its databases only and holds the contents of \<open>dbs\<close>,
  with what a snapshot keeps of the deadlines.\<close>

definition recovers_to :: "runtime \<Rightarrow> Server \<Rightarrow> runtime \<Rightarrow> DB list \<Rightarrow> Server \<Rightarrow> bool" where
  "recovers_to rt' srv0 rt dbs srv' \<longleftrightarrow>
     srv' = srv0\<lparr>srv_databases := srv_databases srv'\<rparr> \<and> dbs_inv (rt_hash rt') (srv_databases srv')
     \<and> length (srv_databases srv') = length dbs
     \<and> (\<forall>d < length dbs. contents (rt_hash rt') (srv_databases srv') d = map_option saved_entry \<circ> contents (rt_hash rt) dbs d)"

lemma recovers_exact:
  assumes "recovers_to rt' srv0 rt dbs srv'" "d < length dbs"
    "\<forall>e. db_ents (rt_hash rt) (dbs ! d) k = Some e \<longrightarrow> ExpireAt e = zeroTime \<or> int64_ok (ExpireAt e) \<and> ExpireAt e \<noteq> 0"
  shows "contents (rt_hash rt') (srv_databases srv') d k = contents (rt_hash rt) dbs d k"
  using assms saved_exact
  by (cases "db_ents (rt_hash rt) (dbs ! d) k") (auto simp: recovers_to_def contents_def saved_entry_def abs_entry_def)

lemma load_restores:
  assumes dbs: "dbs_inv (rt_hash rt) dbs" "dbs_fit (rt_hash rt) dbs"
    and srv: "empty_dbs (rt_hash rt') (srv_databases srv0)" "length (srv_databases srv0) = length dbs"
    and gen: "0 \<le> gen" "int64_ok gen"
  obtains snap srv' where "WriteSnapshot (rt_pick rt) gen (emitRecords rt dbs) = Some (Inr snap)"
    "recovers_to rt' srv0 rt dbs srv'"
    "\<And>d. map_of d snapshotName = Some snap \<Longrightarrow>
       loadSnapshot (rt_draws rt') (srv_limits srv0) (restoreState rt') d (srv0, 0, 0) = Some (gen, int (length (emitRecords rt dbs)), (srv', 0, 0), None)"
proof -
  let ?recs = "emitRecords rt dbs"
  have good: "\<forall>r \<in> set ?recs. good_record r" using emit_good[OF dbs] by blast
  from ReadSnapshot_Write[OF good gen, where 'st = "int \<times> Server \<times> nat \<times> nat", of "rt_pick rt" "rt_draws rt'" "srv_limits srv0"]
  obtain snap ys where f: "WriteSnapshot (rt_pick rt) gen ?recs = Some (Inr snap)" "map record_view ys = map record_view ?recs"
    "\<And>app (st :: int \<times> Server \<times> nat \<times> nat). ReadSnapshot (rt_draws rt') (srv_limits srv0) app st snap = map_option (\<lambda>(st', err). (gen, st', err)) (applyAll app st ys)"
    by blast
  have len: "length ys = length ?recs" using f(2) by (metis length_map)
  have ys: "0 \<le> rec_DB y \<and> rec_DB y < int (length dbs) \<and> value_ok (rec_Value y)" if "y \<in> set ys" for y
  proof -
    have "record_view y \<in> record_view ` set ?recs" using that f(2) by (metis image_eqI list.set_map)
    then obtain r where "r \<in> set ?recs" "record_view y = record_view r" by blast
    with emit_good[OF dbs, of r rt] show ?thesis by (auto simp: record_view_def good_record_def)
  qed
  define dbs' where "dbs' = foldl (restoreInto rt') (srv_databases srv0) ys"
  let ?srv = "\<lambda>dbs. srv0\<lparr>srv_databases := dbs\<rparr>"
  let ?app = "\<lambda>(n, st) r. map_option (\<lambda>res. case res of Inl err \<Rightarrow> Inl err | Inr st' \<Rightarrow> Inr (n + 1, st')) (restoreState rt' st r)"
  let ?f = "\<lambda>(n, srv, i, k) r. (n + 1, srv\<lparr>srv_databases := restoreInto rt' (srv_databases srv) r\<rparr>, i, k)"
  have app: "applyAll ?app (0 :: int, srv0, 0 :: nat, 0 :: nat) ys = Some (foldl ?f (0, srv0, 0, 0) ys, None)"
    using ys srv(2)
    by (intro applyAll_fold[where P = "\<lambda>(n, srv, i, k). length (srv_databases srv) = length dbs"])
       (auto simp: restoreState_def restoreRecord_ok restoreInto_def)
  have fold: "foldl ?f (n, srv, i, k) rs =
      (n + int (length rs), srv\<lparr>srv_databases := foldl (restoreInto rt') (srv_databases srv) rs\<rparr>, i, k)" for n srv i k rs
    by (induction rs arbitrary: n srv) auto
  have "loadSnapshot (rt_draws rt') (srv_limits srv0) (restoreState rt') d (srv0, 0, 0) = Some (gen, int (length ?recs), (?srv dbs', 0, 0), None)" if "map_of d snapshotName = Some snap" for d
    using that app by (simp add: loadSnapshot_def f(3) fold dbs'_def len)
  moreover have "recovers_to rt' srv0 rt dbs (?srv dbs')"
  proof -
    have inv: "dbs_inv (rt_hash rt') (srv_databases srv0)" using srv(1) by (simp add: empty_dbs_def)
    from restore_fold[OF inv, of ys] ys srv(2) have
      R: "dbs_inv (rt_hash rt') dbs'" "length dbs' = length dbs"
        "\<And>d. d < length dbs \<Longrightarrow> contents (rt_hash rt') dbs' d = foldl (viewInto d) (contents (rt_hash rt') (srv_databases srv0) d) (map record_view ys)"
      by (auto simp: dbs'_def)
    have "contents (rt_hash rt') (srv_databases srv0) d = Map.empty" if "d < length dbs" for d
      using srv that by (auto simp: contents_def empty_dbs_def fun_eq_iff)
    with R view_emit[OF dbs(1), of _ rt] f(2) show ?thesis by (simp add: recovers_to_def)
  qed
  ultimately show thesis using that[OF f(1)] by blast
qed

lemma replay_none:
  assumes "\<And>g. base \<le> g \<Longrightarrow> int64_ok g \<Longrightarrow> segfile d g = []" "int64_ok base"
  shows "replaySegments replay d st base = Some (st, 0, None)"
proof -
  have "\<forall>g \<in> set [base..highestSegment d]. segfile d g = []"
    using assms highestSegment_ok[of d] by (auto simp: int64_ok_def)
  from replayGens_append[OF this, of replay st 0 "[]"] show ?thesis by (simp add: replaySegments_def)
qed

section \<open>Stores stay well formed\<close>

lemma highestSegment_le:
  assumes "0 \<le> h" "\<And>name g. name \<in> dom (map_of d) \<Longrightarrow> scanSegment name = Some g \<Longrightarrow> g \<le> h"
  shows "highestSegment d \<le> h"
proof -
  have "foldl highestStep h' d' \<le> h" if "h' \<le> h" "set d' \<subseteq> set d" for h' d'
    using that
  proof (induction d' arbitrary: h')
    case (Cons e d')
    have "fst e \<in> dom (map_of d)" using Cons.prems(2) by (auto simp: dom_map_of_conv_image_fst)
    then have "highestStep h' e \<le> h" using assms(2) Cons.prems(1) by (auto simp: highestStep_def split: option.split)
    with Cons show ?case by simp
  qed simp
  from this[of 0 d] assms(1) show ?thesis by (simp add: highestSegment_step)
qed

lemma segments_bounded: "name \<in> dom (map_of d) \<Longrightarrow> scanSegment name = Some g \<Longrightarrow> g \<le> highestSegment d"
  by (auto dest!: map_of_SomeD intro: highestSegment_upper)

lemma store_wf_dir:
  assumes "store_wf s" "st_gen s' = st_gen s" "dom (map_of (st_dir s')) = dom (map_of (st_dir s))"
  shows "store_wf s'"
proof -
  have "highestSegment (st_dir s') \<le> st_gen s"
    using assms segments_bounded[of _ "st_dir s"] by (intro highestSegment_le) (fastforce simp: store_wf_def)+
  moreover have "seg s' \<noteq> None" using assms by (auto simp: store_wf_def dom_def set_eq_iff)
  ultimately show ?thesis using assms by (auto simp: store_wf_def)
qed

lemma store_wf_wrote:
  assumes "store_wf s" "wrote s s' p"
  shows "store_wf s'"
proof (rule store_wf_dir[OF assms(1) wroteD(1)[OF assms(2)]])
  obtain c where c: "seg s = Some c" using assms(1) by (auto simp: store_wf_def)
  from wroteD(6)[OF assms(2) c] wroteD(1)[OF assms(2)] obtain c' where
    c': "map_of (st_dir s') (segmentPath (st_gen s)) = Some c'" by auto
  show "dom (map_of (st_dir s')) = dom (map_of (st_dir s))"
  proof (rule set_eqI)
    fix name
    show "name \<in> dom (map_of (st_dir s')) \<longleftrightarrow> name \<in> dom (map_of (st_dir s))"
      using c c' wroteD(4)[OF assms(2), of name] by (cases "name = segmentPath (st_gen s)") (simp_all add: domIff)
  qed
qed

text \<open>\<open>Open\<close> starts with such a store, unless the generations are used up.\<close>

lemma Open_wf:
  assumes "Open d fsync fault = Some s" "st_gen s < maxInt64"
  shows "store_wf s" "st_buf s = []" "\<not> st_err s" "\<exists>c. seg s = Some c \<and> c = segfile d (st_gen s)"
proof -
  let ?g = "st_gen s"
  have S: "st_dir s = (case map_of d (segmentPath ?g) of None \<Rightarrow> AList.update (segmentPath ?g) [] d | Some c \<Rightarrow> d)"
    "highestSegment d \<le> ?g" "st_buf s = []" "\<not> st_err s"
    using assms(1) by (auto simp: Open_def openSegment_def sysCall_def Let_def split: if_splits option.splits)
  have ge: "0 \<le> ?g" using S(2) highestSegment_ok[of d] by simp
  then have scan: "scanSegment (segmentPath ?g) = Some ?g"
    using assms(2) by (intro scan_segmentPath) (simp add: int64_ok_def)
  have "g \<le> ?g" if "name \<in> dom (map_of (st_dir s))" "scanSegment name = Some g" for name g
  proof (cases "name = segmentPath ?g")
    case True
    with scan that show ?thesis by simp
  next
    case False
    with that(1) S(1) have "name \<in> dom (map_of d)" by (auto split: option.splits if_splits)
    with segments_bounded[OF this that(2)] S(2) show ?thesis by simp
  qed
  then have "highestSegment (st_dir s) \<le> ?g" using ge by (intro highestSegment_le)
  with S ge assms(2) show "store_wf s" "st_buf s = []" "\<not> st_err s" "\<exists>c. seg s = Some c \<and> c = segfile d ?g"
    by (auto simp: store_wf_def segfile_def split: option.splits)
qed

section \<open>Compaction and crashes\<close>

text \<open>
  A failed compaction leaves, next to its temporary file, what the rotation left: recovery
  sees the old snapshot and the log with part of the buffer appended.
\<close>

lemma rotated_recovery:
  assumes "seg s = Some c" "Store_Rotate s = (s1, r)"
  obtains c' where "prefix c c'" "prefix c' (c @ st_buf s)"
    "\<And>g. segmentPath g \<noteq> segmentPath (st_gen s) \<Longrightarrow> segfile (st_dir s1) g = segfile (st_dir s) g"
    "\<And>d. (\<And>name. name \<noteq> snapshotTmp \<Longrightarrow> map_of d name = map_of (st_dir s1) name) \<Longrightarrow>
       Server_recover rt' reg clk d srv0 =
       Server_recover rt' reg clk (AList.update (segmentPath (st_gen s)) c' (st_dir s)) srv0"
proof -
  from Rotate_effect[OF assms] obtain c' where
    c': "prefix c c'" "prefix c' (c @ st_buf s)" "segfile (st_dir s1) (st_gen s) = c'"
      "\<And>g. segmentPath g \<noteq> segmentPath (st_gen s) \<Longrightarrow> segfile (st_dir s1) g = segfile (st_dir s) g"
      "map_of (st_dir s1) snapshotName = map_of (st_dir s) snapshotName" by blast
  let ?d = "AList.update (segmentPath (st_gen s)) c' (st_dir s)"
  have old: "Server_recover rt' reg clk d srv0 = Server_recover rt' reg clk ?d srv0"
    if "\<And>name. name \<noteq> snapshotTmp \<Longrightarrow> map_of d name = map_of (st_dir s1) name" for d
    unfolding Server_recover_def
  proof (rule Recover_view)
    show "map_of d snapshotName = map_of ?d snapshotName" using that[of snapshotName] c'(5) by simp
    fix g
    have "segfile d g = segfile (st_dir s1) g" using that[of "segmentPath g"] by (simp add: segfile_def)
    also have "\<dots> = segfile ?d g"
    proof (cases "segmentPath g = segmentPath (st_gen s)")
      case True
      with c'(3) show ?thesis by (simp add: segfile_def)
    next
      case False
      with c'(4)[OF False] show ?thesis by (simp add: segfile_def)
    qed
    finally show "segfile d g = segfile ?d g" .
  qed
  with c'(1,2,4) show thesis by (rule that)
qed

text \<open>
  The outcomes of a compaction under any failure of its system calls: before the rename,
  recovery sees the old snapshot and the log with part of the buffer appended; after it,
  recovery gives the contents the compaction captured.
\<close>

lemma compact_cases:
  assumes dbs: "dbs_inv (rt_hash rt) dbs" "dbs_fit (rt_hash rt) dbs"
    and srv: "empty_dbs (rt_hash rt') (srv_databases srv0)" "length (srv_databases srv0) = length dbs"
    and s: "store_wf s" "seg s = Some c"
  obtains s' ok where "compact rt dbs s = Some (s', ok)"
    "\<not> ok \<Longrightarrow> \<exists>c'. prefix c c' \<and> prefix c' (c @ st_buf s) \<and>
       Server_recover rt' reg clk (st_dir s') srv0 =
       Server_recover rt' reg clk (AList.update (segmentPath (st_gen s)) c' (st_dir s)) srv0"
    "ok \<Longrightarrow> \<exists>srv' n. Server_recover rt' reg clk (st_dir s') srv0 = Some ((srv', 0, 0), n, 0, None)
       \<and> recovers_to rt' srv0 rt dbs srv'"
proof -
  have gen: "0 \<le> Store_NextGen s" "int64_ok (Store_NextGen s)"
    using s(1) store_wf_gens[OF s(1)] by (auto simp: Store_NextGen_def store_wf_def)
  from load_restores[OF dbs srv gen] obtain snap srv' where
    L: "WriteSnapshot (rt_pick rt) (Store_NextGen s) (emitRecords rt dbs) = Some (Inr snap)" "recovers_to rt' srv0 rt dbs srv'"
      "\<And>d. map_of d snapshotName = Some snap \<Longrightarrow>
       loadSnapshot (rt_draws rt') (srv_limits srv0) (restoreState rt') d (srv0, 0, 0) =
         Some (Store_NextGen s, int (length (emitRecords rt dbs)), (srv', 0, 0), None)" by blast
  obtain s1 r where R: "Store_Rotate s = (s1, r)" by fastforce
  from rotated_recovery[OF s(2) R, of rt' reg clk srv0] obtain c' where
    c': "prefix c c'" "prefix c' (c @ st_buf s)"
      "\<And>g. segmentPath g \<noteq> segmentPath (st_gen s) \<Longrightarrow> segfile (st_dir s1) g = segfile (st_dir s) g"
    and old: "\<And>d. (\<And>name. name \<noteq> snapshotTmp \<Longrightarrow> map_of d name = map_of (st_dir s1) name) \<Longrightarrow>
       Server_recover rt' reg clk d srv0 =
       Server_recover rt' reg clk (AList.update (segmentPath (st_gen s)) c' (st_dir s)) srv0" by blast
  show thesis
  proof (cases r)
    case None
    with R L(1) have "compact rt dbs s = Some (s1, False)" by (simp add: compact_def)
    with that[of s1 False] old[of "st_dir s1"] c'(1,2) show thesis by blast
  next
    case (Some g0)
    obtain s2 ok where I: "InstallSnapshot s1 snap (Store_NextGen s) = (s2, ok)" by fastforce
    have C: "compact rt dbs s = Some (s2, ok)" using R L(1) I Some by (simp add: compact_def)
    show thesis
    proof (cases ok)
      case False
      with that[OF C] old[of "st_dir s2"] Install_effect(1)[OF I] c'(1,2) show thesis by blast
    next
      case True
      have "segfile (st_dir s2) g = []" if "Store_NextGen s \<le> g" "int64_ok g" for g
      proof -
        have "segfile (st_dir s2) g = segfile (st_dir s1) g"
          using Install_effect(3)[OF I True, of g] that gen by auto
        also have "\<dots> = segfile (st_dir s) g"
          using c'(3)[of g] segmentPath_inj[of g "st_gen s"] store_wf_gens[OF s(1)] that by (auto simp: Store_NextGen_def)
        also have "\<dots> = []"
          using segfile_beyond[of "st_dir s" g] s(1) that by (auto simp: Store_NextGen_def store_wf_def)
        finally show ?thesis .
      qed
      from replay_none[OF this gen(2)] L(3)[OF Install_effect(2)[OF I True]]
      have "Server_recover rt' reg clk (st_dir s2) srv0 = Some ((srv', 0, 0), int (length (emitRecords rt dbs)), 0, None)"
        by (simp add: Server_recover_def Recover_def)
      with that[OF C] True L(2) show thesis by blast
    qed
  qed
qed

section \<open>The log and crashes\<close>

fun logged :: "logOp \<Rightarrow> (int \<times> bytes list) list" where
  "logged (LAppend db args) = [(db, args)]"
| "logged LFlush = []"

lemma log_bytes_logged: "concat (map log_bytes xs) = concat (map encodeCommand (concat (map logged xs)))"
proof (induction xs)
  case (Cons x xs)
  then show ?case by (cases x) simp_all
qed simp

text \<open>
  Whatever system calls fail during a run of appends and flushes, and wherever the file is
  cut off afterwards among the bytes of the run, replay sees the commands that were in the
  log before, then the first few of the run; all of them once the buffer is out.
\<close>

lemma log_crash:
  assumes "\<forall>c \<in> set cs0. good_command c" "\<forall>c \<in> set (concat (map logged xs)). good_command c"
    "seg s = Some (concat (map encodeCommand cs0))" "st_buf s = []"
  shows "\<exists>log k. seg (log_run xs s) = Some log \<and> k \<le> length (concat (map logged xs))
    \<and> (\<forall>replay st n. replayLoop replay st n log = replayAll replay st n (cs0 @ take k (concat (map logged xs))))
    \<and> (\<not> st_err (log_run xs s) \<and> st_buf (log_run xs s) = [] \<longrightarrow> k = length (concat (map logged xs)))"
proof -
  let ?cs = "concat (map logged xs)" and ?s = "log_run xs s" and ?enc = "\<lambda>cs. concat (map encodeCommand cs)"
  from wroteD(6)[OF wrote_run[of s xs] assms(3)] obtain log where
    log: "seg ?s = Some log" "prefix (?enc cs0) log" "prefix log (?enc cs0 @ ?enc ?cs)"
      "st_err ?s \<or> log @ st_buf ?s = ?enc cs0 @ ?enc ?cs"
    by (auto simp: log_bytes_logged assms(4))
  from log(2) obtain tail where tail: "log = ?enc cs0 @ tail" by (auto simp: prefix_def)
  with log(3) have "prefix tail (concat (map encodeCommand ?cs))" by simp
  from prefix_concat[OF this] obtain k p where
    k: "k \<le> length ?cs" "tail = concat (take k (map encodeCommand ?cs)) @ p"
      "p = [] \<or> (k < length ?cs \<and> (\<exists>q. map encodeCommand ?cs ! k = p @ q \<and> q \<noteq> []))" by auto
  show ?thesis
  proof (cases "\<not> st_err ?s \<and> st_buf ?s = []")
    case True
    with log(4) have "log = concat (map encodeCommand (cs0 @ ?cs)) @ []" by simp
    moreover have "\<forall>c \<in> set (cs0 @ ?cs). good_command c" using assms(1,2) by auto
    ultimately have "replayLoop replay st n log = replayAll replay st n (cs0 @ ?cs)" for replay :: "'a replayer" and st n
      by (simp only: replayLoop_cut[of "cs0 @ ?cs" "[]"] simp_thms)
    with log(1) show ?thesis by (intro exI[of _ log] exI[of _ "length ?cs"]) simp
  next
    case False
    have "p = [] \<or> (\<exists>c q. good_command c \<and> encodeCommand c = p @ q \<and> q \<noteq> [])"
    proof (cases "p = []")
      case pne: False
      then obtain q where "k < length ?cs" "encodeCommand (?cs ! k) = p @ q" "q \<noteq> []" using k(3) by auto
      with assms(2) show ?thesis using nth_mem by blast
    qed simp
    moreover have "log = concat (map encodeCommand (cs0 @ take k ?cs)) @ p" using tail k(2) by (simp add: take_map)
    moreover have "\<forall>c \<in> set (cs0 @ take k ?cs). good_command c" using assms(1,2) set_take_subset[of k ?cs] unfolding set_append by blast
    ultimately have "replayLoop replay st n log = replayAll replay st n (cs0 @ take k ?cs)" for replay :: "'a replayer" and st n
      by (simp only: replayLoop_cut[of "cs0 @ take k ?cs" p] simp_thms)
    with log(1) k(1) False show ?thesis by (intro exI[of _ log] exI[of _ k]) auto
  qed
qed

section \<open>A snapshot that was cut off\<close>

text \<open>
  A snapshot file that ends inside a record is reported as truncated; the records before the
  cut have been applied. (\<open>InstallSnapshot\<close> never leaves such a file, but a copy might.)
\<close>

lemma snapshot_cut:
  assumes good: "\<forall>r \<in> set recs. good_record r" "good_record r" and gen: "0 \<le> gen" "int64_ok gen"
    and cut: "recordBytes pick r = p @ q" "p \<noteq> []" "q \<noteq> []"
  shows "\<exists>ys. map record_view ys = map record_view recs
    \<and> (\<forall>app (st :: 'st). ReadSnapshot draws limits app st
          (snapshotMagic @ writeUvarint (toUint64 gen) @ concat (map (recordBytes pick) recs) @ p)
        = map_option (\<lambda>(st', err). (gen, st', case err of None \<Rightarrow> Some UnexpectedEOF | Some e \<Rightarrow> Some e)) (applyAll app st ys))"
proof -
  from snap.frame_all[OF good(1), of draws limits pick] obtain ys where
    ys: "list_all2 (frames (readRecord draws limits)) (map (recordBytes pick) recs) ys" "map record_view ys = map record_view recs"
    by blast
  from snap.frame[OF good(2), of draws limits pick] obtain y where "frames (readRecord draws limits) (recordBytes pick r) y" by blast
  from framesD(2)[OF this cut(1,3)] cut(2) have "readRecord draws limits p = Some (Inl UnexpectedEOF)" by simp
  then have stop: "snapshotLoop draws limits app st p = Some (st, Some UnexpectedEOF)"
    for app :: "'st \<Rightarrow> Record \<Rightarrow> (ioErr + 'st) option" and st
    by (subst snapshotLoop.simps) simp
  have "snapshotLoop draws limits app st (concat (map (recordBytes pick) recs) @ p) =
      map_option (\<lambda>(st', err). (st', case err of None \<Rightarrow> Some UnexpectedEOF | Some e \<Rightarrow> Some e)) (applyAll app st ys)"
    for app :: "'st \<Rightarrow> Record \<Rightarrow> (ioErr + 'st) option" and st
    by (rule snapshotLoop_frames[OF ys(1) stop])
  with ys(2) show ?thesis
    by (intro exI[of _ ys]) (simp add: snapshot_header[OF gen] option.map_comp comp_def case_prod_unfold)
qed

end
