(* ===== verification/ServerProps.thy ===== *)
theory ServerProps
  imports Durability
begin

text \<open>
  What the executor and the connection loop guarantee: the locks taken cover the keys a
  command touches, a panic stays inside its command, replies come back in the order of the
  requests and are flushed, and a batch of pipelined requests has the effect of its
  commands one after the other.
\<close>

section \<open>Locks of the executor\<close>

lemma LockKeys_covers:
  assumes "db_shards db \<noteq> []" "k \<in> set keys"
  shows "((d, indexBytes hash db k), Exclusive) \<in> set (LockKeys hash d db keys)"
    "((d, indexBytes hash db k), Shared) \<in> set (RLockKeys hash d db keys)"
  using shardSet_spec[of hash db keys] assms by (auto simp: LockKeys_def RLockKeys_def)

lemma executeLocks_cover:
  assumes "db_shards (dbs ! d) \<noteq> []" "k \<in> declared cmd args"
  shows "\<exists>m. ((d, indexBytes hash (dbs ! d) k), m) \<in> set (executeLocks hash dbs d cmd args)
    \<and> (m = Exclusive \<or> cmd_readOnly cmd)"
proof -
  let ?i = "indexBytes hash (dbs ! d) k"
  have i: "?i < length (db_shards (dbs ! d))" using indexBytes_less[OF assms(1)] .
  show ?thesis
  proof (cases "cmd_wholeDB cmd")
    case True
    then have "((d, ?i), Exclusive) \<in> set (executeLocks hash dbs d cmd args)"
      using i by (auto simp: executeLocks_def lockShards_def SingleKey_def LockAll_def)
    then show ?thesis by blast
  next
    case False
    then have k: "k \<in> set (Keys cmd args)" using assms(2) by (simp add: declared_def)
    note C = LockKeys_covers[OF assms(1) k, of d hash]
    show ?thesis
    proof (cases "SingleKey cmd \<and> length args > 1")
      case True
      then have "Keys cmd args = [args ! 1]" by (auto simp: Keys_def SingleKey_def upto_single)
      with k True show ?thesis by (auto simp: executeLocks_def LockAt_def RLockAt_def)
    next
      case False
      with C \<open>\<not> cmd_wholeDB cmd\<close> show ?thesis by (auto simp: executeLocks_def lockShards_def)
    qed
  qed
qed

text \<open>The locks of \<open>execute\<close> are among the plans of theory \<open>Locks\<close>, with the log mutex for a write.\<close>

lemma executeLocks_plan:
  assumes "d < length dbs" "db_shards (dbs ! d) \<noteq> []"
  shows "lock_plan hash dbs (executeLocks hash dbs d cmd args)"
    "\<not> cmd_readOnly cmd \<Longrightarrow> lock_plan hash dbs (executeLocks hash dbs d cmd args @ storeMu dbs)"
  using assms indexBytes_less[OF assms(2)]
  by (auto simp: executeLocks_def lockShards_def Let_def intro: lock_plan.intros)

section \<open>Execution\<close>

definition srv_inv :: "runtime \<Rightarrow> Server \<Rightarrow> bool" where
  "srv_inv rt srv \<longleftrightarrow> dbs_inv (rt_hash rt) (srv_databases srv)"

lemma session_inv: "srv_inv rt srv \<Longrightarrow> idx < length (srv_databases srv) \<Longrightarrow> ctx_inv rt (session srv idx now)"
  by (simp add: session_def NewContext_def ctx_inv_def srv_inv_def dbs_inv_def)

lemma session_simps [simp]:
  "ctx_databases (session srv idx now) = srv_databases srv" "ctx_index (session srv idx now) = idx"
  "ctx_now (session srv idx now) = now" "ctx_Settings (session srv idx now) = Some (srv_settings srv)"
  "ctx_Limits (session srv idx now) = srv_limits srv"
  by (simp_all add: session_def NewContext_def)

lemma absorb_simps [simp]:
  "srv_persist (absorb srv c) = srv_persist srv" "srv_metrics (absorb srv c) = srv_metrics srv"
  "srv_slowLog (absorb srv c) = srv_slowLog srv" "srv_limits (absorb srv c) = srv_limits srv"
  "srv_persistCfg (absorb srv c) = srv_persistCfg srv"
  "length (srv_databases (absorb srv c)) = length (ctx_databases c)"
  "srv_settings (absorb srv c) = (case ctx_Settings c of None \<Rightarrow> srv_settings srv | Some r \<Rightarrow> r)"
  by (simp_all add: absorb_def reapAll_def)

lemma absorb_db:
  "d < length (ctx_databases c) \<Longrightarrow> db_ents hash (srv_databases (absorb srv c) ! d) = db_ents hash (ctx_databases c ! d)"
  "d < length (ctx_databases c) \<Longrightarrow> db_inv hash (srv_databases (absorb srv c) ! d) = db_inv hash (ctx_databases c ! d)"
  by (simp_all add: absorb_def reapAll_def)

lemma absorb_inv:
  assumes "ctx_inv rt c" "int (length (ctx_databases c)) \<le> maxInt64"
  shows "srv_inv rt (absorb srv c)"
  using assms by (auto simp: srv_inv_def dbs_inv_def ctx_inv_def absorb_def reapAll_def)

lemma record_call_simps [simp]:
  "srv_databases (record_call x srv) = srv_databases srv" "srv_persist (record_call x srv) = srv_persist srv"
  "srv_settings (record_call x srv) = srv_settings srv" "srv_limits (record_call x srv) = srv_limits srv"
  by (simp_all add: record_call_def)

lemma record_call_inv [simp]: "srv_inv rt (record_call x srv) = srv_inv rt srv"
  by (simp add: srv_inv_def)

text \<open>The channel of freed values never holds more than its capacity, and keeps the order.\<close>

lemma reapAsync_fold:
  assumes "length ch \<le> reaperBuffer"
  shows "foldl reapAsync ch vs = ch @ take (reaperBuffer - length ch) vs"
  using assms
proof (induction vs arbitrary: ch)
  case (Cons v vs)
  show ?case
  proof (cases "length ch < reaperBuffer")
    case True
    with Cons.IH[of "ch @ [v]"] show ?thesis by (simp add: reapAsync_def Suc_diff_Suc take_Cons')
  next
    case False
    with Cons show ?thesis by (simp add: reapAsync_def)
  qed
qed simp

text \<open>A pop that cannot allocate its reply changes nothing when it returns at all.\<close>

lemma huge_pop: "hugeCount args \<Longrightarrow> listPop rt c args front = Some (c', r) \<Longrightarrow> c' = c"
  by (auto simp: listPop_def hugeCount_def popCount_def bind_Some_iff split: option.splits if_splits sum.splits)

lemma table_name_eq:
  "cmd \<in> set allCommands \<Longrightarrow> cmd' \<in> set allCommands \<Longrightarrow> cmd_name cmd = cmd_name cmd' \<Longrightarrow> cmd = cmd'"
  using names_distinct by (auto simp: distinct_map inj_on_def)

lemma pops_in_table:
  "writeKey ''lpop'' (-2) cmdLPop \<in> set allCommands" "writeKey ''rpop'' (-2) cmdRPop \<in> set allCommands"
  by (simp_all add: allCommands_def listCommands_def)

text \<open>A handler that returns leaves a well-formed session, in every case.\<close>

lemma handler_inv:
  assumes "ctx_inv rt c" "args_ok args" "cmd \<in> set allCommands" "accepts cmd (int (length args))"
    "cmd_run cmd rt c args = Some (c', r)"
  shows "ctx_inv rt c' \<and> length (ctx_databases c') = length (ctx_databases c)"
proof (cases "hugeCount args \<and> cmd_name cmd \<in> {''lpop'', ''rpop''}")
  case False
  then have "returns_touching rt c (declared cmd args) (cmd_run cmd rt c args)"
    using table_safe[OF assms(3)] assms(1,2,4) unfolding safe_def by blast
  with assms(5) show ?thesis by (auto simp: returns_touching_def touches_only_def)
next
  case True
  then have "cmd = writeKey ''lpop'' (-2) cmdLPop \<or> cmd = writeKey ''rpop'' (-2) cmdRPop"
    using table_name_eq[OF assms(3) pops_in_table(1)] table_name_eq[OF assms(3) pops_in_table(2)] by (auto simp: writeKey_def)
  then obtain front where "listPop rt c args front = Some (c', r)"
    using assms(5) by (auto simp: writeKey_def cmdLPop_def cmdRPop_def)
  with huge_pop[of args] True assms(1) show ?thesis by fastforce
qed

lemma execute_inv:
  assumes "srv_inv rt srv" "idx < length (srv_databases srv)" "args_ok args"
    "cmd \<in> set allCommands" "accepts cmd (int (length args))"
    "execute rt srv idx at cmd args = (srv', idx', reply)"
  shows "srv_inv rt srv' \<and> idx' < length (srv_databases srv') \<and> length (srv_databases srv') = length (srv_databases srv)"
proof (cases "cmd_run cmd rt (session srv idx (at_run at)) args")
  case None
  with assms show ?thesis by (simp add: execute_def)
next
  case (Some p)
  obtain c r where p: "p = (c, r)" by fastforce
  from handler_inv[OF session_inv[OF assms(1,2)] assms(3-5)] Some p
  have "ctx_inv rt c \<and> length (ctx_databases c) = length (srv_databases srv)" by auto
  with absorb_inv[of rt c srv] assms(1,6) Some p show ?thesis
    by (auto simp: execute_def srv_inv_def dbs_inv_def ctx_inv_def Context_DB_def Let_def split: option.splits if_splits)
qed

lemma dispatch_inv:
  assumes "srv_inv rt srv" "idx < length (srv_databases srv)" "args_ok args"
    "dispatch rt commandTable srv idx at args = (srv', idx', reply)"
  shows "srv_inv rt srv' \<and> idx' < length (srv_databases srv') \<and> length (srv_databases srv') = length (srv_databases srv)"
proof (cases "Resolve commandTable args")
  case (Inl r)
  with assms show ?thesis by (simp add: dispatch_def)
next
  case (Inr cmd)
  obtain srv1 idx1 r1 where e: "execute rt srv idx at cmd args = (srv1, idx1, r1)" using prod_cases3 by blast
  from execute_inv[OF assms(1-3) Resolve_in_table[OF Inr] e] e Inr assms(4) show ?thesis
    by (auto simp: dispatch_def Let_def srv_inv_def split: if_splits)
qed

text \<open>A panic of a handler becomes an error reply; nothing else happens.\<close>

lemma execute_panic:
  "cmd_run cmd rt (session srv idx (at_run at)) args = None \<Longrightarrow>
   execute rt srv idx at cmd args = (srv, idx, RError ''ERR internal server error'')"
  by (simp add: execute_def)

section \<open>The connection loop\<close>

fun dispatchAll ::
  "runtime \<Rightarrow> Registry \<Rightarrow> (nat \<Rightarrow> readings) \<Rightarrow> nat \<Rightarrow> Server \<Rightarrow> nat \<Rightarrow> bytes list list \<Rightarrow> Server \<times> nat \<times> Reply list" where
  "dispatchAll rt reg clk n srv idx [] = (srv, idx, [])"
| "dispatchAll rt reg clk n srv idx (args # reqs) =
     (case dispatch rt reg srv idx (clk n) args of
        (srv1, idx1, r) \<Rightarrow>
          (case dispatchAll rt reg clk (n + 1) srv1 idx1 reqs of
             (srv2, idx2, rs) \<Rightarrow> (srv2, idx2, r # rs)))"

definition encodeRequest :: "bytes list \<Rightarrow> bytes" where
  "encodeRequest args = (case writeCommand args of None \<Rightarrow> [] | Some wire \<Rightarrow> wire)"

definition request_ok :: "bytes list \<Rightarrow> bool" where
  "request_ok args \<longleftrightarrow> args \<noteq> [] \<and> int (length args) \<le> maxMultiBulkLen \<and> (\<forall>a \<in> set args. bulk_ok a)"

lemma ReadRequest_encode: "request_ok args \<Longrightarrow> ReadRequest (encodeRequest args @ rest) = Inr (args, rest)"
  using ReadRequest_writeCommand[of args rest] by (auto simp: request_ok_def encodeRequest_def)

lemma flush_ok: "no_fault w \<Longrightarrow> \<exists>w'. Writer_Flush w = (w', False) \<and> no_fault w' \<and> w_out w' = w_out w \<and> w_flushed w' = length (w_out w)"
  by (simp add: Writer_Flush_def no_fault_def)

lemma WriteReply_ok: "no_fault w \<Longrightarrow> \<exists>w'. WriteReply w r = (w', False) \<and> no_fault w' \<and> w_out w' = w_out w @ encodeReply r"
  using Writer_writeReply_ok[of w r] by (simp add: WriteReply_def no_fault_def)

text \<open>
  The loop on a run of well-formed requests followed by \<open>tail\<close>: their commands one after the
  other, their replies in order, then the loop on the tail. When nothing follows, all is flushed.
\<close>

lemma serveLoop_requests:
  assumes "\<forall>args \<in> set reqs. request_ok args" "no_fault w"
    "dispatchAll rt reg clk n srv idx reqs = (srv', idx', replies)"
  shows "\<exists>w'. serveLoop rt reg clk buffered n srv idx w (concat (map encodeRequest reqs) @ tail)
      = serveLoop rt reg clk buffered (n + length reqs) srv' idx' w' tail
    \<and> no_fault w' \<and> w_out w' = w_out w @ concat (map encodeReply replies)
    \<and> (tail = [] \<and> (\<forall>n. \<not> buffered n []) \<and> reqs \<noteq> [] \<longrightarrow> w_flushed w' = length (w_out w'))"
  using assms
proof (induction reqs arbitrary: n srv idx w replies)
  case (Cons args reqs)
  let ?rest = "concat (map encodeRequest reqs) @ tail"
  obtain srv1 idx1 r where d: "dispatch rt reg srv idx (clk n) args = (srv1, idx1, r)" using prod_cases3 by blast
  obtain rs where rs: "dispatchAll rt reg clk (n + 1) srv1 idx1 reqs = (srv', idx', rs)" "replies = r # rs"
    using Cons.prems(3) d by (auto split: prod.splits)
  from WriteReply_ok[OF Cons.prems(2), of r] obtain w1 where
    w1: "WriteReply w r = (w1, False)" "no_fault w1" "w_out w1 = w_out w @ encodeReply r" by blast
  from flush_ok[OF w1(2)] obtain wf where
    wf: "Writer_Flush w1 = (wf, False)" "no_fault wf" "w_out wf = w_out w1" "w_flushed wf = length (w_out w1)" by blast
  let ?w2 = "if buffered n ?rest then w1 else wf"
  have ok: "request_ok args" using Cons.prems(1) by simp
  then have ne: "args \<noteq> []" by (simp add: request_ok_def)
  have step: "serveLoop rt reg clk buffered n srv idx w (encodeRequest args @ ?rest)
      = serveLoop rt reg clk buffered (n + 1) srv1 idx1 ?w2 ?rest"
    by (subst serveLoop.simps) (simp add: ReadRequest_encode[OF ok] ne d w1(1) wf(1))
  have w2: "no_fault ?w2" "w_out ?w2 = w_out w @ encodeReply r" using w1 wf by simp_all
  from Cons.IH[OF _ w2(1) rs(1)] Cons.prems(1) obtain w' where
    w': "serveLoop rt reg clk buffered (n + 1) srv1 idx1 ?w2 ?rest = serveLoop rt reg clk buffered (n + 1 + length reqs) srv' idx' w' tail"
      "no_fault w'" "w_out w' = w_out ?w2 @ concat (map encodeReply rs)"
      "tail = [] \<and> (\<forall>n. \<not> buffered n []) \<and> reqs \<noteq> [] \<longrightarrow> w_flushed w' = length (w_out w')" by auto
  show ?case
  proof (cases "reqs = []")
    case False
    with step w' w2(2) rs(2) show ?thesis by (intro exI[of _ w']) auto
  next
    case True
    with rs have "srv' = srv1" "idx' = idx1" "rs = []" by auto
    with True step w2 rs(2) wf show ?thesis by (intro exI[of _ ?w2]) auto
  qed
qed auto

lemma serve_requests:
  assumes "\<forall>args \<in> set reqs. request_ok args" "no_fault w" "reqs \<noteq> []" "\<forall>n. \<not> buffered n []"
    "dispatchAll rt reg clk 0 (record_call ConnectionOpened srv) 0 reqs = (srv', idx', replies)"
  shows "\<exists>w'. serve rt reg clk buffered srv w (concat (map encodeRequest reqs)) = (record_call ConnectionClosed srv', w')
    \<and> w_out w' = w_out w @ concat (map encodeReply replies) \<and> w_flushed w' = length (w_out w')"
proof -
  from serveLoop_requests[OF assms(1,2,5), of buffered "[]"] assms(3,4) obtain w' where
    "serveLoop rt reg clk buffered 0 (record_call ConnectionOpened srv) 0 w (concat (map encodeRequest reqs))
      = serveLoop rt reg clk buffered (length reqs) srv' idx' w' []"
    "w_out w' = w_out w @ concat (map encodeReply replies)" "w_flushed w' = length (w_out w')" by auto
  moreover have "serveLoop rt reg clk buffered (length reqs) srv' idx' w' [] = (srv', idx', w')"
    by (subst serveLoop.simps) (simp add: ReadRequest_def handleReadError_def)
  ultimately show ?thesis by (simp add: serve_def)
qed

lemma writeReply_flushed: "w_flushed (Writer_writeReply w r) = w_flushed w"
proof (induction r arbitrary: w)
  case (RArray rs)
  have "w_flushed (foldl Writer_writeReply w rs) = w_flushed w" for w
    using RArray.IH by (induction rs arbitrary: w) auto
  then show ?case by (simp add: Writer_write_def)
qed (simp_all add: Writer_write_def Writer_writeFrame_def Writer_writeBulk_def)

text \<open>
  Replies held back for a batch are not flushed when the connection ends inside the next
  request: the writer has them, the client does not get them.
\<close>

lemma partial_request_unflushed:
  assumes "\<forall>args \<in> set reqs. request_ok args" "no_fault w" "ReadRequest tail = Inl err" "err \<in> {EOF, UnexpectedEOF}" "tail \<noteq> []"
    "\<forall>n s. s \<noteq> [] \<longrightarrow> buffered n s"
  shows "w_flushed (snd (snd (serveLoop rt reg clk buffered n srv idx w (concat (map encodeRequest reqs) @ tail)))) = w_flushed w"
  using assms(1,2)
proof (induction reqs arbitrary: n srv idx w)
  case Nil
  with assms(3,4) show ?case by (subst serveLoop.simps) (auto simp: handleReadError_def)
next
  case (Cons args reqs)
  let ?rest = "concat (map encodeRequest reqs) @ tail"
  obtain srv1 idx1 r where d: "dispatch rt reg srv idx (clk n) args = (srv1, idx1, r)" using prod_cases3 by blast
  from WriteReply_ok[OF Cons.prems(2), of r] obtain w1 where w1: "WriteReply w r = (w1, False)" "no_fault w1" by blast
  have f: "w_flushed w1 = w_flushed w" using w1(1) writeReply_flushed[of w r] by (auto simp: WriteReply_def Let_def)
  have ok: "request_ok args" using Cons.prems(1) by simp
  then have ne: "args \<noteq> []" by (simp add: request_ok_def)
  have "serveLoop rt reg clk buffered n srv idx w (encodeRequest args @ ?rest)
      = serveLoop rt reg clk buffered (n + 1) srv1 idx1 w1 ?rest"
    by (subst serveLoop.simps) (simp add: ReadRequest_encode[OF ok] ne d w1(1) assms(5,6))
  with Cons.IH[of w1 "n + 1" srv1 idx1] Cons.prems(1) w1(2) f show ?case by simp
qed

end
