(* ===== verification/Metrics.thy ===== *)
theory Metrics
  imports ServerProps "HOL-Library.Monad_Syntax" "HOL-Library.Sublist"
begin

text \<open>
  The metrics (\<open>internal/metrics/metrics.go\<close>): how the collectors are built, what is recorded
  in them, and the endpoint that exposes them. The Prometheus client library is a parameter:
  the operations the collectors call, on counters and histograms by label and on a gauge,
  and the constructors and the registry. What is relied on of it is \<open>prom_laws\<close> (a counter
  counts and a gauge moves by one) and \<open>lib_laws\<close> (what is new starts at zero, and a registry
  takes every collector whose name it does not have). The seconds of a duration as a
  \<open>float64\<close> and what \<open>http.Server\<close> returns from \<open>Serve\<close> and \<open>Close\<close> are arguments too.
\<close>

section \<open>The collectors\<close>

record ('c, 'h, 'g) prometheus =
  prom_inc :: "'c \<Rightarrow> bytes \<Rightarrow> 'c"
  prom_observe :: "'h \<Rightarrow> bytes \<Rightarrow> float64 \<Rightarrow> 'h"
  prom_gaugeInc :: "'g \<Rightarrow> 'g"
  prom_gaugeDec :: "'g \<Rightarrow> 'g"
  prom_seconds :: "duration \<Rightarrow> float64"

text \<open>Options are namespace, name and help. \<open>None\<close> is a panic of the library.\<close>

type_synonym promOpts = "bytes \<times> bytes \<times> bytes"

record ('c, 'h, 'g, 'r) promLib =
  lib_NewRegistry :: 'r
  lib_NewCounterVec :: "promOpts \<Rightarrow> bytes list \<Rightarrow> 'c"
  lib_NewHistogramVec :: "promOpts \<Rightarrow> float64 list \<Rightarrow> bytes list \<Rightarrow> 'h"
  lib_NewGauge :: "promOpts \<Rightarrow> 'g"
  lib_ExponentialBuckets :: "float64 \<Rightarrow> float64 \<Rightarrow> int \<Rightarrow> float64 list option"
  lib_registerCounter :: "'r \<Rightarrow> 'c \<Rightarrow> 'r option"
  lib_registerHistogram :: "'r \<Rightarrow> 'h \<Rightarrow> 'r option"
  lib_registerGauge :: "'r \<Rightarrow> 'g \<Rightarrow> 'r option"
  lib_registerGoCollector :: "'r \<Rightarrow> 'r option"

record ('c, 'h, 'g, 'r) Collectors =
  col_commands :: 'c
  col_errors :: 'c
  col_latency :: 'h
  col_connections :: 'g
  col_registry :: 'r

text \<open>\<open>50e-9\<close> and \<open>4\<close> as the bits of a \<open>float64\<close>.\<close>

definition bucketStart :: float64 where
  "bucketStart = 0x3E6AD7F29ABCAF48"

definition bucketFactor :: float64 where
  "bucketFactor = 0x4010000000000000"

definition Collectors_New :: "('c, 'h, 'g, 'r) promLib \<Rightarrow> ('c, 'h, 'g, 'r) Collectors option" where
  "Collectors_New p = do {
     buckets \<leftarrow> lib_ExponentialBuckets p bucketStart bucketFactor 12;
     let reg = lib_NewRegistry p;
     let commands = lib_NewCounterVec p (''memcore'', ''commands_total'', ''Commands processed, labeled by command name.'') [''command''];
     let errors = lib_NewCounterVec p (''memcore'', ''command_errors_total'',
           ''Commands that returned an error reply, labeled by command name.'') [''command''];
     let latency = lib_NewHistogramVec p (''memcore'', ''command_duration_seconds'',
           ''Command execution latency, labeled by command name.'') buckets [''command''];
     let connections = lib_NewGauge p (''memcore'', ''connections'', ''Currently open client connections.'');
     reg \<leftarrow> lib_registerCounter p reg commands;
     reg \<leftarrow> lib_registerCounter p reg errors;
     reg \<leftarrow> lib_registerHistogram p reg latency;
     reg \<leftarrow> lib_registerGauge p reg connections;
     reg \<leftarrow> lib_registerGoCollector p reg;
     Some \<lparr>col_commands = commands, col_errors = errors, col_latency = latency, col_connections = connections, col_registry = reg\<rparr> }"

definition Collectors_ObserveCommand ::
  "('c, 'h, 'g) prometheus \<Rightarrow> ('c, 'h, 'g, 'r) Collectors \<Rightarrow> bytes \<Rightarrow> duration \<Rightarrow> bool \<Rightarrow> ('c, 'h, 'g, 'r) Collectors" where
  "Collectors_ObserveCommand p c name d isError =
     (let c1 = c\<lparr>col_commands := prom_inc p (col_commands c) name\<rparr>;
          c2 = c1\<lparr>col_latency := prom_observe p (col_latency c1) name (prom_seconds p d)\<rparr>
      in if isError then c2\<lparr>col_errors := prom_inc p (col_errors c2) name\<rparr> else c2)"

definition Collectors_ConnectionOpened :: "('c, 'h, 'g) prometheus \<Rightarrow> ('c, 'h, 'g, 'r) Collectors \<Rightarrow> ('c, 'h, 'g, 'r) Collectors" where
  "Collectors_ConnectionOpened p c = c\<lparr>col_connections := prom_gaugeInc p (col_connections c)\<rparr>"

definition Collectors_ConnectionClosed :: "('c, 'h, 'g) prometheus \<Rightarrow> ('c, 'h, 'g, 'r) Collectors \<Rightarrow> ('c, 'h, 'g, 'r) Collectors" where
  "Collectors_ConnectionClosed p c = c\<lparr>col_connections := prom_gaugeDec p (col_connections c)\<rparr>"

text \<open>The calls the server makes through its interface \<open>recorder\<close>.\<close>

fun recorded :: "('c, 'h, 'g) prometheus \<Rightarrow> ('c, 'h, 'g, 'r) Collectors \<Rightarrow> recorderCall \<Rightarrow> ('c, 'h, 'g, 'r) Collectors" where
  "recorded p c (ObserveCommand name d isError) = Collectors_ObserveCommand p c name d isError"
| "recorded p c ConnectionOpened = Collectors_ConnectionOpened p c"
| "recorded p c ConnectionClosed = Collectors_ConnectionClosed p c"

section \<open>The endpoint\<close>

text \<open>A handler serves what a registry has gathered; a server is its address, its routes and its timeout.\<close>

record 'r metricsServer =
  ms_Addr :: bytes
  ms_routes :: "(bytes \<times> 'r) list"
  ms_ReadHeaderTimeout :: duration

definition Collectors_Handler :: "('c, 'h, 'g, 'r) Collectors \<Rightarrow> 'r" where
  "Collectors_Handler c = col_registry c"

definition NewServer :: "bytes \<Rightarrow> ('c, 'h, 'g, 'r) Collectors \<Rightarrow> 'r metricsServer" where
  "NewServer addr c =
     \<lparr>ms_Addr = addr, ms_routes = [(''/metrics'', Collectors_Handler c)], ms_ReadHeaderTimeout = 5 * 1000000000\<rparr>"

datatype httpErr = ErrServerClosed | HttpFailed bytes

text \<open>\<open>Serve\<close>, given what \<open>http.Server.Serve\<close> returns on the listener.\<close>

definition metricsServe :: "('r metricsServer \<Rightarrow> httpErr option) \<Rightarrow> 'r metricsServer \<Rightarrow> httpErr option" where
  "metricsServe httpServe s =
     (case httpServe s of
        Some err \<Rightarrow> if err \<noteq> ErrServerClosed then Some err else None
      | None \<Rightarrow> None)"

definition metricsShutdown :: "('r metricsServer \<Rightarrow> httpErr option) \<Rightarrow> 'r metricsServer \<Rightarrow> httpErr option" where
  "metricsShutdown httpClose s = httpClose s"

section \<open>What the metrics show\<close>

definition prom_laws :: "('c, 'h, 'g) prometheus \<Rightarrow> ('c \<Rightarrow> bytes \<Rightarrow> nat) \<Rightarrow> ('g \<Rightarrow> int) \<Rightarrow> bool" where
  "prom_laws p counter gauge \<longleftrightarrow>
     (\<forall>c l l'. counter (prom_inc p c l) l' = counter c l' + (if l' = l then 1 else 0))
     \<and> (\<forall>g. gauge (prom_gaugeInc p g) = gauge g + 1 \<and> gauge (prom_gaugeDec p g) = gauge g - 1)"

fun observes :: "bytes \<Rightarrow> recorderCall \<Rightarrow> bool" where
  "observes name (ObserveCommand n d e) = (n = name)"
| "observes name _ = False"

fun observesError :: "bytes \<Rightarrow> recorderCall \<Rightarrow> bool" where
  "observesError name (ObserveCommand n d e) = (n = name \<and> e)"
| "observesError name _ = False"

fun gaugeStep :: "recorderCall \<Rightarrow> int" where
  "gaugeStep ConnectionOpened = 1"
| "gaugeStep ConnectionClosed = -1"
| "gaugeStep _ = 0"

lemma recorded_counts:
  assumes "prom_laws p counter gauge"
  shows "counter (col_commands (foldl (recorded p) c xs)) name = counter (col_commands c) name + length (filter (observes name) xs)"
    "counter (col_errors (foldl (recorded p) c xs)) name = counter (col_errors c) name + length (filter (observesError name) xs)"
    "gauge (col_connections (foldl (recorded p) c xs)) = gauge (col_connections c) + (\<Sum>x\<leftarrow>xs. gaugeStep x)"
proof (induction xs arbitrary: c)
  case (Cons x xs)
  { case 1 show ?case using Cons(1)[of "recorded p c x"] assms
      by (cases x) (auto simp: prom_laws_def Collectors_ObserveCommand_def Collectors_ConnectionOpened_def Collectors_ConnectionClosed_def Let_def) }
  { case 2 show ?case using Cons(2)[of "recorded p c x"] assms
      by (cases x) (auto simp: prom_laws_def Collectors_ObserveCommand_def Collectors_ConnectionOpened_def Collectors_ConnectionClosed_def Let_def) }
  { case 3 show ?case using Cons(3)[of "recorded p c x"] assms
      by (cases x) (auto simp: prom_laws_def Collectors_ObserveCommand_def Collectors_ConnectionOpened_def Collectors_ConnectionClosed_def Let_def) }
qed simp_all

text \<open>A connection makes one call when it opens, one per command it times, and one when it closes.\<close>

abbreviation observation :: "recorderCall \<Rightarrow> bool" where
  "observation x \<equiv> (\<exists>n d e. x = ObserveCommand n d e)"

lemma dispatch_calls:
  assumes "dispatch rt reg srv idx at args = (srv', idx', r)" "srv_metrics srv = Some xs"
  shows "\<exists>obs. srv_metrics srv' = Some (xs @ obs) \<and> list_all observation obs"
proof -
  have e: "srv_metrics (fst (execute rt srv idx at cmd args)) = Some xs" for cmd
    using assms(2) by (auto simp: execute_def Let_def split: option.split)
  show ?thesis
  proof (cases "Resolve reg args")
    case (Inr cmd)
    with assms e[of cmd] show ?thesis by (auto simp: dispatch_def Let_def record_call_def split: if_splits prod.splits)
  qed (use assms in \<open>auto simp: dispatch_def\<close>)
qed

lemma serveLoop_calls:
  assumes "serveLoop rt reg clk buffered n srv idx w s = (srv', idx', w')" "srv_metrics srv = Some xs"
  shows "\<exists>obs. srv_metrics srv' = Some (xs @ obs) \<and> list_all observation obs"
  using assms
proof (induction rt reg clk buffered n srv idx w s arbitrary: xs rule: serveLoop.induct)
  case (1 rt reg clk buffered n srv idx w s)
  show ?case
  proof (cases "ReadRequest s")
    case (Inl e)
    with 1 show ?thesis by (subst (asm) serveLoop.simps) auto
  next
    case (Inr p)
    obtain args s1 where p: "p = (args, s1)" by fastforce
    show ?thesis
    proof (cases "args = []")
      case True
      with 1 Inr p show ?thesis by (subst (asm) (2) serveLoop.simps) auto
    next
      case False
      obtain srv1 idx1 r where d: "dispatch rt reg srv idx (clk n) args = (srv1, idx1, r)" using prod_cases3 by blast
      obtain w1 f1 where w: "WriteReply w r = (w1, f1)" by fastforce
      obtain w2 f2 where f: "Writer_Flush w1 = (w2, f2)" by fastforce
      from dispatch_calls[OF d "1.prems"(2)] obtain obs where
        o: "srv_metrics srv1 = Some (xs @ obs)" "list_all observation obs" by blast
      consider "srv' = srv1" | "serveLoop rt reg clk buffered (n + 1) srv1 idx1 w2 s1 = (srv', idx', w')" "\<not> f1" "\<not> buffered n s1" "\<not> f2"
        | "serveLoop rt reg clk buffered (n + 1) srv1 idx1 w1 s1 = (srv', idx', w')" "\<not> f1" "buffered n s1"
        using "1.prems"(1) Inr p False d w f by (subst (asm) serveLoop.simps) (auto split: if_splits)
      then show ?thesis
      proof cases
        case 1
        with o show ?thesis by auto
      next
        case 2
        with "1.IH"(2)[OF Inr p[symmetric] _ d[symmetric] refl w[symmetric] _ _ f[symmetric], of "xs @ obs"] o False show ?thesis by auto
      next
        case 3
        with "1.IH"(3)[OF Inr p[symmetric] _ d[symmetric] refl w[symmetric], of "xs @ obs"] o False show ?thesis by auto
      qed
    qed
  qed
qed

lemma serve_calls:
  assumes "srv_metrics srv = Some xs"
  shows "\<exists>obs. srv_metrics (fst (serve rt reg clk buffered srv w s)) = Some (xs @ [ConnectionOpened] @ obs @ [ConnectionClosed])
    \<and> list_all observation obs"
proof -
  obtain srv' idx' w' where l: "serveLoop rt reg clk buffered 0 (record_call ConnectionOpened srv) 0 w s = (srv', idx', w')"
    using prod_cases3 by blast
  have "srv_metrics (record_call ConnectionOpened srv) = Some (xs @ [ConnectionOpened])" using assms by (simp add: record_call_def)
  from serveLoop_calls[OF l this] l show ?thesis by (auto simp: serve_def record_call_def)
qed

text \<open>So the gauge of open connections is back where it was when a connection ends.\<close>

lemma gauge_balanced:
  assumes "prom_laws p counter gauge" "srv_metrics srv = Some xs" "srv_metrics (fst (serve rt reg clk buffered srv w s)) = Some ys"
  shows "gauge (col_connections (foldl (recorded p) c ys)) = gauge (col_connections (foldl (recorded p) c xs))"
proof -
  from serve_calls[OF assms(2), of rt reg clk buffered w s] assms(3) obtain obs where
    y: "ys = xs @ [ConnectionOpened] @ obs @ [ConnectionClosed]" "list_all observation obs" by auto
  have "(\<Sum>x\<leftarrow>obs. gaugeStep x) = 0" using y(2) by (induction obs) auto
  then show ?thesis unfolding recorded_counts(3)[OF assms(1)] by (simp add: y(1))
qed

section \<open>What is built\<close>

text \<open>
  The documented behaviour of the library. \<open>names\<close> are the names a registry has, \<open>nameC\<close>,
  \<open>nameH\<close> and \<open>nameG\<close> those of collectors, which are made of the namespace and the name.
  A bucket list is refused unless its start is positive, its factor greater than one
  and its count positive.
\<close>

definition fqName :: "promOpts \<Rightarrow> bytes" where
  "fqName opts = fst opts @ ''_'' @ fst (snd opts)"

definition lib_laws :: "('c, 'h, 'g, 'r) promLib \<Rightarrow> ('c \<Rightarrow> bytes \<Rightarrow> nat) \<Rightarrow> ('g \<Rightarrow> int) \<Rightarrow> ('c \<Rightarrow> bytes) \<Rightarrow> ('h \<Rightarrow> bytes) \<Rightarrow> ('g \<Rightarrow> bytes)
    \<Rightarrow> ('r \<Rightarrow> bytes set) \<Rightarrow> bool" where
  "lib_laws p counter gauge nameC nameH nameG names \<longleftrightarrow>
     (\<forall>opts ls. nameC (lib_NewCounterVec p opts ls) = fqName opts \<and> (\<forall>l. counter (lib_NewCounterVec p opts ls) l = 0))
     \<and> (\<forall>opts bs ls. nameH (lib_NewHistogramVec p opts bs ls) = fqName opts)
     \<and> (\<forall>opts. nameG (lib_NewGauge p opts) = fqName opts \<and> gauge (lib_NewGauge p opts) = 0)
     \<and> (\<forall>a f n. f64_lt 0 a \<longrightarrow> f64_lt 0x3FF0000000000000 f \<longrightarrow> 1 \<le> n \<longrightarrow> lib_ExponentialBuckets p a f n \<noteq> None)
     \<and> names (lib_NewRegistry p) = {}
     \<and> (\<forall>r c. nameC c \<notin> names r \<longrightarrow> (\<exists>r'. lib_registerCounter p r c = Some r' \<and> names r' = insert (nameC c) (names r)))
     \<and> (\<forall>r h. nameH h \<notin> names r \<longrightarrow> (\<exists>r'. lib_registerHistogram p r h = Some r' \<and> names r' = insert (nameH h) (names r)))
     \<and> (\<forall>r g. nameG g \<notin> names r \<longrightarrow> (\<exists>r'. lib_registerGauge p r g = Some r' \<and> names r' = insert (nameG g) (names r)))
     \<and> (\<forall>r. (\<forall>n \<in> names r. \<not> prefix ''go_'' n) \<longrightarrow> (\<exists>r'. lib_registerGoCollector p r = Some r' \<and> names r \<subseteq> names r'))"

lemmas lib_lawsD =
  lib_laws_def[THEN iffD1, THEN conjunct1, THEN spec, THEN spec, THEN conjunct1]
  lib_laws_def[THEN iffD1, THEN conjunct1, THEN spec, THEN spec, THEN conjunct2, THEN spec]
  lib_laws_def[THEN iffD1, THEN conjunct2, THEN conjunct1, rule_format]
  lib_laws_def[THEN iffD1, THEN conjunct2, THEN conjunct2, THEN conjunct1, THEN spec, THEN conjunct1]
  lib_laws_def[THEN iffD1, THEN conjunct2, THEN conjunct2, THEN conjunct1, THEN spec, THEN conjunct2]
  lib_laws_def[THEN iffD1, THEN conjunct2, THEN conjunct2, THEN conjunct2, THEN conjunct1, rule_format]
  lib_laws_def[THEN iffD1, THEN conjunct2, THEN conjunct2, THEN conjunct2, THEN conjunct2, THEN conjunct1]
  lib_laws_def[THEN iffD1, THEN conjunct2, THEN conjunct2, THEN conjunct2, THEN conjunct2, THEN conjunct2, THEN conjunct1, rule_format]
  lib_laws_def[THEN iffD1, THEN conjunct2, THEN conjunct2, THEN conjunct2, THEN conjunct2, THEN conjunct2, THEN conjunct2, THEN conjunct1, rule_format]
  lib_laws_def[THEN iffD1, THEN conjunct2, THEN conjunct2, THEN conjunct2, THEN conjunct2, THEN conjunct2, THEN conjunct2, THEN conjunct2, THEN conjunct1, rule_format]
  lib_laws_def[THEN iffD1, THEN conjunct2, THEN conjunct2, THEN conjunct2, THEN conjunct2, THEN conjunct2, THEN conjunct2, THEN conjunct2, THEN conjunct2, THEN spec, THEN mp]

text \<open>
  The collectors can be built, none of their names collides with another or with those of
  the Go collector, the endpoint exposes the four of them, and they start at zero.
\<close>

lemma New_builds:
  assumes "lib_laws p counter gauge nameC nameH nameG names"
  shows "\<exists>c. Collectors_New p = Some c
    \<and> {''memcore_commands_total'', ''memcore_command_errors_total'', ''memcore_command_duration_seconds'', ''memcore_connections''}
        \<subseteq> names (the (map_of (ms_routes (NewServer addr c)) ''/metrics''))
    \<and> (\<forall>l. counter (col_commands c) l = 0 \<and> counter (col_errors c) l = 0) \<and> gauge (col_connections c) = 0"
proof -
  note L = lib_lawsD[OF assms]
  have "f64_lt 0 bucketStart" "f64_lt 0x3FF0000000000000 bucketFactor" by code_simp+
  from L(6)[OF this, of 12] obtain b where b: "lib_ExponentialBuckets p bucketStart bucketFactor 12 = Some b" by auto
  let ?cmd = "lib_NewCounterVec p (''memcore'', ''commands_total'', ''Commands processed, labeled by command name.'') [''command'']"
  let ?err = "lib_NewCounterVec p (''memcore'', ''command_errors_total'',
           ''Commands that returned an error reply, labeled by command name.'') [''command'']"
  let ?lat = "lib_NewHistogramVec p (''memcore'', ''command_duration_seconds'',
           ''Command execution latency, labeled by command name.'') b [''command'']"
  let ?con = "lib_NewGauge p (''memcore'', ''connections'', ''Currently open client connections.'')"
  have n: "nameC ?cmd = ''memcore_commands_total''" "nameC ?err = ''memcore_command_errors_total''"
    "nameH ?lat = ''memcore_command_duration_seconds''" "nameG ?con = ''memcore_connections''"
    by (simp_all add: L(1,3,4) fqName_def)
  from L(8)[of ?cmd "lib_NewRegistry p"] n(1) L(7) obtain r1 where r1: "lib_registerCounter p (lib_NewRegistry p) ?cmd = Some r1" "names r1 = {''memcore_commands_total''}"
    by auto
  have "nameC ?err \<notin> names r1" by (simp add: n r1(2))
  from L(8)[OF this] obtain r2 where r2: "lib_registerCounter p r1 ?err = Some r2" "names r2 = insert ''memcore_command_errors_total'' (names r1)"
    using n(2) by auto
  have "nameH ?lat \<notin> names r2" by (simp add: n r1(2) r2(2))
  from L(9)[OF this] obtain r3 where r3: "lib_registerHistogram p r2 ?lat = Some r3" "names r3 = insert ''memcore_command_duration_seconds'' (names r2)"
    using n(3) by auto
  have "nameG ?con \<notin> names r3" by (simp add: n r1(2) r2(2) r3(2))
  from L(10)[OF this] obtain r4 where r4: "lib_registerGauge p r3 ?con = Some r4" "names r4 = insert ''memcore_connections'' (names r3)"
    using n(4) by auto
  have "\<forall>m \<in> names r4. \<not> prefix ''go_'' m" by (simp add: r1(2) r2(2) r3(2) r4(2))
  from L(11)[OF this] obtain r5 where r5: "lib_registerGoCollector p r4 = Some r5" "names r4 \<subseteq> names r5" by blast
  have "names r5 \<supseteq> {''memcore_commands_total'', ''memcore_command_errors_total'', ''memcore_command_duration_seconds'', ''memcore_connections''}"
    using r5(2) by (auto simp: r1(2) r2(2) r3(2) r4(2))
  moreover have "counter ?cmd l = 0" "counter ?err l = 0" "gauge ?con = 0" for l by (rule L(2), rule L(2), rule L(5))
  ultimately show ?thesis using r1(1) r2(1) r3(1) r4(1) r5(1)
    by (auto simp: Collectors_New_def b Let_def NewServer_def Collectors_Handler_def)
qed

text \<open>So a counter shows the number of its commands since the start.\<close>

lemma counters_exact:
  assumes "lib_laws p counter gauge nameC nameH nameG names" "prom_laws q counter gauge" "Collectors_New p = Some c"
  shows "counter (col_commands (foldl (recorded q) c xs)) name = length (filter (observes name) xs)"
    "counter (col_errors (foldl (recorded q) c xs)) name = length (filter (observesError name) xs)"
  using New_builds[OF assms(1)] assms(3) recorded_counts(1,2)[OF assms(2), of c xs name] by auto

text \<open>The serving goroutine reports an error unless the server was shut down.\<close>

lemma metricsServe_clean: "metricsServe h s = None \<longleftrightarrow> h s = None \<or> h s = Some ErrServerClosed"
  by (auto simp: metricsServe_def split: option.splits)

section \<open>An instance\<close>

text \<open>Counters as functions of the label and registries as sets of names satisfy the laws.\<close>

definition demo_lib :: "(bytes \<times> (bytes \<Rightarrow> nat), bytes, bytes \<times> int, bytes set) promLib" where
  "demo_lib =
     \<lparr>lib_NewRegistry = {}, lib_NewCounterVec = (\<lambda>opts ls. (fqName opts, \<lambda>l. 0)), lib_NewHistogramVec = (\<lambda>opts bs ls. fqName opts),
      lib_NewGauge = (\<lambda>opts. (fqName opts, 0)), lib_ExponentialBuckets = (\<lambda>a f n. Some []),
      lib_registerCounter = (\<lambda>r c. if fst c \<in> r then None else Some (insert (fst c) r)),
      lib_registerHistogram = (\<lambda>r h. if h \<in> r then None else Some (insert h r)),
      lib_registerGauge = (\<lambda>r g. if fst g \<in> r then None else Some (insert (fst g) r)),
      lib_registerGoCollector = (\<lambda>r. Some (insert ''go_goroutines'' r))\<rparr>"

lemma demo_lib_laws: "lib_laws demo_lib snd snd fst (\<lambda>h. h) fst (\<lambda>r. r)"
  by (auto simp: lib_laws_def demo_lib_def)

end
