(* ===== verification/Client.thy ===== *)
theory Client
  imports Resp
begin

text \<open>
  The Go client (\<open>clients/go/memcore.go\<close>). A client is its buffered writer, with the fault
  oracle of theory Resp, and the bytes its connection will still deliver. An operation
  returns the client with what it has consumed, and its result or error. The decoder
  \<open>readReply\<close> takes the nesting depth as fuel; it is proved that the length of the input
  is always enough. Dialling is in theory ClientExample.
\<close>

section \<open>The client\<close>

datatype clientVal = CStr bytes | CInt int | CNil | CArr "clientVal list"

text \<open>\<open>ServerError\<close> is the type \<open>Error\<close>; \<open>ClientPanic\<close> a \<open>make\<close> that the runtime refuses.\<close>

datatype clientErr =
    ServerError bytes
  | Transport ioErr
  | WriteFailed
  | EmptyCommand
  | UnexpectedReply bytes
  | ClientPanic

record Client =
  cl_w :: Writer
  cl_in :: bytes

fun writeArgs :: "Writer \<Rightarrow> bytes list \<Rightarrow> Writer \<times> clientErr option" where
  "writeArgs w [] = (w, None)"
| "writeArgs w (a # as) =
     (let w1 = Writer_write w (''$'' @ formatInt (int (length a)) @ CRLF)
      in if w_err w1 then (w1, Some WriteFailed)
         else let w2 = Writer_write w1 a
           in if w_err w2 then (w2, Some WriteFailed)
              else let w3 = Writer_write w2 CRLF
                in if w_err w3 then (w3, Some WriteFailed) else writeArgs w3 as)"

definition Client_writeCommand :: "Writer \<Rightarrow> bytes list \<Rightarrow> Writer \<times> clientErr option" where
  "Client_writeCommand w args =
     (if length args = 0 then (w, Some EmptyCommand)
      else let w1 = Writer_write w (''*'' @ formatInt (int (length args)) @ CRLF)
        in if w_err w1 then (w1, Some WriteFailed) else writeArgs w1 args)"

definition clientLine :: "bytes \<Rightarrow> (clientErr + bytes) \<times> bytes" where
  "clientLine s =
     (case split_lf s of
        None \<Rightarrow> (Inl (Transport EOF), [])
      | Some (line, rest) \<Rightarrow>
          let n = length line
          in if n \<ge> 2 \<and> line ! (n - 2) = CHR 0x0D then (Inr (take (n - 2) line), rest)
             else (Inr (take (n - 1) line), rest))"

text \<open>
  The loop over the elements of an array, and the decoder. A failed read of a body has
  consumed the input. A byte slice takes \<open>n + 2\<close> bytes and an array 16 bytes per element;
  the runtime refuses more than \<open>2^48\<close>.
\<close>

fun readItems :: "(bytes \<Rightarrow> (clientErr + clientVal) \<times> bytes) \<Rightarrow> nat \<Rightarrow> bytes \<Rightarrow> (clientErr + clientVal list) \<times> bytes" where
  "readItems rd 0 s = (Inr [], s)"
| "readItems rd (Suc n) s =
     (case rd s of
        (Inl e, s1) \<Rightarrow> (Inl e, s1)
      | (Inr v, s1) \<Rightarrow>
          (case readItems rd n s1 of
             (Inl e, s2) \<Rightarrow> (Inl e, s2)
           | (Inr vs, s2) \<Rightarrow> (Inr (v # vs), s2)))"

definition readBody :: "int \<Rightarrow> bytes \<Rightarrow> (clientErr + clientVal) \<times> bytes" where
  "readBody n s =
     (if n < 0 then (Inr CNil, s)
      else if n + 2 > 281474976710656 then (Inl ClientPanic, s)
      else (case readFull (nat n + 2) s of
          Inl e \<Rightarrow> (Inl (Transport e), [])
        | Inr (buf, s') \<Rightarrow> (Inr (CStr (take (nat n) buf)), s')))"

fun readReply :: "nat \<Rightarrow> bytes \<Rightarrow> (clientErr + clientVal) \<times> bytes" where
  "readReply 0 s = (Inl (Transport (Malformed ''out of fuel'')), s)"
| "readReply (Suc fuel) s =
     (case clientLine s of
        (Inl e, s1) \<Rightarrow> (Inl e, s1)
      | (Inr line, s1) \<Rightarrow>
          (case line of
             [] \<Rightarrow> (Inl (Transport (Malformed ''empty reply'')), s1)
           | c # body \<Rightarrow>
               if c = CHR ''+'' then (Inr (CStr body), s1)
               else if c = CHR ''-'' then (Inl (ServerError body), s1)
               else if c \<in> {CHR '':'', CHR ''$'', CHR ''*''} then
                 (case parseInt body of
                    None \<Rightarrow> (Inl (Transport (Malformed ''bad integer'')), s1)
                  | Some n \<Rightarrow>
                      if c = CHR '':'' then (Inr (CInt n), s1)
                      else if c = CHR ''$'' then readBody n s1
                      else if n < 0 then (Inr CNil, s1)
                      else if n * 16 > 281474976710656 then (Inl ClientPanic, s1)
                      else (case readItems (readReply fuel) (nat n) s1 of
                          (Inl e, s2) \<Rightarrow> (Inl e, s2)
                        | (Inr vs, s2) \<Rightarrow> (Inr (CArr vs), s2)))
               else (Inl (Transport (Malformed ''unknown reply type'')), s1)))"

definition clientRead :: "bytes \<Rightarrow> (clientErr + clientVal) \<times> bytes" where
  "clientRead s = readReply (Suc (length s)) s"

definition Client_Do :: "Client \<Rightarrow> bytes list \<Rightarrow> Client \<times> (clientErr + clientVal)" where
  "Client_Do c args =
     (case Client_writeCommand (cl_w c) args of
        (w1, Some e) \<Rightarrow> (c\<lparr>cl_w := w1\<rparr>, Inl e)
      | (w1, None) \<Rightarrow>
          (case Writer_Flush w1 of
             (w2, failed) \<Rightarrow>
               if failed then (c\<lparr>cl_w := w2\<rparr>, Inl WriteFailed)
               else (case clientRead (cl_in c) of
                   (res, rest) \<Rightarrow> (c\<lparr>cl_w := w2, cl_in := rest\<rparr>, res))))"

definition Client_Get :: "Client \<Rightarrow> bytes \<Rightarrow> Client \<times> (clientErr + bytes \<times> bool)" where
  "Client_Get c key =
     (case Client_Do c [''GET'', key] of
        (c1, Inl e) \<Rightarrow> (c1, Inl e)
      | (c1, Inr v) \<Rightarrow>
          (c1, case v of
             CNil \<Rightarrow> Inr ([], False)
           | CStr s \<Rightarrow> Inr (s, True)
           | _ \<Rightarrow> Inl (UnexpectedReply ''memcore: GET returned'')))"

definition Client_Set :: "Client \<Rightarrow> bytes \<Rightarrow> bytes \<Rightarrow> Client \<times> clientErr option" where
  "Client_Set c key val =
     (case Client_Do c [''SET'', key, val] of
        (c1, Inl e) \<Rightarrow> (c1, Some e)
      | (c1, Inr v) \<Rightarrow> (c1, None))"

definition Client_Del :: "Client \<Rightarrow> bytes list \<Rightarrow> Client \<times> (clientErr + int)" where
  "Client_Del c keys =
     (case Client_Do c (''DEL'' # keys) of
        (c1, Inl e) \<Rightarrow> (c1, Inl e)
      | (c1, Inr v) \<Rightarrow> (c1, Inr (case v of CInt n \<Rightarrow> n | _ \<Rightarrow> 0)))"

definition Client_Ping :: "Client \<Rightarrow> Client \<times> clientErr option" where
  "Client_Ping c =
     (case Client_Do c [''PING''] of
        (c1, Inl e) \<Rightarrow> (c1, Some e)
      | (c1, Inr v) \<Rightarrow> (c1, if v \<noteq> CStr ''PONG'' then Some (UnexpectedReply ''memcore: unexpected PING reply'') else None))"

section \<open>The decoder ends\<close>

lemma split_lf_shorter: "split_lf s = Some (l, r) \<Longrightarrow> length r < length s"
  by (auto dest!: split_lf_append)

lemma clientLine_shorter:
  "clientLine s = (res, r) \<Longrightarrow> length r \<le> length s" "clientLine s = (Inr l, r) \<Longrightarrow> length r < length s"
  by (auto simp: clientLine_def Let_def dest: split_lf_shorter split: option.splits if_splits)

lemma readBody_shorter: "readBody n s = (res, r) \<Longrightarrow> length r \<le> length s"
  by (auto simp: readBody_def readFull_def split: if_splits)

lemma readItems_shorter:
  assumes "\<And>t res u. rd t = (res, u) \<Longrightarrow> length u \<le> length t" "readItems rd n s = (res, r)"
  shows "length r \<le> length s"
  using assms(2)
proof (induction n arbitrary: s res r)
  case (Suc n)
  obtain v s1 where v: "rd s = (v, s1)" by fastforce
  from Suc.prems v assms(1)[OF v] show ?case
    by (auto dest!: Suc.IH split: prod.splits sum.splits)
qed simp

lemma readReply_shorter: "readReply fuel s = (res, r) \<Longrightarrow> length r \<le> length s"
proof (induction fuel arbitrary: s res r)
  case (Suc fuel)
  obtain line s1 where l: "clientLine s = (line, s1)" by fastforce
  have "length r \<le> length s1"
    using Suc.prems l readItems_shorter[where rd = "readReply fuel", OF Suc.IH]
    by (auto dest: readBody_shorter split: sum.splits list.splits if_splits option.splits prod.splits)
  with clientLine_shorter(1)[OF l] show ?case by simp
qed simp

lemma readItems_cong:
  assumes "\<And>t. length t \<le> length s \<Longrightarrow> rd t = rd' t" "\<And>t res u. rd t = (res, u) \<Longrightarrow> length u \<le> length t"
  shows "readItems rd n s = readItems rd' n s"
  using assms(1)
proof (induction n arbitrary: s)
  case (Suc n)
  obtain v s1 where r: "rd s = (v, s1)" by fastforce
  have "readItems rd n s1 = readItems rd' n s1"
    using Suc.prems assms(2)[OF r] by (intro Suc.IH) auto
  with r Suc.prems[of s] show ?case by (auto split: sum.splits prod.splits)
qed simp

text \<open>Whatever arrives, more fuel than bytes changes nothing: the decoder is defined on every input.\<close>

lemma readReply_fuel: "length s < f \<Longrightarrow> length s < g \<Longrightarrow> readReply f s = readReply g s"
proof (induction f arbitrary: g s)
  case (Suc f)
  obtain h where g: "g = Suc h" using Suc.prems(2) by (cases g) auto
  obtain line s1 where l: "clientLine s = (line, s1)" by fastforce
  show ?case
  proof (cases line)
    case (Inr b)
    then have "length s1 < f" "length s1 < h" using clientLine_shorter(2)[of s b s1] l Suc.prems g by auto
    then have "readItems (readReply f) n s1 = readItems (readReply h) n s1" for n
      by (intro readItems_cong) (auto intro: Suc.IH dest: readReply_shorter)
    with l Inr show ?thesis unfolding g readReply.simps by (auto split: list.splits option.splits)
  qed (simp add: g l)
qed simp

lemma readItems_error:
  assumes "\<And>t. length t \<le> length s \<Longrightarrow> fst (rd t) \<noteq> Inl e" "\<And>t res u. rd t = (res, u) \<Longrightarrow> length u \<le> length t"
  shows "fst (readItems rd n s) \<noteq> Inl e"
  using assms(1)
proof (induction n arbitrary: s)
  case (Suc n)
  obtain v s1 where r: "rd s = (v, s1)" by fastforce
  have "fst (readItems rd n s1) \<noteq> Inl e"
    using Suc.prems assms(2)[OF r] by (intro Suc.IH) auto
  with r Suc.prems[of s] show ?case by (auto split: sum.splits prod.splits)
qed simp

lemma readReply_fuelled: "length s < f \<Longrightarrow> fst (readReply f s) \<noteq> Inl (Transport (Malformed ''out of fuel''))"
proof (induction f arbitrary: s)
  case (Suc f)
  obtain line s1 where l: "clientLine s = (line, s1)" by fastforce
  show ?case
  proof (cases line)
    case (Inl e)
    with l show ?thesis by (auto simp: clientLine_def Let_def split: option.splits if_splits)
  next
    case (Inr b)
    then have "length s1 < f" using clientLine_shorter(2)[of s b s1] l Suc.prems by auto
    then have "fst (readItems (readReply f) n s1) \<noteq> Inl (Transport (Malformed ''out of fuel''))" for n
      using Suc.IH by (intro readItems_error) (auto dest: readReply_shorter)
    then have "readItems (readReply f) n s1 \<noteq> (Inl (Transport (Malformed ''out of fuel'')), u)" for n u by (metis fst_conv)
    with l Inr show ?thesis
      by (auto simp: readBody_def readFull_def split: list.splits option.splits prod.splits sum.splits)
  qed
qed simp

section \<open>Replies round trip\<close>

text \<open>What the client makes of a reply. A line must not hold a line break, and an error is not nested in an array.\<close>

fun client_view :: "Reply \<Rightarrow> clientVal" where
  "client_view RNil = CNil"
| "client_view (RSimple s) = CStr s"
| "client_view (RError s) = CNil"
| "client_view (RInt n) = CInt n"
| "client_view (RBulk b) = CStr b"
| "client_view (RArray rs) = CArr (map client_view rs)"

definition line_ok :: "bytes \<Rightarrow> bool" where
  "line_ok l \<longleftrightarrow> CHR 0x0A \<notin> set l"

fun reply_ok :: "Reply \<Rightarrow> bool" where
  "reply_ok RNil = True"
| "reply_ok (RSimple s) = line_ok s"
| "reply_ok (RError s) = False"
| "reply_ok (RInt n) = int64_ok n"
| "reply_ok (RBulk b) = (length b \<le> 281474976710654)"
| "reply_ok (RArray rs) = (length rs \<le> 17592186044416 \<and> list_all reply_ok rs)"

definition wire_ok :: "Reply \<Rightarrow> bool" where
  "wire_ok r \<longleftrightarrow> (case r of RError m \<Rightarrow> line_ok m | _ \<Rightarrow> reply_ok r)"

definition client_result :: "Reply \<Rightarrow> clientErr + clientVal" where
  "client_result r = (case r of RError m \<Rightarrow> Inl (ServerError m) | _ \<Rightarrow> Inr (client_view r))"

fun reply_depth :: "Reply \<Rightarrow> nat" where
  "reply_depth (RArray rs) = Suc (foldr (\<lambda>r d. max (reply_depth r) d) rs 0)"
| "reply_depth r = 1"

lemma clientLine_CRLF:
  assumes "CHR 0x0A \<notin> set l"
  shows "clientLine (l @ CRLF @ rest) = (Inr l, rest)"
  using split_lf_line[of "l @ [CHR 0x0D]" rest] assms by (simp add: clientLine_def nth_append)

lemma clientLine_prefix:
  assumes "CHR 0x0A \<notin> set l" "c \<noteq> CHR 0x0A"
  shows "clientLine (c # l @ CRLF @ rest) = (Inr (c # l), rest)"
  using clientLine_CRLF[of "c # l" rest] assms by simp

lemma foldr_max_le: "r \<in> set rs \<Longrightarrow> f r \<le> foldr (\<lambda>r d. max (f r) d) rs (0::nat)"
  by (induction rs) auto

lemma foldr_max_bound: "\<forall>r \<in> set rs. f r \<le> m \<Longrightarrow> foldr (\<lambda>r d. max (f r) d) rs (0::nat) \<le> m"
  by (induction rs) auto

lemma reply_depth_length: "reply_depth r \<le> length (encodeReply r)"
proof (induction r)
  case (RArray rs)
  have "length (encodeReply r) \<le> length (concat (map encodeReply rs))" if "r \<in> set rs" for r
    using that by (induction rs) auto
  then have "foldr (\<lambda>r d. max (reply_depth r) d) rs 0 \<le> length (concat (map encodeReply rs))"
    using RArray by (intro foldr_max_bound) (blast intro: order_trans)
  then show ?case by simp
qed auto

lemma readItems_encode:
  assumes "\<And>r rest. r \<in> set rs \<Longrightarrow> rd (encodeReply r @ rest) = (Inr (client_view r), rest)"
  shows "readItems rd (length rs) (concat (map encodeReply rs) @ rest) = (Inr (map client_view rs), rest)"
  using assms by (induction rs) simp_all

lemma readReply_encode:
  "reply_ok r \<Longrightarrow> reply_depth r \<le> fuel \<Longrightarrow> readReply fuel (encodeReply r @ rest) = (Inr (client_view r), rest)"
proof (induction fuel arbitrary: r rest)
  case 0
  then show ?case by (cases r) auto
next
  case (Suc fuel)
  show ?case
  proof (cases r)
    case RNil
    have "clientLine (CHR ''$'' # ''-1'' @ CRLF @ rest) = (Inr (CHR ''$'' # ''-1''), rest)"
      by (rule clientLine_prefix) simp_all
    with RNil show ?thesis by (simp add: parseInt_def digit_val_def readBody_def)
  next
    case (RSimple l)
    with Suc.prems clientLine_prefix[of l "CHR ''+''" rest] show ?thesis by (simp add: line_ok_def)
  next
    case (RInt n)
    with Suc.prems clientLine_prefix[OF formatInt_no_lf, of "CHR '':''" n rest] show ?thesis
      by (simp add: parseInt_formatInt)
  next
    case (RBulk b)
    have "int64_ok (int (length b))" using Suc.prems RBulk by (simp add: int64_ok_def)
    with RBulk Suc.prems clientLine_prefix[OF formatInt_no_lf, of "CHR ''$''" "int (length b)" "b @ CRLF @ rest"]
    show ?thesis by (simp add: parseInt_formatInt readFull_def readBody_def)
  next
    case (RArray rs)
    have "readItems (readReply fuel) (length rs) (concat (map encodeReply rs) @ rest) = (Inr (map client_view rs), rest)"
    proof (rule readItems_encode)
      fix r' rest' assume "r' \<in> set rs"
      with Suc.prems RArray foldr_max_le[of r' rs reply_depth]
      show "readReply fuel (encodeReply r' @ rest') = (Inr (client_view r'), rest')"
        by (intro Suc.IH) (auto simp: list_all_iff)
    qed
    moreover have "int64_ok (int (length rs))" using Suc.prems RArray by (simp add: int64_ok_def)
    ultimately show ?thesis using RArray Suc.prems
      clientLine_prefix[OF formatInt_no_lf, of "CHR ''*''" "int (length rs)" "concat (map encodeReply rs) @ rest"]
      by (simp add: parseInt_formatInt)
  qed (use Suc.prems in simp)
qed

lemma clientRead_encode:
  assumes "wire_ok r"
  shows "clientRead (encodeReply r @ rest) = (client_result r, rest)"
proof (cases r)
  case (RError m)
  then show ?thesis
    using assms clientLine_prefix[of m "CHR ''-''" rest] by (simp add: wire_ok_def line_ok_def clientRead_def client_result_def)
qed (use assms readReply_encode[of r "Suc (length (encodeReply r @ rest))" rest] reply_depth_length[of r]
     in \<open>auto simp: wire_ok_def clientRead_def client_result_def simp del: readReply.simps\<close>)

section \<open>A command through the client\<close>

lemma Writer_write_no_fault:
  "no_fault w \<Longrightarrow> no_fault (Writer_write w p)" "no_fault w \<Longrightarrow> w_out (Writer_write w p) = w_out w @ p"
  "no_fault w \<Longrightarrow> \<not> w_err (Writer_write w p)"
  using Writer_write_ok[of w p] by (auto simp: no_fault_def)

lemma writeArgs_ok:
  assumes "no_fault w"
  shows "\<exists>w'. writeArgs w args = (w', None) \<and> no_fault w'
    \<and> w_out w' = w_out w @ concat (map (\<lambda>a. ''$'' @ formatInt (int (length a)) @ CRLF @ a @ CRLF) args)"
  using assms
proof (induction args arbitrary: w)
  case (Cons a args)
  let ?w = "Writer_write (Writer_write (Writer_write w (''$'' @ formatInt (int (length a)) @ CRLF)) a) CRLF"
  have "no_fault ?w" using Cons.prems by (simp add: Writer_write_no_fault)
  from Cons.IH[OF this] Cons.prems show ?case by (auto simp: Let_def Writer_write_no_fault)
qed simp

lemma Client_writeCommand_ok:
  assumes "no_fault w" "writeCommand args = Some wire"
  shows "\<exists>w'. Client_writeCommand w args = (w', None) \<and> no_fault w' \<and> w_out w' = w_out w @ wire"
  using assms writeArgs_ok[of "Writer_write w (''*'' @ formatInt (int (length args)) @ CRLF)" args]
  by (auto simp: Client_writeCommand_def writeCommand_def Let_def Writer_write_no_fault split: if_splits)

lemma Client_Do_ok:
  assumes "no_fault (cl_w c)" "writeCommand args = Some wire" "cl_in c = encodeReply r @ rest" "wire_ok r"
  shows "\<exists>w'. Client_Do c args = (c\<lparr>cl_w := w', cl_in := rest\<rparr>, client_result r) \<and> no_fault w'
    \<and> w_out w' = w_out (cl_w c) @ wire \<and> w_flushed w' = length (w_out w')"
proof -
  from Client_writeCommand_ok[OF assms(1,2)] obtain w1 where
    w1: "Client_writeCommand (cl_w c) args = (w1, None)" "no_fault w1" "w_out w1 = w_out (cl_w c) @ wire" by blast
  then show ?thesis
    using clientRead_encode[OF assms(4), of rest] assms(3)
    by (auto simp: Client_Do_def Writer_Flush_def no_fault_def)
qed

text \<open>Commands one after the other, each with its result.\<close>

fun Client_DoAll :: "Client \<Rightarrow> bytes list list \<Rightarrow> Client \<times> (clientErr + clientVal) list" where
  "Client_DoAll c [] = (c, [])"
| "Client_DoAll c (args # reqs) =
     (case Client_Do c args of
        (c1, res) \<Rightarrow> (case Client_DoAll c1 reqs of (c2, ress) \<Rightarrow> (c2, res # ress)))"

lemma Client_DoAll_ok:
  assumes "no_fault (cl_w c)" "list_all2 (\<lambda>args wire. writeCommand args = Some wire) reqs wires" "length rs = length reqs"
    "cl_in c = concat (map encodeReply rs) @ rest" "\<forall>r \<in> set rs. wire_ok r"
  shows "\<exists>c'. Client_DoAll c reqs = (c', map client_result rs) \<and> cl_in c' = rest \<and> no_fault (cl_w c')
    \<and> w_out (cl_w c') = w_out (cl_w c) @ concat wires"
  using assms
proof (induction reqs arbitrary: c wires rs)
  case (Cons args reqs)
  then obtain wire ws r rs' where e: "wires = wire # ws" "rs = r # rs'" "writeCommand args = Some wire"
    "list_all2 (\<lambda>args wire. writeCommand args = Some wire) reqs ws" by (auto simp: list_all2_Cons1 length_Suc_conv)
  have "cl_in c = encodeReply r @ concat (map encodeReply rs') @ rest" "wire_ok r" using Cons.prems e by simp_all
  from Client_Do_ok[OF Cons.prems(1) e(3) this] obtain w' where
    d: "Client_Do c args = (c\<lparr>cl_w := w', cl_in := concat (map encodeReply rs') @ rest\<rparr>, client_result r)"
      "no_fault w'" "w_out w' = w_out (cl_w c) @ wire" by blast
  from Cons.IH[of "c\<lparr>cl_w := w', cl_in := concat (map encodeReply rs') @ rest\<rparr>" ws rs'] d Cons.prems e show ?case by auto
qed simp

end
