(* ===== verification/Background.thy ===== *)
theory Background
  imports Shard
begin

text \<open>
  What runs beside the commands: the clocks (\<open>internal/clock/clock.go\<close>), a cycle of active
  expiry (\<open>internal/expiry/expiry.go\<close>), and the life of the server from \<open>Listen\<close> to the end
  of \<open>Serve\<close> (\<open>internal/server/server.go\<close>) as a step relation over the accept loop, the
  connection goroutines, the background goroutines and \<open>shutdown\<close>. A step is one critical
  section of \<open>Server.mu\<close> or one operation on the wait group.
\<close>

section \<open>The manual clock (clock.go)\<close>

record ManualClock =
  clock_now :: gotime

definition NewManualClock :: "gotime \<Rightarrow> ManualClock" where
  "NewManualClock t = \<lparr>clock_now = t\<rparr>"

definition ManualClock_Now :: "ManualClock \<Rightarrow> gotime" where
  "ManualClock_Now c = clock_now c"

definition ManualClock_Advance :: "ManualClock \<Rightarrow> duration \<Rightarrow> ManualClock" where
  "ManualClock_Advance c d = c\<lparr>clock_now := addTime (clock_now c) d\<rparr>"

definition ManualClock_Set :: "ManualClock \<Rightarrow> gotime \<Rightarrow> ManualClock" where
  "ManualClock_Set c t = c\<lparr>clock_now := t\<rparr>"

section \<open>Active expiry (expiry.go)\<close>

fun cycleDBs :: "(bytes list \<Rightarrow> bytes list) \<Rightarrow> gotime \<Rightarrow> int \<Rightarrow> DB list \<Rightarrow> int \<Rightarrow> int \<Rightarrow> DB list \<times> int \<times> int" where
  "cycleDBs pick now limit [] examined evicted = ([], examined, evicted)"
| "cycleDBs pick now limit (db # dbs) examined evicted =
     (case DB_ExpireCycle pick db now limit of
        (db', ex, ev) \<Rightarrow>
          (case cycleDBs pick now limit dbs (examined + ex) (evicted + ev) of
             (dbs', r) \<Rightarrow> (db' # dbs', r)))"

definition Runner_cycle :: "(bytes list \<Rightarrow> bytes list) \<Rightarrow> DB list \<Rightarrow> gotime \<Rightarrow> int \<Rightarrow> DB list \<times> int \<times> int" where
  "Runner_cycle pick dbs now limit = (if limit \<le> 0 then (dbs, 0, 0) else cycleDBs pick now limit dbs 0 0)"

text \<open>One tick of \<open>Run\<close>: an interval that is not positive, or no sample function, disables it.\<close>

definition Runner_tick ::
  "(bytes list \<Rightarrow> bytes list) \<Rightarrow> duration \<Rightarrow> int option \<Rightarrow> DB list \<Rightarrow> gotime \<Rightarrow> DB list" where
  "Runner_tick pick interval sample dbs now =
     (case sample of
        None \<Rightarrow> dbs
      | Some limit \<Rightarrow> if interval \<le> 0 then dbs else fst (Runner_cycle pick dbs now limit))"

lemma cycleDBs_spec:
  assumes "cycleDBs pick now limit dbs examined evicted = (dbs', ex, ev)" "\<forall>db \<in> set dbs. db_inv hash db" "now \<le> later" "0 < limit"
  shows "length dbs' = length dbs \<and> (\<forall>db \<in> set dbs'. db_inv hash db)
    \<and> (\<forall>d < length dbs. live later (db_ents hash (dbs' ! d)) = live later (db_ents hash (dbs ! d)))
    \<and> ex \<le> examined + (\<Sum>db \<leftarrow> dbs. DB_Shards db * limit)"
  using assms(1,2)
proof (induction dbs arbitrary: examined evicted dbs')
  case (Cons db dbs)
  obtain db1 ex1 ev1 where 1: "DB_ExpireCycle pick db now limit = (db1, ex1, ev1)" using prod_cases3 by blast
  obtain dbs1 where 2: "cycleDBs pick now limit dbs (examined + ex1) (evicted + ev1) = (dbs1, ex, ev)" "dbs' = db1 # dbs1"
    using Cons.prems(1) 1 by (auto split: prod.splits)
  have "db_inv hash db" using Cons.prems(2) by simp
  note S = DB_ExpireCycle_spec[OF 1 this assms(3)]
  from Cons.IH[OF 2(1)] Cons.prems(2) S assms(4) show ?case
    by (auto simp: 2(2) nth_Cons split: nat.split)
qed simp

lemma Runner_cycle_spec:
  assumes "Runner_cycle pick dbs now limit = (dbs', ex, ev)" "\<forall>db \<in> set dbs. db_inv hash db" "now \<le> later"
  shows "length dbs' = length dbs \<and> (\<forall>db \<in> set dbs'. db_inv hash db)
    \<and> (\<forall>d < length dbs. live later (db_ents hash (dbs' ! d)) = live later (db_ents hash (dbs ! d)))
    \<and> ex \<le> (\<Sum>db \<leftarrow> dbs. DB_Shards db * max 0 limit)"
proof (cases "limit \<le> 0")
  case True
  with assms show ?thesis by (auto simp: Runner_cycle_def intro: sum_list_nonneg)
next
  case False
  with assms cycleDBs_spec[of pick now limit dbs 0 0 dbs' ex ev hash later] show ?thesis
    by (auto simp: Runner_cycle_def max_def)
qed

section \<open>The life of a server (server.go)\<close>

datatype servePhase = Accepting | Waiting | Stopped

text \<open>
  Where the goroutine of a connection is in \<open>serve\<close>: blocked in \<open>ReadRequest\<close>, running a request
  with so many more already in the reader's buffer, writing the reply, writing the report of a
  protocol violation, or about to run the deferred \<open>closeConn\<close>.
\<close>

datatype connAt = Reading | Executing nat | Writing nat | Refusing | Leaving

record life =
  lf_cancelled :: bool \<comment> \<open>the context\<close>
  lf_watcher :: bool \<comment> \<open>the goroutine that waits for the context has not yet called \<open>shutdown\<close>\<close>
  lf_closing :: bool
  lf_listening :: bool
  lf_held :: "nat option" \<comment> \<open>what \<open>Accept\<close> returned and \<open>startConn\<close> has not yet looked at\<close>
  lf_conns :: "nat set"
  lf_tripped :: "nat set" \<comment> \<open>connections whose read deadline has passed\<close>
  lf_closed :: "nat set" \<comment> \<open>connections whose socket is closed\<close>
  lf_serving :: "nat set" \<comment> \<open>connections whose goroutine has not reported to the wait group\<close>
  lf_at :: "nat \<Rightarrow> connAt"
  lf_workers :: nat \<comment> \<open>background goroutines\<close>
  lf_wg :: nat \<comment> \<open>the wait group\<close>
  lf_phase :: servePhase

text \<open>After \<open>Listen\<close> and the start of \<open>Serve\<close>: two background goroutines, four with persistence.\<close>

definition life_init :: "bool \<Rightarrow> life" where
  "life_init persist =
     \<lparr>lf_cancelled = False, lf_watcher = True, lf_closing = False, lf_listening = True, lf_held = None, lf_conns = {},
      lf_tripped = {}, lf_closed = {}, lf_serving = {}, lf_at = (\<lambda>_. Leaving), lf_workers = (if persist then 4 else 2),
      lf_wg = (if persist then 4 else 2), lf_phase = Accepting\<rparr>"

definition startConn :: "nat \<Rightarrow> life \<Rightarrow> life" where
  "startConn c s =
     (if lf_closing s then s\<lparr>lf_closed := insert c (lf_closed s)\<rparr>
      else s\<lparr>lf_conns := insert c (lf_conns s), lf_wg := lf_wg s + 1, lf_serving := insert c (lf_serving s),
             lf_at := (lf_at s)(c := Reading)\<rparr>)"

definition closeConn :: "nat \<Rightarrow> life \<Rightarrow> life" where
  "closeConn c s = s\<lparr>lf_conns := lf_conns s - {c}, lf_closed := insert c (lf_closed s)\<rparr>"

definition isClosing :: "life \<Rightarrow> bool" where
  "isClosing s = lf_closing s"

definition shutdown :: "life \<Rightarrow> life" where
  "shutdown s =
     (if lf_closing s then s
      else s\<lparr>lf_closing := True, lf_listening := False, lf_tripped := lf_tripped s \<union> lf_conns s\<rparr>)"

text \<open>
  Who makes a step: the server itself, the operating system taking or refusing the bytes of a
  write, or the outside (clients, signals, a failing \<open>Accept\<close>).
\<close>

datatype actor = Own | Net | Peer

text \<open>
  \<open>Accept\<close> returns a connection only while the listener is open; the accept loop then holds it
  until \<open>startConn\<close> runs, and \<open>shutdown\<close> may come in between. The loop is left only when
  \<open>Accept\<close> fails and the server is closing. A connection's goroutine leaves its loop only for an
  error: the client's, or the read deadline, which also ends the arrival of requests.
\<close>

inductive life_step :: "actor \<Rightarrow> life \<Rightarrow> life \<Rightarrow> bool" where
  ls_cancel: "\<not> lf_cancelled s \<Longrightarrow> life_step Peer s (s\<lparr>lf_cancelled := True\<rparr>)"
| ls_shutdown: "lf_cancelled s \<Longrightarrow> lf_watcher s \<Longrightarrow> life_step Own s ((shutdown s)\<lparr>lf_watcher := False\<rparr>)"
| ls_accept: "lf_phase s = Accepting \<Longrightarrow> lf_held s = None \<Longrightarrow> lf_listening s \<Longrightarrow> c \<notin> lf_serving s \<union> lf_closed s \<Longrightarrow>
    life_step Peer s (s\<lparr>lf_held := Some c\<rparr>)"
| ls_start: "lf_phase s = Accepting \<Longrightarrow> lf_held s = Some c \<Longrightarrow> life_step Own s ((startConn c s)\<lparr>lf_held := None\<rparr>)"
| ls_retry: "lf_phase s = Accepting \<Longrightarrow> lf_held s = None \<Longrightarrow> \<not> isClosing s \<Longrightarrow> life_step Peer s s"
| ls_fail: "lf_phase s = Accepting \<Longrightarrow> lf_held s = None \<Longrightarrow> isClosing s \<Longrightarrow> life_step Peer s (s\<lparr>lf_phase := Waiting\<rparr>)"
| ls_break: "lf_phase s = Accepting \<Longrightarrow> lf_held s = None \<Longrightarrow> \<not> lf_listening s \<Longrightarrow> isClosing s \<Longrightarrow>
    life_step Own s (s\<lparr>lf_phase := Waiting\<rparr>)"
| ls_request: "c \<in> lf_serving s \<Longrightarrow> lf_at s c = Reading \<Longrightarrow> c \<notin> lf_tripped s \<Longrightarrow>
    life_step Peer s (s\<lparr>lf_at := (lf_at s)(c := Executing n)\<rparr>)"
| ls_garbage: "c \<in> lf_serving s \<Longrightarrow> lf_at s c = Reading \<Longrightarrow> life_step Peer s (s\<lparr>lf_at := (lf_at s)(c := Refusing)\<rparr>)"
| ls_hangup: "c \<in> lf_serving s \<Longrightarrow> lf_at s c = Reading \<Longrightarrow> life_step Peer s (s\<lparr>lf_at := (lf_at s)(c := Leaving)\<rparr>)"
| ls_deadline: "c \<in> lf_serving s \<Longrightarrow> lf_at s c = Reading \<Longrightarrow> c \<in> lf_tripped s \<Longrightarrow>
    life_step Own s (s\<lparr>lf_at := (lf_at s)(c := Leaving)\<rparr>)"
| ls_execute: "c \<in> lf_serving s \<Longrightarrow> lf_at s c = Executing n \<Longrightarrow> life_step Own s (s\<lparr>lf_at := (lf_at s)(c := Writing n)\<rparr>)"
| ls_sent: "c \<in> lf_serving s \<Longrightarrow> lf_at s c = Writing n \<Longrightarrow>
    life_step Net s (s\<lparr>lf_at := (lf_at s)(c := (case n of 0 \<Rightarrow> Reading | Suc m \<Rightarrow> Executing m))\<rparr>)"
| ls_broken: "c \<in> lf_serving s \<Longrightarrow> lf_at s c = Writing n \<Longrightarrow> life_step Net s (s\<lparr>lf_at := (lf_at s)(c := Leaving)\<rparr>)"
| ls_refused: "c \<in> lf_serving s \<Longrightarrow> lf_at s c = Refusing \<Longrightarrow> life_step Net s (s\<lparr>lf_at := (lf_at s)(c := Leaving)\<rparr>)"
| ls_close: "c \<in> lf_serving s \<Longrightarrow> lf_at s c = Leaving \<Longrightarrow> c \<in> lf_conns s \<Longrightarrow> life_step Own s (closeConn c s)"
| ls_done: "c \<in> lf_serving s \<Longrightarrow> lf_at s c = Leaving \<Longrightarrow> c \<notin> lf_conns s \<Longrightarrow>
    life_step Own s (s\<lparr>lf_serving := lf_serving s - {c}, lf_wg := lf_wg s - 1\<rparr>)"
| ls_worker: "lf_cancelled s \<Longrightarrow> 0 < lf_workers s \<Longrightarrow>
    life_step Own s (s\<lparr>lf_workers := lf_workers s - 1, lf_wg := lf_wg s - 1\<rparr>)"
| ls_drained: "lf_phase s = Waiting \<Longrightarrow> lf_wg s = 0 \<Longrightarrow> life_step Own s (s\<lparr>lf_phase := Stopped\<rparr>)"

definition life_next :: "life \<Rightarrow> life \<Rightarrow> bool" where
  "life_next s s' \<longleftrightarrow> (\<exists>a. life_step a s s')"

text \<open>Steps that need no client: the server's own, and writes that are taken or refused.\<close>

definition drain_step :: "life \<Rightarrow> life \<Rightarrow> bool" where
  "drain_step s s' \<longleftrightarrow> life_step Own s s' \<or> life_step Net s s'"

definition life_reach :: "bool \<Rightarrow> life \<Rightarrow> bool" where
  "life_reach persist s \<longleftrightarrow> life_next\<^sup>*\<^sup>* (life_init persist) s"

inductive_cases life_stepE: "life_step a s s'"

definition life_inv :: "life \<Rightarrow> bool" where
  "life_inv s \<longleftrightarrow>
     finite (lf_serving s) \<and> lf_wg s = card (lf_serving s) + lf_workers s \<and> lf_conns s \<subseteq> lf_serving s
     \<and> (lf_watcher s \<longleftrightarrow> \<not> lf_closing s)
     \<and> (lf_closing s \<longrightarrow> lf_cancelled s \<and> \<not> lf_listening s \<and> lf_conns s \<subseteq> lf_tripped s)
     \<and> (lf_phase s \<noteq> Accepting \<longrightarrow> lf_closing s \<and> lf_held s = None) \<and> (lf_phase s = Stopped \<longrightarrow> lf_wg s = 0)
     \<and> (\<forall>c. lf_held s = Some c \<longrightarrow> c \<notin> lf_serving s)
     \<and> lf_serving s - lf_conns s \<subseteq> lf_closed s
     \<and> (\<forall>c \<in> lf_serving s - lf_conns s. lf_at s c = Leaving)"

lemma at_work: "life_inv s \<Longrightarrow> c \<in> lf_serving s \<Longrightarrow> lf_at s c \<noteq> Leaving \<Longrightarrow> c \<in> lf_conns s"
  unfolding life_inv_def by blast

lemma life_inv_step: "life_step a s s' \<Longrightarrow> life_inv s \<Longrightarrow> life_inv s'"
proof (induction rule: life_step.induct)
  case (ls_start s c)
  then show ?case by (auto simp: life_inv_def startConn_def card_insert_if)
next
  case (ls_done c s)
  moreover from this have "card (lf_serving s) > 0" by (auto simp: life_inv_def card_gt_0_iff)
  ultimately show ?case by (auto simp: life_inv_def card_Diff_singleton)
qed (auto simp: life_inv_def closeConn_def shutdown_def isClosing_def)

lemma life_reach_inv: "life_reach persist s \<Longrightarrow> life_inv s"
  unfolding life_reach_def
proof (induction rule: rtranclp_induct)
  case base
  show ?case by (simp add: life_inv_def life_init_def)
qed (auto simp: life_next_def intro: life_inv_step)

text \<open>What \<open>Serve\<close> relies on when it writes the final snapshot.\<close>

lemma life_stopped:
  assumes "life_inv s" "lf_phase s = Stopped"
  shows "lf_serving s = {} \<and> lf_conns s = {} \<and> lf_workers s = 0 \<and> lf_held s = None"
  using assms by (auto simp: life_inv_def)

lemma closing_stays: "life_next\<^sup>*\<^sup>* s s' \<Longrightarrow> lf_closing s \<Longrightarrow> lf_closing s' \<and> lf_conns s' \<subseteq> lf_conns s \<and> lf_serving s' \<subseteq> lf_serving s"
proof (induction rule: rtranclp_induct)
  case (step t u)
  from step.hyps(2) obtain a where "life_step a t u" by (auto simp: life_next_def)
  then have "lf_closing u \<and> lf_conns u \<subseteq> lf_conns t \<and> lf_serving u \<subseteq> lf_serving t"
    using step.IH[OF step.prems] by (auto simp: startConn_def closeConn_def shutdown_def elim!: life_stepE)
  with step show ?case by blast
qed simp

section \<open>Shutdown ends\<close>

text \<open>How far a closing server is from \<open>Stopped\<close>.\<close>

fun at_rank :: "connAt \<Rightarrow> nat" where
  "at_rank Leaving = 1"
| "at_rank Refusing = 2"
| "at_rank Reading = 3"
| "at_rank (Writing n) = 4 + 2 * n"
| "at_rank (Executing n) = 5 + 2 * n"

definition conn_rank :: "life \<Rightarrow> nat \<Rightarrow> nat" where
  "conn_rank s c = at_rank (lf_at s c) + (if c \<in> lf_conns s then 1 else 0)"

definition life_rank :: "life \<Rightarrow> nat" where
  "life_rank s =
     (\<Sum>c \<in> lf_serving s. conn_rank s c) + lf_workers s + (if lf_held s = None then 0 else 1)
     + (case lf_phase s of Accepting \<Rightarrow> 2 | Waiting \<Rightarrow> 1 | Stopped \<Rightarrow> 0)"

text \<open>One connection nearer its end, the others as they were.\<close>

lemma rank_moves:
  assumes "finite S" "c \<in> S" "f' c < f c" "\<And>x. x \<noteq> c \<Longrightarrow> f' x = f x"
  shows "(\<Sum>x \<in> S. f' x) < (\<Sum>x \<in> S. (f x :: nat))"
proof (rule sum_strict_mono_ex1[OF assms(1)])
  show "\<forall>x \<in> S. f' x \<le> f x" using assms(3,4) by (metis less_or_eq_imp_le order_refl)
qed (use assms(2,3) in blast)

lemma at_moves:
  assumes "finite (lf_serving s)" "c \<in> lf_serving s" "at_rank a < at_rank (lf_at s c)"
  shows "life_rank (s\<lparr>lf_at := (lf_at s)(c := a)\<rparr>) < life_rank s"
  using rank_moves[OF assms(1,2), of "conn_rank (s\<lparr>lf_at := (lf_at s)(c := a)\<rparr>)" "conn_rank s"] assms(3)
  by (simp add: life_rank_def conn_rank_def)

lemma close_moves:
  assumes "finite (lf_serving s)" "c \<in> lf_serving s" "c \<in> lf_conns s"
  shows "life_rank (closeConn c s) < life_rank s"
  using rank_moves[OF assms(1,2), of "conn_rank (closeConn c s)" "conn_rank s"] assms(3)
  by (simp add: life_rank_def conn_rank_def closeConn_def)

lemma done_moves:
  assumes "finite (lf_serving s)" "c \<in> lf_serving s"
  shows "life_rank (s\<lparr>lf_serving := lf_serving s - {c}, lf_wg := w\<rparr>) < life_rank s"
proof -
  have "0 < conn_rank s c" by (cases "lf_at s c") (simp_all add: conn_rank_def)
  moreover have "(\<Sum>x \<in> lf_serving s. conn_rank s x) = conn_rank s c + (\<Sum>x \<in> lf_serving s - {c}. conn_rank s x)"
    by (rule sum.remove[OF assms])
  ultimately show ?thesis by (simp add: life_rank_def conn_rank_def)
qed

text \<open>Once the server is closing, every step whatsoever brings it nearer its end.\<close>

lemma closing_rank:
  assumes "life_step a s s'" "life_inv s" "lf_closing s"
  shows "life_rank s' < life_rank s"
  using assms
proof (induction rule: life_step.induct)
  case (ls_start s c)
  then show ?case by (simp add: startConn_def life_rank_def conn_rank_def)
next
  case (ls_request c s n)
  then have "c \<in> lf_conns s" using at_work by fastforce
  with ls_request show ?case by (auto simp: life_inv_def)
next
  case (ls_sent c s n)
  then show ?case by (auto simp: life_inv_def intro!: at_moves split: nat.split)
qed (auto simp: life_inv_def isClosing_def intro!: at_moves close_moves done_moves,
     auto simp: life_rank_def conn_rank_def)

text \<open>What a connection waits for in a write.\<close>

fun sending :: "connAt \<Rightarrow> bool" where
  "sending (Writing n) = True"
| "sending Refusing = True"
| "sending _ = False"

text \<open>A closing server that is not at its end has a step of its own, unless all it waits for is a write.\<close>

lemma closing_goes_on:
  assumes inv: "life_inv s" and cl: "lf_closing s" and p: "lf_phase s \<noteq> Stopped"
    and w: "\<And>c. c \<in> lf_serving s \<Longrightarrow> \<not> sending (lf_at s c)"
  shows "\<exists>s'. life_step Own s s'"
proof -
  have fin: "finite (lf_serving s)" and c: "lf_cancelled s" "\<not> lf_listening s"
    using inv cl by (auto simp: life_inv_def)
  consider (held) c where "lf_phase s = Accepting" "lf_held s = Some c" | (loop) "lf_phase s = Accepting" "lf_held s = None"
    | (conn) x where "x \<in> lf_serving s" | (worker) "0 < lf_workers s" | (drained) "lf_phase s = Waiting" "lf_wg s = 0"
    using inv p by (cases "lf_phase s"; cases "lf_held s") (auto simp: life_inv_def)
  then show ?thesis
  proof cases
    case (conn x)
    have tr: "x \<in> lf_tripped s" if "lf_at s x = Reading" 
      using at_work[OF inv conn] inv cl that by (auto simp: life_inv_def)
    show ?thesis
      using conn tr w[OF conn] life_step.ls_deadline[of x s] life_step.ls_execute[of x s]
        life_step.ls_close[of x s] life_step.ls_done[of x s]
      by (cases "lf_at s x"; cases "x \<in> lf_conns s") auto
  next
    case loop
    then show ?thesis using c cl life_step.ls_break[of s] by (auto simp: isClosing_def)
  qed (use c cl in \<open>auto intro: life_step.intros\<close>)
qed

lemma writes_go_on: "c \<in> lf_serving s \<Longrightarrow> sending (lf_at s c) \<Longrightarrow> \<exists>s'. life_step Net s s'"
  by (cases "lf_at s c") (auto intro: life_step.ls_broken life_step.ls_refused)

lemma life_drains:
  assumes "life_inv s" "lf_closing s"
  shows "\<exists>s'. drain_step\<^sup>*\<^sup>* s s' \<and> lf_phase s' = Stopped"
  using assms
proof (induction "life_rank s" arbitrary: s rule: less_induct)
  case less
  show ?case
  proof (cases "lf_phase s = Stopped")
    case False
    have "\<exists>t. drain_step s t"
      using closing_goes_on[OF less.prems False] writes_go_on[of _ s] by (auto simp: drain_step_def)
    then obtain t a where t: "drain_step s t" "life_step a s t" by (auto simp: drain_step_def)
    have "lf_closing t" using closing_stays[OF r_into_rtranclp[of life_next s t]] t(2) less.prems(2)
      by (auto simp: life_next_def)
    from less.hyps[OF closing_rank[OF t(2) less.prems] life_inv_step[OF t(2) less.prems(1)] this] t(1) show ?thesis
      by (blast intro: converse_rtranclp_into_rtranclp)
  qed blast
qed

text \<open>A cancelled server that has not yet shut down does so by a step of its own.\<close>

lemma cancelled_closes:
  assumes "life_inv s" "lf_cancelled s" "\<not> lf_closing s"
  shows "\<exists>s'. life_step Own s s' \<and> lf_closing s'"
  using assms life_step.ls_shutdown[of s] by (auto simp: life_inv_def shutdown_def)

text \<open>A connection that \<open>Accept\<close> returned before the shutdown is closed by \<open>startConn\<close> after it.\<close>

lemma held_closed:
  assumes "life_inv s" "lf_closing s" "lf_held s = Some c"
  shows "life_step Own s ((startConn c s)\<lparr>lf_held := None\<rparr>) \<and> c \<in> lf_closed (startConn c s)"
  using assms life_step.ls_start[of s c] by (auto simp: life_inv_def startConn_def)

section \<open>A concrete shutdown\<close>

lemma life_chain: "life_step a s t \<Longrightarrow> life_next\<^sup>*\<^sup>* t u \<Longrightarrow> life_next\<^sup>*\<^sup>* s u"
  by (rule converse_rtranclp_into_rtranclp) (auto simp: life_next_def)

text \<open>Connection 5 is served and 6 was just accepted when the context is cancelled and \<open>shutdown\<close> runs.\<close>

definition demo_race :: "bool \<Rightarrow> life" where
  "demo_race persist =
     (shutdown ((startConn 5 (life_init persist))\<lparr>lf_held := Some 6, lf_cancelled := True\<rparr>))\<lparr>lf_watcher := False\<rparr>"

lemma demo_race_reach: "life_reach persist (demo_race persist)"
  unfolding life_reach_def
proof -
  let ?s0 = "life_init persist"
  let ?s1 = "?s0\<lparr>lf_held := Some 5\<rparr>"
  let ?s2 = "(startConn 5 ?s1)\<lparr>lf_held := None\<rparr>"
  let ?s3 = "?s2\<lparr>lf_held := Some 6\<rparr>"
  let ?s4 = "?s3\<lparr>lf_cancelled := True\<rparr>"
  note d = life_init_def startConn_def
  have 1: "life_step Peer ?s0 ?s1" by (rule ls_accept) (simp_all add: d)
  have 2: "life_step Own ?s1 ?s2" by (rule ls_start) (simp_all add: d)
  have 3: "life_step Peer ?s2 ?s3" by (rule ls_accept) (simp_all add: d)
  have 4: "life_step Peer ?s3 ?s4" by (rule ls_cancel) (simp add: d)
  have 5: "life_step Own ?s4 ((shutdown ?s4)\<lparr>lf_watcher := False\<rparr>)" by (rule ls_shutdown) (simp_all add: d)
  have e: "(shutdown ?s4)\<lparr>lf_watcher := False\<rparr> = demo_race persist" by (simp add: demo_race_def d)
  show "life_next\<^sup>*\<^sup>* ?s0 (demo_race persist)"
    unfolding e[symmetric]
    by (rule life_chain[OF 1], rule life_chain[OF 2], rule life_chain[OF 3], rule life_chain[OF 4], rule life_chain[OF 5], rule rtranclp.rtrancl_refl)
qed

lemma demo_race_at:
  "lf_closing (demo_race persist)" "lf_held (demo_race persist) = Some 6" "lf_cancelled (demo_race persist)"
  "lf_conns (demo_race persist) = {5}" "lf_serving (demo_race persist) = {5}" "lf_at (demo_race persist) 5 = Reading"
  "lf_phase (demo_race persist) = Accepting"
  by (simp_all add: demo_race_def life_init_def startConn_def shutdown_def)

end
