(* ===== verification/Scenario.thy ===== *)
theory Scenario
  imports TableProps
begin

text \<open>
  A small concrete deployment on which the theorems about sessions are evaluated: one
  database of two shards, a hash on the length of the key, maps visited in list order, and
  a score parser for the decimal literals of small integers. The clock stands at the epoch.
\<close>

definition demo_rt :: runtime where
  "demo_rt =
     \<lparr>rt_hash = (\<lambda>k. word_of_nat (length k)), rt_pick = (\<lambda>ks. ks), rt_draws = (\<lambda>n. n = 0),
      rt_parseFloat = (\<lambda>s. if s = ''0'' then Some 0 else if s = ''1'' then Some 0x3FF0000000000000 else None),
      rt_formatFloat = (\<lambda>f. if f = 0 then ''0'' else ''1''),
      rt_toUpper = (\<lambda>s. s), rt_toLower = (\<lambda>s. s), rt_equalFold = (\<lambda>a b. a = b), rt_quote = (\<lambda>s. s)\<rparr>"

definition demo_limits :: Limits where
  "demo_limits =
     \<lparr>Lim_List = \<lparr>MaxEntries = 1, MaxBytes = 8\<rparr>, Lim_Hash = \<lparr>MaxEntries = 1, MaxBytes = 8\<rparr>,
      Lim_Set = \<lparr>MaxEntries = 1, MaxBytes = 8\<rparr>, Lim_ZSet = \<lparr>MaxEntries = 1, MaxBytes = 8\<rparr>\<rparr>"

definition demo_ctx :: Context where
  "demo_ctx = NewContext 0 [DB_New 2] demo_limits None"

text \<open>The same session after one key was stored.\<close>

definition demo_with :: "bytes \<Rightarrow> Value \<Rightarrow> Context" where
  "demo_with k v = storeValue demo_rt demo_ctx k v"

lemma demo_inv: "ctx_inv demo_rt demo_ctx"
  by (simp add: ctx_inv_def demo_ctx_def NewContext_def)

lemma demo_empty: "store_of demo_rt demo_ctx = Map.empty" "ctx_now demo_ctx = 0"
  by (simp_all add: store_of_def ctx_Keyspace_def demo_ctx_def NewContext_def)

lemma demo_with_store:
  assumes "value_ok v"
  shows "ctx_inv demo_rt (demo_with k v)" "store_of demo_rt (demo_with k v) = [k \<mapsto> fresh_entry v]"
    "ctx_now (demo_with k v) = 0"
  using storeValue_to[OF demo_inv assms, of k]
  by (simp_all add: demo_with_def ctx_to_def same_session_def demo_empty)

lemma demo_live:
  assumes "value_ok v"
  shows "live (ctx_now (demo_with k v)) (store_of demo_rt (demo_with k v)) k = Some (fresh_entry v)"
  by (simp add: demo_with_store[OF assms] live_def)

lemma demo_live_empty: "live (ctx_now demo_ctx) (store_of demo_rt demo_ctx) k = None"
  by (simp add: demo_empty live_def)

text \<open>Collections with given contents exist, reached by the operations of the model.\<close>

lemma demo_list: "\<forall>x \<in> set xs. slice_ok x \<Longrightarrow> \<exists>l. list_inv l \<and> list_elems l = xs"
  using ls.push_back_all[OF list_inv_New(1), of xs undefined] by auto

lemma demo_set: "\<forall>x \<in> set xs. slice_ok x \<Longrightarrow> \<exists>s. set_inv s \<and> set_members s = set xs"
  using st.add_all[OF set_inv_New(1), of xs undefined 0] by auto

lemma demo_hash:
  "\<forall>(f, v) \<in> set ps. slice_ok f \<and> slice_ok v \<Longrightarrow> \<exists>h. hash_inv h \<and> hash_fields h = map_of (rev ps)"
  using hs.store_all[OF hash_inv_New(1), of ps undefined 0] by auto

end
