(* ===== verification/ServerScenario.thy ===== *)
theory ServerScenario
  imports ServerProps Background Scenario
begin

text \<open>
  A small server for the concrete instances of the theorems: one database, default settings
  otherwise, a data directory that is empty at first and system calls that do not fail.
\<close>

lemma Server_New_empty:
  assumes "Validate cfg = None" "Databases (cfg_Network cfg) \<le> maxInt64"
  shows "empty_dbs hash (srv_databases (Server_New cfg))" "srv_inv rt (Server_New cfg)"
    "length (srv_databases (Server_New cfg)) = nat (Databases (cfg_Network cfg))"
  using Validate_sound(3)[OF assms(1)] assms(2)
  by (auto simp: empty_dbs_def dbs_inv_def srv_inv_def Server_New_def DB_SetReaper_def)

definition demo_cfg :: Config where
  "demo_cfg = (Default 1)\<lparr>cfg_Network := (cfg_Network (Default 1))\<lparr>Databases := 1\<rparr>\<rparr>"

definition demo_srv :: Server where
  "demo_srv = Server_New demo_cfg"

definition demo_dbs :: "DB list" where
  "demo_dbs = [DB_Set (rt_hash demo_rt) (DB_New 2) ''k'' (MakeString ''v'')]"

lemma demo_srv_ok:
  "empty_dbs hash (srv_databases demo_srv)" "srv_inv rt demo_srv" "length (srv_databases demo_srv) = 1"
proof -
  have v: "Validate demo_cfg = None" "Databases (cfg_Network demo_cfg) = 1"
    by (simp_all add: demo_cfg_def Default_def Validate_def bad_thresholds_def defaultShards_def)
  from Server_New_empty[OF v(1)] v(2)
  show "empty_dbs hash (srv_databases demo_srv)" "srv_inv rt demo_srv" "length (srv_databases demo_srv) = 1"
    by (simp_all add: demo_srv_def)
qed

lemma demo_dbs_ok: "dbs_inv (rt_hash demo_rt) demo_dbs" "dbs_fit (rt_hash demo_rt) demo_dbs" "length demo_dbs = 1"
proof -
  have "value_ok (MakeString ''v'')" by (simp add: slice_ok_def)
  from db.put[OF db_inv_New(1) this, of "rt_hash demo_rt" 2 "''k''"]
  show "dbs_inv (rt_hash demo_rt) demo_dbs" "dbs_fit (rt_hash demo_rt) demo_dbs" "length demo_dbs = 1"
    by (auto simp: demo_dbs_def dbs_inv_def dbs_fit_def fits_def alloc_ok_def split: if_splits)
qed

text \<open>A fresh store under the policy \<open>always\<close>.\<close>

definition demo_store :: Store where
  "demo_store =
     \<lparr>st_dir = [(segmentPath 0, [])], st_fsync = ''always'', st_gen = 0, st_open = True, st_buf = [], st_err = False,
      st_synced = 0, st_calls = 2, st_fault = (\<lambda>n. None)\<rparr>"

lemma demo_store_open: "Open [] ''always'' (\<lambda>n. None) = Some demo_store"
  by (simp add: Open_def openSegment_def sysCall_def highestSegment_def snapshotBaseGen_def demo_store_def)

lemma demo_store_ok: "store_wf demo_store" "seg demo_store = Some []" "st_buf demo_store = []" "st_fsync demo_store = FSyncAlways"
  using Open_wf(1)[OF demo_store_open] by (simp_all add: demo_store_def)

definition demo_at :: "nat \<Rightarrow> readings" where
  "demo_at n = \<lparr>at_start = 0, at_run = 0, at_append = 0, at_end = 0\<rparr>"

definition demo_writer :: Writer where
  "demo_writer = \<lparr>w_out = [], w_err = False, w_calls = 0, w_fault = (\<lambda>n. False), w_flushed = 0\<rparr>"

lemma demo_writer_ok [simp]: "no_fault demo_writer" "w_out demo_writer = []"
  by (simp_all add: demo_writer_def no_fault_def)

end
