(* ===== verification/EndToEnd.thy ===== *)
theory EndToEnd
  imports Client ServerScenario
begin

text \<open>
  The client and the server at the two ends of one connection: the bytes the client sends
  are the input of \<open>serve\<close>, and the bytes the server writes are the input of the client.
\<close>

section \<open>One command at the server\<close>

lemma Resolve_named:
  assumes "cmd \<in> set allCommands" "map lowerByte name = cmd_name cmd" "accepts cmd (int (Suc (length rest)))"
  shows "Resolve commandTable (name # rest) = Inr cmd"
  using lookupFold_table[OF assms(1,2)] assms(3) by (simp add: Resolve_def)

lemma dispatch_run:
  assumes "Resolve commandTable args = Inr cmd" "cmd_run cmd rt (session srv idx (at_run at)) args = Some (c', r)"
  shows "\<exists>srv'. dispatch rt commandTable srv idx at args = (srv', Context_DB c', r)
    \<and> srv_databases srv' = srv_databases (absorb srv c')"
  using assms by (auto simp: dispatch_def execute_def Let_def record_call_def split: option.splits)

text \<open>The server is well formed and its database \<open>idx\<close> has the entries \<open>st\<close>.\<close>

definition served :: "runtime \<Rightarrow> Server \<Rightarrow> nat \<Rightarrow> (bytes \<rightharpoonup> Entry) \<Rightarrow> bool" where
  "served rt srv idx st \<longleftrightarrow>
     srv_inv rt srv \<and> idx < length (srv_databases srv) \<and> (\<forall>now. store_of rt (session srv idx now) = st)"

lemma servedI: "srv_inv rt srv \<Longrightarrow> idx < length (srv_databases srv) \<Longrightarrow> served rt srv idx (store_of rt (session srv idx now))"
  by (simp add: served_def store_of_def ctx_Keyspace_def)

lemma served_session: "served rt srv idx st \<Longrightarrow> ctx_inv rt (session srv idx now) \<and> store_of rt (session srv idx now) = st"
  by (simp add: served_def session_inv)

lemma dispatch_stores:
  assumes "served rt srv idx st" "Resolve commandTable args = Inr cmd"
    "cmd_run cmd rt (session srv idx (at_run at)) args = Some (c', r)" "ctx_to rt (session srv idx (at_run at)) c' st'"
  shows "\<exists>srv'. dispatch rt commandTable srv idx at args = (srv', idx, r) \<and> served rt srv' idx st'"
proof -
  have i: "Context_DB c' = idx" "length (ctx_databases c') = length (srv_databases srv)" "ctx_inv rt c'" "ctx_index c' = idx"
    "store_of rt c' = st'" "srv_inv rt srv" "idx < length (srv_databases srv)"
    using assms(1,4) by (auto simp: ctx_to_def same_session_def Context_DB_def served_def)
  from dispatch_run[OF assms(2,3)] i(1) obtain srv' where
    d: "dispatch rt commandTable srv idx at args = (srv', idx, r)" "srv_databases srv' = srv_databases (absorb srv c')" by auto
  have "srv_inv rt srv'" "idx < length (srv_databases srv')"
    using absorb_inv[OF i(3), of srv] i(2,6,7) d(2) by (simp_all add: srv_inv_def dbs_inv_def)
  moreover have "store_of rt (session srv' idx now) = st'" for now
    using d(2) i(2,4,5,7) by (simp add: store_of_def ctx_Keyspace_def absorb_db)
  ultimately show ?thesis using d(1) by (auto simp: served_def)
qed

lemma dispatch_reads:
  assumes "served rt srv idx st" "Resolve commandTable args = Inr cmd"
    "cmd_run cmd rt (session srv idx (at_run at)) args = Some (session srv idx (at_run at), r)"
  shows "\<exists>srv'. dispatch rt commandTable srv idx at args = (srv', idx, r) \<and> served rt srv' idx st"
proof -
  have "ctx_to rt (session srv idx (at_run at)) (session srv idx (at_run at)) st"
    using served_session[OF assms(1)] by (simp add: ctx_to_def same_session_def)
  from dispatch_stores[OF assms this] show ?thesis .
qed

lemma set_get_commands:
  "Resolve commandTable [''SET'', k, v] = Inr (writeKey ''set'' 3 cmdSet)"
  "Resolve commandTable [''GET'', k] = Inr (readKey ''get'' 2 cmdGet)"
  "Resolve commandTable [''PING''] = Inr (plain ''ping'' (-1) cmdPing)"
proof -
  have n: "map lowerByte ''SET'' = ''set''" "map lowerByte ''GET'' = ''get''" "map lowerByte ''PING'' = ''ping''" by code_simp+
  show "Resolve commandTable [''SET'', k, v] = Inr (writeKey ''set'' 3 cmdSet)"
    "Resolve commandTable [''GET'', k] = Inr (readKey ''get'' 2 cmdGet)"
    "Resolve commandTable [''PING''] = Inr (plain ''ping'' (-1) cmdPing)"
    by (rule Resolve_named; use n in \<open>simp add: allCommands_def command_groups writeKey_def readKey_def plain_def accepts_def\<close>)+
qed

lemma bulk_slice_ok: "bulk_ok b \<Longrightarrow> slice_ok b"
  by (simp add: bulk_ok_def slice_ok_def)

text \<open>\<open>PING\<close>, \<open>SET\<close> and \<open>GET\<close> through the dispatcher, at any time.\<close>

lemma dispatch_ping:
  assumes "served rt srv idx st"
  shows "\<exists>srv'. dispatch rt commandTable srv idx at [''PING''] = (srv', idx, RSimple ''PONG'') \<and> served rt srv' idx st"
  by (rule dispatch_reads[OF assms set_get_commands(3)]) (simp add: plain_def cmdPing_def)

lemma dispatch_set:
  assumes "served rt srv idx st" "slice_ok v"
  shows "\<exists>srv'. dispatch rt commandTable srv idx at [''SET'', k, v] = (srv', idx, Reply_OK)
    \<and> served rt srv' idx (st(k \<mapsto> fresh_entry (MakeString v)))"
proof -
  let ?c = "session srv idx (at_run at)"
  note c = served_session[OF assms(1), of "at_run at"]
  from cmdSet_spec[OF conjunct1[OF c], of "[''SET'', k, v]"] assms(2) c obtain c1 where
    "cmd_run (writeKey ''set'' 3 cmdSet) rt ?c [''SET'', k, v] = Some (c1, Reply_OK)"
      "ctx_to rt ?c c1 (st(k \<mapsto> fresh_entry (MakeString v)))" by (auto simp: writeKey_def)
  from dispatch_stores[OF assms(1) set_get_commands(1) this] show ?thesis .
qed

lemma live_fresh: "st k = Some (fresh_entry v) \<Longrightarrow> live now st k = Some (fresh_entry v)"
  using live_upd[of now st k "fresh_entry v" k] by (simp add: fun_upd_idem)

lemma dispatch_get:
  assumes "served rt srv idx st" "st k = Some (fresh_entry (MakeString v))"
  shows "\<exists>srv'. dispatch rt commandTable srv idx at [''GET'', k] = (srv', idx, RBulk v) \<and> served rt srv' idx st"
proof (rule dispatch_reads[OF assms(1) set_get_commands(2)])
  show "cmd_run (readKey ''get'' 2 cmdGet) rt (session srv idx (at_run at)) [''GET'', k] = Some (session srv idx (at_run at), RBulk v)"
    using cmdGet_spec[of rt "session srv idx (at_run at)" "[''GET'', k]"] served_session[OF assms(1), of "at_run at"]
      live_fresh[of st k, OF assms(2), of "at_run at"]
    by (simp add: readKey_def)
qed

lemma set_get_replies:
  assumes "srv_inv rt srv" "idx < length (srv_databases srv)" "slice_ok v"
  shows "\<exists>srv'. dispatchAll rt commandTable clk n srv idx [[''SET'', k, v], [''GET'', k]] = (srv', idx, [Reply_OK, RBulk v])"
proof -
  from dispatch_set[OF servedI[OF assms(1,2)] assms(3), of "clk n" k] obtain srv1 st where
    1: "dispatch rt commandTable srv idx (clk n) [''SET'', k, v] = (srv1, idx, Reply_OK)"
      "served rt srv1 idx (st(k \<mapsto> fresh_entry (MakeString v)))" by blast
  from dispatch_get[OF this(2), of k v "clk (n + 1)"] 1(1) show ?thesis by auto
qed

section \<open>A session of the client\<close>

lemma encodeRequest_wires:
  "\<forall>args \<in> set reqs. request_ok args \<Longrightarrow>
   list_all2 (\<lambda>args wire. writeCommand args = Some wire) reqs (map encodeRequest reqs)"
  by (induction reqs) (auto simp: request_ok_def encodeRequest_def writeCommand_def)

lemma dispatchAll_length: "dispatchAll rt reg clk n srv idx reqs = (srv', idx', rs) \<Longrightarrow> length rs = length reqs"
  by (induction reqs arbitrary: n srv idx rs) (auto split: prod.splits)

lemma client_server:
  assumes "\<forall>args \<in> set reqs. request_ok args" "no_fault w" "w_out w = []" "reqs \<noteq> []" "\<forall>n. \<not> buffered n []"
    "dispatchAll rt reg clk 0 (record_call ConnectionOpened srv) 0 reqs = (srv', idx', replies)"
    "\<forall>r \<in> set replies. wire_ok r" "no_fault (cl_w c)" "w_out (cl_w c) = []"
    "serve rt reg clk buffered srv w (concat (map encodeRequest reqs)) = (srv2, w2)" "cl_in c = w_out w2"
  shows "\<exists>c'. Client_DoAll c reqs = (c', map client_result replies)
    \<and> w_out (cl_w c') = concat (map encodeRequest reqs) \<and> cl_in c' = []"
proof -
  have l: "length replies = length reqs" using dispatchAll_length[OF assms(6)] .
  have o: "cl_in c = concat (map encodeReply replies) @ []"
    using serve_requests[where buffered = buffered, OF assms(1,2,4,5,6)] assms(3,10,11) by auto
  from Client_DoAll_ok[OF assms(8) encodeRequest_wires[OF assms(1)] l o assms(7)] assms(9) show ?thesis by auto
qed

text \<open>The typed helpers on top of a session.\<close>

lemma client_set_get:
  assumes "srv_inv rt srv" "0 < length (srv_databases srv)" "bulk_ok k" "bulk_ok v"
    "no_fault w" "w_out w = []" "\<forall>n. \<not> buffered n []" "no_fault (cl_w c)" "w_out (cl_w c) = []"
    "serve rt commandTable clk buffered srv w (concat (map encodeRequest [[''SET'', k, v], [''GET'', k]])) = (srv2, w2)"
    "cl_in c = w_out w2"
  shows "\<exists>c1 c2. Client_Set c k v = (c1, None) \<and> Client_Get c1 k = (c2, Inr (v, True))
    \<and> w_out (cl_w c2) = concat (map encodeRequest [[''SET'', k, v], [''GET'', k]]) \<and> cl_in c2 = []"
proof -
  let ?reqs = "[[''SET'', k, v], [''GET'', k]]"
  have "srv_inv rt (record_call ConnectionOpened srv)" "0 < length (srv_databases (record_call ConnectionOpened srv))"
    using assms(1,2) by (simp_all add: srv_inv_def)
  from set_get_replies[OF this bulk_slice_ok[OF assms(4)], of clk 0 k] obtain srv' where
    d: "dispatchAll rt commandTable clk 0 (record_call ConnectionOpened srv) 0 ?reqs = (srv', 0, [Reply_OK, RBulk v])" by blast
  have r: "\<forall>args \<in> set ?reqs. request_ok args" using assms(3,4) by (simp add: request_ok_def bulk_ok_def)
  have q: "\<forall>r \<in> set [Reply_OK, RBulk v]. wire_ok r"
    using assms(4) by (simp add: wire_ok_def Reply_OK_def line_ok_def bulk_ok_def)
  from client_server[OF r assms(5,6) _ assms(7) d q assms(8-11)] obtain c' where
    "Client_DoAll c ?reqs = (c', [Inr (CStr ''OK''), Inr (CStr v)])"
    "w_out (cl_w c') = concat (map encodeRequest ?reqs)" "cl_in c' = []"
    by (auto simp: client_result_def Reply_OK_def)
  then show ?thesis by (auto simp: Client_Set_def Client_Get_def split: prod.splits)
qed

end
