(* ===== verification/Boot.thy ===== *)
theory Boot
  imports ServerScenario
begin

text \<open>
  From \<open>Run\<close> to the end of \<open>Serve\<close> (\<open>internal/server/server.go\<close>): opening persistence, binding
  the listener, starting the background goroutines, and the final snapshot. What happens
  between the start and the end is the step relation of theory Background. A server that
  stops in order and starts again holds what it held.
\<close>

datatype serveErr = PersistErr "ioErr option" | ListenErr bytes | NotListening

text \<open>The start of \<open>Serve\<close>: the state in which the accept loop begins.\<close>

definition Serve_start :: "Server \<Rightarrow> serveErr + life" where
  "Serve_start srv =
     (case srv_listener srv of
        None \<Rightarrow> Inl NotListening
      | Some addr \<Rightarrow> Inr (life_init (srv_persist srv \<noteq> None)))"

text \<open>The end of \<open>Serve\<close>, after the wait group: an error of the final snapshot is only logged.\<close>

definition Serve_finish :: "runtime \<Rightarrow> Server \<Rightarrow> Server option" where
  "Serve_finish rt srv =
     (case srv_persist srv of
        None \<Rightarrow> Some srv
      | Some s \<Rightarrow> map_option (\<lambda>(s', ok). srv\<lparr>srv_persist := Some s'\<rparr>) (finalizePersistence rt (srv_databases srv) s))"

definition Server_Run ::
  "runtime \<Rightarrow> Registry \<Rightarrow> (nat \<Rightarrow> gotime) \<Rightarrow> (nat \<Rightarrow> nat option) \<Rightarrow> dir \<Rightarrow> (bytes \<Rightarrow> bytes option) \<Rightarrow> Server
     \<Rightarrow> (serveErr + Server \<times> life) option" where
  "Server_Run rt reg clk fault d netListen srv =
     (case openPersistence rt reg clk fault d srv of
        None \<Rightarrow> None
      | Some (Inl err) \<Rightarrow> Some (Inl (PersistErr err))
      | Some (Inr srv1) \<Rightarrow>
          (case Server_Listen netListen srv1 of
             Inl msg \<Rightarrow> Some (Inl (ListenErr msg))
           | Inr srv2 \<Rightarrow>
               (case Serve_start srv2 of Inl err \<Rightarrow> Some (Inl err) | Inr lf \<Rightarrow> Some (Inr (srv2, lf)))))"

section \<open>Stopping and starting again\<close>

lemma flushLocked_wrote: "flushLocked s = (s', ok) \<Longrightarrow> wrote s s' []"
  using wrote_flush[of s]
  by (auto simp: flushLocked_def wrote_def segCall_def sysCall_def Let_def split: if_splits prod.splits)

lemma flushLocked_done: "flushLocked s = (s', True) \<Longrightarrow> st_buf s' = [] \<and> \<not> st_err s'"
  using bufFlush_empty[of s] by (auto simp: flushLocked_def segCall_def sysCall_def Let_def split: if_splits prod.splits)

lemma removeSegments_buf: "st_buf (removeSegments s gs) = st_buf s \<and> st_err (removeSegments s gs) = st_err s"
  by (induction gs arbitrary: s) (auto simp: sysCall_def)

lemma Install_buf: "InstallSnapshot s snap base = (s', ok) \<Longrightarrow> st_buf s' = st_buf s \<and> st_err s' = st_err s"
  by (auto simp: InstallSnapshot_def sysCall_def sysWrite_def fileAppend_def removeSegments_buf Let_def split: if_splits option.splits)

lemma Rotate_buf: "Store_Rotate s = (s', Some g) \<Longrightarrow> st_buf s' = []"
  by (auto simp: Store_Rotate_def openSegment_def Let_def split: if_splits prod.splits)

lemma compact_buf:
  assumes "compact rt dbs s = Some (s', True)"
  shows "st_buf s' = []"
proof -
  obtain s1 g where r: "Store_Rotate s = (s1, g)" by fastforce
  from assms obtain z where "WriteSnapshot (rt_pick rt) (Store_NextGen s) (emitRecords rt dbs) = Some z"
    by (auto simp: compact_def)
  with r assms obtain g' snap where "g = Some g'" "InstallSnapshot s1 snap (Store_NextGen s) = (s', True)"
    by (cases z; cases g) (auto simp: compact_def)
  with r Rotate_buf[of s s1] Install_buf[of s1 snap] show ?thesis by auto
qed

lemma Close_dir: "st_buf s = [] \<Longrightarrow> st_dir (fst (Store_Close s)) = st_dir s"
  by (auto simp: Store_Close_def flushLocked_def bufFlush_def segClose_def segCall_def sysCall_def Let_def split: if_splits prod.splits)

lemma Open_view:
  assumes "Open d fsync fault = Some s"
  shows "Recover draws limits restore replay (st_dir s) st = Recover draws limits restore replay d st"
proof -
  have "st_dir s = (case map_of d (segmentPath (st_gen s)) of None \<Rightarrow> AList.update (segmentPath (st_gen s)) [] d | Some c \<Rightarrow> d)"
    using assms by (auto simp: Open_def openSegment_def sysCall_def Let_def split: if_splits option.splits)
  then show ?thesis
    using segmentPath_names by (intro Recover_view) (auto simp: segfile_def split: option.splits)
qed

lemma restart_restores:
  assumes dbs: "dbs_inv (rt_hash rt) dbs" "dbs_fit (rt_hash rt) dbs"
    and srv: "empty_dbs (rt_hash rt') (srv_databases srv0)" "length (srv_databases srv0) = length dbs"
      "PersistEnabled (srv_persistCfg srv0)"
    and s: "store_wf s" "seg s = Some c" and fin: "finalizePersistence rt dbs s = Some (s', True)"
    and op: "Open (st_dir s') (FSync (srv_persistCfg srv0)) fault = Some store"
  shows "\<exists>srv'. openPersistence rt' reg clk fault (st_dir s') srv0 = Some (Inr srv')
    \<and> recovers_to rt' (srv0\<lparr>srv_persist := Some store\<rparr>) rt dbs srv'"
proof -
  obtain s1 where f: "Store_Flush s = (s1, True)"
    using fin by (auto simp: finalizePersistence_def split: prod.splits if_splits)
  note w = flushLocked_wrote[OF f[unfolded Store_Flush_def]]
  have s1: "store_wf s1" by (rule store_wf_wrote[OF s(1) w])
  then obtain c1 where c1: "seg s1 = Some c1" by (auto simp: store_wf_def)
  let ?b = "srv0\<lparr>srv_persist := Some store\<rparr>"
  have b: "empty_dbs (rt_hash rt') (srv_databases ?b)" "length (srv_databases ?b) = length dbs" using srv by simp_all
  from compact_cases[OF dbs b s1 c1, of reg clk] obtain s2 ok where
    C: "compact rt dbs s1 = Some (s2, ok)" "ok \<Longrightarrow> \<exists>srv' n. Server_recover rt' reg clk (st_dir s2) ?b = Some ((srv', 0, 0), n, 0, None)
       \<and> recovers_to rt' ?b rt dbs srv'" by metis
  from fin f C(1) have ok: ok and cl: "Store_Close s2 = (s', True)"
    by (auto simp: finalizePersistence_def split: if_splits)
  have "st_dir s' = st_dir s2" using Close_dir[OF compact_buf] C(1) ok cl by fastforce
  moreover from C(2)[OF ok] obtain srv' n where
    "Server_recover rt' reg clk (st_dir s2) ?b = Some ((srv', 0, 0), n, 0, None)" "recovers_to rt' ?b rt dbs srv'" by blast
  ultimately show ?thesis
    using srv(3) op by (intro exI[of _ srv']) (simp add: openPersistence_def Server_recover_def Open_view[OF op])
qed

text \<open>Without a failing system call, stopping succeeds.\<close>

definition reliable :: "Store \<Rightarrow> bool" where
  "reliable s \<longleftrightarrow> st_fault s = (\<lambda>n. None) \<and> st_open s \<and> \<not> st_err s"

lemma sysCall_reliable: "st_fault s = (\<lambda>n. None) \<Longrightarrow> sysCall s f = (s\<lparr>st_dir := f (st_dir s), st_calls := st_calls s + 1\<rparr>, True)"
  by (simp add: sysCall_def)

lemma bufFlush_reliable: "reliable s \<Longrightarrow> reliable (bufFlush s)"
  by (auto simp: reliable_def bufFlush_def segWrite_def sysWrite_def)

lemma flushLocked_reliable: "reliable s \<Longrightarrow> \<exists>s'. flushLocked s = (s', True) \<and> reliable s'"
  using bufFlush_reliable[of s] by (auto simp: flushLocked_def reliable_def segCall_def sysCall_def Let_def)

lemma Rotate_reliable: "reliable s \<Longrightarrow> \<exists>s' g. Store_Rotate s = (s', Some g) \<and> reliable s'"
  using bufFlush_reliable[of s]
  by (auto simp: Store_Rotate_def reliable_def segClose_def segCall_def openSegment_def sysCall_def Let_def)

lemma removeSegments_keeps:
  "st_fault (removeSegments s gs) = st_fault s" "st_open (removeSegments s gs) = st_open s"
  by (induction gs arbitrary: s) (auto simp: sysCall_def)

lemma Install_reliable: "reliable s \<Longrightarrow> \<exists>s'. InstallSnapshot s snap base = (s', True) \<and> reliable s'"
  by (auto simp: InstallSnapshot_def reliable_def sysCall_def sysWrite_def removeSegments_keeps removeSegments_buf)

lemma finalize_reliable:
  assumes "reliable s" "dbs_inv (rt_hash rt) dbs" "dbs_fit (rt_hash rt) dbs" "store_wf s"
  shows "\<exists>s'. finalizePersistence rt dbs s = Some (s', True)"
proof -
  from flushLocked_reliable[OF assms(1)] obtain s1 where f: "flushLocked s = (s1, True)" "reliable s1" by blast
  have wf: "store_wf s1" by (rule store_wf_wrote[OF assms(4) flushLocked_wrote[OF f(1)]])
  from Rotate_reliable[OF f(2)] obtain s2 g where r: "Store_Rotate s1 = (s2, Some g)" "reliable s2" by blast
  let ?b = "\<lparr>srv_cfg = undefined, srv_listener = None, srv_databases = replicate (length dbs) (DB_New 1), srv_limits = undefined,
    srv_settings = undefined, srv_reaper = [], srv_persistCfg = undefined, srv_persist = None, srv_metrics = None, srv_slowLog = []\<rparr>"
  have "0 \<le> Store_NextGen s1" "int64_ok (Store_NextGen s1)"
    using wf store_wf_gens[OF wf] by (auto simp: Store_NextGen_def store_wf_def)
  moreover have "empty_dbs (rt_hash rt) (srv_databases ?b)" "length (srv_databases ?b) = length dbs"
    using assms(2) by (auto simp: empty_dbs_def dbs_inv_def)
  ultimately obtain snap where "WriteSnapshot (rt_pick rt) (Store_NextGen s1) (emitRecords rt dbs) = Some (Inr snap)"
    using load_restores[OF assms(2,3)] by blast
  moreover from Install_reliable[OF r(2)] obtain s3 where "InstallSnapshot s2 snap (Store_NextGen s1) = (s3, True)" "reliable s3" by blast
  moreover from flushLocked_reliable[OF this(2)] obtain s4 where "flushLocked s3 = (s4, True)" "reliable s4" by blast
  ultimately show ?thesis
    using f r by (simp add: finalizePersistence_def Store_Flush_def compact_def Store_Close_def segClose_def segCall_def sysCall_def reliable_def)
qed

lemma Open_reliable: "\<exists>s. Open d fsync (\<lambda>n. None) = Some s"
  by (simp add: Open_def openSegment_def sysCall_def Let_def)

section \<open>A concrete restart\<close>

definition demo_boot :: Server where
  "demo_boot = demo_srv\<lparr>srv_persistCfg := \<lparr>PersistEnabled = True, PersistDir = ''data'', FSync = ''always'', CompactEvery = 0\<rparr>\<rparr>"

lemma demo_boot_ok:
  "empty_dbs hash (srv_databases demo_boot)" "length (srv_databases demo_boot) = length demo_dbs" "PersistEnabled (srv_persistCfg demo_boot)"
  using demo_srv_ok demo_dbs_ok(3) by (simp_all add: demo_boot_def)

lemma demo_store_reliable: "reliable demo_store"
  by (simp add: demo_store_def reliable_def)

end
