(* ===== verification/Startup.thy ===== *)
theory Startup
  imports Boot
begin

text \<open>
  What a start leaves. Recovery at boot builds the databases from files; whatever bytes the
  segments of the log hold, and from every snapshot the program can have written, a server
  that gets as far as accepting connections is well formed.
\<close>

section \<open>What the log reader lets through\<close>

lemma readBytes_ok: "readBytes s = Some (Inr (b, s')) \<Longrightarrow> slice_ok b"
  by (cases "readUvarint s") (auto simp: readBytes_def readFull_def slice_ok_def split: if_splits)

lemma readLoop_keeps:
  assumes "\<And>acc s acc' s'. P acc \<Longrightarrow> body acc s = Some (Inr (acc', s')) \<Longrightarrow> P acc'"
  shows "readLoop n body acc s = Some (Inr (r, s')) \<Longrightarrow> P acc \<Longrightarrow> P r"
proof (induction n arbitrary: acc s)
  case (Suc n)
  then obtain acc1 s1 where "body acc s = Some (Inr (acc1, s1))" "readLoop n body acc1 s1 = Some (Inr (r, s'))"
    by (auto simp: bindD_def split: option.splits sum.splits prod.splits)
  with Suc.IH assms Suc.prems(2) show ?case by blast
qed (simp add: returnD_def)

lemma bindD_Inr: "bindD x f = Some (Inr y) \<longleftrightarrow> (\<exists>a s. x = Some (Inr (a, s)) \<and> f a s = Some (Inr y))"
  by (auto simp: bindD_def split: option.splits sum.splits)

lemma mapErrD_Inr: "mapErrD f x = Some (Inr y) \<longleftrightarrow> x = Some (Inr y)"
  by (cases x; cases "the x") (auto simp: mapErrD_def)

lemma readCommand_ok:
  assumes "readCommand s = Some (Inr ((db, args), s'))"
  shows "args_ok args"
proof -
  let ?body = "\<lambda>acc s3. bindD (readBytes s3) (\<lambda>a. returnD (acc @ [a]))"
  obtain n s2 s3 where r: "readLoop n ?body [] s2 = Some (Inr (args, s3))"
    using assms by (auto simp: readCommand_def bindD_Inr mapErrD_Inr returnD_def split: if_splits)
  have "args_ok acc'" if "args_ok acc" "?body acc s = Some (Inr (acc', s'))" for acc s acc' s'
    using that readBytes_ok by (auto simp: args_ok_def bindD_Inr returnD_def)
  from readLoop_keeps[of args_ok ?body, OF this r] show ?thesis by (simp add: args_ok_def)
qed

section \<open>Recovery keeps the server well formed\<close>

text \<open>\<open>srv\<close> is the server \<open>srv0\<close> with other, well-formed databases, freed values and settings.\<close>

definition grown :: "runtime \<Rightarrow> Server \<Rightarrow> Server \<Rightarrow> bool" where
  "grown rt srv0 srv \<longleftrightarrow>
     srv_inv rt srv \<and> length (srv_databases srv) = length (srv_databases srv0) \<and> srv_cfg srv = srv_cfg srv0
     \<and> srv_limits srv = srv_limits srv0 \<and> srv_persist srv = srv_persist srv0"

definition boot_ok :: "runtime \<Rightarrow> Server \<Rightarrow> Server \<times> nat \<times> nat \<Rightarrow> bool" where
  "boot_ok rt srv0 st \<longleftrightarrow> grown rt srv0 (fst st) \<and> fst (snd st) < length (srv_databases srv0)"

lemma restore_keeps:
  assumes "boot_ok rt srv0 st" "value_ok (rec_Value r)" "restoreState rt st r = Some (Inr st')"
  shows "boot_ok rt srv0 st'"
proof -
  obtain srv idx n where st: "st = (srv, idx, n)" using prod_cases3 by blast
  have b: "0 \<le> rec_DB r" "rec_DB r < int (length (srv_databases srv))" "st' = (srv\<lparr>srv_databases := restoreInto rt (srv_databases srv) r\<rparr>, idx, n)"
    using assms(3) restoreRecord_ok[of r srv rt] unfolding st
    by (auto simp: restoreState_def restoreRecord_def Let_def restoreInto_def recordEntry_def split: if_splits)
  moreover have "dbs_inv (rt_hash rt) (srv_databases srv)" using assms(1) st by (simp add: boot_ok_def grown_def srv_inv_def)
  note restoreInto_ents(1,2)[OF this b(1,2) assms(2)]
  ultimately show ?thesis using assms(1) st by (simp add: boot_ok_def grown_def srv_inv_def)
qed

lemma replayCommand_keeps:
  assumes "boot_ok rt srv0 st" "args_ok args" "replayCommand rt commandTable clk st (db, args) = Some (Inr st')"
  shows "boot_ok rt srv0 st'"
proof -
  obtain srv idx n where st: "st = (srv, idx, n)" using prod_cases3 by blast
  have g: "srv_inv rt srv" "idx < length (srv_databases srv)" using assms(1) st by (auto simp: boot_ok_def grown_def)
  from assms(3) st obtain c c' r where c: "Context_Select (session srv idx (clk n)) db = Some c"
    "Dispatch commandTable rt c args = Some (c', r)" "st' = (absorb srv c', Context_DB c', n + 1)"
    by (auto simp: replayCommand_def split: option.splits)
  have i: "ctx_inv rt c" "length (ctx_databases c) = length (srv_databases srv)"
    using c(1) session_inv[OF g] by (auto simp: Context_Select_def ctx_inv_def split: if_splits)
  have "ctx_inv rt c' \<and> length (ctx_databases c') = length (ctx_databases c)"
  proof (cases "Resolve commandTable args")
    case (Inl err)
    with c(2) i(1) show ?thesis by (simp add: Dispatch_def)
  next
    case (Inr cmd)
    with c(2) handler_inv[OF i(1) assms(2) Resolve_in_table[OF Inr]] show ?thesis by (simp add: Dispatch_def)
  qed
  with absorb_inv[of rt c' srv] i g c(3) assms(1) st show ?thesis
    by (auto simp: boot_ok_def grown_def srv_inv_def dbs_inv_def ctx_inv_def Context_DB_def absorb_def reapAll_def)
qed

lemma replayLoop_keeps:
  assumes "\<And>st db args st'. P st \<Longrightarrow> args_ok args \<Longrightarrow> replay st (db, args) = Some (Inr st') \<Longrightarrow> P st'"
  shows "replayLoop replay st n s = Some (st', m, err) \<Longrightarrow> P st \<Longrightarrow> P st'"
proof (induction "length s" arbitrary: st n s rule: less_induct)
  case less
  consider (stop) "st' = st"
    | (step) db args s1 st1 where "readCommand s = Some (Inr ((db, args), s1))" "replay st (db, args) = Some (Inr st1)"
        "replayLoop replay st1 (n + 1) s1 = Some (st', m, err)"
    using less.prems(1) by (subst (asm) replayLoop.simps) (auto split: option.splits sum.splits if_splits)
  then show ?case
  proof cases
    case step
    with less.hyps[OF shrinks_command[OF step(1)] step(3)] assms[OF less.prems(2) readCommand_ok[OF step(1)] step(2)] show ?thesis by blast
  qed (use less.prems in simp)
qed

lemma replayGens_keeps:
  assumes "\<And>st db args st'. P st \<Longrightarrow> args_ok args \<Longrightarrow> replay st (db, args) = Some (Inr st') \<Longrightarrow> P st'"
  shows "replayGens replay d st n gens = Some (st', m, err) \<Longrightarrow> P st \<Longrightarrow> P st'"
proof (induction gens arbitrary: st n)
  case (Cons gen gens)
  from Cons.prems(1) obtain st1 k e where 1: "replaySegment replay d st gen = Some (st1, k, e)" by (cases "replaySegment replay d st gen") auto
  have "P st1"
  proof (cases "map_of d (segmentPath gen)")
    case None
    with 1 Cons.prems(2) show ?thesis by (simp add: replaySegment_def)
  next
    case (Some content)
    with 1 have "replayLoop replay st 0 content = Some (st1, k, e)" by (simp add: replaySegment_def)
    from replayLoop_keeps[where P = P and replay = replay, OF assms this Cons.prems(2)] show ?thesis .
  qed
  with Cons.IH Cons.prems(1) 1 show ?case by (cases e) auto
qed simp

lemma applyAll_keeps:
  assumes "\<And>st r st'. P st \<Longrightarrow> r \<in> set rs \<Longrightarrow> app st r = Some (Inr st') \<Longrightarrow> P st'"
  shows "applyAll app st rs = Some (st', err) \<Longrightarrow> P st \<Longrightarrow> P st'"
  using assms
proof (induction rs arbitrary: st)
  case (Cons r rs)
  show ?case
  proof (cases "app st r")
    case (Some res)
    show ?thesis
    proof (cases res)
      case (Inr st1)
      have p: "P st1" using Cons.prems(3)[of st r st1] Cons.prems(2) Some Inr by simp
      have a: "applyAll app st1 rs = Some (st', err)" using Cons.prems(1) Some Inr by simp
      show ?thesis by (rule Cons.IH[OF a p], rule Cons.prems(3)) simp_all
    qed (use Cons.prems(1,2) Some in simp)
  qed (use Cons.prems(1) in simp)
qed simp

text \<open>The snapshot of the directory, if there is one, is one that the program can have written.\<close>

definition snapshot_written :: "dir \<Rightarrow> bool" where
  "snapshot_written d \<longleftrightarrow>
     (\<forall>file. map_of d snapshotName = Some file \<longrightarrow>
        (\<exists>pick gen recs. (\<forall>r \<in> set recs. good_record r) \<and> 0 \<le> gen \<and> int64_ok gen \<and> WriteSnapshot pick gen recs = Some (Inr file)))"

lemma load_keeps:
  assumes "snapshot_written d" "boot_ok rt srv0 st" "loadSnapshot draws limits (restoreState rt) d st = Some (gen, n, st', err)"
  shows "boot_ok rt srv0 st'"
proof (cases "map_of d snapshotName")
  case None
  with assms(2,3) show ?thesis by (simp add: loadSnapshot_def)
next
  case (Some content)
  with assms(1) obtain pick g recs where w: "\<forall>r \<in> set recs. good_record r" "0 \<le> g" "int64_ok g" "WriteSnapshot pick g recs = Some (Inr content)"
    by (auto simp: snapshot_written_def)
  let ?app = "\<lambda>(n :: int, st) r. map_option (\<lambda>res. case res of Inl err \<Rightarrow> Inl err | Inr st' \<Rightarrow> Inr (n + 1, st')) (restoreState rt st r)"
  from ReadSnapshot_Write[OF w(1-3), where 'st = "int \<times> Server \<times> nat \<times> nat", of pick draws limits] obtain f ys where
    f: "WriteSnapshot pick g recs = Some (Inr f)" and ys: "map record_view ys = map record_view recs"
      "ReadSnapshot draws limits ?app (0 :: int, st) f = map_option (\<lambda>(st', err). (g, st', err)) (applyAll ?app (0, st) ys)" by blast
  have "f = content" using f w(4) by simp
  have v: "value_ok (rec_Value y)" if "y \<in> set ys" for y
  proof -
    have "record_view y \<in> record_view ` set recs" using that ys(1) by (metis image_eqI list.set_map)
    with w(1) show ?thesis by (auto simp: record_view_def good_record_def)
  qed
  from assms(3) Some ys(2)[unfolded \<open>f = content\<close>] obtain k where a: "applyAll ?app (0, st) ys = Some ((k, st'), err)" by (auto simp: loadSnapshot_def)
  have "boot_ok rt srv0 (snd p')" if "boot_ok rt srv0 (snd p)" "r \<in> set ys" "?app p r = Some (Inr p')" for p r p'
  proof -
    obtain n s where p: "p = (n, s)" by (cases p)
    from that(3) p obtain s' where "restoreState rt s r = Some (Inr s')" "snd p' = s'"
      by (cases "restoreState rt s r") (auto split: sum.splits)
    with restore_keeps[OF _ v[OF that(2)]] that(1) p show ?thesis by (cases s; cases s') auto
  qed
  from applyAll_keeps[where P = "\<lambda>p. boot_ok rt srv0 (snd p)", OF this a] assms(2) show ?thesis by simp
qed

lemma recover_keeps:
  assumes "snapshot_written d" "srv_inv rt srv" "Server_recover rt commandTable clk d srv = Some ((srv', idx, n), loaded, replayed, err)"
  shows "grown rt srv srv'"
proof -
  have 0: "boot_ok rt srv (srv, 0, 0)" using assms(2) by (auto simp: boot_ok_def grown_def srv_inv_def dbs_inv_def)
  from assms(3) obtain b l st1 e where 1: "loadSnapshot (rt_draws rt) (srv_limits srv) (restoreState rt) d (srv, 0, 0) = Some (b, l, st1, e)"
    by (auto simp: Server_recover_def Recover_def bind_Some_iff)
  have s1: "boot_ok rt srv st1" by (rule load_keeps[OF assms(1) 0 1])
  have "boot_ok rt srv (srv', idx, n)"
  proof (cases e)
    case None
    with assms(3) 1 obtain m where "replayGens (replayCommand rt commandTable clk) d st1 0 [b..highestSegment d] = Some ((srv', idx, n), m, err)"
      by (auto simp: Server_recover_def Recover_def replaySegments_def)
    from replayGens_keeps[where P = "boot_ok rt srv", OF replayCommand_keeps this s1] show ?thesis .
  next
    case (Some x)
    with assms(3) 1 s1 show ?thesis by (auto simp: Server_recover_def Recover_def)
  qed
  then show ?thesis by (simp add: boot_ok_def)
qed

lemma Run_keeps:
  assumes "snapshot_written d" "srv_inv rt srv" "Server_Run rt commandTable clk fault d netListen srv = Some (Inr (srv', lf))"
  shows "\<exists>addr. netListen (Network_Addr (srv_cfg srv)) = Some addr \<and> srv_listener srv' = Some addr
    \<and> srv_inv rt srv' \<and> length (srv_databases srv') = length (srv_databases srv) \<and> srv_cfg srv' = srv_cfg srv
    \<and> srv_limits srv' = srv_limits srv \<and> lf = life_init (srv_persist srv' \<noteq> None)
    \<and> (\<not> PersistEnabled (srv_persistCfg srv) \<longrightarrow> srv_databases srv' = srv_databases srv)"
proof -
  from assms(3) obtain srv1 addr where o: "openPersistence rt commandTable clk fault d srv = Some (Inr srv1)"
    and l: "netListen (Network_Addr (srv_cfg srv1)) = Some addr" "srv' = srv1\<lparr>srv_listener := Some addr\<rparr>" "lf = life_init (srv_persist srv1 \<noteq> None)"
    by (auto simp: Server_Run_def Server_Listen_def Serve_start_def split: option.splits sum.splits)
  show ?thesis
  proof (cases "PersistEnabled (srv_persistCfg srv)")
    case False
    with o l assms(2) show ?thesis by (simp add: openPersistence_def srv_inv_def)
  next
    case True
    with o obtain store where s: "Open d (FSync (srv_persistCfg srv)) fault = Some store"
      by (auto simp: openPersistence_def split: option.splits)
    with True o obtain idx n loaded replayed where
      r: "Server_recover rt commandTable clk (st_dir store) (srv\<lparr>srv_persist := Some store\<rparr>) = Some ((srv1, idx, n), loaded, replayed, None)"
      by (auto simp: openPersistence_def split: option.splits)
    have "map_of (st_dir store) snapshotName = map_of d snapshotName"
      using s segmentPath_names(1)[of "st_gen store"]
      by (auto simp: Open_def openSegment_def sysCall_def Let_def split: if_splits option.splits)
    then have "snapshot_written (st_dir store)" using assms(1) by (simp add: snapshot_written_def)
    from recover_keeps[OF this _ r] assms(2) have "grown rt (srv\<lparr>srv_persist := Some store\<rparr>) srv1" by (simp add: srv_inv_def)
    with l True show ?thesis by (auto simp: grown_def srv_inv_def)
  qed
qed

end
