(* ===== verification/Memcored.thy ===== *)
theory Memcored
  imports EndToEnd Startup
begin

text \<open>
  The program \<open>memcored\<close> (\<open>cmd/memcored/main.go\<close>): the command line, the configuration it
  gives, the start of the server, and the health check. The parts of the standard library
  that decide what a command line means are modelled: \<open>flag\<close> with its three forms of a flag
  and its exits, \<open>strconv.ParseInt\<close> with base 0, \<open>strconv.ParseBool\<close> and the names of the log
  levels. Signals and the metrics endpoint are not; whether its listener binds is an argument.
\<close>

section \<open>Values of flags\<close>

definition lower :: "char \<Rightarrow> char" where
  "lower c = (if 65 \<le> byteval c \<and> byteval c \<le> 90 then char_of (byteval c + 32) else c)"

definition digit36 :: "char \<Rightarrow> int option" where
  "digit36 c =
     (if CHR ''0'' \<le> c \<and> c \<le> CHR ''9'' then Some (int (byteval c) - 48)
      else if CHR ''a'' \<le> lower c \<and> lower c \<le> CHR ''z'' then Some (int (byteval (lower c)) - 87)
      else None)"

text \<open>The loop of \<open>ParseUint\<close> with base 0, where underscores are skipped.\<close>

fun digitsIn :: "int \<Rightarrow> int \<Rightarrow> bytes \<Rightarrow> int option" where
  "digitsIn base n [] = Some n"
| "digitsIn base n (c # cs) =
     (if c = CHR ''_'' then digitsIn base n cs
      else (case digit36 c of
          None \<Rightarrow> None
        | Some d \<Rightarrow>
            if d \<ge> base then None
            else if n * base + d > 18446744073709551615 then None
            else digitsIn base (n * base + d) cs))"

definition basePrefix :: "bytes \<Rightarrow> int \<times> bytes" where
  "basePrefix s =
     (case s of
        c # x # y # r \<Rightarrow>
          if c \<noteq> CHR ''0'' then (10, s)
          else if lower x = CHR ''b'' then (2, y # r)
          else if lower x = CHR ''o'' then (8, y # r)
          else if lower x = CHR ''x'' then (16, y # r)
          else (8, x # y # r)
      | c # r \<Rightarrow> if c \<noteq> CHR ''0'' then (10, s) else (8, r)
      | [] \<Rightarrow> (10, []))"

text \<open>\<open>underscoreOK\<close>: an underscore stands between digits, or after the base prefix.\<close>

datatype sawClass = SawStart | SawDigit | SawUnder | SawOther

fun underscores :: "bool \<Rightarrow> sawClass \<Rightarrow> bytes \<Rightarrow> bool" where
  "underscores hex saw [] = (saw \<noteq> SawUnder)"
| "underscores hex saw (c # cs) =
     (if (CHR ''0'' \<le> c \<and> c \<le> CHR ''9'') \<or> (hex \<and> CHR ''a'' \<le> lower c \<and> lower c \<le> CHR ''f'')
      then underscores hex SawDigit cs
      else if c = CHR ''_'' then (if saw \<noteq> SawDigit then False else underscores hex SawUnder cs)
      else if saw = SawUnder then False
      else underscores hex SawOther cs)"

definition underscoreOK :: "bytes \<Rightarrow> bool" where
  "underscoreOK s =
     (case s of
        c # x # r \<Rightarrow>
          if c = CHR ''0'' \<and> lower x \<in> {CHR ''b'', CHR ''o'', CHR ''x''}
          then underscores (lower x = CHR ''x'') SawDigit r else underscores False SawStart s
      | _ \<Rightarrow> underscores False SawStart s)"

definition parseUint0 :: "bytes \<Rightarrow> int option" where
  "parseUint0 s =
     (if s = [] then None
      else (case basePrefix s of
          (base, ds) \<Rightarrow>
            (case digitsIn base 0 ds of
               None \<Rightarrow> None
             | Some n \<Rightarrow> if CHR ''_'' \<in> set ds \<and> \<not> underscoreOK s then None else Some n)))"

definition parseInt0 :: "bytes \<Rightarrow> int option" where
  "parseInt0 s =
     (case s of
        [] \<Rightarrow> None
      | c # r \<Rightarrow>
          (let neg = (c = CHR ''-''); body = (if c = CHR ''+'' \<or> c = CHR ''-'' then r else s)
           in case parseUint0 body of
                None \<Rightarrow> None
              | Some n \<Rightarrow>
                  if \<not> neg \<and> n \<ge> 9223372036854775808 then None
                  else if neg \<and> n > 9223372036854775808 then None
                  else Some (if neg then - n else n)))"

definition parseBool :: "bytes \<Rightarrow> bool option" where
  "parseBool s =
     (if s \<in> {''1'', ''t'', ''T'', ''TRUE'', ''true'', ''True''} then Some True
      else if s \<in> {''0'', ''f'', ''F'', ''FALSE'', ''false'', ''False''} then Some False
      else None)"

text \<open>\<open>slog.Level.UnmarshalText\<close>: a name in any case and an optional offset.\<close>

definition parseLevel :: "(bytes \<Rightarrow> bytes) \<Rightarrow> bytes \<Rightarrow> int option" where
  "parseLevel toUpper s =
     (let name = takeWhile (\<lambda>c. c \<noteq> CHR ''+'' \<and> c \<noteq> CHR ''-'') s;
          rest = dropWhile (\<lambda>c. c \<noteq> CHR ''+'' \<and> c \<noteq> CHR ''-'') s;
          up = toUpper name
      in case (if rest = [] then Some 0 else parseInt rest) of
           None \<Rightarrow> None
         | Some off \<Rightarrow>
             if up = ''DEBUG'' then Some (wrap64 (-4 + off))
             else if up = ''INFO'' then Some (wrap64 off)
             else if up = ''WARN'' then Some (wrap64 (4 + off))
             else if up = ''ERROR'' then Some (wrap64 (8 + off))
             else None)"

section \<open>The command line\<close>

record options =
  opt_cfg :: Config
  opt_logLevel :: bytes
  opt_healthcheck :: bool

text \<open>The flags of \<open>run\<close>: their defaults, which are boolean, and what setting one does.\<close>

definition flagDefaults :: "int \<Rightarrow> options" where
  "flagDefaults gomaxprocs = \<lparr>opt_cfg = Default gomaxprocs, opt_logLevel = ''INFO'', opt_healthcheck = False\<rparr>"

definition boolFlags :: "bytes set" where
  "boolFlags = {''persistence'', ''metrics'', ''healthcheck''}"

definition setFlag :: "options \<Rightarrow> bytes \<Rightarrow> bytes \<Rightarrow> options option option" where
  "setFlag p name v =
     (let cfg = opt_cfg p; net = cfg_Network cfg; per = cfg_Persistence cfg; met = cfg_Metrics cfg; lg = cfg_Log cfg;
          network = (\<lambda>n. p\<lparr>opt_cfg := cfg\<lparr>cfg_Network := n\<rparr>\<rparr>);
          persist = (\<lambda>n. p\<lparr>opt_cfg := cfg\<lparr>cfg_Persistence := n\<rparr>\<rparr>);
          metric = (\<lambda>n. p\<lparr>opt_cfg := cfg\<lparr>cfg_Metrics := n\<rparr>\<rparr>)
      in if name = ''host'' then Some (Some (network (net\<lparr>Host := v\<rparr>)))
         else if name = ''port'' then Some (map_option (\<lambda>n. network (net\<lparr>Port := n\<rparr>)) (parseInt0 v))
         else if name = ''databases'' then Some (map_option (\<lambda>n. network (net\<lparr>Databases := n\<rparr>)) (parseInt0 v))
         else if name = ''shards'' then Some (map_option (\<lambda>n. network (net\<lparr>Shards := n\<rparr>)) (parseInt0 v))
         else if name = ''persistence'' then Some (map_option (\<lambda>b. persist (per\<lparr>PersistEnabled := b\<rparr>)) (parseBool v))
         else if name = ''data-dir'' then Some (Some (persist (per\<lparr>PersistDir := v\<rparr>)))
         else if name = ''fsync'' then Some (Some (persist (per\<lparr>FSync := v\<rparr>)))
         else if name = ''metrics'' then Some (map_option (\<lambda>b. metric (met\<lparr>MetricsEnabled := b\<rparr>)) (parseBool v))
         else if name = ''metrics-port'' then Some (map_option (\<lambda>n. metric (met\<lparr>MetricsPort := n\<rparr>)) (parseInt0 v))
         else if name = ''log-format'' then Some (Some (p\<lparr>opt_cfg := cfg\<lparr>cfg_Log := lg\<lparr>LogFormat := v\<rparr>\<rparr>\<rparr>))
         else if name = ''log-level'' then Some (Some (p\<lparr>opt_logLevel := v\<rparr>))
         else if name = ''healthcheck'' then Some (map_option (\<lambda>b. p\<lparr>opt_healthcheck := b\<rparr>) (parseBool v))
         else None)"

text \<open>
  \<open>flag.Parse\<close>: it stops at the first word that is not a flag. An undefined flag, a bad value
  or a missing one exits with status 2; a request for help with status 0.
\<close>

datatype flagExit = FlagError | FlagHelp

definition splitValue :: "bytes \<Rightarrow> bytes \<times> bytes option" where
  "splitValue s =
     (case s of
        [] \<Rightarrow> ([], None)
      | c # r \<Rightarrow>
          (case dropWhile (\<lambda>x. x \<noteq> CHR ''='') r of
             [] \<Rightarrow> (s, None)
           | e # v \<Rightarrow> (c # takeWhile (\<lambda>x. x \<noteq> CHR ''='') r, Some v)))"

fun flagParse :: "options \<Rightarrow> bytes list \<Rightarrow> flagExit + options" where
  "flagParse p [] = Inr p"
| "flagParse p (s # args) =
     (if length s < 2 \<or> hd s \<noteq> CHR ''-'' then Inr p
      else if s = ''--'' then Inr p
      else
        let body = (if s ! 1 = CHR ''-'' then drop 2 s else drop 1 s)
        in if body = [] \<or> hd body = CHR ''-'' \<or> hd body = CHR ''='' then Inl FlagError
           else (case splitValue body of
             (name, val) \<Rightarrow>
               if setFlag p name [] = None then (if name = ''help'' \<or> name = ''h'' then Inl FlagHelp else Inl FlagError)
               else if name \<in> boolFlags then
                 (case setFlag p name (case val of None \<Rightarrow> ''true'' | Some v \<Rightarrow> v) of
                    Some (Some q) \<Rightarrow> flagParse q args
                  | _ \<Rightarrow> Inl FlagError)
               else (case val of
                   Some v \<Rightarrow>
                     (case setFlag p name v of Some (Some q) \<Rightarrow> flagParse q args | _ \<Rightarrow> Inl FlagError)
                 | None \<Rightarrow>
                     (case args of
                        [] \<Rightarrow> Inl FlagError
                      | v # args' \<Rightarrow>
                          (case setFlag p name v of Some (Some q) \<Rightarrow> flagParse q args' | _ \<Rightarrow> Inl FlagError)))))"

section \<open>The health check\<close>

datatype pingErr = PingDial | PingWrite | PingRead ioErr | PingReply bytes

text \<open>
  A connection takes what is written and gives what arrives before it ends or the deadline
  passes; either step may fail.
\<close>

definition ping :: "(bytes \<Rightarrow> (bytes \<Rightarrow> bytes option) option) \<Rightarrow> bytes \<Rightarrow> pingErr option" where
  "ping dial addr =
     (case dial addr of
        None \<Rightarrow> Some PingDial
      | Some conn \<Rightarrow>
          (case conn (''*1'' @ CRLF @ ''$4'' @ CRLF @ ''PING'' @ CRLF) of
             None \<Rightarrow> Some PingWrite
           | Some received \<Rightarrow>
               (case readFull 7 received of
                  Inl e \<Rightarrow> Some (PingRead e)
                | Inr (buf, rest) \<Rightarrow> if buf \<noteq> ''+PONG'' @ CRLF then Some (PingReply buf) else None)))"

section \<open>The program\<close>

datatype logHandler = JSONHandler int | TextHandler int

definition newLogger :: "LogCfg \<Rightarrow> logHandler" where
  "newLogger c = (if LogFormat c = ''json'' then JSONHandler (LogLevel c) else TextHandler (LogLevel c))"

record env =
  env_dial :: "bytes \<Rightarrow> (bytes \<Rightarrow> bytes option) option"
  env_listen :: "bytes \<Rightarrow> bytes option"
  env_listenMetrics :: "bytes \<Rightarrow> bytes option"
  env_dir :: dir \<comment> \<open>the data directory\<close>
  env_fault :: "nat \<Rightarrow> nat option"
  env_clock :: "nat \<Rightarrow> gotime"

datatype runErr = PingFailed pingErr | BadLogLevel | BadConfig bytes | MetricsListen bytes | ServeFailed serveErr

text \<open>How far a run gets: the accept loop is the last stage here.\<close>

datatype outcome = Exits flagExit | Healthy | Fails runErr | Serves logHandler Server life

definition startMetrics :: "env \<Rightarrow> MetricsCfg \<Rightarrow> Server \<Rightarrow> runErr + Server" where
  "startMetrics e cfg srv =
     (let srv1 = SetRecorder srv
      in case env_listenMetrics e (Metrics_Addr cfg) of
           None \<Rightarrow> Inl (MetricsListen (Metrics_Addr cfg))
         | Some addr \<Rightarrow> Inr srv1)"

definition memcored_run :: "runtime \<Rightarrow> int \<Rightarrow> env \<Rightarrow> bytes list \<Rightarrow> outcome option" where
  "memcored_run rt gomaxprocs e argv =
     (case flagParse (flagDefaults gomaxprocs) argv of
        Inl x \<Rightarrow> Some (Exits x)
      | Inr p \<Rightarrow>
          if opt_healthcheck p then
            (case ping (env_dial e) (Network_Addr (cfg_Network (opt_cfg p))) of
               None \<Rightarrow> Some Healthy | Some err \<Rightarrow> Some (Fails (PingFailed err)))
          else (case parseLevel (rt_toUpper rt) (opt_logLevel p) of
              None \<Rightarrow> Some (Fails BadLogLevel)
            | Some lvl \<Rightarrow>
                let cfg = (opt_cfg p)\<lparr>cfg_Log := (cfg_Log (opt_cfg p))\<lparr>LogLevel := lvl\<rparr>\<rparr>
                in (case Validate cfg of
                      Some m \<Rightarrow> Some (Fails (BadConfig m))
                    | None \<Rightarrow>
                        Option.bind NewRegistry (\<lambda>reg.
                          let srv = Server_New cfg
                          in case (if MetricsEnabled (cfg_Metrics cfg) then startMetrics e (cfg_Metrics cfg) srv else Inr srv) of
                               Inl err \<Rightarrow> Some (Fails err)
                             | Inr srv1 \<Rightarrow>
                                 (case Server_Run rt reg (env_clock e) (env_fault e) (env_dir e) (env_listen e) srv1 of
                                    None \<Rightarrow> None
                                  | Some (Inl err) \<Rightarrow> Some (Fails (ServeFailed err))
                                  | Some (Inr (srv2, lf)) \<Rightarrow> Some (Serves (newLogger (cfg_Log cfg)) srv2 lf))))))"

text \<open>
  The exit status of \<open>main\<close>: an error of \<open>run\<close> is 1, package \<open>flag\<close> exits with 2 on a bad flag
  and with 0 on \<open>-help\<close>, a panic is 2. A process that serves has none yet.
\<close>

definition memcored_main :: "runtime \<Rightarrow> int \<Rightarrow> env \<Rightarrow> bytes list \<Rightarrow> int option" where
  "memcored_main rt gomaxprocs e argv =
     (case memcored_run rt gomaxprocs e argv of
        None \<Rightarrow> Some 2
      | Some (Exits FlagError) \<Rightarrow> Some 2
      | Some (Exits FlagHelp) \<Rightarrow> Some 0
      | Some Healthy \<Rightarrow> Some 0
      | Some (Fails err) \<Rightarrow> Some 1
      | Some (Serves h srv lf) \<Rightarrow> None)"

section \<open>What reaches the accept loop\<close>

lemma parseInt0_range: "parseInt0 s = Some n \<Longrightarrow> int64_ok n"
proof -
  have d: "0 \<le> m" if "digitsIn base k ds = Some m" "0 \<le> k" "0 < base" for base k m ds
    using that
  proof (induction ds arbitrary: k)
    case (Cons c ds)
    have "0 \<le> d" if "digit36 c = Some d" for d
      using that by (auto simp: digit36_def less_eq_char_def split: if_splits)
    with Cons show ?case by (auto split: if_splits option.splits)
  qed simp
  have "0 < fst (basePrefix b)" for b by (auto simp: basePrefix_def split: list.splits)
  then have "0 \<le> m" if "parseUint0 b = Some m" for b m
    using that d[of "fst (basePrefix b)" 0] by (auto simp: parseUint0_def split: if_splits prod.splits option.splits)
  then show "parseInt0 s = Some n \<Longrightarrow> int64_ok n"
    by (fastforce simp: parseInt0_def int64_ok_def Let_def split: list.splits option.splits if_splits)
qed

lemma setFlag_databases:
  assumes "setFlag p name v = Some (Some q)" "int64_ok (Databases (cfg_Network (opt_cfg p)))"
  shows "int64_ok (Databases (cfg_Network (opt_cfg q)))"
  using assms parseInt0_range[of v] unfolding setFlag_def Let_def by (auto split: if_splits)

lemma flagParse_step:
  assumes "flagParse p (s # args) = Inr q" "q \<noteq> p"
  obtains name v p' args' where "setFlag p name v = Some (Some p')" "flagParse p' args' = Inr q" "length args' \<le> length args"
  using assms by (auto simp: Let_def split: if_splits option.splits list.splits prod.splits)

lemma flagParse_databases:
  "flagParse p argv = Inr q \<Longrightarrow> int64_ok (Databases (cfg_Network (opt_cfg p))) \<Longrightarrow> int64_ok (Databases (cfg_Network (opt_cfg q)))"
proof (induction "length argv" arbitrary: p argv rule: less_induct)
  case less
  show ?case
  proof (cases "argv = [] \<or> q = p")
    case True
    with less.prems show ?thesis by auto
  next
    case False
    then obtain s args where a: "argv = s # args" "q \<noteq> p" by (cases argv) auto
    from flagParse_step[OF less.prems(1)[unfolded a(1)] a(2)] obtain name v p' args' where
      "setFlag p name v = Some (Some p')" "flagParse p' args' = Inr q" "length args' \<le> length args" by metis
    with less.hyps[of args' p'] less.prems(2) a(1) show ?thesis by (auto dest: setFlag_databases)
  qed
qed

text \<open>
  Whatever the command line and whatever bytes the segments of the log hold: a server that
  gets as far as accepting connections has a valid configuration, at least one database, all
  of them well formed, and is bound to the configured address. A snapshot, if there is one,
  has to be one that the program can have written.
\<close>

lemma memcored_serves:
  assumes run: "memcored_run rt gomaxprocs e argv = Some (Serves h srv lf)" and w: "snapshot_written (env_dir e)"
  shows "srv_inv rt srv" "srv_databases srv \<noteq> []" "life_inv lf"
    "\<exists>p cfg. flagParse (flagDefaults gomaxprocs) argv = Inr p \<and> cfg_Network cfg = cfg_Network (opt_cfg p)
       \<and> cfg_Persistence cfg = cfg_Persistence (opt_cfg p) \<and> Validate cfg = None \<and> srv_cfg srv = cfg_Network cfg
       \<and> srv_limits srv = cfg_Limits cfg \<and> length (srv_databases srv) = nat (Databases (cfg_Network cfg))
       \<and> srv_listener srv = env_listen e (Network_Addr (cfg_Network cfg)) \<and> srv_listener srv \<noteq> None
       \<and> (\<not> PersistEnabled (cfg_Persistence cfg) \<longrightarrow> empty_dbs (rt_hash rt) (srv_databases srv))"
proof -
  obtain p where P: "flagParse (flagDefaults gomaxprocs) argv = Inr p"
    using run by (cases "flagParse (flagDefaults gomaxprocs) argv") (auto simp: memcored_run_def)
  obtain lvl where l: "parseLevel (rt_toUpper rt) (opt_logLevel p) = Some lvl"
    using run P by (auto simp: memcored_run_def split: if_splits option.splits)
  define cfg where "cfg = (opt_cfg p)\<lparr>cfg_Log := (cfg_Log (opt_cfg p))\<lparr>LogLevel := lvl\<rparr>\<rparr>"
  have v: "Validate cfg = None"
    using run P l by (auto simp: memcored_run_def cfg_def Let_def split: if_splits option.splits)
  obtain srv1 where r: "Server_Run rt commandTable (env_clock e) (env_fault e) (env_dir e) (env_listen e) srv1 = Some (Inr (srv, lf))"
    "srv1 = Server_New cfg \<or> srv1 = SetRecorder (Server_New cfg)"
    using run P l v
    by (auto simp: memcored_run_def NewRegistry_table cfg_def[symmetric] Let_def startMetrics_def split: if_splits option.splits sum.splits)
  have c: "srv_cfg srv1 = cfg_Network cfg" "srv_limits srv1 = cfg_Limits cfg" "srv_databases srv1 = srv_databases (Server_New cfg)"
    "srv_persistCfg srv1 = cfg_Persistence cfg"
    using r(2) by (auto simp: Server_New_def SetRecorder_def Let_def)
  have "int64_ok (Databases (cfg_Network cfg))"
    using flagParse_databases[OF P] by (simp add: cfg_def flagDefaults_def Default_def int64_ok_def Let_def)
  then have d: "Databases (cfg_Network cfg) \<le> maxInt64" by (simp add: int64_ok_def)
  note N = Server_New_empty[OF v d]
  have "srv_inv rt srv1" using N(2)[of rt] c(3) by (simp add: srv_inv_def)
  from Run_keeps[OF w this r(1)] obtain addr where
    a: "env_listen e (Network_Addr (cfg_Network cfg)) = Some addr" "srv_listener srv = Some addr" "srv_inv rt srv"
      "length (srv_databases srv) = length (srv_databases (Server_New cfg))" "srv_cfg srv = cfg_Network cfg" "srv_limits srv = cfg_Limits cfg"
      "lf = life_init (srv_persist srv \<noteq> None)" "\<not> PersistEnabled (cfg_Persistence cfg) \<longrightarrow> srv_databases srv = srv_databases (Server_New cfg)"
    using c by auto
  show "srv_inv rt srv" by (rule a(3))
  show "srv_databases srv \<noteq> []" using N(3) a(4) Validate_sound(3)[OF v] by auto
  show "life_inv lf" using a(7) by (auto intro: life_reach_inv[of "srv_persist srv \<noteq> None"] simp: life_reach_def)
  show "\<exists>p cfg. flagParse (flagDefaults gomaxprocs) argv = Inr p \<and> cfg_Network cfg = cfg_Network (opt_cfg p)
       \<and> cfg_Persistence cfg = cfg_Persistence (opt_cfg p) \<and> Validate cfg = None \<and> srv_cfg srv = cfg_Network cfg
       \<and> srv_limits srv = cfg_Limits cfg \<and> length (srv_databases srv) = nat (Databases (cfg_Network cfg))
       \<and> srv_listener srv = env_listen e (Network_Addr (cfg_Network cfg)) \<and> srv_listener srv \<noteq> None
       \<and> (\<not> PersistEnabled (cfg_Persistence cfg) \<longrightarrow> empty_dbs (rt_hash rt) (srv_databases srv))"
    using v a N(1,3) P by (intro exI[of _ p] exI[of _ cfg]) (simp add: cfg_def)
qed

text \<open>The health check succeeds against a serving process.\<close>

lemma ping_wire: "''*1'' @ CRLF @ ''$4'' @ CRLF @ ''PING'' @ CRLF = encodeRequest [''PING'']"
  by code_simp

lemma ping_serving:
  assumes "no_fault w" "w_out w = []" "\<forall>n. \<not> buffered n []"
    "\<And>sent. conn sent = Some (w_out (snd (serve rt commandTable clk buffered srv w sent)))" "dial addr = Some conn"
  shows "ping dial addr = None"
proof -
  let ?srv = "record_call ConnectionOpened srv"
  have "cmd_run (plain ''ping'' (-1) cmdPing) rt (session ?srv 0 (at_run (clk 0))) [''PING'']
      = Some (session ?srv 0 (at_run (clk 0)), RSimple ''PONG'')" by (simp add: plain_def cmdPing_def)
  from dispatch_run[OF set_get_commands(3) this] obtain srv1 where
    "dispatch rt commandTable ?srv 0 (clk 0) [''PING''] = (srv1, 0, RSimple ''PONG'')" by (auto simp: Context_DB_def)
  then have d: "dispatchAll rt commandTable clk 0 ?srv 0 [[''PING'']] = (srv1, 0, [RSimple ''PONG''])" by simp
  have "request_ok [''PING'']" by (simp add: request_ok_def bulk_ok_def)
  with serve_requests[where buffered = buffered and reqs = "[[''PING'']]", OF _ assms(1) _ assms(3) d] assms(2)
  have "w_out (snd (serve rt commandTable clk buffered srv w (encodeRequest [''PING'']))) = ''+PONG'' @ CRLF" by auto
  with assms(4,5) show ?thesis by (simp add: ping_def ping_wire[simplified] readFull_def)
qed

text \<open>So the status of the container's health check is 0 exactly when the ping was answered.\<close>

lemma healthcheck_status:
  assumes "flagParse (flagDefaults gomaxprocs) argv = Inr p" "opt_healthcheck p"
  shows "memcored_main rt gomaxprocs e argv = Some (if ping (env_dial e) (Network_Addr (cfg_Network (opt_cfg p))) = None then 0 else 1)"
  using assms by (simp add: memcored_main_def memcored_run_def split: option.split)

lemma bad_config_status:
  assumes "flagParse (flagDefaults gomaxprocs) argv = Inr p" "\<not> opt_healthcheck p" "parseLevel (rt_toUpper rt) (opt_logLevel p) = Some lvl"
    "Validate ((opt_cfg p)\<lparr>cfg_Log := (cfg_Log (opt_cfg p))\<lparr>LogLevel := lvl\<rparr>\<rparr>) \<noteq> None"
  shows "memcored_main rt gomaxprocs e argv = Some 1"
  using assms by (auto simp: memcored_main_def memcored_run_def Let_def)

section \<open>A concrete start\<close>

definition demo_env :: env where
  "demo_env = \<lparr>env_dial = (\<lambda>a. None), env_listen = (\<lambda>a. Some a), env_listenMetrics = (\<lambda>a. None), env_dir = [],
     env_fault = (\<lambda>n. None), env_clock = (\<lambda>n. 0)\<rparr>"

lemma demo_env_written: "snapshot_written (env_dir demo_env)"
  by (simp add: snapshot_written_def demo_env_def)

definition demo_argv :: "bytes list" where
  "demo_argv = [''-databases=0x2'', ''--persistence'', ''--log-format'', ''json'', ''serve'']"

definition demo_options :: options where
  "demo_options =
     (let cfg = Default 1
      in (flagDefaults 1)\<lparr>opt_cfg := cfg\<lparr>cfg_Network := (cfg_Network cfg)\<lparr>Databases := 2\<rparr>,
           cfg_Persistence := (cfg_Persistence cfg)\<lparr>PersistEnabled := True\<rparr>, cfg_Log := (cfg_Log cfg)\<lparr>LogFormat := ''json''\<rparr>\<rparr>\<rparr>)"

lemma demo_flags: "flagParse (flagDefaults 1) demo_argv = Inr demo_options"
  by code_simp

lemma fresh_opens:
  assumes "PersistEnabled (srv_persistCfg srv)"
  shows "\<exists>store. openPersistence rt reg clk (\<lambda>n. None) [] srv = Some (Inr (srv\<lparr>srv_persist := Some store\<rparr>))"
proof -
  from Open_reliable obtain store where o: "Open [] (FSync (srv_persistCfg srv)) (\<lambda>n. None) = Some store" by blast
  then have d: "st_dir store = [(segmentPath 0, [])]"
    by (auto simp: Open_def openSegment_def sysCall_def highestSegment_def snapshotBaseGen_def)
  have "scanSegment (segmentPath 0) = Some 0" by (rule scan_segmentPath) (simp add: int64_ok_def)
  then have "highestSegment (st_dir store) = 0" by (simp add: highestSegment_def d)
  moreover have "map_of (st_dir store) snapshotName = None" using segmentPath_names(1)[of 0] by (simp add: d)
  moreover have "segfile (st_dir store) 0 = []" by (simp add: segfile_def d)
  ultimately have "Server_recover rt reg clk (st_dir store) (srv\<lparr>srv_persist := Some store\<rparr>)
      = Some ((srv\<lparr>srv_persist := Some store\<rparr>, 0, 0), 0, 0, None)"
    by (simp add: Server_recover_def Recover_def loadSnapshot_def replaySegments_def replaySegment_view replayLoop_empty)
  with o assms show ?thesis by (intro exI[of _ store]) (simp add: openPersistence_def)
qed

lemma demo_run: "\<exists>h srv lf. memcored_run demo_rt 1 demo_env demo_argv = Some (Serves h srv lf) \<and> srv_persist srv \<noteq> None"
proof -
  let ?cfg = "(opt_cfg demo_options)\<lparr>cfg_Log := (cfg_Log (opt_cfg demo_options))\<lparr>LogLevel := 0\<rparr>\<rparr>"
  have v: "parseLevel (rt_toUpper demo_rt) (opt_logLevel demo_options) = Some 0" "\<not> opt_healthcheck demo_options"
    "\<not> MetricsEnabled (cfg_Metrics (opt_cfg demo_options))" "Validate ?cfg = None"
    "PersistEnabled (cfg_Persistence (opt_cfg demo_options))" by code_simp+
  then have "PersistEnabled (srv_persistCfg (Server_New ?cfg))" by (simp add: Server_New_def)
  from fresh_opens[OF this] obtain store where
    "openPersistence demo_rt commandTable (\<lambda>n. 0) (\<lambda>n. None) [] (Server_New ?cfg) = Some (Inr ((Server_New ?cfg)\<lparr>srv_persist := Some store\<rparr>))"
    by blast
  with v demo_flags show ?thesis
    by (simp add: memcored_run_def NewRegistry_table Let_def Server_Run_def Server_Listen_def Serve_start_def demo_env_def)
qed

end
