(* ===== verification/CommandSpec.thy ===== *)
theory CommandSpec
  imports TableProps Collections
begin

text \<open>
  An abstract specification of the commands that change the store, and the proof that the
  handlers implement it. A store is a map from keys to an abstract value and a deadline; a
  command reads the entry under its key through the clock and replaces it. The
  specification knows nothing of hashing, shards, encodings, map order or random levels, so
  it says the same of every run, which is what replaying the log relies on.
\<close>

section \<open>The specification\<close>

datatype semValue =
    SNone
  | SString bytes
  | SList "bytes list"
  | SHash "bytes \<rightharpoonup> bytes"
  | SSet "bytes set"
  | SZSet "bytes \<rightharpoonup> int"

type_synonym semEntry = "semValue \<times> gotime"
type_synonym semStore = "bytes \<rightharpoonup> semEntry"

text \<open>What the clock lets through.\<close>

definition unexpired :: "gotime \<Rightarrow> semEntry option \<Rightarrow> semEntry option" where
  "unexpired now x =
     (case x of None \<Rightarrow> None | Some (v, t) \<Rightarrow> if t \<noteq> zeroTime \<and> t \<le> now then None else Some (v, t))"

text \<open>
  The new entry and whether the reply is an error, from the entry the command sees; an error
  leaves the store alone.
\<close>

definition spec_incr :: "int \<Rightarrow> semEntry option \<Rightarrow> semEntry option \<times> bool" where
  "spec_incr delta x =
     (case x of
        None \<Rightarrow> (Some (SString (formatInt delta), zeroTime), False)
      | Some (SString s, t) \<Rightarrow>
          (case parseInt s of
             Some n \<Rightarrow> if int64_ok (n + delta) then (Some (SString (formatInt (n + delta)), t), False) else (x, True)
           | None \<Rightarrow> (x, True))
      | Some y \<Rightarrow> (x, True))"

definition spec_expire :: "gotime option \<Rightarrow> semEntry option \<Rightarrow> semEntry option \<times> bool" where
  "spec_expire at x =
     (case at of
        None \<Rightarrow> (x, True)
      | Some t' \<Rightarrow> (case x of None \<Rightarrow> None | Some (v, t) \<Rightarrow> Some (v, t'), False))"

definition spec_push :: "bool \<Rightarrow> bytes list \<Rightarrow> semEntry option \<Rightarrow> semEntry option \<times> bool" where
  "spec_push front vs x =
     (case x of
        None \<Rightarrow> (Some (SList (pushed front vs []), zeroTime), False)
      | Some (SList xs, t) \<Rightarrow> (Some (SList (pushed front vs xs), t), False)
      | Some y \<Rightarrow> (x, True))"

definition spec_pop :: "bool \<Rightarrow> bytes list \<Rightarrow> semEntry option \<Rightarrow> semEntry option \<times> bool" where
  "spec_pop front args x =
     (case popCount args of
        Some (Inr n) \<Rightarrow>
          (case x of
             None \<Rightarrow> (None, False)
           | Some (SList xs, t) \<Rightarrow>
               let ys = popEnd front (drop (nat n) (popEnd front xs))
               in (if ys = [] then None else Some (SList ys, t), False)
           | Some y \<Rightarrow> (x, True))
      | _ \<Rightarrow> (x, True))"

definition spec_hset :: "bytes list \<Rightarrow> semEntry option \<Rightarrow> semEntry option \<times> bool" where
  "spec_hset args x =
     (let ps = map_of (rev (pairs_of (drop 2 args)))
      in if odd (length args) then (x, True)
         else (case x of
             None \<Rightarrow> (Some (SHash ps, zeroTime), False)
           | Some (SHash h, t) \<Rightarrow> (Some (SHash (h ++ ps), t), False)
           | Some y \<Rightarrow> (x, True)))"

definition spec_hdel :: "bytes set \<Rightarrow> semEntry option \<Rightarrow> semEntry option \<times> bool" where
  "spec_hdel fs x =
     (case x of
        None \<Rightarrow> (None, False)
      | Some (SHash h, t) \<Rightarrow> (if h |` (- fs) = Map.empty then None else Some (SHash (h |` (- fs)), t), False)
      | Some y \<Rightarrow> (x, True))"

definition spec_sadd :: "bytes set \<Rightarrow> semEntry option \<Rightarrow> semEntry option \<times> bool" where
  "spec_sadd ms x =
     (case x of
        None \<Rightarrow> (Some (SSet ms, zeroTime), False)
      | Some (SSet s, t) \<Rightarrow> (Some (SSet (s \<union> ms), t), False)
      | Some y \<Rightarrow> (x, True))"

definition spec_srem :: "bytes set \<Rightarrow> semEntry option \<Rightarrow> semEntry option \<times> bool" where
  "spec_srem ms x =
     (case x of
        None \<Rightarrow> (None, False)
      | Some (SSet s, t) \<Rightarrow> (if s - ms = {} then None else Some (SSet (s - ms), t), False)
      | Some y \<Rightarrow> (x, True))"

definition spec_zadd :: "(bytes \<times> float64) list option \<Rightarrow> semEntry option \<Rightarrow> semEntry option \<times> bool" where
  "spec_zadd qs x =
     (case qs of
        None \<Rightarrow> (x, True)
      | Some ps \<Rightarrow>
          (case x of
             None \<Rightarrow> (Some (SZSet (score_keys (map_of (rev ps))), zeroTime), False)
           | Some (SZSet f, t) \<Rightarrow> (Some (SZSet (f ++ score_keys (map_of (rev ps))), t), False)
           | Some y \<Rightarrow> (x, True)))"

text \<open>The commands that write one key, by name. \<open>now\<close> matters to \<open>EXPIRE\<close> only.\<close>

definition spec_key :: "runtime \<Rightarrow> gotime \<Rightarrow> bytes \<Rightarrow> bytes list \<Rightarrow> semEntry option \<Rightarrow> semEntry option \<times> bool" where
  "spec_key rt now name args x =
     (if name = ''set'' then (Some (SString (args ! 2), zeroTime), False)
      else if name = ''incr'' then spec_incr 1 x
      else if name = ''decr'' then spec_incr (-1) x
      else if name = ''expire'' then spec_expire (map_option (\<lambda>s. addTime now (secondsDuration s)) (parseInt (args ! 2))) x
      else if name = ''pexpireat'' then spec_expire (map_option unixMilli (parseInt (args ! 2))) x
      else if name = ''persist'' then spec_expire (Some zeroTime) x
      else if name = ''lpush'' then spec_push True (drop 2 args) x
      else if name = ''rpush'' then spec_push False (drop 2 args) x
      else if name = ''lpop'' then spec_pop True args x
      else if name = ''rpop'' then spec_pop False args x
      else if name = ''hset'' then spec_hset args x
      else if name = ''hdel'' then spec_hdel (set (drop 2 args)) x
      else if name = ''sadd'' then spec_sadd (set (drop 2 args)) x
      else if name = ''srem'' then spec_srem (set (drop 2 args)) x
      else if name = ''zadd'' then
        spec_zadd (if odd (length args) then None else parseScores rt (pairs_of (drop 2 args))) x
      else (x, True))"

section \<open>What a handler does to one key\<close>

fun sem_value :: "Value \<Rightarrow> semValue" where
  "sem_value ZeroValue = SNone"
| "sem_value (MakeString b) = SString b"
| "sem_value (MakeList l) = SList (list_elems l)"
| "sem_value (MakeHash h) = SHash (hash_fields h)"
| "sem_value (MakeSet s) = SSet (set_members s)"
| "sem_value (MakeZSet z) = SZSet (zset_keys z)"

definition sem_entry :: "Entry \<Rightarrow> semEntry" where
  "sem_entry e = (sem_value (Entry_Value e), ExpireAt e)"

abbreviation sem_opt :: "Entry option \<Rightarrow> semEntry option" where
  "sem_opt x \<equiv> map_option sem_entry x"

lemma sem_live: "sem_opt (live now m k) = unexpired now (sem_opt (m k))"
  by (auto simp: live_def unexpired_def sem_entry_def expired_def HasExpiry_def isZero_def before_def split: option.splits)

lemma sem_fresh: "sem_opt (Some (fresh_entry v)) = Some (sem_value v, zeroTime)"
  by (simp add: sem_entry_def)

lemma sem_update: "sem_opt (Some (e\<lparr>Entry_Value := v\<rparr>)) = Some (sem_value v, ExpireAt e)"
  by (simp add: sem_entry_def)

definition acts :: "runtime \<Rightarrow> Context \<Rightarrow> bytes \<Rightarrow> (Context \<times> Reply) option \<Rightarrow> semEntry option \<times> bool \<Rightarrow> bool" where
  "acts rt c k res y \<longleftrightarrow>
     (\<exists>c' r. res = Some (c', r) \<and> IsError r = snd y
       \<and> (if snd y then c' = c
          else \<exists>x. ctx_to rt c c' ((store_of rt c)(k := x)) \<and> unexpired (ctx_now c) (sem_opt x) = unexpired (ctx_now c) (fst y)))"

lemma acts_error: "res = Some (c, RError m) \<Longrightarrow> acts rt c k res (z, True)"
  by (simp add: acts_def)

lemma acts_upd:
  assumes "res = Some (c', r)" "ctx_to rt c c' ((store_of rt c)(k := x))" "\<not> IsError r" "sem_opt x = y"
  shows "acts rt c k res (y, False)"
  using assms by (auto simp: acts_def)

lemma acts_same:
  assumes "ctx_inv rt c" "res = Some (c, r)" "\<not> IsError r" "y = sem_opt (live (ctx_now c) (store_of rt c) k)"
  shows "acts rt c k res (y, False)"
proof -
  have "unexpired (ctx_now c) (unexpired (ctx_now c) z) = unexpired (ctx_now c) z" for z
    by (auto simp: unexpired_def split: option.splits)
  with assms show ?thesis
    using ctx_to_refl[OF assms(1)] unfolding acts_def by (auto simp: sem_live intro!: exI[of _ "store_of rt c k"])
qed

text \<open>The entry a handler sees, with its abstraction.\<close>

lemma acts_cases:
  assumes "live (ctx_now c) (store_of rt c) k = None \<Longrightarrow> acts rt c k res (f None)"
    "\<And>e. live (ctx_now c) (store_of rt c) k = Some e \<Longrightarrow> acts rt c k res (f (Some (sem_entry e)))"
  shows "acts rt c k res (f (sem_opt (live (ctx_now c) (store_of rt c) k)))"
  using assms by (cases "live (ctx_now c) (store_of rt c) k") auto

lemma acts_set:
  assumes "ctx_inv rt c" "3 \<le> length args" "args_ok args"
  shows "acts rt c (args ! 1) (cmdSet rt c args) (Some (SString (args ! 2), zeroTime), False)"
proof -
  from cmdSet_spec[OF assms(1,2)] args_ok_nth[OF assms(3), of 2] assms(2) obtain c' where
    "cmdSet rt c args = Some (c', Reply_OK)"
    "ctx_to rt c c' ((store_of rt c)(args ! 1 \<mapsto> fresh_entry (MakeString (args ! 2))))" by auto
  then show ?thesis by (rule acts_upd) (simp_all add: Reply_OK_def sem_entry_def)
qed

lemma acts_incr:
  assumes inv: "ctx_inv rt c" and d: "delta \<in> {1, -1}"
  shows "acts rt c k (incrBy rt c k delta) (spec_incr delta (sem_opt (live (ctx_now c) (store_of rt c) k)))"
proof (rule acts_cases)
  assume "live (ctx_now c) (store_of rt c) k = None"
  from incrBy_absent[OF inv this d] obtain c' where "incrBy rt c k delta = Some (c', RInt delta)"
    "ctx_to rt c c' ((store_of rt c)(k \<mapsto> fresh_entry (MakeString (formatInt delta))))" by blast
  then show "acts rt c k (incrBy rt c k delta) (spec_incr delta None)"
    by (auto simp: spec_incr_def sem_entry_def intro: acts_upd)
next
  fix e assume e: "live (ctx_now c) (store_of rt c) k = Some e"
  note E = incrBy_errors[OF inv e] and N = incrBy_number[OF inv e]
  show "acts rt c k (incrBy rt c k delta) (spec_incr delta (Some (sem_entry e)))"
  proof (cases "Entry_Value e")
    case (MakeString s)
    show ?thesis
    proof (cases "parseInt s")
      case None
      with E(2)[OF MakeString None] MakeString show ?thesis by (auto simp: spec_incr_def sem_entry_def intro: acts_error)
    next
      case (Some n)
      show ?thesis
      proof (cases "int64_ok (n + delta)")
        case True
        from N[OF MakeString Some True d] obtain c' where "incrBy rt c k delta = Some (c', RInt (n + delta))"
          "ctx_to rt c c' ((store_of rt c)(k \<mapsto> e\<lparr>Entry_Value := MakeString (formatInt (n + delta))\<rparr>))" by blast
        then show ?thesis using MakeString Some True by (auto simp: spec_incr_def sem_entry_def intro!: acts_upd)
      next
        case False
        with E(3)[OF MakeString Some False d] MakeString Some show ?thesis
          by (auto simp: spec_incr_def sem_entry_def intro: acts_error)
      qed
    qed
  qed (use E(1) in \<open>auto simp: spec_incr_def sem_entry_def intro: acts_error\<close>)
qed

lemma acts_setExpire:
  assumes inv: "ctx_inv rt c"
  shows "acts rt c k (Some (setExpire rt c k at)) (spec_expire (Some at) (sem_opt (live (ctx_now c) (store_of rt c) k)))"
proof (rule acts_cases)
  from setExpire_spec[OF inv, of k at] obtain c' where c': "setExpire rt c k at = (c', RInt (if live (ctx_now c) (store_of rt c) k = None then 0 else 1))"
    "ctx_to rt c c' (case live (ctx_now c) (store_of rt c) k of
        None \<Rightarrow> store_of rt c | Some e \<Rightarrow> (store_of rt c)(k \<mapsto> e\<lparr>ExpireAt := at\<rparr>))" by blast
  show "acts rt c k (Some (setExpire rt c k at)) (spec_expire (Some at) None)" if n: "live (ctx_now c) (store_of rt c) k = None"
    using c' n sem_live[of "ctx_now c" "store_of rt c" k]
    by (auto simp: acts_def spec_expire_def unexpired_def intro!: exI[of _ "store_of rt c k"])
  fix e assume e: "live (ctx_now c) (store_of rt c) k = Some e"
  show "acts rt c k (Some (setExpire rt c k at)) (spec_expire (Some at) (Some (sem_entry e)))"
    using c' e by (auto simp: spec_expire_def sem_entry_def intro!: acts_upd[where x = "Some (e\<lparr>ExpireAt := at\<rparr>)"])
qed

lemma acts_expiry:
  assumes inv: "ctx_inv rt c" and a: "2 \<le> length args"
  defines "x \<equiv> sem_opt (live (ctx_now c) (store_of rt c) (args ! 1))"
  shows "3 \<le> length args \<Longrightarrow> acts rt c (args ! 1) (cmdExpire rt c args)
      (spec_expire (map_option (\<lambda>s. addTime (ctx_now c) (secondsDuration s)) (parseInt (args ! 2))) x)"
    "3 \<le> length args \<Longrightarrow> acts rt c (args ! 1) (cmdPExpireAt rt c args) (spec_expire (map_option unixMilli (parseInt (args ! 2))) x)"
    "acts rt c (args ! 1) (cmdPersist rt c args) (spec_expire (Some zeroTime) x)"
proof -
  show "acts rt c (args ! 1) (cmdExpire rt c args)
      (spec_expire (map_option (\<lambda>s. addTime (ctx_now c) (secondsDuration s)) (parseInt (args ! 2))) x)" if "3 \<le> length args"
    using that acts_setExpire[OF inv, of "args ! 1"] unfolding x_def
    by (cases "parseInt (args ! 2)") (auto simp: cmdExpire_def spec_expire_def intro: acts_error)
  show "acts rt c (args ! 1) (cmdPExpireAt rt c args) (spec_expire (map_option unixMilli (parseInt (args ! 2))) x)" if "3 \<le> length args"
    using that acts_setExpire[OF inv, of "args ! 1"] unfolding x_def
    by (cases "parseInt (args ! 2)") (auto simp: cmdPExpireAt_def spec_expire_def intro: acts_error)
  show "acts rt c (args ! 1) (cmdPersist rt c args) (spec_expire (Some zeroTime) x)"
    unfolding x_def
  proof (rule acts_cases)
    note P = cmdPersist_spec[OF inv a]
    show "acts rt c (args ! 1) (cmdPersist rt c args) (spec_expire (Some zeroTime) None)"
      if n: "live (ctx_now c) (store_of rt c) (args ! 1) = None"
      using P n sem_live[of "ctx_now c" "store_of rt c" "args ! 1"]
      by (auto simp: acts_def spec_expire_def unexpired_def intro!: exI[of _ "store_of rt c (args ! 1)"])
    fix e assume e: "live (ctx_now c) (store_of rt c) (args ! 1) = Some e"
    show "acts rt c (args ! 1) (cmdPersist rt c args) (spec_expire (Some zeroTime) (Some (sem_entry e)))"
      using P e by (auto simp: spec_expire_def sem_entry_def intro!: acts_upd[where x = "Some (e\<lparr>ExpireAt := zeroTime\<rparr>)"])
  qed
qed

text \<open>
  The collection commands share one shape: a fresh collection, a wrong kind, or the old
  collection changed.
\<close>

lemma sem_kind:
  "Value_Kind v \<noteq> KindList \<Longrightarrow> \<forall>xs. sem_value v \<noteq> SList xs" "Value_Kind v \<noteq> KindHash \<Longrightarrow> \<forall>h. sem_value v \<noteq> SHash h"
  "Value_Kind v \<noteq> KindSet \<Longrightarrow> \<forall>s. sem_value v \<noteq> SSet s" "Value_Kind v \<noteq> KindZSet \<Longrightarrow> \<forall>f. sem_value v \<noteq> SZSet f"
  by (cases v; simp)+

lemma acts_push:
  assumes inv: "ctx_inv rt c" and a: "2 \<le> length args" and ok: "args_ok args"
  shows "acts rt c (args ! 1) (listPush rt c args front)
    (spec_push front (drop 2 args) (sem_opt (live (ctx_now c) (store_of rt c) (args ! 1))))"
proof (rule acts_cases)
  note P = listPush_spec[OF inv a args_ok_drop[OF ok]]
  show "acts rt c (args ! 1) (listPush rt c args front) (spec_push front (drop 2 args) None)"
    if "live (ctx_now c) (store_of rt c) (args ! 1) = None"
    using P(1)[OF that, of front] by (auto simp: spec_push_def sem_entry_def intro!: acts_upd)
  fix e assume e: "live (ctx_now c) (store_of rt c) (args ! 1) = Some e"
  show "acts rt c (args ! 1) (listPush rt c args front) (spec_push front (drop 2 args) (Some (sem_entry e)))"
  proof (cases "Value_Kind (Entry_Value e) = KindList")
    case True
    then obtain l where l: "Entry_Value e = MakeList l" using Value_KindE(2) by blast
    from P(3)[OF e l, of front] l show ?thesis by (auto simp: spec_push_def sem_entry_def intro!: acts_upd)
  next
    case False
    from P(2)[OF e False, of front] sem_kind(1)[OF False] show ?thesis
      by (auto simp: spec_push_def sem_entry_def split: semValue.split intro: acts_error)
  qed
qed

lemma acts_pop_count:
  assumes inv: "ctx_inv rt c" and a: "2 \<le> length args" and p: "popCount args = Some (Inr m)"
    and S: "\<And>e l. live (ctx_now c) (store_of rt c) (args ! 1) = Some e \<Longrightarrow> Entry_Value e = MakeList l \<Longrightarrow>
      \<exists>c' r l'. listPop rt c args front = Some (c', r) \<and> \<not> IsError r
        \<and> list_elems l' = popEnd front (drop (nat m) (popEnd front (list_elems l)))
        \<and> ctx_to rt c c' (list_left (store_of rt c) (args ! 1) e l')"
  shows "acts rt c (args ! 1) (listPop rt c args front)
    (spec_pop front args (sem_opt (live (ctx_now c) (store_of rt c) (args ! 1))))"
proof (rule acts_cases)
  show "acts rt c (args ! 1) (listPop rt c args front) (spec_pop front args None)"
    if "live (ctx_now c) (store_of rt c) (args ! 1) = None"
    using that p a by (auto simp: spec_pop_def listPop_def lookupEntry_live[OF inv] intro!: acts_same[OF inv])
  fix e assume e: "live (ctx_now c) (store_of rt c) (args ! 1) = Some e"
  show "acts rt c (args ! 1) (listPop rt c args front) (spec_pop front args (Some (sem_entry e)))"
  proof (cases "Value_Kind (Entry_Value e) = KindList")
    case True
    then obtain l where l: "Entry_Value e = MakeList l" using Value_KindE(2) by blast
    from S[OF e l] p l show ?thesis
      by (auto simp: spec_pop_def sem_entry_def list_left_def intro!: acts_upd)
  next
    case False
    with e p a sem_kind(1)[OF False] show ?thesis
      by (auto simp: spec_pop_def sem_entry_def listPop_def lookupEntry_live[OF inv] split: semValue.split intro: acts_error)
  qed
qed

lemma acts_pop:
  assumes inv: "ctx_inv rt c" and a: "2 \<le> length args" and n: "hugeCount args \<Longrightarrow> listPop rt c args front \<noteq> None"
  shows "acts rt c (args ! 1) (listPop rt c args front)
    (spec_pop front args (sem_opt (live (ctx_now c) (store_of rt c) (args ! 1))))"
proof (cases rule: popCount_cases[OF a, case_names err one many])
  case (err r)
  moreover from this have "\<exists>m. r = RError m" using a by (auto simp: popCount_def split: if_splits option.splits)
  ultimately show ?thesis using listPop_others(3)[OF inv a err] by (auto simp: spec_pop_def intro: acts_error)
next
  case one
  show ?thesis
  proof (rule acts_pop_count[OF inv a])
    show "popCount args = Some (Inr 1)" using one by (simp add: popCount_def)
  qed (use listPop_one_spec[OF inv one, of _ _ front] in fastforce)
next
  case (many m)
  show ?thesis
  proof (rule acts_pop_count[OF inv a])
    show p: "popCount args = Some (Inr m)" using many by (simp add: popCount_def)
    fix e l assume e: "live (ctx_now c) (store_of rt c) (args ! 1) = Some e" "Entry_Value e = MakeList l"
    have "makeReplies m \<noteq> None"
    proof
      assume z: "makeReplies m = None"
      with e a many p have "listPop rt c args front = None" by (simp add: listPop_def lookupEntry_live[OF inv] Let_def)
      moreover have "hugeCount args" using many z by (simp add: hugeCount_def)
      ultimately show False using n by blast
    qed
    then have "m * 80 \<le> 281474976710656" using many by (auto simp: makeReplies_def split: if_splits)
    from listPop_many_spec[OF inv many this e, of front] show "\<exists>c' r l'. listPop rt c args front = Some (c', r) \<and> \<not> IsError r
        \<and> list_elems l' = popEnd front (drop (nat m) (popEnd front (list_elems l)))
        \<and> ctx_to rt c c' (list_left (store_of rt c) (args ! 1) e l')" by fastforce
  qed
qed

lemma acts_hset:
  assumes inv: "ctx_inv rt c" and a: "2 \<le> length args" and ok: "args_ok args"
  shows "acts rt c (args ! 1) (cmdHSet rt c args) (spec_hset args (sem_opt (live (ctx_now c) (store_of rt c) (args ! 1))))"
proof (cases "even (length args)")
  case False
  then obtain m where "cmdHSet rt c args = Some (c, RError m)" by (auto simp: cmdHSet_def odd_iff_mod_2_eq_one)
  with False show ?thesis by (auto simp: spec_hset_def intro: acts_error)
next
  case even: True
  note P = cmdHSet_spec[OF inv a even args_ok_drop[OF ok]]
  show ?thesis
  proof (rule acts_cases)
    show "acts rt c (args ! 1) (cmdHSet rt c args) (spec_hset args None)" if "live (ctx_now c) (store_of rt c) (args ! 1) = None"
      using P(1)[OF that] even by (auto simp: spec_hset_def sem_entry_def Let_def intro!: acts_upd)
    fix e assume e: "live (ctx_now c) (store_of rt c) (args ! 1) = Some e"
    show "acts rt c (args ! 1) (cmdHSet rt c args) (spec_hset args (Some (sem_entry e)))"
    proof (cases "Value_Kind (Entry_Value e) = KindHash")
      case True
      then obtain h where h: "Entry_Value e = MakeHash h" using Value_KindE(3) by blast
      from P(3)[OF e h] h even show ?thesis by (auto simp: spec_hset_def sem_entry_def Let_def intro!: acts_upd)
    next
      case False
      from P(2)[OF e False] sem_kind(2)[OF False] even show ?thesis
        by (auto simp: spec_hset_def sem_entry_def Let_def split: semValue.split intro: acts_error)
    qed
  qed
qed

lemma acts_hdel:
  assumes inv: "ctx_inv rt c" and a: "2 \<le> length args"
  shows "acts rt c (args ! 1) (cmdHDel rt c args) (spec_hdel (set (drop 2 args)) (sem_opt (live (ctx_now c) (store_of rt c) (args ! 1))))"
proof (rule acts_cases)
  show "acts rt c (args ! 1) (cmdHDel rt c args) (spec_hdel (set (drop 2 args)) None)" if "live (ctx_now c) (store_of rt c) (args ! 1) = None"
    using cmdHDel_others(1)[OF inv a that] that by (auto simp: spec_hdel_def intro!: acts_same[OF inv])
  fix e assume e: "live (ctx_now c) (store_of rt c) (args ! 1) = Some e"
  show "acts rt c (args ! 1) (cmdHDel rt c args) (spec_hdel (set (drop 2 args)) (Some (sem_entry e)))"
  proof (cases "Value_Kind (Entry_Value e) = KindHash")
    case True
    then obtain h where h: "Entry_Value e = MakeHash h" using Value_KindE(3) by blast
    from cmdHDel_spec[OF inv a e h] h show ?thesis by (auto simp: spec_hdel_def sem_entry_def intro!: acts_upd)
  next
    case False
    from cmdHDel_others(2)[OF inv a e False] sem_kind(2)[OF False] show ?thesis
      by (auto simp: spec_hdel_def sem_entry_def split: semValue.split intro: acts_error)
  qed
qed

lemma acts_sadd:
  assumes inv: "ctx_inv rt c" and a: "2 \<le> length args" and ok: "args_ok args"
  shows "acts rt c (args ! 1) (cmdSAdd rt c args) (spec_sadd (set (drop 2 args)) (sem_opt (live (ctx_now c) (store_of rt c) (args ! 1))))"
proof (rule acts_cases)
  note P = cmdSAdd_spec[OF inv a args_ok_drop[OF ok]]
  show "acts rt c (args ! 1) (cmdSAdd rt c args) (spec_sadd (set (drop 2 args)) None)" if "live (ctx_now c) (store_of rt c) (args ! 1) = None"
    using P(1)[OF that] by (auto simp: spec_sadd_def sem_entry_def intro!: acts_upd)
  fix e assume e: "live (ctx_now c) (store_of rt c) (args ! 1) = Some e"
  show "acts rt c (args ! 1) (cmdSAdd rt c args) (spec_sadd (set (drop 2 args)) (Some (sem_entry e)))"
  proof (cases "Value_Kind (Entry_Value e) = KindSet")
    case True
    then obtain s where s: "Entry_Value e = MakeSet s" using Value_KindE(4) by blast
    from P(3)[OF e s] s show ?thesis by (auto simp: spec_sadd_def sem_entry_def intro!: acts_upd)
  next
    case False
    from P(2)[OF e False] sem_kind(3)[OF False] show ?thesis
      by (auto simp: spec_sadd_def sem_entry_def split: semValue.split intro: acts_error)
  qed
qed

lemma acts_srem:
  assumes inv: "ctx_inv rt c" and a: "2 \<le> length args"
  shows "acts rt c (args ! 1) (cmdSRem rt c args) (spec_srem (set (drop 2 args)) (sem_opt (live (ctx_now c) (store_of rt c) (args ! 1))))"
proof (rule acts_cases)
  show "acts rt c (args ! 1) (cmdSRem rt c args) (spec_srem (set (drop 2 args)) None)" if "live (ctx_now c) (store_of rt c) (args ! 1) = None"
    using cmdSRem_others(1)[OF inv a that] that by (auto simp: spec_srem_def intro!: acts_same[OF inv])
  fix e assume e: "live (ctx_now c) (store_of rt c) (args ! 1) = Some e"
  show "acts rt c (args ! 1) (cmdSRem rt c args) (spec_srem (set (drop 2 args)) (Some (sem_entry e)))"
  proof (cases "Value_Kind (Entry_Value e) = KindSet")
    case True
    then obtain s where s: "Entry_Value e = MakeSet s" using Value_KindE(4) by blast
    from cmdSRem_spec[OF inv a e s] s show ?thesis by (auto simp: spec_srem_def sem_entry_def intro!: acts_upd)
  next
    case False
    from cmdSRem_others(2)[OF inv a e False] sem_kind(3)[OF False] show ?thesis
      by (auto simp: spec_srem_def sem_entry_def split: semValue.split intro: acts_error)
  qed
qed

lemma score_keys_add: "score_keys (f ++ g) = score_keys f ++ score_keys g"
  by (auto simp: score_keys_def map_add_def fun_eq_iff split: option.split)

lemma acts_zadd:
  assumes inv: "ctx_inv rt c" and a: "2 \<le> length args" and ok: "args_ok args"
  shows "acts rt c (args ! 1) (cmdZAdd rt c args)
    (spec_zadd (if odd (length args) then None else parseScores rt (pairs_of (drop 2 args)))
      (sem_opt (live (ctx_now c) (store_of rt c) (args ! 1))))"
proof (cases "odd (length args) \<or> parseScores rt (pairs_of (drop 2 args)) = None")
  case True
  from cmdZAdd_rejects[OF True] True show ?thesis by (auto simp: spec_zadd_def intro: acts_error)
next
  case False
  then obtain qs where e: "even (length args)" and q: "parseScores rt (pairs_of (drop 2 args)) = Some qs" by auto
  note P = cmdZAdd_spec[OF inv a e args_ok_drop[OF ok] q]
  have "acts rt c (args ! 1) (cmdZAdd rt c args) (spec_zadd (Some qs) (sem_opt (live (ctx_now c) (store_of rt c) (args ! 1))))"
  proof (rule acts_cases)
    show "acts rt c (args ! 1) (cmdZAdd rt c args) (spec_zadd (Some qs) None)" if "live (ctx_now c) (store_of rt c) (args ! 1) = None"
      using P(1)[OF that] by (auto simp: spec_zadd_def sem_entry_def zset_keys_def intro!: acts_upd)
    fix e assume e: "live (ctx_now c) (store_of rt c) (args ! 1) = Some e"
    show "acts rt c (args ! 1) (cmdZAdd rt c args) (spec_zadd (Some qs) (Some (sem_entry e)))"
    proof (cases "Value_Kind (Entry_Value e) = KindZSet")
      case True
      then obtain z where z: "Entry_Value e = MakeZSet z" using Value_KindE(5) by blast
      from P(3)[OF e z] z show ?thesis
        by (auto simp: spec_zadd_def sem_entry_def zset_keys_def score_keys_add intro!: acts_upd)
    next
      case False
      from P(2)[OF e False] sem_kind(4)[OF False] show ?thesis
        by (auto simp: spec_zadd_def sem_entry_def split: semValue.split intro: acts_error)
    qed
  qed
  with e q show ?thesis by simp
qed

section \<open>The whole table\<close>

definition keyed :: "Command \<Rightarrow> bool" where
  "keyed cmd \<longleftrightarrow> (\<forall>rt c args.
     accepts cmd (int (length args)) \<and> args_ok args \<and> ctx_inv rt c
     \<and> (hugeCount args \<longrightarrow> cmd_name cmd \<in> {''lpop'', ''rpop''} \<longrightarrow> cmd_run cmd rt c args \<noteq> None) \<longrightarrow>
     acts rt c (args ! 1) (cmd_run cmd rt c args)
       (spec_key rt (ctx_now c) (cmd_name cmd) args (sem_opt (live (ctx_now c) (store_of rt c) (args ! 1)))))"

lemma keyed_writeKey:
  assumes "2 \<le> minArgs a"
    "\<And>rt c args. \<lbrakk> ctx_inv rt c; 2 \<le> length args; minArgs a \<le> int (length args); args_ok args;
       hugeCount args \<longrightarrow> n \<in> {''lpop'', ''rpop''} \<longrightarrow> h rt c args \<noteq> None \<rbrakk> \<Longrightarrow>
       acts rt c (args ! 1) (h rt c args)
         (spec_key rt (ctx_now c) n args (sem_opt (live (ctx_now c) (store_of rt c) (args ! 1))))"
  shows "keyed (writeKey n a h)"
  using assms by (auto simp: keyed_def writeKey_def accepts_def minArgs_def split: if_splits)

abbreviation special :: "bytes set" where
  "special \<equiv> {''del'', ''unlink'', ''flushdb'', ''ping'', ''select'', ''config''}"

lemma keyed_strings: "\<forall>cmd \<in> set stringCommands. cmd_readOnly cmd \<or> keyed cmd"
proof -
  have "keyed (writeKey ''set'' 3 cmdSet)"
    by (rule keyed_writeKey) (auto simp: minArgs_def spec_key_def simp del: One_nat_def intro!: acts_set)
  moreover have "keyed (writeKey ''incr'' 2 cmdIncr)" "keyed (writeKey ''decr'' 2 cmdDecr)"
    by (rule keyed_writeKey; auto simp: minArgs_def spec_key_def cmdIncr_def cmdDecr_def simp del: One_nat_def intro!: acts_incr)+
  ultimately show ?thesis by (simp add: stringCommands_def readKey_def)
qed

lemma keyed_keys: "\<forall>cmd \<in> set keyCommands. cmd_readOnly cmd \<or> cmd_name cmd \<in> special \<or> keyed cmd"
proof -
  have "keyed (writeKey ''expire'' 3 cmdExpire)" "keyed (writeKey ''pexpireat'' 3 cmdPExpireAt)"
    "keyed (writeKey ''persist'' 2 cmdPersist)"
    by (rule keyed_writeKey; auto simp: minArgs_def spec_key_def simp del: One_nat_def intro!: acts_expiry)+
  then show ?thesis by (simp add: keyCommands_def readKey_def readKeys_def writeKeys_def)
qed

lemma keyed_lists: "\<forall>cmd \<in> set listCommands. cmd_readOnly cmd \<or> keyed cmd"
proof -
  have "keyed (writeKey ''lpush'' (-3) cmdLPush)" "keyed (writeKey ''rpush'' (-3) cmdRPush)"
    by (rule keyed_writeKey; auto simp: minArgs_def spec_key_def cmdLPush_def cmdRPush_def simp del: One_nat_def intro!: acts_push)+
  moreover have "keyed (writeKey ''lpop'' (-2) cmdLPop)" "keyed (writeKey ''rpop'' (-2) cmdRPop)"
    by (rule keyed_writeKey; auto simp: minArgs_def spec_key_def cmdLPop_def cmdRPop_def simp del: One_nat_def intro!: acts_pop)+
  ultimately show ?thesis by (simp add: listCommands_def readKey_def)
qed

lemma keyed_collections:
  "\<forall>cmd \<in> set (hashCommands @ setCommands @ zsetCommands). cmd_readOnly cmd \<or> keyed cmd"
proof -
  have "keyed (writeKey ''hset'' (-4) cmdHSet)" "keyed (writeKey ''hdel'' (-3) cmdHDel)"
    "keyed (writeKey ''sadd'' (-3) cmdSAdd)" "keyed (writeKey ''srem'' (-3) cmdSRem)"
    by (rule keyed_writeKey; auto simp: minArgs_def spec_key_def simp del: One_nat_def intro!: acts_hset acts_hdel acts_sadd acts_srem)+
  moreover have "keyed (writeKey ''zadd'' (-4) cmdZAdd)"
    by (rule keyed_writeKey) (use acts_zadd in \<open>simp_all add: minArgs_def spec_key_def del: One_nat_def\<close>)
  ultimately show ?thesis by (simp add: hashCommands_def setCommands_def zsetCommands_def readKey_def readKeys_def)
qed

lemma table_keyed:
  assumes "cmd \<in> set allCommands" "\<not> cmd_readOnly cmd" "cmd_name cmd \<notin> special"
  shows "keyed cmd"
proof -
  have "\<forall>cmd \<in> set serverCommands. cmd_name cmd \<in> special"
    by (simp add: serverCommands_def plain_def wholeDB_def)
  then show ?thesis
    using assms keyed_strings keyed_keys keyed_lists keyed_collections unfolding allCommands_def set_append by blast
qed

section \<open>Stores\<close>

text \<open>A store shows the abstract store \<open>V\<close> at time \<open>now\<close>.\<close>

definition sees :: "gotime \<Rightarrow> store \<Rightarrow> semStore \<Rightarrow> bool" where
  "sees now m V \<longleftrightarrow> (\<forall>k. sem_opt (live now m k) = unexpired now (V k))"

lemma unexpired_later: "now \<le> later \<Longrightarrow> unexpired later (unexpired now x) = unexpired later x"
  by (auto simp: unexpired_def split: option.splits)

lemma sees_later:
  assumes "sees now m V" "now \<le> later"
  shows "sees later m V"
  unfolding sees_def
proof
  fix k
  have "sem_opt (live later m k) = unexpired later (unexpired now (sem_opt (m k)))"
    by (simp add: sem_live unexpired_later[OF assms(2)])
  also have "\<dots> = unexpired later (unexpired now (V k))" using assms(1) by (simp add: sees_def sem_live)
  finally show "sem_opt (live later m k) = unexpired later (V k)" by (simp add: unexpired_later[OF assms(2)])
qed

definition spec_write :: "runtime \<Rightarrow> gotime \<Rightarrow> bytes \<Rightarrow> bytes list \<Rightarrow> semStore \<Rightarrow> semStore \<times> bool" where
  "spec_write rt now name args V =
     (if name = ''del'' \<or> name = ''unlink'' then (V |` (- set (drop 1 args)), False)
      else if name = ''flushdb'' then (Map.empty, False)
      else (case spec_key rt now name args (unexpired now (V (args ! 1))) of
          (x, err) \<Rightarrow> (if err then V else V(args ! 1 := x), err)))"

text \<open>A command that writes the store does what the specification says, and says so in its reply.\<close>

lemma special_commands:
  assumes "cmd \<in> set allCommands"
  shows "cmd_name cmd = ''del'' \<Longrightarrow> cmd = writeKeys ''del'' (-2) cmdDel"
    "cmd_name cmd = ''unlink'' \<Longrightarrow> cmd = writeKeys ''unlink'' (-2) cmdUnlink"
    "cmd_name cmd = ''flushdb'' \<Longrightarrow> cmd = wholeDB ''flushdb'' (-1) cmdFlushDB"
proof -
  have u: "cmd = cmd'" if "cmd' \<in> set allCommands" "cmd_name cmd = cmd_name cmd'" for cmd'
    using names_distinct assms that by (auto simp: distinct_map inj_on_def)
  have m: "writeKeys ''del'' (-2) cmdDel \<in> set allCommands" "writeKeys ''unlink'' (-2) cmdUnlink \<in> set allCommands"
    "wholeDB ''flushdb'' (-1) cmdFlushDB \<in> set allCommands"
    by (simp_all add: allCommands_def keyCommands_def serverCommands_def)
  show "cmd_name cmd = ''del'' \<Longrightarrow> cmd = writeKeys ''del'' (-2) cmdDel"
    "cmd_name cmd = ''unlink'' \<Longrightarrow> cmd = writeKeys ''unlink'' (-2) cmdUnlink"
    "cmd_name cmd = ''flushdb'' \<Longrightarrow> cmd = wholeDB ''flushdb'' (-1) cmdFlushDB"
    using u[OF m(1)] u[OF m(2)] u[OF m(3)] by (simp_all add: writeKeys_def wholeDB_def)
qed

text \<open>A command that writes the one key its first argument names.\<close>

lemma spec_write_keyed:
  assumes cmd: "cmd \<in> set allCommands" "\<not> cmd_readOnly cmd" "cmd_name cmd \<notin> {''ping'', ''select'', ''config''}"
    and keyed: "cmd_name cmd \<notin> special"
    and args: "accepts cmd (int (length args))" "args_ok args" 
      "hugeCount args \<longrightarrow> cmd_name cmd \<in> {''lpop'', ''rpop''} \<longrightarrow> cmd_run cmd rt c args \<noteq> None"
    and c: "ctx_inv rt c" "sees (ctx_now c) (store_of rt c) V"
  obtains c' r where "cmd_run cmd rt c args = Some (c', r)" "ctx_inv rt c'" "same_session c c'"
    "IsError r = snd (spec_write rt (ctx_now c) (cmd_name cmd) args V)"
    "sees (ctx_now c) (store_of rt c') (fst (spec_write rt (ctx_now c) (cmd_name cmd) args V))"
proof -
  let ?y = "spec_key rt (ctx_now c) (cmd_name cmd) args (unexpired (ctx_now c) (V (args ! 1)))"
  have w: "spec_write rt (ctx_now c) (cmd_name cmd) args V = (if snd ?y then V else V(args ! 1 := fst ?y), snd ?y)"
    using keyed by (simp add: spec_write_def split: prod.split)
  have v: "sem_opt (live (ctx_now c) (store_of rt c) (args ! 1)) = unexpired (ctx_now c) (V (args ! 1))"
    using c(2) by (simp add: sees_def)
  have "acts rt c (args ! 1) (cmd_run cmd rt c args) ?y"
    using table_keyed[OF cmd(1,2) keyed] args c(1) unfolding keyed_def v[symmetric] by blast
  then obtain c' r where r: "cmd_run cmd rt c args = Some (c', r)" "IsError r = snd ?y"
    "if snd ?y then c' = c
     else \<exists>x. ctx_to rt c c' ((store_of rt c)(args ! 1 := x)) \<and> unexpired (ctx_now c) (sem_opt x) = unexpired (ctx_now c) (fst ?y)"
    unfolding acts_def by blast
  show thesis
  proof (cases "snd ?y")
    case True
    with r c w show thesis by (intro that[of c' r]) auto
  next
    case err: False
    then obtain x where x: "ctx_to rt c c' ((store_of rt c)(args ! 1 := x))"
      "unexpired (ctx_now c) (sem_opt x) = unexpired (ctx_now c) (fst ?y)" using r(3) by auto
    have "sees (ctx_now c) (store_of rt c') (V(args ! 1 := fst ?y))"
      using c(2) x by (auto simp: sees_def ctx_to_def sem_live)
    with r x w err show thesis by (intro that[of c' r]) (auto simp: ctx_to_def)
  qed
qed

text \<open>The commands that write any number of keys.\<close>

lemma spec_write_many:
  assumes cmd: "cmd \<in> set allCommands" "\<not> cmd_readOnly cmd" "cmd_name cmd \<notin> {''ping'', ''select'', ''config''}"
    and special: "cmd_name cmd \<in> special"
    and args: "accepts cmd (int (length args))"
    and c: "ctx_inv rt c" "sees (ctx_now c) (store_of rt c) V"
  obtains c' r where "cmd_run cmd rt c args = Some (c', r)" "ctx_inv rt c'" "same_session c c'"
    "IsError r = snd (spec_write rt (ctx_now c) (cmd_name cmd) args V)"
    "sees (ctx_now c) (store_of rt c') (fst (spec_write rt (ctx_now c) (cmd_name cmd) args V))"
proof -
  from special consider (del) "cmd_name cmd = ''del''" | (unlink) "cmd_name cmd = ''unlink''" | (flush) "cmd_name cmd = ''flushdb''"
    using cmd(3) by auto
  then show thesis
  proof cases
    case del
    then have "cmd = writeKeys ''del'' (-2) cmdDel" using cmd(1) special_commands by blast
    moreover from this have "1 \<le> length args" using args by (simp add: writeKeys_def accepts_def)
    ultimately show thesis
      using cmdDel_spec[OF c(1), of args] c(2) del that
      by (fastforce simp: writeKeys_def spec_write_def ctx_to_def sees_def sem_live restrict_map_def unexpired_def)
  next
    case unlink
    then have "cmd = writeKeys ''unlink'' (-2) cmdUnlink" using cmd(1) special_commands by blast
    moreover from this have "1 \<le> length args" using args by (simp add: writeKeys_def accepts_def)
    ultimately show thesis
      using cmdUnlink_spec[OF c(1), of args] c(2) unlink that
      by (fastforce simp: writeKeys_def spec_write_def ctx_to_def sees_def sem_live restrict_map_def unexpired_def)
  next
    case flush
    then have h: "cmd = wholeDB ''flushdb'' (-1) cmdFlushDB" using cmd(1) special_commands by blast
    have "db_inv (rt_hash rt) (DB_Flush (ctx_Keyspace c))" "db_ents (rt_hash rt) (DB_Flush (ctx_Keyspace c)) = Map.empty"
      using db.flush[OF ctx_inv_db[OF c(1)]] by simp_all
    from with_db_to[OF c(1) this(1)] this(2) h flush show thesis
      by (intro that[of "with_db c (DB_Flush (ctx_Keyspace c))" Reply_OK])
         (auto simp: wholeDB_def cmdFlushDB_def spec_write_def ctx_to_def sees_def sem_live unexpired_def Reply_OK_def)
  qed
qed

lemma spec_write_refines:
  assumes cmd: "cmd \<in> set allCommands" "\<not> cmd_readOnly cmd" "cmd_name cmd \<notin> {''ping'', ''select'', ''config''}"
    and args: "accepts cmd (int (length args))" "args_ok args" 
      "hugeCount args \<longrightarrow> cmd_name cmd \<in> {''lpop'', ''rpop''} \<longrightarrow> cmd_run cmd rt c args \<noteq> None"
    and c: "ctx_inv rt c" "sees (ctx_now c) (store_of rt c) V"
  obtains c' r where "cmd_run cmd rt c args = Some (c', r)" "ctx_inv rt c'" "same_session c c'"
    "IsError r = snd (spec_write rt (ctx_now c) (cmd_name cmd) args V)"
    "sees (ctx_now c) (store_of rt c') (fst (spec_write rt (ctx_now c) (cmd_name cmd) args V))"
proof (cases "cmd_name cmd \<in> special")
  case True
  show thesis by (rule spec_write_many[OF cmd True args(1) c]) (rule that)
next
  case False
  show thesis by (rule spec_write_keyed[OF cmd False args c]) (rule that)
qed

end
