(* ===== verification/Replay.thy ===== *)
theory Replay
  imports CommandSpec ServerScenario
begin

text \<open>
  Runs of the server, their logs, and the replay of a log. A run is a sequence of requests
  from any connections. Its history keeps, for each entry the server hands to the append
  log, the time its command ran, the reading of the clock that \<open>persistArgs\<close> took, the
  database and the request; the databases then show what the history says. The log itself
  holds the logged forms, in which an \<open>EXPIRE\<close> has become a \<open>PEXPIREAT\<close>; a server that
  replays them at boot shows what the logged forms say at the times of the replay. How the
  two agree is the subject of theory Agreement.
\<close>

section \<open>Sessions show abstract stores\<close>

definition dbs_see :: "keyhash \<Rightarrow> gotime \<Rightarrow> DB list \<Rightarrow> semStore list \<Rightarrow> bool" where
  "dbs_see hash now dbs A \<longleftrightarrow>
     dbs_inv hash dbs \<and> length dbs = length A \<and> (\<forall>d < length A. sees now (db_ents hash (dbs ! d)) (A ! d))"

lemma dbs_see_later: "dbs_see hash now dbs A \<Longrightarrow> now \<le> later \<Longrightarrow> dbs_see hash later dbs A"
  by (auto simp: dbs_see_def intro: sees_later)

definition ctx_see :: "runtime \<Rightarrow> gotime \<Rightarrow> Context \<Rightarrow> semStore list \<Rightarrow> bool" where
  "ctx_see rt now c A \<longleftrightarrow>
     ctx_inv rt c \<and> int (length A) \<le> maxInt64 \<and> length (ctx_databases c) = length A
     \<and> (\<forall>d < length A. sees now (entry_at rt c d) (A ! d))"

lemma session_see:
  "dbs_see (rt_hash rt) now (srv_databases srv) A \<Longrightarrow> idx < length A \<Longrightarrow> ctx_see rt now (session srv idx now) A"
  using session_inv[of rt srv idx now] by (auto simp: dbs_see_def ctx_see_def entry_at_def srv_inv_def dbs_inv_def)

lemma absorb_see:
  assumes "ctx_see rt now c A"
  shows "dbs_see (rt_hash rt) now (srv_databases (absorb srv c)) A"
  using assms absorb_inv[of rt c srv] by (auto simp: dbs_see_def ctx_see_def entry_at_def srv_inv_def absorb_db)

text \<open>What a command of the table means for the databases.\<close>

abbreviation storeless :: "bytes set" where
  "storeless \<equiv> {''ping'', ''select'', ''config''}"

definition spec_cmd :: "runtime \<Rightarrow> gotime \<Rightarrow> Command \<Rightarrow> bytes list \<Rightarrow> nat \<Rightarrow> semStore list \<Rightarrow> semStore list" where
  "spec_cmd rt now cmd args d A =
     (if cmd_readOnly cmd \<or> cmd_name cmd \<in> storeless then A
      else A[d := fst (spec_write rt now (cmd_name cmd) args (A ! d))])"

lemma length_spec_cmd [simp]: "length (spec_cmd rt now cmd args d A) = length A"
  by (simp add: spec_cmd_def)

lemma storeless_keys:
  assumes "cmd \<in> set allCommands" "cmd_name cmd \<in> storeless"
  shows "declared cmd args = {}"
proof -
  have u: "cmd = cmd'" if "cmd' \<in> set allCommands" "cmd_name cmd = cmd_name cmd'" for cmd'
    using table_name_eq[OF assms(1)] that by blast
  have "plain ''ping'' (-1) cmdPing \<in> set allCommands" "plain ''select'' 2 cmdSelect \<in> set allCommands"
    "plain ''config'' (-2) cmdConfig \<in> set allCommands" by (simp_all add: allCommands_def serverCommands_def)
  then have "\<exists>n a h. cmd = plain n a h" using u assms(2) by (fastforce simp: plain_def)
  then show ?thesis by (auto simp: declared_def Keys_def plain_def)
qed

lemma pops_write: "cmd \<in> set allCommands \<Longrightarrow> cmd_name cmd \<in> {''lpop'', ''rpop''} \<Longrightarrow> \<not> cmd_readOnly cmd \<and> cmd_name cmd \<notin> storeless"
proof -
  have "\<forall>cmd \<in> set allCommands. cmd_name cmd \<in> {''lpop'', ''rpop''} \<longrightarrow> \<not> cmd_readOnly cmd \<and> cmd_name cmd \<notin> storeless"
    by (simp add: allCommands_def command_groups readKey_def readKeys_def writeKey_def writeKeys_def plain_def wholeDB_def)
  then show "cmd \<in> set allCommands \<Longrightarrow> cmd_name cmd \<in> {''lpop'', ''rpop''} \<Longrightarrow> \<not> cmd_readOnly cmd \<and> cmd_name cmd \<notin> storeless"
    by blast
qed

text \<open>
  A handler does what the specification says, unless it panics, which only a pop with a
  count beyond what the runtime allocates can do.
\<close>

lemma handler_see:
  assumes see: "ctx_see rt now c A" "ctx_now c = now"
    and cmd: "cmd \<in> set allCommands" "accepts cmd (int (length args))" "args_ok args"
      "hugeCount args \<longrightarrow> cmd_name cmd \<in> {''lpop'', ''rpop''} \<longrightarrow> cmd_run cmd rt c args \<noteq> None"
  obtains c' r where "cmd_run cmd rt c args = Some (c', r)" "ctx_see rt now c' (spec_cmd rt now cmd args (ctx_index c) A)"
    "IsError r \<Longrightarrow> spec_cmd rt now cmd args (ctx_index c) A = A"
    "cmd_name cmd \<notin> storeless \<Longrightarrow> Context_DB c' = ctx_index c"
proof -
  have inv: "ctx_inv rt c" and idx: "ctx_index c < length A" using see by (auto simp: ctx_see_def ctx_inv_def)
  have T: "returns_touching rt c (declared cmd args) (cmd_run cmd rt c args)"
    "cmd_readOnly cmd \<Longrightarrow> \<exists>r. cmd_run cmd rt c args = Some (c, r)" if "cmd_readOnly cmd \<or> cmd_name cmd \<in> storeless"
    using table_safe[OF cmd(1)] cmd(2,3) pops_write[OF cmd(1)] inv that unfolding safe_def by blast+
  consider (reads) "cmd_readOnly cmd" | (storeless) "\<not> cmd_readOnly cmd" "cmd_name cmd \<in> storeless"
    | (writes) "\<not> cmd_readOnly cmd" "cmd_name cmd \<notin> storeless" by blast
  then show thesis
  proof cases
    case reads
    with T(2)[OF disjI1] see show thesis by (auto simp: spec_cmd_def Context_DB_def intro: that)
  next
    case storeless
    from T(1)[OF disjI2[OF storeless(2)]] obtain c' r where r: "cmd_run cmd rt c args = Some (c', r)" "touches_only rt c c' {}"
      using storeless_keys[OF cmd(1) storeless(2)] by (auto simp: returns_touching_def)
    have "ctx_see rt now c' A" using r(2) see(1) by (auto simp: ctx_see_def touches_only_def fun_eq_iff sees_def live_def)
    with r(1) storeless show thesis by (intro that[of c' r]) (auto simp: spec_cmd_def)
  next
    case writes
    have s: "sees (ctx_now c) (store_of rt c) (A ! ctx_index c)"
      using see idx by (simp add: ctx_see_def entry_at_def store_of_def ctx_Keyspace_def)
    from spec_write_refines[OF cmd(1) writes cmd(2-4) inv s] obtain c' r where
      r: "cmd_run cmd rt c args = Some (c', r)" "ctx_inv rt c'" "same_session c c'"
        "IsError r = snd (spec_write rt now (cmd_name cmd) args (A ! ctx_index c))"
        "sees now (store_of rt c') (fst (spec_write rt now (cmd_name cmd) args (A ! ctx_index c)))"
      unfolding see(2) by blast
    have "ctx_see rt now c' (spec_cmd rt now cmd args (ctx_index c) A)"
      using r(2,3,5) see(1) idx writes
      by (auto simp: ctx_see_def spec_cmd_def same_session_def entry_at_def store_of_def ctx_Keyspace_def nth_list_update)
    moreover have "spec_cmd rt now cmd args (ctx_index c) A = A" if "IsError r"
      using r(4) that writes by (simp add: spec_cmd_def spec_write_def split: prod.splits if_splits)
    moreover have "Context_DB c' = ctx_index c" using r(3) by (simp add: same_session_def Context_DB_def)
    ultimately show thesis using r(1) by (intro that[of c' r]) auto
  qed
qed

section \<open>Runs and their logs\<close>

lemma request_ok_args: "request_ok args \<Longrightarrow> args_ok args"
  by (auto simp: request_ok_def args_ok_def bulk_ok_def slice_ok_def)

text \<open>
  An entry of the history: the time the command ran, then the reading of the clock for the
  log, the database and the words of the request.
\<close>

type_synonym entry = "gotime \<times> int \<times> bytes list"
type_synonym history = "(gotime \<times> entry) list"

text \<open>What one request adds to the history, and the form in which it reaches the log.\<close>

definition loggedOf :: "runtime \<Rightarrow> Server \<Rightarrow> nat \<Rightarrow> readings \<Rightarrow> bytes list \<Rightarrow> history" where
  "loggedOf rt srv idx at args =
     (case Resolve commandTable args of
        Inl e \<Rightarrow> []
      | Inr cmd \<Rightarrow>
          (case cmd_run cmd rt (session srv idx (at_run at)) args of
             None \<Rightarrow> []
           | Some (c, reply) \<Rightarrow>
               if \<not> cmd_readOnly cmd \<and> \<not> IsError reply
               then [(at_run at, at_append at, int (Context_DB c), args)] else []))"

definition logged_form :: "entry \<Rightarrow> int \<times> bytes list" where
  "logged_form e =
     (case e of (ta, db, args) \<Rightarrow>
        (db, case Resolve commandTable args of Inl err \<Rightarrow> args | Inr cmd \<Rightarrow> persistArgs ta cmd args))"

definition log_op :: "gotime \<times> entry \<Rightarrow> logOp" where
  "log_op x = LAppend (fst (logged_form (snd x))) (snd (logged_form (snd x)))"

text \<open>The store of the server after a request is the old one after exactly these appends.\<close>

lemma dispatch_appends:
  assumes "dispatch rt commandTable srv idx at args = (srv', idx', r)"
  shows "srv_persist srv' = map_option (log_run (map log_op (loggedOf rt srv idx at args))) (srv_persist srv)"
proof (cases "Resolve commandTable args")
  case (Inl e)
  moreover have "log_run [] = (\<lambda>s. s)" by (simp add: log_run_def fun_eq_iff)
  ultimately show ?thesis using assms by (simp add: dispatch_def loggedOf_def option.map_ident)
next
  case (Inr cmd)
  obtain srv1 idx1 r1 where e: "execute rt srv idx at cmd args = (srv1, idx1, r1)" using prod_cases3 by blast
  have "srv_persist srv' = srv_persist srv1" using assms e Inr by (auto simp: dispatch_def Let_def split: if_splits)
  moreover have "log_run [] = (\<lambda>s. s)" by (simp add: log_run_def fun_eq_iff)
  ultimately show ?thesis using e Inr
    by (auto simp: execute_def loggedOf_def Let_def option.map_ident log_run_def log_op_def logged_form_def split: option.splits if_splits)
qed

fun runAll :: "runtime \<Rightarrow> Server \<Rightarrow> (nat \<Rightarrow> nat) \<Rightarrow> (nat \<times> readings \<times> bytes list) list \<Rightarrow> Server \<times> history" where
  "runAll rt srv conns [] = (srv, [])"
| "runAll rt srv conns ((i, at, args) # xs) =
     (case dispatch rt commandTable srv (conns i) at args of
        (srv1, idx1, r) \<Rightarrow>
          (case runAll rt srv1 (conns(i := idx1)) xs of
             (srv2, log) \<Rightarrow> (srv2, loggedOf rt srv (conns i) at args @ log)))"

section \<open>What an entry means\<close>

definition spec_logged :: "runtime \<Rightarrow> gotime \<Rightarrow> int \<times> bytes list \<Rightarrow> semStore list \<Rightarrow> semStore list" where
  "spec_logged rt now entry A =
     (case Resolve commandTable (snd entry) of Inl e \<Rightarrow> A | Inr cmd \<Rightarrow> spec_cmd rt now cmd (snd entry) (nat (fst entry)) A)"

lemma length_spec_logged [simp]: "length (spec_logged rt now entry A) = length A"
  by (simp add: spec_logged_def split: sum.split)

abbreviation showLog :: "runtime \<Rightarrow> history \<Rightarrow> semStore list \<Rightarrow> semStore list" where
  "showLog rt log A \<equiv> fold (\<lambda>(t, e). spec_logged rt t (snd e)) log A"

lemma length_showLog [simp]: "length (showLog rt log A) = length A"
  by (induction log arbitrary: A) auto

text \<open>The entries of a history name a database and a command of the table.\<close>

definition entry_known :: "nat \<Rightarrow> entry \<Rightarrow> bool" where
  "entry_known n e \<longleftrightarrow>
     (case e of (ta, db, args) \<Rightarrow>
        0 \<le> db \<and> db < int n \<and> request_ok args \<and> (\<exists>cmd. Resolve commandTable args = Inr cmd))"

lemma Resolve_cmd:
  assumes "Resolve commandTable args = Inr cmd"
  shows "cmd \<in> set allCommands" "accepts cmd (int (length args))" "args \<noteq> []" "map lowerByte (hd args) = cmd_name cmd"
  using assms
  by (auto simp: Resolve_def lookupFold_def commandTable_def dest!: map_of_SomeD split: list.splits option.splits if_splits)

lemma spec_logged_cmd:
  assumes "Resolve commandTable args = Inr cmd" "cmd_name cmd \<notin> storeless \<Longrightarrow> db = int d"
  shows "spec_logged rt now (db, args) A = spec_cmd rt now cmd args d A"
  using assms by (cases "cmd_name cmd \<in> storeless") (auto simp: spec_logged_def spec_cmd_def)

section \<open>A run shows its history\<close>

lemma run_step:
  assumes see: "dbs_see (rt_hash rt) (at_run at) (srv_databases srv) A" "idx < length A"
    and ok: "request_ok args" and run: "dispatch rt commandTable srv idx at args = (srv', idx', r)"
  shows "idx' < length A
    \<and> dbs_see (rt_hash rt) (at_run at) (srv_databases srv') (showLog rt (loggedOf rt srv idx at args) A)
    \<and> (\<forall>x \<in> set (loggedOf rt srv idx at args). entry_known (length A) (snd x))"
proof (cases "Resolve commandTable args")
  case (Inl e)
  with run see show ?thesis by (auto simp: dispatch_def loggedOf_def)
next
  case (Inr cmd)
  let ?c = "session srv idx (at_run at)"
  show ?thesis
  proof (cases "cmd_run cmd rt ?c args = None")
    case True
    then have "srv_databases srv' = srv_databases srv" "idx' = idx"
      using run Inr by (auto simp: dispatch_def execute_def Let_def record_call_def split: if_splits)
    with see True Inr show ?thesis by (simp add: loggedOf_def)
  next
    case False
    have c: "ctx_see rt (at_run at) ?c A" "ctx_now ?c = at_run at" "ctx_index ?c = idx"
      using session_see[OF see] by simp_all
    from handler_see[OF c(1,2) Resolve_cmd(1,2)[OF Inr] request_ok_args[OF ok]] False obtain c' reply where
      h: "cmd_run cmd rt ?c args = Some (c', reply)" "ctx_see rt (at_run at) c' (spec_cmd rt (at_run at) cmd args idx A)"
        "IsError reply \<Longrightarrow> spec_cmd rt (at_run at) cmd args idx A = A" "cmd_name cmd \<notin> storeless \<Longrightarrow> Context_DB c' = idx"
      unfolding c(3) by blast
    have s: "srv_databases srv' = srv_databases (absorb srv c')" "idx' = Context_DB c'"
      using run Inr h(1)
      by (auto simp: dispatch_def execute_def Let_def record_call_def split: option.splits if_splits prod.splits)
    have i: "Context_DB c' < length A" using h(2) by (auto simp: ctx_see_def ctx_inv_def Context_DB_def)
    have "dbs_see (rt_hash rt) (at_run at) (srv_databases srv') (spec_cmd rt (at_run at) cmd args idx A)"
      using absorb_see[OF h(2)] s(1) by simp
    moreover have "spec_cmd rt (at_run at) cmd args idx A = A" if "cmd_readOnly cmd" using that by (simp add: spec_cmd_def)
    moreover have "spec_logged rt (at_run at) (int (Context_DB c'), args) A = spec_cmd rt (at_run at) cmd args idx A"
      using spec_logged_cmd[OF Inr, of "int (Context_DB c')" idx] h(4) by simp
    ultimately show ?thesis using h s(2) i Inr ok by (auto simp: loggedOf_def entry_known_def)
  qed
qed

lemma log_run_append: "log_run (xs @ ys) = (\<lambda>s. log_run ys (log_run xs s))"
  by (simp add: log_run_def fun_eq_iff)

lemma run_shows:
  assumes "runAll rt srv conns xs = (srv', log)" "dbs_see (rt_hash rt) t (srv_databases srv) A" "\<forall>i. conns i < length A"
    "\<forall>(i, at, args) \<in> set xs. request_ok args" "sorted (t # map (\<lambda>(i, at, args). at_run at) xs @ [T])"
  shows "dbs_see (rt_hash rt) T (srv_databases srv') (showLog rt log A)
    \<and> (\<forall>x \<in> set log. entry_known (length A) (snd x))
    \<and> srv_persist srv' = map_option (log_run (map log_op log)) (srv_persist srv)"
  using assms
proof (induction xs arbitrary: srv conns t A log)
  case Nil
  have "log_run [] = (\<lambda>s. s)" by (simp add: log_run_def fun_eq_iff)
  with Nil show ?case by (auto intro: dbs_see_later simp: option.map_ident)
next
  case (Cons x xs)
  obtain i at args where x: "x = (i, at, args)" using prod_cases3 by blast
  obtain srv1 idx1 r where d: "dispatch rt commandTable srv (conns i) at args = (srv1, idx1, r)" using prod_cases3 by blast
  obtain log1 where l: "runAll rt srv1 (conns(i := idx1)) xs = (srv', log1)" "log = loggedOf rt srv (conns i) at args @ log1"
    using Cons.prems(1) d x by (auto split: prod.splits)
  have s0: "dbs_see (rt_hash rt) (at_run at) (srv_databases srv) A"
    using Cons.prems(2,5) x by (auto intro: dbs_see_later)
  have "conns i < length A" "request_ok args" using Cons.prems(3,4) x by simp_all
  from run_step[OF s0 this d] have S1: "idx1 < length A"
    "dbs_see (rt_hash rt) (at_run at) (srv_databases srv1) (showLog rt (loggedOf rt srv (conns i) at args) A)"
    "\<forall>x \<in> set (loggedOf rt srv (conns i) at args). entry_known (length A) (snd x)" by blast+
  have "sorted (at_run at # map (\<lambda>(i, at, args). at_run at) xs @ [T])" using Cons.prems(5) x by simp
  from Cons.IH[OF l(1) S1(2) _ _ this] Cons.prems(3,4) S1(1)
  have I: "dbs_see (rt_hash rt) T (srv_databases srv') (showLog rt log1 (showLog rt (loggedOf rt srv (conns i) at args) A))"
    "\<forall>x \<in> set log1. entry_known (length A) (snd x)"
    "srv_persist srv' = map_option (log_run (map log_op log1)) (srv_persist srv1)" by simp_all
  have "srv_persist srv' = map_option (log_run (map log_op log)) (srv_persist srv)"
    using I(3) dispatch_appends[OF d] by (simp add: l(2) log_run_append option.map_comp comp_def)
  with I(1,2) S1(3) show ?case by (auto simp: l(2))
qed

section \<open>Replay\<close>

text \<open>
  Entries that replay is sure to accept: they name a database and a command, and are no pop
  with a count beyond what the runtime allocates, which would panic if the key held a list.
\<close>

definition hugePop :: "bytes list \<Rightarrow> bool" where
  "hugePop args \<longleftrightarrow> map lowerByte (hd args) \<in> {''lpop'', ''rpop''} \<and> hugeCount args"

definition acceptable :: "nat \<Rightarrow> int \<times> bytes list \<Rightarrow> bool" where
  "acceptable n entry \<longleftrightarrow>
     (case entry of (db, args) \<Rightarrow>
        0 \<le> db \<and> db < int n \<and> args_ok args \<and> \<not> hugePop args \<and> (\<exists>cmd. Resolve commandTable args = Inr cmd))"

lemma replay_step:
  assumes see: "dbs_see (rt_hash rt) (clk n) (srv_databases srv) A" "idx < length A" and ok: "acceptable (length A) (db, args)"
  obtains srv' idx' where "replayCommand rt commandTable clk (srv, idx, n) (db, args) = Some (Inr (srv', idx', Suc n))"
    "idx' < length A" "dbs_see (rt_hash rt) (clk n) (srv_databases srv') (spec_logged rt (clk n) (db, args) A)"
proof -
  let ?c = "(session srv idx (clk n))\<lparr>ctx_index := nat db\<rparr>"
  from ok obtain cmd where cmd: "Resolve commandTable args = Inr cmd" "\<not> hugePop args"
    "args_ok args" "0 \<le> db" "nat db < length A" by (auto simp: acceptable_def)
  have c: "ctx_see rt (clk n) ?c A" "ctx_now ?c = clk n" "ctx_index ?c = nat db"
    using session_see[OF see(1) cmd(5)] by (simp_all add: session_def NewContext_def)
  have "hugeCount args \<longrightarrow> cmd_name cmd \<in> {''lpop'', ''rpop''} \<longrightarrow> cmd_run cmd rt ?c args \<noteq> None"
    using cmd(2) Resolve_cmd(4)[OF cmd(1)] by (auto simp: hugePop_def)
  from handler_see[OF c(1,2) Resolve_cmd(1,2)[OF cmd(1)] cmd(3) this] obtain c' r where
    h: "cmd_run cmd rt ?c args = Some (c', r)" "ctx_see rt (clk n) c' (spec_cmd rt (clk n) cmd args (nat db) A)"
    unfolding c(3) by blast
  have "Context_Select (session srv idx (clk n)) db = Some ?c"
    using cmd(4,5) session_see[OF see] by (simp add: Context_Select_def ctx_see_def)
  with h(1) cmd(1) have "replayCommand rt commandTable clk (srv, idx, n) (db, args) = Some (Inr (absorb srv c', Context_DB c', Suc n))"
    by (simp add: replayCommand_def Dispatch_def)
  moreover have "Context_DB c' < length A" using h(2) by (auto simp: ctx_see_def ctx_inv_def Context_DB_def)
  moreover have "dbs_see (rt_hash rt) (clk n) (srv_databases (absorb srv c')) (spec_logged rt (clk n) (db, args) A)"
    using absorb_see[OF h(2)] cmd(1) by (simp add: spec_logged_def)
  ultimately show thesis by (rule that)
qed

text \<open>What the replay of a history, in its logged form, shows.\<close>

fun replayed :: "runtime \<Rightarrow> (nat \<Rightarrow> gotime) \<Rightarrow> nat \<Rightarrow> semStore list \<Rightarrow> history \<Rightarrow> semStore list" where
  "replayed rt clk n B [] = B"
| "replayed rt clk n B (x # log) = replayed rt clk (Suc n) (spec_logged rt (clk n) (logged_form (snd x)) B) log"

lemma replay_shows:
  assumes "dbs_see (rt_hash rt) u (srv_databases srv) B" "idx < length B"
    "\<forall>x \<in> set log. acceptable (length B) (logged_form (snd x))" "sorted (u # map clk [n..<n + length log] @ [U])"
  shows "\<exists>srv' idx'. replayAll (replayCommand rt commandTable clk) (srv, idx, n) m (map (\<lambda>x. logged_form (snd x)) log)
      = Some ((srv', idx', n + length log), m + int (length log), None)
    \<and> dbs_see (rt_hash rt) U (srv_databases srv') (replayed rt clk n B log)"
  using assms
proof (induction log arbitrary: srv idx n m u B)
  case Nil
  then show ?case by (auto intro: dbs_see_later)
next
  case (Cons x log)
  obtain db args where x: "logged_form (snd x) = (db, args)" by fastforce
  have up: "[n..<n + length (x # log)] = n # [Suc n..<Suc n + length log]" using upt_rec[of n "n + length (x # log)"] by simp
  have s: "dbs_see (rt_hash rt) (clk n) (srv_databases srv) B"
    using Cons.prems(1,4) unfolding up by (auto intro: dbs_see_later)
  have e: "acceptable (length B) (db, args)" using Cons.prems(3) x by simp
  obtain srv1 idx1 where
    r: "replayCommand rt commandTable clk (srv, idx, n) (db, args) = Some (Inr (srv1, idx1, Suc n))" "idx1 < length B"
      "dbs_see (rt_hash rt) (clk n) (srv_databases srv1) (spec_logged rt (clk n) (db, args) B)"
    by (rule replay_step[where clk = clk, OF s Cons.prems(2) e])
  have "sorted (clk n # map clk [Suc n..<Suc n + length log] @ [U])" using Cons.prems(4) unfolding up by simp
  from Cons.IH[OF r(3) _ _ this, of idx1 "m + 1"] r Cons.prems(3) x show ?case by (simp add: algebra_simps)
qed

section \<open>A concrete run\<close>

definition demo_set :: "nat \<times> readings \<times> bytes list" where
  "demo_set = (0, demo_at 0, [''SET'', ''k'', ''v''])"

lemma demo_srv_sees: "dbs_see hash now (srv_databases demo_srv) [Map.empty]"
  using demo_srv_ok(1)[of hash] demo_srv_ok(3) by (auto simp: dbs_see_def empty_dbs_def sees_def live_def unexpired_def)

lemma demo_set_ok: "request_ok [''SET'', ''k'', ''v'']"
  by (simp add: request_ok_def bulk_ok_def)

lemma demo_set_resolves: "Resolve commandTable [''SET'', ''k'', ''v''] = Inr (writeKey ''set'' 3 cmdSet)"
proof -
  have "map lowerByte ''SET'' = ''set''" by code_simp
  then have "lookupFold commandTable ''SET'' = Some (writeKey ''set'' 3 cmdSet)"
    by (intro lookupFold_table) (simp_all add: allCommands_def command_groups writeKey_def)
  then show ?thesis by (simp add: Resolve_def accepts_def writeKey_def)
qed

lemma demo_set_form: "logged_form (ta, db, [''SET'', ''k'', ''v'']) = (db, [''SET'', ''k'', ''v''])"
  by (simp add: logged_form_def demo_set_resolves persistArgs_def writeKey_def)

lemma demo_set_logged:
  assumes "srv_inv demo_rt srv" "srv_databases srv \<noteq> []"
  shows "snd (runAll demo_rt srv (\<lambda>i. 0) [demo_set]) = [(0, 0, 0, [''SET'', ''k'', ''v''])]"
proof -
  let ?c = "session srv 0 0"
  have "ctx_inv demo_rt ?c" using session_inv[OF assms(1)] assms(2) by simp
  from cmdSet_spec[OF this, of "[''SET'', ''k'', ''v'']"] obtain c' where
    "cmdSet demo_rt ?c [''SET'', ''k'', ''v''] = Some (c', Reply_OK)" "ctx_to demo_rt ?c c' ((store_of demo_rt ?c)(''k'' \<mapsto> fresh_entry (MakeString ''v'')))"
    by (auto simp: slice_ok_def)
  moreover from this(2) have "Context_DB c' = 0" by (simp add: ctx_to_def same_session_def Context_DB_def)
  ultimately show ?thesis
    using demo_set_resolves by (simp add: demo_set_def demo_at_def loggedOf_def writeKey_def Reply_OK_def split: prod.split)
qed

end
