(* ===== verification/Agreement.thy ===== *)
theory Agreement
  imports Replay
begin

text \<open>
  How far a replayed log agrees with the run that wrote it, key by key. Every command acts
  on the entry under a key from that entry alone, so the two histories of a key can be
  compared without regard to other keys. Values agree exactly; a deadline set by \<open>EXPIRE\<close>
  is logged from a second reading of the clock and in whole milliseconds, so it comes back
  less than a millisecond early and at most as much late as the two readings lie apart.
  The agreement holds as long as the commands that change the key in place meet it on the
  same side of its deadline when they run and when they are replayed.
\<close>

section \<open>What an entry does to one key\<close>

definition key_step :: "runtime \<Rightarrow> gotime \<Rightarrow> int \<times> bytes list \<Rightarrow> nat \<times> bytes \<Rightarrow> semEntry option \<Rightarrow> semEntry option" where
  "key_step rt now entry dk x =
     (case Resolve commandTable (snd entry) of
        Inl err \<Rightarrow> x
      | Inr cmd \<Rightarrow>
          if cmd_readOnly cmd \<or> cmd_name cmd \<in> storeless \<or> fst dk \<noteq> nat (fst entry) then x
          else if cmd_name cmd \<in> {''del'', ''unlink''} then (if snd dk \<in> set (drop 1 (snd entry)) then None else x)
          else if cmd_name cmd = ''flushdb'' then None
          else if snd dk \<noteq> snd entry ! 1 then x
          else (case spec_key rt now (cmd_name cmd) (snd entry) (unexpired now x) of (y, err) \<Rightarrow> if err then x else y))"

lemma key_step_spec:
  assumes "d < length A"
  shows "(spec_logged rt now entry A ! d) k = key_step rt now entry (d, k) ((A ! d) k)"
  using assms
  by (auto simp: spec_logged_def spec_cmd_def spec_write_def key_step_def restrict_map_def nth_list_update
      split: sum.split prod.split)

text \<open>The entry changes the key from what it held, rather than replacing or removing it.\<close>

definition in_place :: "int \<times> bytes list \<Rightarrow> nat \<times> bytes \<Rightarrow> bool" where
  "in_place entry dk \<longleftrightarrow>
     (case Resolve commandTable (snd entry) of
        Inl err \<Rightarrow> False
      | Inr cmd \<Rightarrow> \<not> cmd_readOnly cmd \<and> cmd_name cmd \<notin> insert ''set'' special \<and> dk = (nat (fst entry), snd entry ! 1))"

section \<open>Entries that agree\<close>

definition near :: "duration \<Rightarrow> semEntry option \<Rightarrow> semEntry option \<Rightarrow> bool" where
  "near \<delta> x y \<longleftrightarrow>
     (case (x, y) of
        (None, None) \<Rightarrow> True
      | (Some (v, t), Some (w, u)) \<Rightarrow>
          v = w \<and> (t = u \<or> (t \<noteq> zeroTime \<and> u \<noteq> zeroTime \<and> t - 1000000 < u \<and> u \<le> t + \<delta>))
      | _ \<Rightarrow> False)"

lemma near_simps [simp]:
  "near \<delta> None y \<longleftrightarrow> y = None" "near \<delta> x None \<longleftrightarrow> x = None"
  "near \<delta> (Some (v, t)) (Some (w, u)) \<longleftrightarrow>
     v = w \<and> (t = u \<or> (t \<noteq> zeroTime \<and> u \<noteq> zeroTime \<and> t - 1000000 < u \<and> u \<le> t + \<delta>))"
  by (auto simp: near_def split: option.splits)

lemma near_refl [simp]: "near \<delta> x x"
  by (cases x) auto

text \<open>A key without a deadline agrees exactly.\<close>

lemma near_undated: "near \<delta> (Some (v, zeroTime)) y \<Longrightarrow> y = Some (v, zeroTime)"
  by (cases y) auto

text \<open>The entry is on the same side of its deadline at the run and, with a margin, at the replay.\<close>

definition settled :: "duration \<Rightarrow> gotime \<Rightarrow> gotime \<Rightarrow> semEntry option \<Rightarrow> bool" where
  "settled \<delta> tm tr x \<longleftrightarrow>
     (case x of
        None \<Rightarrow> True
      | Some (v, t) \<Rightarrow> t = zeroTime \<or> (t \<le> tm \<and> t + \<delta> \<le> tr) \<or> (tm < t \<and> tr + 1000000 \<le> t))"

lemma near_unexpired:
  assumes "near \<delta> x y" "settled \<delta> tm tr x" "0 \<le> \<delta>"
  shows "near \<delta> (unexpired tm x) (unexpired tr y)"
  using assms by (cases x; cases y) (auto simp: settled_def unexpired_def)

section \<open>Every command keeps the agreement\<close>

definition agree :: "duration \<Rightarrow> semEntry option \<times> bool \<Rightarrow> semEntry option \<times> bool \<Rightarrow> bool" where
  "agree \<delta> p q \<longleftrightarrow> near \<delta> (fst p) (fst q) \<and> snd p = snd q"

lemma agree_same [simp]: "agree \<delta> (x, e) (y, e) \<longleftrightarrow> near \<delta> x y"
  by (simp add: agree_def)

lemma agree_expire: "near \<delta> x y \<Longrightarrow> agree \<delta> (spec_expire at x) (spec_expire at y)"
  by (cases x; cases y) (auto simp: agree_def spec_expire_def split: option.splits)

lemma agree_values:
  assumes "near \<delta> x y"
  shows "agree \<delta> (spec_incr delta x) (spec_incr delta y)" "agree \<delta> (spec_push front vs x) (spec_push front vs y)"
    "agree \<delta> (spec_pop front args x) (spec_pop front args y)" "agree \<delta> (spec_hset args x) (spec_hset args y)"
    "agree \<delta> (spec_hdel fs x) (spec_hdel fs y)" "agree \<delta> (spec_sadd ms x) (spec_sadd ms y)"
    "agree \<delta> (spec_srem ms x) (spec_srem ms y)" "agree \<delta> (spec_zadd qs x) (spec_zadd qs y)"
  using assms
  by (cases x; cases y;
      auto simp: agree_def spec_incr_def spec_push_def spec_pop_def spec_hset_def spec_hdel_def spec_sadd_def spec_srem_def
        spec_zadd_def Let_def split: semValue.splits option.splits sum.splits)+

lemma agree_key:
  assumes "near \<delta> x y" "name \<noteq> ''expire''" "rt_parseFloat rt' = rt_parseFloat rt"
  shows "agree \<delta> (spec_key rt now name args x) (spec_key rt' now' name args y)"
proof -
  have p: "parseScores rt' ps = parseScores rt ps" for ps using assms(3) by (induction ps) (auto split: option.split)
  show ?thesis
    unfolding spec_key_def p using assms(1,2) agree_values[OF assms(1)] agree_expire[OF assms(1)] by (simp del: agree_values)
qed

text \<open>
  \<open>EXPIRE\<close> and its logged form. The reading of the clock for the log comes after the one the
  command ran with, by at most \<open>\<delta>\<close>; both lie between 1970 and 2262, the range of 64-bit
  nanoseconds.
\<close>

definition timely :: "duration \<Rightarrow> gotime \<Rightarrow> gotime \<Rightarrow> bool" where
  "timely \<delta> tm ta \<longleftrightarrow> 0 \<le> tm \<and> tm \<le> ta \<and> ta \<le> tm + \<delta> \<and> ta \<le> maxInt64"

lemma logged_deadline:
  fixes secs :: int
  assumes "timely \<delta> tm ta"
  defines "t \<equiv> addTime tm (secondsDuration secs)" and "ms \<equiv> toUnixMilli (addTime ta (secondsDuration secs))"
  shows "int64_ok ms" "t \<noteq> zeroTime" "unixMilli ms \<noteq> zeroTime" "t - 1000000 < unixMilli ms" "unixMilli ms \<le> t + \<delta>"
proof -
  have s: "minInt64 \<le> secondsDuration secs" "secondsDuration secs \<le> maxInt64"
    using int64_ok_wrap64[of "secs * 1000000000"] unfolding int64_ok_def secondsDuration_def by blast+
  have d: "1000000 * (x div 1000000) \<le> x" "x - 1000000 < 1000000 * (x div 1000000)" for x :: int
    using div_mult_mod_eq[of x 1000000] pos_mod_bound[of 1000000 x] pos_mod_sign[of 1000000 x] by linarith+
  note D = d[of "ta + secondsDuration secs"]
  have T: "0 \<le> tm" "tm \<le> ta" "ta \<le> tm + \<delta>" "ta \<le> maxInt64" using assms(1) by (simp_all add: timely_def)
  show "int64_ok ms" using D s T by (simp add: ms_def int64_ok_def toUnixMilli_def addTime_def)
  show "t \<noteq> zeroTime" "unixMilli ms \<noteq> zeroTime" "t - 1000000 < unixMilli ms" "unixMilli ms \<le> t + \<delta>"
    using D s T by (simp_all add: t_def ms_def toUnixMilli_def unixMilli_def addTime_def zeroTime_def)
qed

lemma expire_command:
  assumes "Resolve commandTable args = Inr cmd" "cmd_name cmd = ''expire''"
  shows "\<not> cmd_readOnly cmd" "length args = 3"
proof -
  have "writeKey ''expire'' 3 cmdExpire \<in> set allCommands" by (simp add: allCommands_def command_groups)
  with table_name_eq[OF Resolve_cmd(1)[OF assms(1)]] assms(2) have c: "cmd = writeKey ''expire'' 3 cmdExpire" by (simp add: writeKey_def)
  then show "\<not> cmd_readOnly cmd" "length args = 3" using Resolve_cmd(2)[OF assms(1)] by (simp_all add: writeKey_def accepts_def)
qed

lemma pexpireat_resolves:
  "\<exists>cmd. Resolve commandTable [''PEXPIREAT'', k, v] = Inr cmd \<and> cmd_name cmd = ''pexpireat'' \<and> \<not> cmd_readOnly cmd"
proof -
  have "writeKey ''pexpireat'' 3 cmdPExpireAt \<in> set allCommands" by (simp add: allCommands_def command_groups)
  moreover have "map lowerByte ''PEXPIREAT'' = ''pexpireat''" by code_simp
  ultimately have "lookupFold commandTable ''PEXPIREAT'' = Some (writeKey ''pexpireat'' 3 cmdPExpireAt)"
    by (intro lookupFold_table) (simp_all add: writeKey_def)
  then show ?thesis by (simp add: Resolve_def writeKey_def accepts_def)
qed

text \<open>The two forms a request can take in the log.\<close>

lemma logged_form_cases:
  assumes "Resolve commandTable args = Inr cmd"
  obtains (verbatim) "logged_form (ta, db, args) = (db, args)" "cmd_name cmd = ''expire'' \<Longrightarrow> parseInt (args ! 2) = None"
    | (rewritten) secs where "cmd_name cmd = ''expire''" "\<not> cmd_readOnly cmd" "parseInt (args ! 2) = Some secs"
        "logged_form (ta, db, args) = (db, [''PEXPIREAT'', args ! 1, formatInt (toUnixMilli (addTime ta (secondsDuration secs)))])"
proof (cases "cmd_name cmd = ''expire'' \<and> parseInt (args ! 2) \<noteq> None")
  case True
  then show thesis using rewritten expire_command[OF assms] assms by (auto simp: logged_form_def persistArgs_def)
next
  case False
  then show thesis using verbatim assms by (auto simp: logged_form_def persistArgs_def)
qed

section \<open>One entry\<close>

lemma near_case: "agree \<delta> p q \<Longrightarrow> near \<delta> x y \<Longrightarrow>
    near \<delta> (case p of (z, err) \<Rightarrow> if err then x else z) (case q of (z, err) \<Rightarrow> if err then y else z)"
  by (auto simp: agree_def split: prod.splits)

lemma near_step:
  assumes xy: "near \<delta> x y" and d: "0 \<le> \<delta>" "timely \<delta> tm ta" and cmd: "Resolve commandTable args = Inr cmd"
    and s: "in_place (db, args) dk \<Longrightarrow> settled \<delta> tm tr x" and pf: "rt_parseFloat rt' = rt_parseFloat rt"
  shows "near \<delta> (key_step rt tm (db, args) dk x) (key_step rt' tr (logged_form (ta, db, args)) dk y)"
  using cmd
proof (cases rule: logged_form_cases[where ta = ta and db = db])
  case verbatim
  consider (off) "cmd_readOnly cmd \<or> cmd_name cmd \<in> storeless \<or> fst dk \<noteq> nat db" | (many) "cmd_name cmd \<in> {''del'', ''unlink'', ''flushdb''}"
    | (set) "cmd_name cmd = ''set''" | (other) "snd dk \<noteq> args ! 1" "cmd_name cmd \<notin> special"
    | (here) "in_place (db, args) dk" using cmd by (cases dk) (auto simp: in_place_def)
  then show ?thesis
  proof cases
    case here
    then have u: "near \<delta> (unexpired tm x) (unexpired tr y)" by (intro near_unexpired[OF xy s d(1)])
    have "agree \<delta> (spec_key rt tm (cmd_name cmd) args (unexpired tm x)) (spec_key rt' tr (cmd_name cmd) args (unexpired tr y))"
    proof (cases "cmd_name cmd = ''expire''")
      case True
      then show ?thesis using verbatim(2) u by (simp add: spec_key_def spec_expire_def)
    qed (rule agree_key[OF u _ pf])
    from near_case[OF this xy] xy cmd verbatim(1) show ?thesis by (simp add: key_step_def)
  qed (use xy cmd verbatim(1) in \<open>auto simp: key_step_def spec_key_def\<close>)
next
  case (rewritten secs)
  let ?ms = "toUnixMilli (addTime ta (secondsDuration secs))" and ?k = "args ! 1"
  note D = logged_deadline[OF d(2), of secs]
  obtain cmd' where c': "Resolve commandTable [''PEXPIREAT'', ?k, formatInt ?ms] = Inr cmd'" "cmd_name cmd' = ''pexpireat''" "\<not> cmd_readOnly cmd'"
    using pexpireat_resolves by blast
  show ?thesis
  proof (cases "dk = (nat db, ?k)")
    case True
    then have "in_place (db, args) dk" using cmd rewritten(1,2) by (simp add: in_place_def)
    from near_unexpired[OF xy s[OF this] d(1)]
    have "agree \<delta> (spec_expire (Some (addTime tm (secondsDuration secs))) (unexpired tm x)) (spec_expire (Some (unixMilli ?ms)) (unexpired tr y))"
      using D(2-5) by (cases "unexpired tm x"; cases "unexpired tr y") (auto simp: spec_expire_def)
    from near_case[OF this xy] True cmd c' rewritten D(1) show ?thesis
      by (simp add: key_step_def spec_key_def parseInt_formatInt nth_Cons')
  next
    case False
    then have "fst dk \<noteq> nat db \<or> snd dk \<noteq> ?k" by (cases dk) auto
    with xy cmd c' rewritten show ?thesis by (auto simp: key_step_def)
  qed
qed

text \<open>The logged form of an entry is one that replay accepts, and one that the log reads back.\<close>

lemma logged_form_ok:
  assumes e: "entry_known n (ta, db, args)" "\<not> hugePop args" and t: "timely \<delta> tm ta" and n: "int n \<le> maxInt64"
  shows "acceptable n (logged_form (ta, db, args)) \<and> good_command (logged_form (ta, db, args))"
proof -
  from e obtain cmd where cmd: "Resolve commandTable args = Inr cmd" and db: "0 \<le> db" "db < int n" and r: "request_ok args"
    by (auto simp: entry_known_def)
  have g: "good_command (db, ws)" if "request_ok ws" for ws
    using that db n by (auto simp: good_command_def request_ok_def bulk_ok_def alloc_ok_def int64_ok_def)
  from cmd show ?thesis
  proof (cases rule: logged_form_cases[where ta = ta and db = db])
    case verbatim
    with cmd db e(2) r g[OF r] request_ok_args[OF r] show ?thesis by (auto simp: acceptable_def)
  next
    case (rewritten secs)
    let ?ws = "[''PEXPIREAT'', args ! 1, formatInt (toUnixMilli (addTime ta (secondsDuration secs)))]"
    have "args ! 1 \<in> set args" using expire_command(2)[OF cmd rewritten(1)] by simp
    then have ok: "request_ok ?ws"
      using r formatInt_length[OF logged_deadline(1)[OF t, of secs]] by (auto simp: request_ok_def bulk_ok_def)
    moreover have "\<not> hugePop ?ws" by (simp add: hugePop_def lowerByte_def)
    ultimately show ?thesis
      using db g[OF ok] request_ok_args[OF ok] pexpireat_resolves rewritten(4) by (fastforce simp: acceptable_def)
  qed
qed

section \<open>A whole log\<close>

text \<open>
  Every command that changes the key in place is replayed on the same side of the deadline
  the key had when it ran. \<open>x\<close> is what the key holds before the log, \<open>n\<close> the number of clock
  readings the boot has made.
\<close>

fun steady :: "runtime \<Rightarrow> duration \<Rightarrow> (nat \<Rightarrow> gotime) \<Rightarrow> nat \<Rightarrow> nat \<times> bytes \<Rightarrow> semEntry option \<Rightarrow> history \<Rightarrow> bool" where
  "steady rt \<delta> clk n dk x [] = True"
| "steady rt \<delta> clk n dk x ((tm, e) # log) =
     ((in_place (snd e) dk \<longrightarrow> settled \<delta> tm (clk n) x) \<and> steady rt \<delta> clk (Suc n) dk (key_step rt tm (snd e) dk x) log)"

lemma steady_take: "steady rt \<delta> clk n dk x log \<Longrightarrow> steady rt \<delta> clk n dk x (take k log)"
proof (induction log arbitrary: n x k)
  case (Cons e log)
  then show ?case by (cases e; cases k) auto
qed simp

text \<open>What the history must be like for its log to be replayed: see \<open>timely\<close> and \<open>hugePop\<close>.\<close>

definition replayable :: "duration \<Rightarrow> history \<Rightarrow> bool" where
  "replayable \<delta> log \<longleftrightarrow> (\<forall>(tm, ta, db, args) \<in> set log. timely \<delta> tm ta \<and> \<not> hugePop args)"

lemma replayable_sub: "replayable \<delta> log \<Longrightarrow> set log' \<subseteq> set log \<Longrightarrow> replayable \<delta> log'"
  by (auto simp: replayable_def)

lemma replay_near:
  assumes "near \<delta> ((A ! d) k) ((B ! d) k)" "steady rt \<delta> clk n (d, k) ((A ! d) k) log"
    "d < length A" "length B = length A" "\<forall>x \<in> set log. entry_known (length A) (snd x)" "replayable \<delta> log" "0 \<le> \<delta>"
    "rt_parseFloat rt' = rt_parseFloat rt"
  shows "near \<delta> ((showLog rt log A ! d) k) ((replayed rt' clk n B log ! d) k)"
  using assms
proof (induction log arbitrary: A B n)
  case (Cons x log)
  obtain tm ta db args where x: "x = (tm, ta, db, args)" using prod_cases4 by blast
  obtain cmd where cmd: "Resolve commandTable args = Inr cmd" using Cons.prems(5) x by (auto simp: entry_known_def)
  have "timely \<delta> tm ta" using Cons.prems(6) x by (simp add: replayable_def)
  moreover have "in_place (db, args) (d, k) \<longrightarrow> settled \<delta> tm (clk n) ((A ! d) k)" using Cons.prems(2) x by simp
  ultimately have "near \<delta> (key_step rt tm (db, args) (d, k) ((A ! d) k)) (key_step rt' (clk n) (logged_form (ta, db, args)) (d, k) ((B ! d) k))"
    using near_step[OF Cons.prems(1,7) _ cmd _ Cons.prems(8)] by blast
  with Cons.prems(3,4) have "near \<delta> ((spec_logged rt tm (db, args) A ! d) k) ((spec_logged rt' (clk n) (logged_form (ta, db, args)) B ! d) k)"
    by (simp add: key_step_spec)
  from Cons.IH[OF this] Cons.prems(2-8) x show ?case by (auto simp: key_step_spec replayable_def)
qed simp

lemma log_forms_ok:
  assumes "\<forall>x \<in> set log. entry_known n (snd x)" "replayable \<delta> log" "int n \<le> maxInt64" "x \<in> set log"
  shows "acceptable n (logged_form (snd x)) \<and> good_command (logged_form (snd x))"
proof -
  obtain tm ta db args where x: "x = (tm, ta, db, args)" using prod_cases4 by blast
  have "entry_known n (ta, db, args)" using assms(1,4) x by force
  moreover have "timely \<delta> tm ta \<and> \<not> hugePop args" using assms(2,4) x by (auto simp: replayable_def)
  ultimately show ?thesis using logged_form_ok[where tm = tm, OF _ _ _ assms(3)] x by (metis snd_conv)
qed

text \<open>A key that no \<open>EXPIRE\<close> or \<open>PEXPIREAT\<close> of the log names, and that starts without a deadline, never has one.\<close>

definition dates :: "int \<times> bytes list \<Rightarrow> nat \<times> bytes \<Rightarrow> bool" where
  "dates entry dk \<longleftrightarrow> map lowerByte (hd (snd entry)) \<in> {''expire'', ''pexpireat''} \<and> in_place entry dk"

definition undated :: "semEntry option \<Rightarrow> bool" where
  "undated x \<longleftrightarrow> (case x of None \<Rightarrow> True | Some (v, t) \<Rightarrow> t = zeroTime)"

lemma undated_simps [simp]: "undated None" "undated (Some (v, t)) \<longleftrightarrow> t = zeroTime"
  by (simp_all add: undated_def)

lemma undated_values:
  assumes "undated x"
  shows "undated (fst (spec_incr delta x))" "undated (fst (spec_push front vs x))" "undated (fst (spec_pop front args x))"
    "undated (fst (spec_hset args x))" "undated (fst (spec_hdel fs x))" "undated (fst (spec_sadd ms x))"
    "undated (fst (spec_srem ms x))" "undated (fst (spec_zadd qs x))" "undated (fst (spec_expire (Some zeroTime) x))"
  using assms
  by (cases x;
      auto simp: spec_incr_def spec_push_def spec_pop_def spec_hset_def spec_hdel_def spec_sadd_def spec_srem_def
        spec_zadd_def spec_expire_def Let_def split: semValue.split option.split sum.split)+

lemma undated_step:
  assumes "undated x" "\<not> dates entry dk"
  shows "undated (key_step rt now entry dk x)"
proof (cases "Resolve commandTable (snd entry)")
  case (Inr cmd)
  have u: "undated (unexpired now x)" using assms(1) by (cases x) (auto simp: unexpired_def)
  show ?thesis
  proof (cases "in_place entry dk")
    case True
    then have "cmd_name cmd \<notin> {''expire'', ''pexpireat''}" using assms(2) Resolve_cmd(4)[OF Inr] by (auto simp: dates_def)
    then have "undated (fst (spec_key rt now (cmd_name cmd) (snd entry) (unexpired now x)))"
      using undated_values[OF u] u by (simp add: spec_key_def)
    with assms(1) Inr show ?thesis by (simp add: key_step_def case_prod_beta)
  next
    case False
    moreover have "spec_key rt now ''set'' (snd entry) y = (Some (SString (snd entry ! 2), zeroTime), False)" for y
      by (simp add: spec_key_def)
    ultimately show ?thesis using assms(1) Inr by (cases dk; cases "cmd_name cmd = ''set''") (auto simp: key_step_def in_place_def)
  qed
qed (use assms(1) in \<open>simp add: key_step_def\<close>)

lemma undated_steady:
  "undated x \<Longrightarrow> \<forall>(tm, e) \<in> set log. \<not> dates (snd e) dk \<Longrightarrow> steady rt \<delta> clk n dk x log"
proof (induction log arbitrary: n x)
  case (Cons e log)
  obtain tm e' where e: "e = (tm, e')" by (cases e)
  have "settled \<delta> tm (clk n) x" using Cons.prems(1) by (cases x) (auto simp: settled_def)
  with Cons.IH[OF undated_step[OF Cons.prems(1)]] Cons.prems(2) e show ?case by auto
qed simp

text \<open>At such a key the agreement is equality.\<close>

lemma undated_shown:
  "d < length A \<Longrightarrow> undated ((A ! d) k) \<Longrightarrow> \<forall>(tm, e) \<in> set log. \<not> dates (snd e) (d, k) \<Longrightarrow> undated ((showLog rt log A ! d) k)"
  by (induction log arbitrary: A) (auto simp: key_step_spec undated_step)

lemma undated_exact:
  assumes "d < length A" "undated ((A ! d) k)" "\<forall>(tm, e) \<in> set log. \<not> dates (snd e) (d, k)"
    "near \<delta> ((showLog rt log A ! d) k) y"
  shows "y = (showLog rt log A ! d) k"
  using undated_shown[OF assms(1-3), of rt] assms(4) by (cases "(showLog rt log A ! d) k") (auto dest: near_undated)

lemma undated_resteady:
  assumes "d < length A" "undated ((A ! d) k)" "\<forall>(tm, e) \<in> set log. \<not> dates (snd e) (d, k)"
  shows "steady rt \<delta> clk m (d, k) ((showLog rt (take n log) A ! d) k) (drop n log)"
proof (rule undated_steady)
  have "\<forall>(tm, e) \<in> set (take n log). \<not> dates (snd e) (d, k)" using assms(3) set_take_subset[of n log] by blast
  then show "undated ((showLog rt (take n log) A ! d) k)" by (rule undated_shown[OF assms(1,2)])
  show "\<forall>(tm, e) \<in> set (drop n log). \<not> dates (snd e) (d, k)" using assms(3) set_drop_subset[of n log] by blast
qed

lemma replay_agrees:
  assumes "dbs_see (rt_hash rt') u (srv_databases boot) B" "idx < length A" "length B = length A"
    "\<forall>x \<in> set log. entry_known (length A) (snd x)" "replayable \<delta> log" "0 \<le> \<delta>" "rt_parseFloat rt' = rt_parseFloat rt"
    "sorted (u # map clk [n..<n + length log] @ [U])"
  shows "\<exists>boot' idx' B'. replayAll (replayCommand rt' commandTable clk) (boot, idx, n) m (map (\<lambda>x. logged_form (snd x)) log)
      = Some ((boot', idx', n + length log), m + int (length log), None)
    \<and> dbs_see (rt_hash rt') U (srv_databases boot') B' \<and> length B' = length A
    \<and> (\<forall>d < length A. \<forall>k. near \<delta> ((A ! d) k) ((B ! d) k) \<longrightarrow> steady rt \<delta> clk n (d, k) ((A ! d) k) log \<longrightarrow>
         near \<delta> ((showLog rt log A ! d) k) ((B' ! d) k))"
proof -
  have n: "int (length A) \<le> maxInt64" using assms(1,3) by (simp add: dbs_see_def dbs_inv_def)
  have "\<forall>x \<in> set log. acceptable (length B) (logged_form (snd x))" using log_forms_ok[OF assms(4,5) n] assms(3) by simp
  from replay_shows[OF assms(1) _ _ assms(8), of idx m] this assms(2,3) obtain boot' idx' where
    "replayAll (replayCommand rt' commandTable clk) (boot, idx, n) m (map (\<lambda>x. logged_form (snd x)) log)
      = Some ((boot', idx', n + length log), m + int (length log), None)"
    "dbs_see (rt_hash rt') U (srv_databases boot') (replayed rt' clk n B log)" by auto
  moreover have "length (replayed rt' clk n B log) = length B" for n B by (induction log arbitrary: n B) simp_all
  ultimately show ?thesis
    using replay_near[where A = A and B = B, OF _ _ _ assms(3-7)] assms(3) by (intro exI[of _ boot'] exI[of _ idx'] exI) auto
qed

text \<open>The concrete run of theory Replay.\<close>

lemma demo_set_replayable: "replayable 0 [(0, 0, 0, [''SET'', ''k'', ''v''])]"
  by (simp add: replayable_def timely_def hugePop_def lowerByte_def)

lemma demo_set_steady: "steady rt \<delta> clk n dk x [(0, 0, 0, [''SET'', ''k'', ''v''])]"
  by (simp add: in_place_def demo_set_resolves writeKey_def)

end
