(* ===== verification/Findings.thy ===== *)
theory Findings
  imports Memcored Agreement
begin

text \<open>
  Behaviour of the code that its comments, or its purpose, do not have: each lemma is a
  concrete run of the definitions of the development.
\<close>

section \<open>The log\<close>

text \<open>
  A crash leaves a partial record at the end of the active segment. Recovery stops there,
  but \<open>Open\<close> appends after it, so the next record is read as part of the broken one: a
  write that was synced under the policy \<open>always\<close> and acknowledged is not replayed.
\<close>

definition tornTail :: bytes where
  "tornTail = take 5 (encodeCommand (0, [''SET'', ''k'', ''v'']))"

definition tornStore :: Store where
  "tornStore =
     \<lparr>st_dir = [(segmentPath 0, tornTail)], st_fsync = ''always'', st_gen = 0, st_open = True, st_buf = [], st_err = False,
      st_synced = 0, st_calls = 2, st_fault = (\<lambda>n. None)\<rparr>"

lemma torn_open: "Open [(segmentPath 0, tornTail)] ''always'' (\<lambda>n. None) = Some tornStore"
proof -
  have "scanSegment (segmentPath 0) = Some 0" by (rule scan_segmentPath) (simp add: int64_ok_def)
  then have "highestSegment [(segmentPath 0, tornTail)] = 0" by (simp add: highestSegment_def)
  moreover have "snapshotBaseGen (map_of [(segmentPath 0, tornTail)] snapshotName) = None"
    using segmentPath_names(1)[of 0] by (simp add: snapshotBaseGen_def)
  ultimately show ?thesis by (simp add: Open_def openSegment_def sysCall_def tornStore_def)
qed

lemma torn_append:
  "snd (Store_Append tornStore 0 [''DEL'', ''k''])"
  "st_dir (fst (Store_Append tornStore 0 [''DEL'', ''k''])) = [(segmentPath 0, tornTail @ encodeCommand (0, [''DEL'', ''k'']))]"
  by code_simp+

lemma torn_record_lost:
  "replayLoop replay st 0 (tornTail @ encodeCommand (0, [''DEL'', ''k''])) = Some (st, 0, None)"
proof -
  have "tornTail @ encodeCommand (0, [''DEL'', ''k'']) =
      [CHR 0x00, CHR 0x03, CHR 0x03, CHR ''S'', CHR ''E'', CHR 0x00, CHR 0x02, CHR 0x03, CHR ''D'', CHR ''E'', CHR ''L'', CHR 0x01, CHR ''k'']"
    by code_simp
  then have "readCommand (tornTail @ encodeCommand (0, [''DEL'', ''k''])) = Some (Inl UnexpectedEOF)"
    by (simp add: readCommand_def readUvarint_def readBytes_def readFull_def numeral_3_eq_3 numeral_2_eq_2 unexpectedEOF_def returnD_def)
  then show ?thesis by (subst replayLoop.simps) simp
qed

text \<open>
  One failure of the log is final. After a failed write the buffered writer reports that
  error for ever, and after a rotation that could not open the next segment the store goes
  on with a closed file. From then on no append and no flush reaches the directory, and
  compaction, which could replace the log by a snapshot, gives up at the rotation, although
  no further system call fails. The server goes on to acknowledge writes.
\<close>

definition dead :: "Store \<Rightarrow> bool" where
  "dead s \<longleftrightarrow> st_err s \<or> \<not> st_open s"

abbreviation stays_dead :: "Store \<Rightarrow> Store \<Rightarrow> bool" where
  "stays_dead s s' \<equiv> dead s' \<and> st_dir s' = st_dir s"

lemma dead_bufFlush: "dead s \<Longrightarrow> stays_dead s (bufFlush s)"
  by (auto simp: dead_def bufFlush_def segWrite_def)

lemma dead_bufWrite: "dead s \<Longrightarrow> stays_dead s (bufWrite s p)"
proof (induction s p rule: bufWrite.induct)
  case (1 s p)
  show ?case
  proof (cases "length p > bufioSize - length (st_buf s) \<and> \<not> st_err s")
    case True
    then have o: "\<not> st_open s" using 1(3) by (simp add: dead_def)
    let ?n = "bufioSize - length (st_buf s)"
    have "stays_dead s (bufFlush (s\<lparr>st_buf := st_buf s @ take ?n p\<rparr>))"
      using dead_bufFlush[of "s\<lparr>st_buf := st_buf s @ take ?n p\<rparr>"] o by (simp add: dead_def)
    then show ?thesis
      using True 1(1)[OF True _ _ refl] 1(2)[OF True _ refl] o by (subst (1 2) bufWrite.simps) (auto simp: segWrite_def dead_def)
  next
    case False
    with 1(3) show ?thesis by (subst (1 2) bufWrite.simps) (auto simp: dead_def)
  qed
qed

lemma dead_pieces: "dead s \<Longrightarrow> stays_dead s (foldl bufWrite s ps)"
  by (induction ps arbitrary: s) (simp_all add: dead_bufWrite)

lemma dead_flushLocked: "dead s \<Longrightarrow> stays_dead s (fst (flushLocked s)) \<and> \<not> snd (flushLocked s)"
  using dead_bufFlush[of s] by (auto simp: flushLocked_def Let_def segCall_def dead_def)

lemma dead_log: "dead s \<Longrightarrow> stays_dead s (log_run xs s)"
proof -
  have "stays_dead s (fst (log_exec x s))" if "dead s" for x s
    using dead_pieces[OF that] dead_flushLocked[OF that] dead_flushLocked
    by (cases x) (auto simp: Store_Append_def Store_Flush_def Log_writeCommand_def Let_def)
  then show "dead s \<Longrightarrow> stays_dead s (log_run xs s)"
    unfolding log_run_def by (induction xs arbitrary: s) simp_all
qed

lemma dead_rotate: "dead s \<Longrightarrow> stays_dead s (fst (Store_Rotate s)) \<and> snd (Store_Rotate s) = None"
  using dead_bufFlush[of s] by (auto simp: Store_Rotate_def Let_def segClose_def segCall_def dead_def)

lemma dead_compact:
  assumes "dead s" "compact rt dbs s = Some (s', ok)"
  shows "stays_dead s s' \<and> \<not> ok"
proof -
  from assms(2) obtain z where "WriteSnapshot (rt_pick rt) (Store_NextGen s) (emitRecords rt dbs) = Some z" by (auto simp: compact_def)
  with assms(2) dead_rotate[OF assms(1)] show ?thesis by (cases z; cases "Store_Rotate s") (auto simp: compact_def)
qed

lemma one_failure_kills:
  "dead (fst (Store_Append (demo_store\<lparr>st_fault := (\<lambda>n. if n = 2 then Some 0 else None)\<rparr>) 0 [''SET'', ''k'', ''v'']))"
  "dead (fst (Store_Rotate (demo_store\<lparr>st_fault := (\<lambda>n. if n = 3 then Some 0 else None)\<rparr>)))"
  by code_simp+

text \<open>
  Replay does depend on when it runs. A key with a deadline is incremented before the
  deadline. Replayed after it, the same log meets an expired key, and the increment
  creates it afresh: a key that had expired is back, with another value and no deadline.
\<close>

definition lateLog :: "gotime \<Rightarrow> history" where
  "lateLog t = map (\<lambda>args. (t, t, 0, args))
     [[''SET'', ''k'', formatInt 5], [''PEXPIREAT'', ''k'', formatInt 1000], [''INCR'', ''k'']]"

lemma late_commands:
  "Resolve commandTable [''PEXPIREAT'', ''k'', formatInt 1000] = Inr (writeKey ''pexpireat'' 3 cmdPExpireAt)"
  "Resolve commandTable [''INCR'', ''k''] = Inr (writeKey ''incr'' 2 cmdIncr)"
proof -
  have n: "map lowerByte ''PEXPIREAT'' = ''pexpireat''" "map lowerByte ''INCR'' = ''incr''" by code_simp+
  show "Resolve commandTable [''PEXPIREAT'', ''k'', formatInt 1000] = Inr (writeKey ''pexpireat'' 3 cmdPExpireAt)"
    "Resolve commandTable [''INCR'', ''k''] = Inr (writeKey ''incr'' 2 cmdIncr)"
    by (rule Resolve_named; use n in \<open>simp add: allCommands_def command_groups writeKey_def accepts_def\<close>)+
qed

lemma late_shows:
  "showLog rt (lateLog 0) [Map.empty] = [[''k'' \<mapsto> (SString (formatInt 6), 1000000000)]]"
  "showLog rt (lateLog 2000000000) [Map.empty] = [[''k'' \<mapsto> (SString (formatInt 1), zeroTime)]]"
proof -
  have p: "parseInt (formatInt 5) = Some 5" "parseInt (formatInt 1000) = Some 1000"
    by (rule parseInt_formatInt, simp add: int64_ok_def)+
  note S = lateLog_def spec_logged_def set_get_commands late_commands spec_cmd_def spec_write_def writeKey_def spec_key_def
    spec_expire_def spec_incr_def unexpired_def unixMilli_def zeroTime_def p int64_ok_def
  show "showLog rt (lateLog 0) [Map.empty] = [[''k'' \<mapsto> (SString (formatInt 6), 1000000000)]]"
    "showLog rt (lateLog 2000000000) [Map.empty] = [[''k'' \<mapsto> (SString (formatInt 1), zeroTime)]]"
    by (simp_all add: S)
qed

lemma late_forms: "map (\<lambda>x. logged_form (snd x)) (lateLog t) = map (\<lambda>x. snd (snd x)) (lateLog t)"
  using set_get_commands(1)[of "''k''" "formatInt 5"] late_commands
  by (simp add: lateLog_def logged_form_def persistArgs_def writeKey_def)

lemma late_replayed: "replayed rt (\<lambda>n. t) n B (lateLog t) = showLog rt (lateLog t) B"
  using late_forms[of t] by (simp add: lateLog_def)

lemma late_replays:
  "\<exists>srv' idx'. replayAll (replayCommand demo_rt commandTable (\<lambda>n. t)) (demo_srv, 0, 0) 0 (map (\<lambda>x. logged_form (snd x)) (lateLog 0))
      = Some ((srv', idx', 3), 3, None)
    \<and> dbs_see (rt_hash demo_rt) (max t U) (srv_databases srv') (showLog demo_rt (lateLog t) [Map.empty])"
proof -
  have n: "map lowerByte ''SET'' = ''set''" "map lowerByte ''PEXPIREAT'' = ''pexpireat''" "map lowerByte ''INCR'' = ''incr''" by code_simp+
  have "args_ok [''SET'', ''k'', formatInt 5]" "args_ok [''PEXPIREAT'', ''k'', formatInt 1000]" "args_ok [''INCR'', ''k'']"
    using formatInt_slice_ok[of 5] formatInt_slice_ok[of 1000] by (simp_all add: args_ok_def slice_ok_def int64_ok_def)
  then have "\<forall>args \<in> {[''SET'', ''k'', formatInt 5], [''PEXPIREAT'', ''k'', formatInt 1000], [''INCR'', ''k'']}. acceptable 1 (0, args)"
    using n set_get_commands(1)[of "''k''" "formatInt 5"] late_commands by (simp add: acceptable_def hugePop_def)
  then have "\<forall>x \<in> set (lateLog t). acceptable 1 (snd (snd x))" by (simp add: lateLog_def)
  then have "\<forall>e \<in> set (map (\<lambda>x. logged_form (snd x)) (lateLog t)). acceptable 1 e" unfolding late_forms by simp
  then have acc: "\<forall>x \<in> set (lateLog t). acceptable (length [Map.empty :: semStore]) (logged_form (snd x))" by simp
  have l: "length (lateLog t) = 3" by (simp add: lateLog_def)
  have "sorted (t # map (\<lambda>n. t) [0..<0 + length (lateLog t)] @ [max t U])" by (simp add: l eval_nat_numeral)
  from replay_shows[OF demo_srv_sees _ acc this, of 0 demo_rt 0] obtain srv' idx' where
    "replayAll (replayCommand demo_rt commandTable (\<lambda>n. t)) (demo_srv, 0, 0) 0 (map (\<lambda>x. logged_form (snd x)) (lateLog t)) = Some ((srv', idx', 3), 3, None)"
    "dbs_see (rt_hash demo_rt) (max t U) (srv_databases srv') (replayed demo_rt (\<lambda>n. t) 0 [Map.empty] (lateLog t))" by (auto simp: l)
  moreover have "map (\<lambda>x. logged_form (snd x)) (lateLog t) = map (\<lambda>x. logged_form (snd x)) (lateLog 0)"
    unfolding late_forms by (simp add: lateLog_def)
  ultimately show ?thesis unfolding late_replayed by auto
qed

lemma replay_resurrects:
  "\<exists>early late i j.
     replayAll (replayCommand demo_rt commandTable (\<lambda>n. 0)) (demo_srv, 0, 0) 0 (map (\<lambda>x. logged_form (snd x)) (lateLog 0)) = Some ((early, i, 3), 3, None)
     \<and> replayAll (replayCommand demo_rt commandTable (\<lambda>n. 2000000000)) (demo_srv, 0, 0) 0 (map (\<lambda>x. logged_form (snd x)) (lateLog 0)) = Some ((late, j, 3), 3, None)
     \<and> live 2000000000 (db_ents (rt_hash demo_rt) (srv_databases early ! 0)) ''k'' = None
     \<and> sem_opt (live 2000000000 (db_ents (rt_hash demo_rt) (srv_databases late ! 0)) ''k'') = Some (SString (formatInt 1), zeroTime)"
proof -
  from late_replays[of 0 2000000000, unfolded late_shows] obtain early i where
    e: "replayAll (replayCommand demo_rt commandTable (\<lambda>n. 0)) (demo_srv, 0, 0) 0 (map (\<lambda>x. logged_form (snd x)) (lateLog 0)) = Some ((early, i, 3), 3, None)"
      "dbs_see (rt_hash demo_rt) 2000000000 (srv_databases early) [[''k'' \<mapsto> (SString (formatInt 6), 1000000000)]]" by auto
  from late_replays[of 2000000000 0, unfolded late_shows] obtain late j where
    l: "replayAll (replayCommand demo_rt commandTable (\<lambda>n. 2000000000)) (demo_srv, 0, 0) 0 (map (\<lambda>x. logged_form (snd x)) (lateLog 0)) = Some ((late, j, 3), 3, None)"
      "dbs_see (rt_hash demo_rt) 2000000000 (srv_databases late) [[''k'' \<mapsto> (SString (formatInt 1), zeroTime)]]" by auto
  have "sem_opt (live 2000000000 (db_ents (rt_hash demo_rt) (srv_databases early ! 0)) ''k'') = None"
    "sem_opt (live 2000000000 (db_ents (rt_hash demo_rt) (srv_databases late ! 0)) ''k'') = Some (SString (formatInt 1), zeroTime)"
    using e(2) l(2) by (auto simp: dbs_see_def sees_def unexpired_def zeroTime_def)
  with e(1) l(1) show ?thesis by auto
qed

text \<open>
  The deadline that an \<open>EXPIRE\<close> writes to the log is not the one it set: it is computed from a
  later reading of the clock and cut to milliseconds. One second at the time 999999 ns sets the
  deadline 1000999999 ns; the log, written 2 ns later, has the millisecond 1001.
\<close>

lemma expire_log_differs:
  "addTime 999999 (secondsDuration 1) = 1000999999"
  "persistArgs 1000001 (writeKey ''expire'' 3 cmdExpire) [''EXPIRE'', ''k'', formatInt 1] = [''PEXPIREAT'', ''k'', formatInt 1001]"
  "unixMilli 1001 = 1001000000"
proof -
  have "parseInt (formatInt 1) = Some 1" by (rule parseInt_formatInt) (simp add: int64_ok_def)
  then show "persistArgs 1000001 (writeKey ''expire'' 3 cmdExpire) [''EXPIRE'', ''k'', formatInt 1] = [''PEXPIREAT'', ''k'', formatInt 1001]"
    by (simp add: persistArgs_def writeKey_def toUnixMilli_def addTime_def secondsDuration_def wrap64_def)
qed (simp_all add: addTime_def secondsDuration_def wrap64_def unixMilli_def)

section \<open>Numbers\<close>

text \<open>
  \<open>EXPIRE\<close> multiplies seconds in 64 bits: a deadline 292 years ahead is one in the past.
  \<open>CONFIG SET slowlog-threshold-ms\<close> wraps in the same way and then shows a negative value.
\<close>

lemma expire_wraps: "secondsDuration 9223372037 < 0" by code_simp

lemma threshold_wraps:
  "\<exists>r'. Settings_Set r paramSlowThreshold (formatInt 9223372036855) = Inr r' \<and> SlowThreshold r' < 0"
proof -
  have "parseInt (formatInt 9223372036855) = Some 9223372036855" by (rule parseInt_formatInt) (simp add: int64_ok_def)
  then show ?thesis by (simp add: Settings_Set_def wrap64_def)
qed

text \<open>
  A deadline exactly at the Unix epoch is written to a snapshot as the mark for none, so an
  expired key comes back without a deadline; and the deadline that is Go's zero time removes
  the deadline instead of setting one in the past.
\<close>

lemma epoch_deadline_lost: "rec_ExpireAt (entryRecord d (k, \<lparr>Entry_Value = v, ExpireAt = unixMilli 0\<rparr>)) = 0"
  by (simp add: entryRecord_def unixMilli_def unixNano_def HasExpiry_def isZero_def zeroTime_def wrap64_def)

text \<open>
  A deadline after the year 2262 does not fit the nanoseconds of \<open>UnixNano\<close> and wraps: a key to
  live until the end of the year 9999 has a deadline in the past in the snapshot, and is gone
  after a restart.
\<close>

lemma far_deadline_wraps:
  "rec_ExpireAt (entryRecord d (k, \<lparr>Entry_Value = v, ExpireAt = unixMilli 253402300799000\<rparr>)) < 0"
  by (simp add: entryRecord_def unixMilli_def unixNano_def HasExpiry_def isZero_def zeroTime_def wrap64_def)

lemma zero_time_persists: "unixMilli (-62135596800000) = zeroTime"
  by (simp add: unixMilli_def zeroTime_def)

text \<open>
  A count is a capacity: popping \<open>9223372036854775807\<close> elements of a list panics in
  \<open>make\<close>, where it should return all of them, and the client is told of an internal error.
\<close>

lemma pop_count_panics:
  assumes "lookupEntry rt c k = Some e" "Entry_Value e = MakeList l"
  shows "cmdLPop rt c [''LPOP'', k, formatInt 9223372036854775807] = None"
proof -
  have "parseInt (formatInt 9223372036854775807) = Some 9223372036854775807" by (rule parseInt_formatInt) (simp add: int64_ok_def)
  with assms show ?thesis by (simp add: cmdLPop_def listPop_def popCount_def arg_def makeReplies_def)
qed

section \<open>Replies\<close>

text \<open>
  An unknown command name is echoed raw in an error line. A name with a line break ends the
  line early, and the rest is read by the client as the reply to its next command.
\<close>

lemma unknown_command_injects:
  "Resolve commandTable [''x'' @ CRLF @ ''+OK''] = Inl (RError (''ERR unknown command '' @ quoted (''x'' @ CRLF @ ''+OK'')))"
  "clientRead (encodeReply (RError (''ERR unknown command '' @ quoted (''x'' @ CRLF @ ''+OK'')))) =
     (Inl (ServerError (''ERR unknown command '' @ [CHR 0x27] @ ''x'')), ''+OK'' @ [CHR 0x27] @ CRLF)"
proof -
  have "map_of commandTable (map lowerByte (''x'' @ CRLF @ ''+OK'')) = None" by code_simp
  then show "Resolve commandTable [''x'' @ CRLF @ ''+OK''] = Inl (RError (''ERR unknown command '' @ quoted (''x'' @ CRLF @ ''+OK'')))"
    by (simp add: Resolve_def lookupFold_def)
qed code_simp

section \<open>Commands that are logged\<close>

text \<open>\<open>PING\<close>, \<open>SELECT\<close> and \<open>CONFIG\<close> are not marked read-only, so they are appended to the log and replayed.\<close>

lemma ping_is_logged:
  "loggedOf rt srv idx at [''PING''] = [(at_run at, at_append at, int idx, [''PING''])]"
  using set_get_commands(3) by (simp add: loggedOf_def plain_def cmdPing_def persistArgs_def Context_DB_def)

section \<open>Shutdown\<close>

text \<open>
  \<open>shutdown\<close> sets a read deadline and no write deadline. A connection that is blocked in the
  write of a reply, because its client does not read, stays blocked: when all else has ended,
  \<open>Serve\<close> waits for it and has no step of its own, so the final snapshot is not written.
\<close>

definition blocked :: life where
  "blocked = \<lparr>lf_cancelled = True, lf_watcher = False, lf_closing = True, lf_listening = False, lf_held = None, lf_conns = {5},
     lf_tripped = {5}, lf_closed = {}, lf_serving = {5}, lf_at = (\<lambda>_. Leaving)(5 := Writing 0), lf_workers = 0, lf_wg = 1,
     lf_phase = Waiting\<rparr>"

lemma blocked_reached: "life_reach False blocked"
  unfolding life_reach_def
proof -
  let ?s0 = "life_init False"
  let ?s1 = "?s0\<lparr>lf_held := Some 5\<rparr>"
  let ?s2 = "(startConn 5 ?s1)\<lparr>lf_held := None\<rparr>"
  let ?s3 = "?s2\<lparr>lf_at := (lf_at ?s2)(5 := Executing 0)\<rparr>"
  let ?s4 = "?s3\<lparr>lf_at := (lf_at ?s3)(5 := Writing 0)\<rparr>"
  let ?s5 = "?s4\<lparr>lf_cancelled := True\<rparr>"
  let ?s6 = "(shutdown ?s5)\<lparr>lf_watcher := False\<rparr>"
  let ?s7 = "?s6\<lparr>lf_phase := Waiting\<rparr>"
  let ?s8 = "?s7\<lparr>lf_workers := 1, lf_wg := 2\<rparr>"
  note d = life_init_def startConn_def shutdown_def isClosing_def
  have 1: "life_step Peer ?s0 ?s1" by (rule ls_accept) (simp_all add: d)
  have 2: "life_step Own ?s1 ?s2" by (rule ls_start) (simp_all add: d)
  have 3: "life_step Peer ?s2 ?s3" by (rule ls_request) (simp_all add: d)
  have 4: "life_step Own ?s3 ?s4" by (rule ls_execute) (simp_all add: d)
  have 5: "life_step Peer ?s4 ?s5" by (rule ls_cancel) (simp add: d)
  have 6: "life_step Own ?s5 ?s6" by (rule ls_shutdown) (simp_all add: d)
  have 7: "life_step Own ?s6 ?s7" by (rule ls_break) (simp_all add: d)
  have 8: "life_step Own ?s7 ?s8" using ls_worker[of ?s7] by (simp add: d)
  have 9: "life_step Own ?s8 blocked" using ls_worker[of ?s8] by (simp add: d blocked_def)
  show "life_next\<^sup>*\<^sup>* ?s0 blocked"
    by (rule life_chain[OF 1], rule life_chain[OF 2], rule life_chain[OF 3], rule life_chain[OF 4], rule life_chain[OF 5],
        rule life_chain[OF 6], rule life_chain[OF 7], rule life_chain[OF 8], rule life_chain[OF 9], rule rtranclp.rtrancl_refl)
qed

lemma shutdown_blocks: "lf_closing blocked \<and> lf_phase blocked \<noteq> Stopped \<and> \<not> life_step Own blocked s'"
  by (auto simp: blocked_def elim!: life_stepE)

end
