(* ===== verification/Footprint.thy ===== *)
theory Footprint
  imports Replay
begin

text \<open>
  What a command may read and write. A handler never changes how many shards a database has,
  so the locks computed for a command stay the right ones; and the meaning of a command is
  confined to the keys it declares, so commands whose keys differ commute.
\<close>

section \<open>The number of shards is fixed\<close>

definition shape :: "DB list \<Rightarrow> nat list" where
  "shape dbs = map (\<lambda>db. length (db_shards db)) dbs"

lemma length_shape [simp]: "length (shape dbs) = length dbs"
  by (simp add: shape_def)

lemma shape_nth [simp]: "d < length dbs \<Longrightarrow> shape dbs ! d = length (db_shards (dbs ! d))"
  by (simp add: shape_def)

lemma shape_length: "shape dbs = shape dbs' \<Longrightarrow> length dbs = length dbs'"
  by (metis length_shape)

lemma shape_update:
  "length (db_shards db) = length (db_shards (dbs ! d)) \<Longrightarrow> shape (dbs[d := db]) = shape dbs"
  by (cases "d < length dbs") (auto simp: shape_def map_update list_update_same_conv list_update_beyond)

lemma shards_ops [simp]:
  "length (db_shards (with_keyspace hash db key k)) = length (db_shards db)"
  "length (db_shards (DB_Set hash db key v)) = length (db_shards db)"
  "length (db_shards (DB_SetEntry hash db key e)) = length (db_shards db)"
  "length (db_shards (DB_poke hash db key v)) = length (db_shards db)"
  "length (db_shards (fst (DB_Delete hash db now key))) = length (db_shards db)"
  "length (db_shards (fst (DB_Unlink hash db now key))) = length (db_shards db)"
  "length (db_shards (fst (DB_SetExpire hash db now key at))) = length (db_shards db)"
  "length (db_shards (fst (DB_Persist hash db now key))) = length (db_shards db)"
  "length (db_shards (DB_Flush db)) = length (db_shards db)"
  by (auto simp: with_keyspace_def DB_Set_def DB_SetEntry_def DB_poke_def DB_Delete_def DB_Unlink_def DB_SetExpire_def
      DB_Persist_def DB_Flush_def Let_def split: prod.split option.split)

lemma shape_with_db [simp]:
  "length (db_shards db) = length (db_shards (ctx_Keyspace c)) \<Longrightarrow> shape (ctx_databases (with_db c db)) = shape (ctx_databases c)"
  by (simp add: with_db_def ctx_Keyspace_def shape_update)

lemma shape_values [simp]:
  "shape (ctx_databases (storeValue rt c key v)) = shape (ctx_databases c)"
  "shape (ctx_databases (pokeValue rt c key v)) = shape (ctx_databases c)"
  "shape (ctx_databases (deleteKey rt c key)) = shape (ctx_databases c)"
  "shape (ctx_databases (dropIfEmpty rt c key v len)) = shape (ctx_databases c)"
  "shape (ctx_databases (fst (setExpire rt c key at))) = shape (ctx_databases c)"
  by (simp_all add: storeValue_def pokeValue_def deleteKey_def dropIfEmpty_def Let_def setExpire_def case_prod_beta)

lemma shape_foldCount:
  assumes "foldCount (\<lambda>db key. Some (f db key)) (db, n) keys = Some (db', n')"
    "\<And>db key. length (db_shards (fst (f db key))) = length (db_shards db)"
  shows "length (db_shards db') = length (db_shards db)"
  using assms(1)
proof (induction keys arbitrary: db n)
  case (Cons key keys)
  then have "foldCount (\<lambda>db key. Some (f db key)) (fst (f db key), if snd (f db key) then n + 1 else n) keys = Some (db', n')"
    by (simp add: case_prod_beta)
  from Cons.IH[OF this] assms(2) show ?case by simp
qed simp

definition keeps_shape :: "handler \<Rightarrow> bool" where
  "keeps_shape h \<longleftrightarrow> (\<forall>rt c args c' r. h rt c args = Some (c', r) \<longrightarrow> shape (ctx_databases c') = shape (ctx_databases c))"

lemma keeps_shape_incr:
  assumes "incrBy rt c key delta = Some (c', r)"
  shows "shape (ctx_databases c') = shape (ctx_databases c)"
proof (cases "lookupEntry rt c key")
  case (Some e)
  show ?thesis
  proof (cases "Value_Kind (Entry_Value e) = KindString")
    case True
    with assms Some show ?thesis by (auto simp: incrBy_def Let_def split: option.splits if_splits)
  qed (use assms Some in \<open>auto simp: incrBy_def\<close>)
qed (use assms in \<open>auto simp: incrBy_def Let_def split: if_splits\<close>)

lemma keeps_shape_strings: "keeps_shape cmdSet" "keeps_shape cmdIncr" "keeps_shape cmdDecr"
  by (auto simp: keeps_shape_def cmdSet_def cmdIncr_def cmdDecr_def bind_Some_iff dest: keeps_shape_incr)

lemma keeps_shape_keys: "keeps_shape cmdDel" "keeps_shape cmdUnlink"
  by (auto simp: keeps_shape_def cmdDel_def cmdUnlink_def bind_Some_iff dest!: shape_foldCount split: prod.splits)

lemma keeps_shape_expiry: "keeps_shape cmdExpire" "keeps_shape cmdPExpireAt" "keeps_shape cmdPersist"
proof -
  have e: "shape (ctx_databases c') = shape (ctx_databases c)" if "setExpire rt c key at = (c', r)" for rt c key at c' r
    using shape_values(5)[of rt c key at] that by simp
  show "keeps_shape cmdExpire" "keeps_shape cmdPExpireAt"
    by (auto simp: keeps_shape_def cmdExpire_def cmdPExpireAt_def bind_Some_iff dest!: e split: option.splits)
  show "keeps_shape cmdPersist" by (auto simp: keeps_shape_def cmdPersist_def bind_Some_iff case_prod_beta)
qed

lemma keeps_shape_pop:
  assumes "listPop rt c args front = Some (c', r)"
  shows "shape (ctx_databases c') = shape (ctx_databases c)"
proof -
  from assms obtain n where n: "popCount args = Some n" by (auto simp: listPop_def bind_Some_iff)
  show ?thesis
  proof (cases n)
    case (Inr cnt)
    with assms n obtain key where k: "arg args 1 = Some key" by (auto simp: listPop_def bind_Some_iff)
    with assms n Inr show ?thesis
      by (cases "lookupEntry rt c key") (auto simp: listPop_def Let_def bind_Some_iff split: if_splits)
  qed (use assms n in \<open>auto simp: listPop_def\<close>)
qed

lemma keeps_shape_lists: "keeps_shape cmdLPush" "keeps_shape cmdRPush" "keeps_shape cmdLPop" "keeps_shape cmdRPop"
  by (auto simp: keeps_shape_def cmdLPush_def cmdRPush_def listPush_def cmdLPop_def cmdRPop_def bind_Some_iff
      dest: keeps_shape_pop split: option.splits if_splits)

lemma keeps_shape_collections:
  "keeps_shape cmdHSet" "keeps_shape cmdHDel" "keeps_shape cmdSAdd" "keeps_shape cmdSRem" "keeps_shape cmdZAdd"
  by (auto simp: keeps_shape_def cmdHSet_def cmdHDel_def cmdSAdd_def cmdSRem_def cmdZAdd_def bind_Some_iff
      split: option.splits if_splits)

lemma keeps_shape_server: "keeps_shape cmdPing" "keeps_shape cmdSelect" "keeps_shape cmdConfig" "keeps_shape cmdFlushDB"
  by (auto simp: keeps_shape_def cmdPing_def cmdSelect_def cmdConfig_def cmdFlushDB_def Context_Select_def bind_Some_iff
      split: option.splits sum.splits if_splits list.splits)

lemmas keeps_shape_all = keeps_shape_strings keeps_shape_keys keeps_shape_expiry keeps_shape_lists
  keeps_shape_collections keeps_shape_server

lemma table_keeps_shape: "\<forall>cmd \<in> set allCommands. cmd_readOnly cmd \<or> keeps_shape (cmd_run cmd)"
  by (simp add: allCommands_def command_groups readKey_def readKeys_def writeKey_def writeKeys_def plain_def wholeDB_def
      keeps_shape_all)

section \<open>Commands on different keys commute\<close>

text \<open>
  \<open>f\<close> reads and writes nothing outside \<open>D\<close>, a set of pairs of database and key.
\<close>

definition confined :: "(nat \<times> bytes) set \<Rightarrow> (semStore list \<Rightarrow> semStore list) \<Rightarrow> bool" where
  "confined D f \<longleftrightarrow>
     (\<forall>A. length (f A) = length A)
     \<and> (\<forall>A d k. d < length A \<longrightarrow> (d, k) \<notin> D \<longrightarrow> (f A ! d) k = (A ! d) k)
     \<and> (\<forall>A B. length A = length B \<longrightarrow> (\<forall>d k. (d, k) \<in> D \<longrightarrow> d < length A \<longrightarrow> (A ! d) k = (B ! d) k)
          \<longrightarrow> (\<forall>d k. (d, k) \<in> D \<longrightarrow> d < length A \<longrightarrow> (f A ! d) k = (f B ! d) k))"

lemma confinedD:
  assumes "confined D f"
  shows "length (f A) = length A" "d < length A \<Longrightarrow> (d, k) \<notin> D \<Longrightarrow> (f A ! d) k = (A ! d) k"
    "\<lbrakk> length A = length B; \<And>d k. (d, k) \<in> D \<Longrightarrow> d < length A \<Longrightarrow> (A ! d) k = (B ! d) k; (d, k) \<in> D; d < length A \<rbrakk>
       \<Longrightarrow> (f A ! d) k = (f B ! d) k"
  using assms unfolding confined_def by blast+

lemma confined_id: "confined D (\<lambda>A. A)"
  by (simp add: confined_def)

lemma confined_commute:
  assumes f: "confined D f" and g: "confined E g" and disj: "D \<inter> E = {}"
  shows "f (g A) = g (f A)"
proof (rule nth_equalityI)
  note F = confinedD[OF f] and G = confinedD[OF g]
  show "length (f (g A)) = length (g (f A))" by (simp add: F(1) G(1))
  fix d assume "d < length (f (g A))"
  then have d: "d < length A" by (simp add: F(1) G(1))
  show "f (g A) ! d = g (f A) ! d"
  proof
    fix k
    consider "(d, k) \<in> D" "(d, k) \<notin> E" | "(d, k) \<in> E" "(d, k) \<notin> D" | "(d, k) \<notin> D" "(d, k) \<notin> E" using disj by blast
    then show "(f (g A) ! d) k = (g (f A) ! d) k"
    proof cases
      case 1
      have "(f (g A) ! d) k = (f A ! d) k" using F(3)[of "g A" A d k] G(1,2) 1 disj d by (fastforce simp: G(1))
      with 1 d show ?thesis using G(2)[of d "f A" k] by (simp add: F(1))
    next
      case 2
      have "(g (f A) ! d) k = (g A ! d) k" using G(3)[of "f A" A d k] F(1,2) 2 disj d by (fastforce simp: F(1))
      with 2 d show ?thesis using F(2)[of d "g A" k] by (simp add: G(1))
    next
      case 3
      with d show ?thesis using F(2)[of d "g A" k] F(2)[of d A k] G(2)[of d "f A" k] G(2)[of d A k] by (simp add: F(1) G(1))
    qed
  qed
qed

text \<open>The keys a writing command names.\<close>

lemma keyed_declared:
  assumes "cmd \<in> set allCommands" "\<not> cmd_readOnly cmd" "cmd_name cmd \<notin> special" "accepts cmd (int (length args))"
  shows "args ! 1 \<in> declared cmd args"
proof -
  have "\<forall>cmd \<in> set allCommands. cmd_readOnly cmd \<or> cmd_name cmd \<in> special \<or> (SingleKey cmd \<and> 2 \<le> minArgs (cmd_arity cmd))"
    by (simp add: allCommands_def command_groups readKey_def readKeys_def writeKey_def writeKeys_def plain_def wholeDB_def
        SingleKey_def minArgs_def)
  with assms(1-3) have s: "SingleKey cmd" "2 \<le> minArgs (cmd_arity cmd)" by blast+
  then have "2 \<le> length args" using assms(4) by (auto simp: accepts_def minArgs_def split: if_splits)
  with s(1) have "Keys cmd args = [args ! 1]" by (auto simp: Keys_def SingleKey_def upto_single)
  with s(1) show ?thesis by (simp add: declared_def SingleKey_def)
qed

lemma special_declared:
  assumes "cmd \<in> set allCommands" "accepts cmd (int (length args))"
  shows "cmd_name cmd \<in> {''del'', ''unlink''} \<Longrightarrow> declared cmd args = set (drop 1 args)"
    "cmd_name cmd = ''flushdb'' \<Longrightarrow> declared cmd args = UNIV"
proof -
  assume "cmd_name cmd \<in> {''del'', ''unlink''}"
  then obtain n h where c: "cmd = writeKeys n (-2) h" using special_commands[OF assms(1)] by blast
  with assms(2) have "2 \<le> length args" by (simp add: writeKeys_def accepts_def)
  from Keys_many(2)[OF this] show "declared cmd args = set (drop 1 args)" by (simp add: c declared_def writeKeys_def)
next
  assume "cmd_name cmd = ''flushdb''"
  from special_commands(3)[OF assms(1) this] show "declared cmd args = UNIV" by (simp add: declared_def wholeDB_def)
qed

lemma spec_write_local:
  assumes "cmd \<in> set allCommands" "accepts cmd (int (length args))" "\<not> cmd_readOnly cmd" "cmd_name cmd \<notin> storeless"
  shows "k \<notin> declared cmd args \<Longrightarrow> fst (spec_write rt now (cmd_name cmd) args V) k = V k"
    "\<lbrakk> \<And>k. k \<in> declared cmd args \<Longrightarrow> V k = W k; k \<in> declared cmd args \<rbrakk> \<Longrightarrow>
       fst (spec_write rt now (cmd_name cmd) args V) k = fst (spec_write rt now (cmd_name cmd) args W) k"
proof -
  consider (many) "cmd_name cmd \<in> {''del'', ''unlink''}" | (whole) "cmd_name cmd = ''flushdb''"
    | (one) "cmd_name cmd \<notin> special" using assms(4) by auto
  note cases = this
  show "fst (spec_write rt now (cmd_name cmd) args V) k = V k" if "k \<notin> declared cmd args"
    using cases
  proof cases
    case one
    with keyed_declared[OF assms(1,3) _ assms(2)] that show ?thesis by (auto simp: spec_write_def split: prod.split)
  qed (use that special_declared[OF assms(1,2)] in \<open>auto simp: spec_write_def restrict_map_def\<close>)
  show "fst (spec_write rt now (cmd_name cmd) args V) k = fst (spec_write rt now (cmd_name cmd) args W) k"
    if "\<And>k. k \<in> declared cmd args \<Longrightarrow> V k = W k" "k \<in> declared cmd args"
    using cases
  proof cases
    case one
    with that keyed_declared[OF assms(1,3) _ assms(2)] show ?thesis by (auto simp: spec_write_def split: prod.split)
  qed (use that special_declared[OF assms(1,2)] in \<open>auto simp: spec_write_def restrict_map_def\<close>)
qed

lemma spec_cmd_confined:
  assumes "cmd \<in> set allCommands" "accepts cmd (int (length args))"
  shows "confined ({d} \<times> declared cmd args) (spec_cmd rt now cmd args d)"
proof (cases "cmd_readOnly cmd \<or> cmd_name cmd \<in> storeless")
  case True
  then have "spec_cmd rt now cmd args d = (\<lambda>A. A)" by (auto simp: spec_cmd_def fun_eq_iff)
  then show ?thesis by (simp add: confined_id)
next
  case False
  then have f: "spec_cmd rt now cmd args d A = A[d := fst (spec_write rt now (cmd_name cmd) args (A ! d))]" for A
    by (simp add: spec_cmd_def)
  have w: "\<not> cmd_readOnly cmd" "cmd_name cmd \<notin> storeless" using False by simp_all
  show ?thesis unfolding confined_def f
  proof (intro conjI allI impI)
    fix A :: "semStore list" and d' k assume "d' < length A" "(d', k) \<notin> {d} \<times> declared cmd args"
    then show "(A[d := fst (spec_write rt now (cmd_name cmd) args (A ! d))] ! d') k = (A ! d') k"
      using spec_write_local(1)[OF assms w, of k] by (cases "d' = d") simp_all
  next
    fix A B :: "semStore list" and d' k
    assume AB: "length A = length B" "\<forall>d' k. (d', k) \<in> {d} \<times> declared cmd args \<longrightarrow> d' < length A \<longrightarrow> (A ! d') k = (B ! d') k"
      and k: "(d', k) \<in> {d} \<times> declared cmd args" "d' < length A"
    then show "(A[d := fst (spec_write rt now (cmd_name cmd) args (A ! d))] ! d') k
        = (B[d := fst (spec_write rt now (cmd_name cmd) args (B ! d))] ! d') k"
      using spec_write_local(2)[OF assms w, of "A ! d" "B ! d" k] by simp
  qed simp
qed

text \<open>The entry a command leaves in the history is confined to the same keys.\<close>

lemma spec_logged_confined:
  assumes cmd: "Resolve commandTable args = Inr cmd" and db: "cmd_name cmd \<notin> storeless \<Longrightarrow> db = int d"
  shows "confined ({d} \<times> declared cmd args) (spec_logged rt now (db, args))"
proof -
  have "spec_logged rt now (db, args) = spec_cmd rt now cmd args d" using spec_logged_cmd[OF cmd db] by blast
  with spec_cmd_confined[OF Resolve_cmd(1,2)[OF cmd]] show ?thesis by metis
qed

text \<open>An entry moves in front of entries it has no key in common with.\<close>

lemma showLog_commute:
  assumes "confined D (spec_logged rt t (snd e))" "\<forall>(t', e') \<in> set log. \<exists>E. confined E (spec_logged rt t' (snd e')) \<and> D \<inter> E = {}"
  shows "spec_logged rt t (snd e) (showLog rt log A) = showLog rt log (spec_logged rt t (snd e) A)"
  using assms(2)
proof (induction log arbitrary: A)
  case (Cons x log)
  obtain t' e' where x: "x = (t', e')" by (cases x)
  from Cons.prems x obtain E where "confined E (spec_logged rt t' (snd e'))" "D \<inter> E = {}" by auto
  from confined_commute[OF assms(1) this] Cons x show ?case by simp
qed simp

end
