(* ===== verification/CrashRecovery.thy ===== *)
theory CrashRecovery
  imports Agreement
begin

text \<open>
  The log and the commands together: a server with a fresh data directory runs requests
  while system calls on the log fail in any way, and then is gone. What the next process
  recovers is the state after an initial part of the requests.
\<close>

section \<open>Prefixes of a run\<close>

lemma loggedOf_one: "loggedOf rt srv idx at args = [] \<or> (\<exists>e. loggedOf rt srv idx at args = [e])"
  by (auto simp: loggedOf_def split: sum.split option.split prod.split)

lemma runAll_take:
  assumes "runAll rt srv conns xs = (srv', log)" "k \<le> length log"
  shows "\<exists>j srvj. j \<le> length xs \<and> runAll rt srv conns (take j xs) = (srvj, take k log)"
  using assms
proof (induction xs arbitrary: srv conns log k)
  case (Cons x xs)
  obtain i at args where x: "x = (i, at, args)" using prod_cases3 by blast
  obtain srv1 idx1 r where d: "dispatch rt commandTable srv (conns i) at args = (srv1, idx1, r)" using prod_cases3 by blast
  obtain log1 where l: "runAll rt srv1 (conns(i := idx1)) xs = (srv', log1)" "log = loggedOf rt srv (conns i) at args @ log1"
    using Cons.prems(1) d x by (auto split: prod.splits)
  show ?case
  proof (cases k)
    case 0
    then show ?thesis by (intro exI[of _ 0]) simp
  next
    case (Suc k')
    let ?k = "k - length (loggedOf rt srv (conns i) at args)"
    have k: "?k \<le> length log1" "length (loggedOf rt srv (conns i) at args) \<le> k"
      using Cons.prems(2) l(2) loggedOf_one[of rt srv "conns i" at args] Suc by auto
    from Cons.IH[OF l(1) k(1)] obtain j srvj where
      "j \<le> length xs" "runAll rt srv1 (conns(i := idx1)) (take j xs) = (srvj, take ?k log1)" by blast
    with d x l(2) k(2) show ?thesis by (intro exI[of _ "Suc j"]) (auto split: prod.splits)
  qed
qed auto

lemma sorted_take_within: "sorted (t # ys @ [T]) \<Longrightarrow> sorted (t # take j ys @ [T])"
  by (auto simp: sorted_append dest: in_set_takeD)

section \<open>Recovery after a crash\<close>

lemma fresh_recover:
  assumes "Open [] fsync fault = Some s0" "wrote s0 s p" "seg s = Some log"
  shows "Server_recover rt reg clk (st_dir s) boot =
    map_option (\<lambda>(st, n, err). (st, 0, n, err)) (replayLoop (replayCommand rt reg clk) (boot, 0, 0) 0 log)"
proof -
  have o: "st_gen s0 = 0" "map_of (st_dir s0) snapshotName = None"
    using assms(1) segmentPath_names(1)[of 0]
    by (auto simp: Open_def openSegment_def sysCall_def highestSegment_def snapshotBaseGen_def Let_def split: if_splits)
  have "store_wf s" using store_wf_wrote[OF Open_wf(1)[OF assms(1)] assms(2)] o(1) by simp
  then have "highestSegment (st_dir s) = 0"
    using wroteD(1)[OF assms(2)] o(1) highestSegment_ok[of "st_dir s"] by (auto simp: store_wf_def)
  moreover have "map_of (st_dir s) snapshotName = None"
    using wroteD(4)[OF assms(2), of snapshotName] o segmentPath_names(1)[of 0] by simp
  moreover have "segfile (st_dir s) 0 = log" using assms(3) wroteD(1)[OF assms(2)] o(1) by (simp add: segfile_def)
  ultimately show ?thesis
    by (auto simp: Server_recover_def Recover_def loadSnapshot_def replaySegments_def replaySegment_view split: option.splits)
qed

lemma logged_appends: "concat (map logged (map log_op log)) = map (\<lambda>x. logged_form (snd x)) log"
  by (induction log) (auto simp: log_op_def)

lemma crash_recovers:
  assumes run: "runAll rt srv conns xs = (srv', log)" "\<forall>(i, at, args) \<in> set xs. request_ok args" "replayable \<delta> log" "0 \<le> \<delta>"
    and show0: "dbs_see (rt_hash rt) t (srv_databases srv) A" "\<forall>i. conns i < length A"
      "sorted (t # map (\<lambda>(i, at, args). at_run at) xs @ [T])"
    and disk: "Open [] fsync fault = Some s0" "srv_persist srv = Some s0" "st_gen s0 < maxInt64"
    and boot: "dbs_see (rt_hash rt') u (srv_databases boot) A" "A \<noteq> []" "rt_parseFloat rt' = rt_parseFloat rt"
      "sorted (u # map clk [0..<length log] @ [U])"
  shows "\<exists>s k j srvj boot' idx' B. srv_persist srv' = Some s \<and> k \<le> length log \<and> j \<le> length xs
    \<and> runAll rt srv conns (take j xs) = (srvj, take k log)
    \<and> Server_recover rt' commandTable clk (st_dir s) boot = Some ((boot', idx', k), 0, int k, None)
    \<and> dbs_see (rt_hash rt) T (srv_databases srvj) (showLog rt (take k log) A)
    \<and> dbs_see (rt_hash rt') U (srv_databases boot') B
    \<and> (\<forall>d < length A. \<forall>key. steady rt \<delta> clk 0 (d, key) ((A ! d) key) log \<longrightarrow>
         near \<delta> ((showLog rt (take k log) A ! d) key) ((B ! d) key))
    \<and> (st_err s \<or> st_buf s \<noteq> [] \<or> k = length log)"
proof -
  let ?ops = "map log_op log"
  note R = run_shows[OF run(1) show0(1,2) run(2) show0(3)]
  have s: "srv_persist srv' = Some (log_run ?ops s0)" using R disk(2) by simp
  have o: "seg s0 = Some (concat (map encodeCommand []))" "st_buf s0 = []"
    using Open_wf(2,4)[OF disk(1,3)] by (auto simp: segfile_def)
  have n: "int (length A) \<le> maxInt64" using boot(1) by (simp add: dbs_see_def dbs_inv_def)
  have g: "\<forall>c \<in> set (concat (map logged ?ops)). good_command c"
    unfolding logged_appends using log_forms_ok[OF _ run(3) n] R by auto
  from log_crash[OF _ g o, where 'a = "Server \<times> nat \<times> nat"] obtain bytes k where
    L: "seg (log_run ?ops s0) = Some bytes" "k \<le> length log"
      "\<And>replay st n. replayLoop replay (st :: Server \<times> nat \<times> nat) n bytes = replayAll replay st n (map (\<lambda>x. logged_form (snd x)) (take k log))"
      "st_err (log_run ?ops s0) \<or> st_buf (log_run ?ops s0) \<noteq> [] \<or> k = length log"
    unfolding logged_appends by (auto simp: take_map)
  from runAll_take[OF run(1) L(2)] obtain j srvj where
    j: "j \<le> length xs" "runAll rt srv conns (take j xs) = (srvj, take k log)" by blast
  have p: "\<forall>(i, at, args) \<in> set (take j xs). request_ok args" using run(2) by (auto dest: in_set_takeD)
  have q: "sorted (t # map (\<lambda>(i, at, args). at_run at) (take j xs) @ [T])"
    using sorted_take_within[OF show0(3), of j] by (simp only: take_map)
  note RJ = run_shows[OF j(2) show0(1,2) p q]
  have J: "dbs_see (rt_hash rt) T (srv_databases srvj) (showLog rt (take k log) A)"
    "\<forall>x \<in> set (take k log). entry_known (length A) (snd x)" using RJ by blast+
  have c: "sorted (u # map clk [0..<0 + length (take k log)] @ [U])"
    using sorted_take_within[OF boot(4), of k] L(2) by (simp add: take_map min_def)
  have "replayable \<delta> (take k log)" using replayable_sub[OF run(3)] set_take_subset by metis
  from replay_agrees[OF boot(1) _ _ J(2) this run(4) boot(3) c, of 0 0] boot(2) L(2) obtain boot' idx' B where
    B: "replayAll (replayCommand rt' commandTable clk) (boot, 0, 0) 0 (map (\<lambda>x. logged_form (snd x)) (take k log)) = Some ((boot', idx', k), int k, None)"
      "dbs_see (rt_hash rt') U (srv_databases boot') B"
      "\<forall>d < length A. \<forall>key. steady rt \<delta> clk 0 (d, key) ((A ! d) key) (take k log) \<longrightarrow>
         near \<delta> ((showLog rt (take k log) A ! d) key) ((B ! d) key)" by (auto simp: min_def)
  moreover from B(1) have "Server_recover rt' commandTable clk (st_dir (log_run ?ops s0)) boot = Some ((boot', idx', k), 0, int k, None)"
    using fresh_recover[OF disk(1) wrote_run L(1)] L(3) by simp
  ultimately show ?thesis using s L(2,4) j J(1) steady_take by blast
qed

section \<open>A concrete crash\<close>

definition demo_logging :: Server where
  "demo_logging = demo_srv\<lparr>srv_persist := Some demo_store\<rparr>"

lemma demo_logging_ok:
  "srv_inv rt demo_logging" "srv_databases demo_logging = srv_databases demo_srv" "srv_databases demo_logging \<noteq> []"
  "srv_persist demo_logging = Some demo_store"
  using demo_srv_ok(2,3) by (auto simp: demo_logging_def srv_inv_def)

lemma demo_command_good: "good_command (0, [''SET'', ''k'', ''v''])"
  by (simp add: good_command_def alloc_ok_def int64_ok_def)

end
