(* ===== verification/Concurrent.thy ===== *)
theory Concurrent
  imports Footprint CrashRecovery
begin

text \<open>
  The goroutines of a server with persistence, interleaved: connections that execute
  commands, the expiry cycle, the flusher of the log and the compactor. A step is one lock
  operation, or one critical section: a handler that runs with its shard locks held, an
  append that runs with the mutex of the store held, and so on. The log may receive the
  entries in another order than the commands ran; what the locks guarantee is that the
  databases always show what the log says, and that a snapshot matches the place at which
  the log was cut.
\<close>

section \<open>The two halves of \<open>execute\<close>\<close>

text \<open>
  The command, with the entry it is going to log: the reading of the clock that \<open>persistArgs\<close>
  takes, the database and the request; then the append of what \<open>persistArgs\<close> makes of it.
\<close>

definition runCommand ::
  "runtime \<Rightarrow> Server \<Rightarrow> nat \<Rightarrow> readings \<Rightarrow> Command \<Rightarrow> bytes list \<Rightarrow> Server \<times> nat \<times> Reply \<times> entry option" where
  "runCommand rt srv idx at cmd args =
     (case cmd_run cmd rt (session srv idx (at_run at)) args of
        None \<Rightarrow> (srv, idx, RError ''ERR internal server error'', None)
      | Some (c, reply) \<Rightarrow>
          (absorb srv c, Context_DB c, reply,
           if srv_persist srv \<noteq> None \<and> \<not> cmd_readOnly cmd \<and> \<not> IsError reply
           then Some (at_append at, int (Context_DB c), args) else None))"

definition onStore :: "(Store \<Rightarrow> Store) \<Rightarrow> Server \<Rightarrow> Server" where
  "onStore f srv = srv\<lparr>srv_persist := map_option f (srv_persist srv)\<rparr>"

definition appendEntry :: "entry \<Rightarrow> Server \<Rightarrow> Server" where
  "appendEntry e = onStore (\<lambda>st. fst (Store_Append st (fst (logged_form e)) (snd (logged_form e))))"

lemma onStore_simps [simp]:
  "srv_databases (onStore f srv) = srv_databases srv" "srv_persist (onStore f srv) = map_option f (srv_persist srv)"
  by (simp_all add: onStore_def)

lemma appendEntry_simps [simp]:
  "srv_databases (appendEntry e srv) = srv_databases srv"
  "srv_persist (appendEntry e srv) = map_option (\<lambda>st. fst (Store_Append st (fst (logged_form e)) (snd (logged_form e)))) (srv_persist srv)"
  by (simp_all add: appendEntry_def)

lemma execute_halves:
  "Resolve commandTable args = Inr cmd \<Longrightarrow> execute rt srv idx at cmd args =
     (case runCommand rt srv idx at cmd args of
        (srv1, idx1, reply, e) \<Rightarrow> (case e of None \<Rightarrow> srv1 | Some x \<Rightarrow> appendEntry x srv1, idx1, reply))"
  by (auto simp: execute_def runCommand_def Let_def appendEntry_def onStore_def logged_form_def split: option.split)

section \<open>The steps\<close>

datatype job =
    Idle
  | Waits Command "bytes list" \<comment> \<open>acquires the locks of a command\<close>
  | Logs gotime entry \<comment> \<open>has run the command, acquires the mutex of the store\<close>
  | Expires nat nat gotime int \<comment> \<open>acquires one shard for the expiry cycle\<close>
  | Flushes
  | Captures int \<comment> \<open>compaction: acquires every shard\<close>
  | Rotates int "ioErr + bytes" \<comment> \<open>compaction: has the snapshot, acquires the mutex of the store\<close>
  | Installs bytes int \<comment> \<open>compaction: releases its locks, then installs the snapshot\<close>
  | Leaves \<comment> \<open>releases its locks\<close>

fun releases :: "job \<Rightarrow> bool" where
  "releases (Installs snap g) = True"
| "releases Leaves = True"
| "releases j = False"

fun compacts :: "job \<Rightarrow> bool" where
  "compacts (Captures g) = True"
| "compacts (Rotates g res) = True"
| "compacts (Installs snap g) = True"
| "compacts j = False"

text \<open>
  The state: the server, the database each connection has selected, the locks, and what each
  goroutine does. The rest is history, which no step depends on: the entries of commands
  that ran but are not in the log yet, in the order they ran; the log, each entry with the
  time its command ran; whether all snapshots fitted the address space and the generations
  were not used up; the keys with a deadline that some snapshot could not express; and the
  length of the log at the last rotation.
\<close>

record conc =
  co_srv :: Server
  co_conn :: "nat \<Rightarrow> nat"
  co_lock :: "lockId lockState"
  co_job :: "nat \<Rightarrow> job"
  co_now :: gotime \<comment> \<open>the latest reading of the clock\<close>
  co_ran :: "(nat \<times> gotime \<times> entry) list"
  co_log :: history
  co_fit :: bool
  co_unsaved :: "(nat \<times> bytes) set"
  co_cut :: nat

abbreviation co_dbs :: "conc \<Rightarrow> DB list" where
  "co_dbs s \<equiv> srv_databases (co_srv s)"

abbreviation held :: "conc \<Rightarrow> nat \<Rightarrow> lockPlan" where
  "held s \<equiv> lk_held (co_lock s)"

abbreviation todo :: "conc \<Rightarrow> nat \<Rightarrow> lockPlan" where
  "todo s \<equiv> lk_todo (co_lock s)"

text \<open>Goroutine \<open>t\<close> goes on to \<open>j\<close> and sets out to acquire \<open>p\<close>.\<close>

definition next_job :: "nat \<Rightarrow> job \<Rightarrow> lockPlan \<Rightarrow> conc \<Rightarrow> conc" where
  "next_job t j p s =
     s\<lparr>co_job := (co_job s)(t := j), co_lock := (co_lock s)\<lparr>lk_todo := (todo s)(t := p)\<rparr>\<rparr>"

text \<open>The keys whose deadline a snapshot of the databases does not keep.\<close>

definition unsaved :: "keyhash \<Rightarrow> DB list \<Rightarrow> (nat \<times> bytes) set" where
  "unsaved hash dbs =
     {(d, k). d < length dbs \<and> (\<exists>e. db_ents hash (dbs ! d) k = Some e \<and> saved (ExpireAt e) \<noteq> ExpireAt e)}"

text \<open>A request comes from the reader, which bounds its words.\<close>

inductive conc_step :: "runtime \<Rightarrow> conc \<Rightarrow> conc \<Rightarrow> bool" for rt where
  cs_begin: "co_job s t = Idle \<Longrightarrow> request_ok args \<Longrightarrow> Resolve commandTable args = Inr cmd \<Longrightarrow>
    conc_step rt s (next_job t (Waits cmd args) (executeLocks (rt_hash rt) (co_dbs s) (co_conn s t) cmd args) s)"
| cs_lock: "lock_step (co_lock s) l \<Longrightarrow>
    (\<And>t. todo s t = [] \<Longrightarrow> \<not> releases (co_job s t) \<Longrightarrow> lk_held l t = held s t) \<Longrightarrow>
    conc_step rt s (s\<lparr>co_lock := l\<rparr>)"
| cs_run: "co_job s t = Waits cmd args \<Longrightarrow> todo s t = [] \<Longrightarrow> co_now s \<le> at_run at \<Longrightarrow>
    runCommand rt (co_srv s) (co_conn s t) at cmd args = (srv, idx, reply, e) \<Longrightarrow>
    conc_step rt s
      (next_job t (case e of None \<Rightarrow> Leaves | Some x \<Rightarrow> Logs (at_run at) x) (case e of None \<Rightarrow> [] | Some x \<Rightarrow> storeMu (co_dbs s))
        (s\<lparr>co_srv := srv, co_conn := (co_conn s)(t := idx), co_now := at_run at,
           co_ran := co_ran s @ (case e of None \<Rightarrow> [] | Some x \<Rightarrow> [(t, at_run at, x)])\<rparr>))"
| cs_append: "co_job s t = Logs tm e \<Longrightarrow> todo s t = [] \<Longrightarrow>
    conc_step rt s
      (next_job t Leaves [] (s\<lparr>co_srv := appendEntry e (co_srv s), co_log := co_log s @ [(tm, e)],
         co_ran := filter (\<lambda>(u, x). u \<noteq> t) (co_ran s)\<rparr>))"
| cs_leave: "co_job s t = Leaves \<Longrightarrow> held s t = [] \<Longrightarrow> conc_step rt s (next_job t Idle [] s)"
| cs_tick: "co_now s \<le> now \<Longrightarrow> conc_step rt s (s\<lparr>co_now := now\<rparr>)"
| cs_expire_begin: "co_job s t = Idle \<Longrightarrow> d < length (co_dbs s) \<Longrightarrow> i < length (db_shards (co_dbs s ! d)) \<Longrightarrow> now \<le> co_now s \<Longrightarrow>
    conc_step rt s (next_job t (Expires d i now limit) (LockAt d i) s)"
| cs_expire: "co_job s t = Expires d i now limit \<Longrightarrow> todo s t = [] \<Longrightarrow>
    conc_step rt s
      (next_job t Leaves [] (s\<lparr>co_srv := (co_srv s)\<lparr>srv_databases :=
         (co_dbs s)[d := DB_ExpireShard (rt_pick rt) (co_dbs s ! d) i now limit]\<rparr>\<rparr>))"
| cs_flush_begin: "co_job s t = Idle \<Longrightarrow> conc_step rt s (next_job t Flushes (storeMu (co_dbs s)) s)"
| cs_flush: "co_job s t = Flushes \<Longrightarrow> todo s t = [] \<Longrightarrow>
    conc_step rt s (next_job t Leaves [] (s\<lparr>co_srv := onStore (\<lambda>st. fst (Store_Flush st)) (co_srv s)\<rparr>))"
| cs_compact: "co_job s t = Idle \<Longrightarrow> (\<And>u. \<not> compacts (co_job s u)) \<Longrightarrow> srv_persist (co_srv s) = Some st \<Longrightarrow>
    conc_step rt s (next_job t (Captures (Store_NextGen st)) (lockAllDatabases (co_dbs s)) s)"
| cs_capture: "co_job s t = Captures g \<Longrightarrow> todo s t = [] \<Longrightarrow> WriteSnapshot (rt_pick rt) g (emitRecords rt (co_dbs s)) = Some res \<Longrightarrow>
    conc_step rt s
      (next_job t (Rotates g res) (storeMu (co_dbs s))
        (s\<lparr>co_fit := (co_fit s \<and> dbs_fit (rt_hash rt) (co_dbs s)), co_unsaved := co_unsaved s \<union> unsaved (rt_hash rt) (co_dbs s)\<rparr>))"
| cs_rotate: "co_job s t = Rotates g res \<Longrightarrow> todo s t = [] \<Longrightarrow> srv_persist (co_srv s) = Some st \<Longrightarrow> Store_Rotate st = (st', r) \<Longrightarrow>
    conc_step rt s
      (next_job t (case (res, r) of (Inr snap, Some g') \<Rightarrow> Installs snap g | _ \<Rightarrow> Leaves) []
        (s\<lparr>co_srv := (co_srv s)\<lparr>srv_persist := Some st'\<rparr>, co_cut := length (co_log s),
           co_fit := (co_fit s \<and> st_gen st' < maxInt64)\<rparr>))"
| cs_install: "co_job s t = Installs snap g \<Longrightarrow> held s t = [] \<Longrightarrow>
    conc_step rt s (next_job t Leaves [] (s\<lparr>co_srv := onStore (\<lambda>st. fst (InstallSnapshot st snap g)) (co_srv s)\<rparr>))"

definition conc_init :: "Server \<Rightarrow> (nat \<Rightarrow> nat) \<Rightarrow> gotime \<Rightarrow> conc" where
  "conc_init srv conns now =
     \<lparr>co_srv = srv, co_conn = conns, co_lock = lock_init, co_job = (\<lambda>t. Idle), co_now = now, co_ran = [], co_log = [],
      co_fit = True, co_unsaved = {}, co_cut = 0\<rparr>"

inductive conc_reach :: "runtime \<Rightarrow> Server \<Rightarrow> (nat \<Rightarrow> nat) \<Rightarrow> gotime \<Rightarrow> conc \<Rightarrow> bool" for rt srv conns now where
  cr_init: "conc_reach rt srv conns now (conc_init srv conns now)"
| cr_step: "conc_reach rt srv conns now s \<Longrightarrow> conc_step rt s s' \<Longrightarrow> conc_reach rt srv conns now s'"

section \<open>Who holds what\<close>

lemma shape_locks:
  assumes "shape dbs = shape dbs'"
  shows "lock_ids dbs = lock_ids dbs'" "storeMu dbs = storeMu dbs'" "lockAllDatabases dbs = lockAllDatabases dbs'"
    "d < length dbs \<Longrightarrow> executeLocks hash dbs d cmd args = executeLocks hash dbs' d cmd args"
proof -
  have len: "length dbs = length dbs'" using shape_length[OF assms] .
  have n: "length (db_shards (dbs ! d)) = length (db_shards (dbs' ! d))" if "d < length dbs" for d
    using assms that len by (metis shape_nth)
  show "lock_ids dbs = lock_ids dbs'" using len n by (auto simp: lock_ids_def)
  show "storeMu dbs = storeMu dbs'" by (simp add: storeMu_def len)
  show "lockAllDatabases dbs = lockAllDatabases dbs'"
    unfolding lockAllDatabases_def LockAll_def len using n len by (intro arg_cong[where f = concat] map_cong) auto
  assume d: "d < length dbs"
  then have i: "indexBytes hash (dbs ! d) = indexBytes hash (dbs' ! d)" using n by (simp add: indexBytes_def fun_eq_iff)
  then have "shardSet hash (dbs ! d) ks = shardSet hash (dbs' ! d) ks" for ks by (simp only: shardSet_def)
  then show "executeLocks hash dbs d cmd args = executeLocks hash dbs' d cmd args"
    using i n[OF d] by (simp add: executeLocks_def lockShards_def LockAll_def LockKeys_def RLockKeys_def)
qed

lemma lock_inv_plan:
  assumes "lock_inv L l" "lk_todo l t = []" "ascending (rev (lk_held l t) @ p)" "fst ` set p \<subseteq> L"
  shows "lock_inv L (l\<lparr>lk_todo := (lk_todo l)(t := p)\<rparr>)"
  using assms unfolding lock_inv_def by (auto split: if_splits) (metis list.distinct(1))+

text \<open>What a lock operation does to one goroutine: nothing, or acquire, or release.\<close>

lemma lock_step_goroutine:
  assumes "lock_step l l'"
  shows "(lk_held l' u = lk_held l u \<and> lk_todo l' u = lk_todo l u)
    \<or> (\<exists>x. lk_todo l u = x # lk_todo l' u \<and> lk_held l' u = x # lk_held l u)
    \<or> (lk_todo l u = [] \<and> lk_todo l' u = [] \<and> (\<exists>x. lk_held l u = x # lk_held l' u))"
  using assms by cases auto

text \<open>Goroutine \<open>t\<close> holds \<open>P\<close> and is acquiring \<open>Q\<close>.\<close>

definition holds :: "lockId lockState \<Rightarrow> nat \<Rightarrow> lockPlan \<Rightarrow> lockPlan \<Rightarrow> bool" where
  "holds l t P Q \<longleftrightarrow> (\<exists>R. rev (lk_held l t) = P @ R \<and> R @ lk_todo l t = Q)"

lemma holdsD: "holds l t P Q \<Longrightarrow> set P \<subseteq> set (lk_held l t)" "holds l t P Q \<Longrightarrow> lk_todo l t = [] \<Longrightarrow> lk_held l t = rev (P @ Q)"
  by (auto simp: holds_def rev_swap)

lemma holds_step:
  assumes "lock_step l l'" "holds l u P Q" "lk_todo l u = [] \<Longrightarrow> lk_held l' u = lk_held l u"
  shows "holds l' u P Q"
proof -
  from assms(2) obtain R where R: "rev (lk_held l u) = P @ R" "R @ lk_todo l u = Q" by (auto simp: holds_def)
  consider "lk_held l' u = lk_held l u" "lk_todo l' u = lk_todo l u"
    | x where "lk_todo l u = x # lk_todo l' u" "lk_held l' u = x # lk_held l u"
    using lock_step_goroutine[OF assms(1), of u] assms(3) by (metis not_Cons_self)
  then show ?thesis
  proof cases
    case 2
    with R show ?thesis unfolding holds_def by (intro exI[of _ "R @ [x]"]) simp
  qed (use R in \<open>auto simp: holds_def\<close>)
qed

definition job_locks :: "runtime \<Rightarrow> DB list \<Rightarrow> conc \<Rightarrow> nat \<Rightarrow> bool" where
  "job_locks rt dbs s t \<longleftrightarrow>
     (case co_job s t of
        Idle \<Rightarrow> held s t = [] \<and> todo s t = []
      | Waits cmd args \<Rightarrow>
          Resolve commandTable args = Inr cmd \<and> request_ok args
          \<and> holds (co_lock s) t [] (executeLocks (rt_hash rt) dbs (co_conn s t) cmd args)
      | Logs tm e \<Rightarrow>
          (\<exists>d cmd args. d < length dbs \<and> \<not> cmd_readOnly cmd \<and> confined ({d} \<times> declared cmd args) (spec_logged rt tm (snd e))
             \<and> holds (co_lock s) t (executeLocks (rt_hash rt) dbs d cmd args) (storeMu dbs))
      | Expires d i now limit \<Rightarrow>
          d < length dbs \<and> i < length (db_shards (dbs ! d)) \<and> now \<le> co_now s \<and> holds (co_lock s) t [] (LockAt d i)
      | Flushes \<Rightarrow> holds (co_lock s) t [] (storeMu dbs)
      | Captures g \<Rightarrow> holds (co_lock s) t [] (lockAllDatabases dbs)
      | Rotates g res \<Rightarrow> holds (co_lock s) t (lockAllDatabases dbs) (storeMu dbs)
      | Installs snap g \<Rightarrow> todo s t = []
      | Leaves \<Rightarrow> todo s t = [])"

lemma job_locks_lock:
  assumes "job_locks rt dbs s u" "lock_step (co_lock s) l" "todo s u = [] \<Longrightarrow> \<not> releases (co_job s u) \<Longrightarrow> lk_held l u = held s u"
  shows "job_locks rt dbs (s\<lparr>co_lock := l\<rparr>) u"
proof -
  have h: "holds l u P Q" if "holds (co_lock s) u P Q" "\<not> releases (co_job s u)" for P Q
    using holds_step[OF assms(2) that(1)] assms(3) that(2) by blast
  note lock_step_goroutine[OF assms(2), of u]
  then have t: "todo s u = [] \<Longrightarrow> lk_todo l u = []" by auto
  show ?thesis
  proof (cases "co_job s u")
    case (Logs tm e)
    with assms(1) obtain d cmd args where "d < length dbs" "\<not> cmd_readOnly cmd" "confined ({d} \<times> declared cmd args) (spec_logged rt tm (snd e))"
      "holds (co_lock s) u (executeLocks (rt_hash rt) dbs d cmd args) (storeMu dbs)" by (auto simp: job_locks_def)
    with h[OF this(4)] Logs show ?thesis by (auto simp: job_locks_def)
  qed (use assms(1,3) h t in \<open>auto simp: job_locks_def\<close>)
qed

text \<open>A goroutine is not affected by what others do to their own jobs.\<close>

lemma job_locks_other:
  assumes "job_locks rt dbs s u" "co_job s' u = co_job s u" "held s' u = held s u" "todo s' u = todo s u"
    "co_conn s' u = co_conn s u" "co_now s \<le> co_now s'"
  shows "job_locks rt dbs s' u"
proof -
  have "holds (co_lock s') u P Q = holds (co_lock s) u P Q" for P Q using assms(3,4) by (simp add: holds_def)
  note h = this
  show ?thesis
  proof (cases "co_job s u")
    case (Logs tm e)
    with h assms show ?thesis by (simp add: job_locks_def)
  qed (use h assms in \<open>auto simp: job_locks_def\<close>)
qed

section \<open>A command that runs under its locks\<close>

lemma runCommand_see:
  assumes see: "dbs_see (rt_hash rt) (at_run at) (srv_databases srv) A" "idx < length A"
    and ok: "request_ok args" and cmd: "Resolve commandTable args = Inr cmd"
    and p: "srv_persist srv \<noteq> None" and run: "runCommand rt srv idx at cmd args = (srv', idx', reply, e)"
  shows "idx' < length A" "srv_persist srv' = srv_persist srv"
    "dbs_see (rt_hash rt) (at_run at) (srv_databases srv') (showLog rt (case e of None \<Rightarrow> [] | Some x \<Rightarrow> [(at_run at, x)]) A)"
    "e = Some x \<Longrightarrow> entry_known (length A) x"
proof -
  obtain srv2 idx2 r where d: "dispatch rt commandTable srv idx at args = (srv2, idx2, r)" using prod_cases3 by blast
  have l: "loggedOf rt srv idx at args = (case e of None \<Rightarrow> [] | Some x \<Rightarrow> [(at_run at, x)])"
    using run cmd p by (auto simp: loggedOf_def runCommand_def split: option.splits if_splits)
  have s: "srv_databases srv2 = srv_databases srv'" "idx2 = idx'"
    using d run cmd by (auto simp: dispatch_def execute_halves[OF cmd] Let_def split: if_splits option.splits)
  note R = run_step[OF see ok d, unfolded l s]
  show "idx' < length A" "dbs_see (rt_hash rt) (at_run at) (srv_databases srv') (showLog rt (case e of None \<Rightarrow> [] | Some x \<Rightarrow> [(at_run at, x)]) A)"
    using R by blast+
  show "e = Some x \<Longrightarrow> entry_known (length A) x" using R by simp
  show "srv_persist srv' = srv_persist srv" using run by (auto simp: runCommand_def split: option.splits)
qed

lemma runCommand_local:
  assumes see: "dbs_see (rt_hash rt) (at_run at) (srv_databases srv) A" "idx < length A"
    and ok: "request_ok args" and cmd: "Resolve commandTable args = Inr cmd"
    and run: "runCommand rt srv idx at cmd args = (srv', idx', reply, e)"
  shows "shape (srv_databases srv') = shape (srv_databases srv)
    \<and> (\<forall>x. e = Some x \<longrightarrow> \<not> cmd_readOnly cmd \<and> confined ({idx} \<times> declared cmd args) (spec_logged rt (at_run at) (snd x)))"
proof (cases "cmd_run cmd rt (session srv idx (at_run at)) args = None")
  case True
  then show ?thesis using run by (simp add: runCommand_def)
next
  case returned: False
  let ?c = "session srv idx (at_run at)"
  have c: "ctx_see rt (at_run at) ?c A" "ctx_now ?c = at_run at" "ctx_index ?c = idx" using session_see[OF see] by simp_all
  from handler_see[OF c(1,2) Resolve_cmd(1,2)[OF cmd] request_ok_args[OF ok]] returned obtain c' r where
    h: "cmd_run cmd rt ?c args = Some (c', r)" "cmd_name cmd \<notin> storeless \<Longrightarrow> Context_DB c' = idx" unfolding c(3) by blast
  have "shape (ctx_databases c') = shape (ctx_databases ?c)"
  proof (cases "cmd_readOnly cmd")
    case True
    moreover have "ctx_inv rt ?c" using c(1) by (simp add: ctx_see_def)
    ultimately have "\<exists>r. cmd_run cmd rt ?c args = Some (?c, r)"
      using table_safe[OF Resolve_cmd(1)[OF cmd]] Resolve_cmd(2)[OF cmd] request_ok_args[OF ok] pops_write[OF Resolve_cmd(1)[OF cmd]]
      unfolding safe_def by blast
    with h(1) show ?thesis by auto
  next
    case False
    then have "keeps_shape (cmd_run cmd)" using table_keeps_shape Resolve_cmd(1)[OF cmd] by blast
    with h(1) show ?thesis unfolding keeps_shape_def by blast
  qed
  moreover have "shape (srv_databases (absorb srv c')) = shape (ctx_databases c')"
    by (simp add: absorb_def reapAll_def shape_def comp_def)
  ultimately have "shape (srv_databases srv') = shape (srv_databases srv)" using run h(1) by (simp add: runCommand_def)
  moreover have "x = (at_append at, int (Context_DB c'), args) \<and> \<not> cmd_readOnly cmd" if "e = Some x" for x
    using run h(1) that by (auto simp: runCommand_def split: if_splits)
  moreover have "confined ({idx} \<times> declared cmd args) (spec_logged rt (at_run at) (int (Context_DB c'), args))"
    using h(2) by (intro spec_logged_confined[OF cmd]) simp
  ultimately show ?thesis by auto
qed

section \<open>The invariant\<close>

definition conc_inv :: "runtime \<Rightarrow> DB list \<Rightarrow> semStore list \<Rightarrow> conc \<Rightarrow> bool" where
  "conc_inv rt dbs A s \<longleftrightarrow>
     shape (co_dbs s) = shape dbs \<and> lock_inv (lock_ids dbs) (co_lock s) \<and> (\<forall>t. job_locks rt dbs s t)
     \<and> (\<forall>t. co_conn s t < length A) \<and> srv_persist (co_srv s) \<noteq> None
     \<and> distinct (map fst (co_ran s)) \<and> (\<forall>t tm e. (t, tm, e) \<in> set (co_ran s) \<longleftrightarrow> co_job s t = Logs tm e)
     \<and> (\<forall>x \<in> set (co_log s @ map snd (co_ran s)). entry_known (length A) (snd x))
     \<and> dbs_see (rt_hash rt) (co_now s) (co_dbs s) (showLog rt (co_log s @ map snd (co_ran s)) A)"

lemma conc_invD:
  assumes "conc_inv rt dbs A s"
  shows "shape (co_dbs s) = shape dbs" "lock_inv (lock_ids dbs) (co_lock s)" "job_locks rt dbs s t"
    "co_conn s t < length A" "srv_persist (co_srv s) \<noteq> None" "distinct (map fst (co_ran s))"
    "(t, tm, e) \<in> set (co_ran s) \<longleftrightarrow> co_job s t = Logs tm e"
    "x \<in> set (co_log s @ map snd (co_ran s)) \<Longrightarrow> entry_known (length A) (snd x)"
    "dbs_see (rt_hash rt) (co_now s) (co_dbs s) (showLog rt (co_log s @ map snd (co_ran s)) A)"
  using assms unfolding conc_inv_def by blast+

lemma conc_inv_shape:
  assumes "conc_inv rt dbs A s"
  shows "length dbs = length A" "length (co_dbs s) = length A" "d < length dbs \<Longrightarrow> db_shards (dbs ! d) \<noteq> []"
    "d < length A \<Longrightarrow> length (db_shards (co_dbs s ! d)) = length (db_shards (dbs ! d))"
proof -
  show len: "length (co_dbs s) = length A" using conc_invD(9)[OF assms] by (simp add: dbs_see_def)
  show l: "length dbs = length A" using shape_length[OF conc_invD(1)[OF assms]] len by simp
  show n: "length (db_shards (co_dbs s ! d)) = length (db_shards (dbs ! d))" if "d < length A" for d
    using conc_invD(1)[OF assms] that len l by (metis shape_nth)
  assume d: "d < length dbs"
  then have "db_inv (rt_hash rt) (co_dbs s ! d)" using conc_invD(9)[OF assms] len l by (auto simp: dbs_see_def dbs_inv_def)
  then show "db_shards (dbs ! d) \<noteq> []" using n[of d] d l by (auto simp: db_inv_def)
qed

text \<open>Two goroutines that wait to log hold the locks of their keys, so their keys differ.\<close>

lemma logging_disjoint:
  assumes inv: "conc_inv rt dbs A s" and t: "co_job s t = Logs tm e"
  obtains D where "confined D (spec_logged rt tm (snd e))"
    "\<And>d k. (d, k) \<in> D \<Longrightarrow> ((d, indexBytes (rt_hash rt) (dbs ! d) k), Exclusive) \<in> set (held s t) \<and> d < length dbs"
proof -
  from conc_invD(3)[OF inv, of t] t obtain d cmd args where
    T: "d < length dbs" "\<not> cmd_readOnly cmd" "confined ({d} \<times> declared cmd args) (spec_logged rt tm (snd e))"
      "holds (co_lock s) t (executeLocks (rt_hash rt) dbs d cmd args) (storeMu dbs)" by (auto simp: job_locks_def)
  have "((d', indexBytes (rt_hash rt) (dbs ! d') k), Exclusive) \<in> set (held s t) \<and> d' < length dbs"
    if "(d', k) \<in> {d} \<times> declared cmd args" for d' k
    using executeLocks_cover[OF conc_inv_shape(3)[OF inv T(1)], of k cmd args "rt_hash rt"] that T(1,2) holdsD(1)[OF T(4)] by auto
  with T(3) show thesis by (rule that)
qed

lemma filter_others: "t \<notin> fst ` set r \<Longrightarrow> filter (\<lambda>(u, x). u \<noteq> t) r = r"
  by (induction r) auto

lemma append_commutes:
  assumes inv: "conc_inv rt dbs A s" and t: "co_job s t = Logs tm e"
  shows "showLog rt (co_log s @ [(tm, e)] @ map snd (filter (\<lambda>(u, x). u \<noteq> t) (co_ran s))) A
    = showLog rt (co_log s @ map snd (co_ran s)) A"
proof -
  have "(t, tm, e) \<in> set (co_ran s)" using conc_invD(7)[OF inv] t by blast
  then obtain r1 r2 where r: "co_ran s = r1 @ (t, tm, e) # r2" by (meson split_list)
  have "t \<notin> fst ` set r1" "t \<notin> fst ` set r2" using conc_invD(6)[OF inv] by (auto simp: r)
  then have f: "filter (\<lambda>(u, x). u \<noteq> t) (co_ran s) = r1 @ r2" by (simp add: r filter_others)
  from logging_disjoint[OF inv t] obtain D where
    D: "confined D (spec_logged rt tm (snd e))"
      "\<And>d k. (d, k) \<in> D \<Longrightarrow> ((d, indexBytes (rt_hash rt) (dbs ! d) k), Exclusive) \<in> set (held s t) \<and> d < length dbs" by blast
  have "\<exists>E. confined E (spec_logged rt t' (snd e')) \<and> D \<inter> E = {}" if "(u, t', e') \<in> set r1" for u t' e'
  proof -
    have u: "co_job s u = Logs t' e'" "u \<noteq> t"
      using conc_invD(7)[OF inv, of u t' e'] that \<open>t \<notin> fst ` set r1\<close> by (auto simp: r image_iff)
    from logging_disjoint[OF inv u(1)] obtain E where
      E: "confined E (spec_logged rt t' (snd e'))"
        "\<And>d k. (d, k) \<in> E \<Longrightarrow> ((d, indexBytes (rt_hash rt) (dbs ! d) k), Exclusive) \<in> set (held s u) \<and> d < length dbs" by blast
    have "x \<notin> E" if "x \<in> D" for x
    proof
      assume "x \<in> E"
      obtain d k where x: "x = (d, k)" by (cases x)
      from lock_exclusion[OF conc_invD(2)[OF inv] conjunct1[OF D(2)] conjunct1[OF E(2)], of d k] \<open>x \<in> E\<close> that x
      show False using u(2) by simp
    qed
    with E(1) show ?thesis by blast
  qed
  then have "\<forall>(t', e') \<in> set (map snd r1). \<exists>E. confined E (spec_logged rt t' (snd e')) \<and> D \<inter> E = {}" by fastforce
  from showLog_commute[OF D(1) this] show ?thesis unfolding f by (simp add: r)
qed

section \<open>Every step keeps it\<close>

lemma next_job_simps [simp]:
  "co_srv (next_job t j p s) = co_srv s" "co_conn (next_job t j p s) = co_conn s" "co_now (next_job t j p s) = co_now s"
  "co_ran (next_job t j p s) = co_ran s" "co_log (next_job t j p s) = co_log s" "co_fit (next_job t j p s) = co_fit s"
  "co_unsaved (next_job t j p s) = co_unsaved s"
  "co_cut (next_job t j p s) = co_cut s"
  "co_job (next_job t j p s) = (co_job s)(t := j)" "held (next_job t j p s) = held s"
  "todo (next_job t j p s) = (todo s)(t := p)"
  by (simp_all add: next_job_def)

lemma holds_next: "held s t = rev P \<Longrightarrow> holds (co_lock (next_job t j p s)) t P p"
  by (simp add: holds_def next_job_def)

lemma jobs_next:
  assumes "\<And>u. job_locks rt dbs s u" "co_job s1 = co_job s" "co_lock s1 = co_lock s" "\<And>u. u \<noteq> t \<Longrightarrow> co_conn s1 u = co_conn s u"
    "co_now s \<le> co_now s1" "job_locks rt dbs (next_job t j p s1) t"
  shows "\<forall>u. job_locks rt dbs (next_job t j p s1) u"
proof
  fix u
  show "job_locks rt dbs (next_job t j p s1) u"
    using job_locks_other[OF assms(1)[of u], of "next_job t j p s1"] assms(2-6) by (cases "u = t") simp_all
qed

text \<open>A goroutine that holds \<open>P\<close> and has nothing to acquire may go on with \<open>p\<close> if \<open>P\<close> and \<open>p\<close> make a plan.\<close>

lemma locks_next:
  assumes "\<And>d. d < length dbs \<Longrightarrow> db_shards (dbs ! d) \<noteq> []" "lock_inv (lock_ids dbs) (co_lock s)" "todo s t = []" "held s t = rev P"
    "lock_plan hash dbs (P @ p @ r)"
  shows "lock_inv (lock_ids dbs) (co_lock (next_job t j p s))"
proof -
  have "\<forall>db \<in> set dbs. db_shards db \<noteq> []" using assms(1) by (auto simp: in_set_conv_nth)
  from lock_plan_ok[OF this assms(5)] have "ascending (rev (held s t) @ p)" "fst ` set p \<subseteq> lock_ids dbs"
    using assms(4) ascending_append[of "P @ p" r] by (auto simp: image_subset_iff)
  from lock_inv_plan[OF assms(2,3) this] show ?thesis by (simp add: next_job_def)
qed

lemma locks_done: "todo s t = [] \<Longrightarrow> co_lock (next_job t j [] s) = co_lock s"
  by (simp add: next_job_def fun_upd_idem)

text \<open>A goroutine that is not about to log changes to such a job without an effect on the history.\<close>

lemma conc_inv_next:
  assumes inv: "conc_inv rt dbs A s" and t: "todo s t = []" "held s t = rev P" "(\<exists>r. lock_plan hash dbs (P @ p @ r)) \<or> p = []"
    and job: "\<And>tm e. co_job s t \<noteq> Logs tm e" "\<And>tm e. j \<noteq> Logs tm e"
    and s1: "co_job s1 = co_job s" "co_lock s1 = co_lock s" "co_conn s1 = co_conn s" "co_now s1 = co_now s"
      "co_ran s1 = co_ran s" "co_log s1 = co_log s" "srv_persist (co_srv s1) \<noteq> None" "shape (co_dbs s1) = shape dbs"
      "dbs_see (rt_hash rt) (co_now s) (co_dbs s1) (showLog rt (co_log s @ map snd (co_ran s)) A)"
    and ok: "job_locks rt dbs (next_job t j p s1) t"
  shows "conc_inv rt dbs A (next_job t j p s1)"
proof -
  note I = conc_invD[OF inv]
  have "lock_inv (lock_ids dbs) (co_lock (next_job t j p s1))"
    using locks_next[of dbs s1 t P hash p _ j, OF conc_inv_shape(3)[OF inv]] locks_done[of s1 t j] I(2) t s1(2) by auto
  moreover have "\<forall>u. job_locks rt dbs (next_job t j p s1) u"
    using jobs_next[OF I(3) s1(1,2) _ _ ok] s1(3,4) by simp
  moreover have "(u, tm, e) \<in> set (co_ran s) \<longleftrightarrow> ((co_job s)(t := j)) u = Logs tm e" for u tm e
    using I(7)[of u tm e] job by simp
  ultimately show ?thesis using I(4,6,8) s1 unfolding conc_inv_def by simp
qed

lemma run_keeps:
  assumes inv: "conc_inv rt dbs A s" and job: "co_job s t = Waits cmd args" "todo s t = []" and now: "co_now s \<le> at_run at"
    and run: "runCommand rt (co_srv s) (co_conn s t) at cmd args = (srv, idx, reply, e)"
  shows "conc_inv rt dbs A
    (next_job t (case e of None \<Rightarrow> Leaves | Some x \<Rightarrow> Logs (at_run at) x) (case e of None \<Rightarrow> [] | Some x \<Rightarrow> storeMu (co_dbs s))
      (s\<lparr>co_srv := srv, co_conn := (co_conn s)(t := idx), co_now := at_run at,
         co_ran := co_ran s @ (case e of None \<Rightarrow> [] | Some x \<Rightarrow> [(t, at_run at, x)])\<rparr>))"
    (is "conc_inv rt dbs A (next_job t ?j ?p ?s)")
proof -
  note I = conc_invD[OF inv] and S = conc_inv_shape[OF inv]
  let ?A = "showLog rt (co_log s @ map snd (co_ran s)) A" and ?P = "executeLocks (rt_hash rt) dbs (co_conn s t) cmd args"
  have cmd: "Resolve commandTable args = Inr cmd" and ok: "request_ok args" and h: "held s t = rev ?P"
    using I(3)[of t] job holdsD(2)[of "co_lock s" t "[]" ?P] by (auto simp: job_locks_def)
  have see: "dbs_see (rt_hash rt) (at_run at) (co_dbs s) ?A" "co_conn s t < length ?A" using dbs_see_later[OF I(9) now] I(4) by simp_all
  note R = runCommand_see[OF see ok cmd I(5) run] and L = conjunct1[OF runCommand_local[OF see ok cmd run]] conjunct2[OF runCommand_local[OF see ok cmd run], rule_format]
  have d: "co_conn s t < length dbs" using I(4)[of t] S(1) by simp
  have "lock_inv (lock_ids dbs) (co_lock (next_job t ?j ?p ?s))"
  proof (cases e)
    case None
    then show ?thesis using locks_done[of ?s t ?j] job(2) I(2) by simp
  next
    case (Some x)
    have "lock_plan (rt_hash rt) dbs (?P @ ?p @ [])"
      using executeLocks_plan(2)[OF d S(3)[OF d]] L(2)[OF Some] Some shape_locks(2)[OF I(1)] by simp
    from locks_next[of dbs ?s t ?P "rt_hash rt" ?p "[]" ?j, OF S(3) _ _ _ this] h job(2) I(2) show ?thesis by simp
  qed
  moreover have "\<forall>u. job_locks rt dbs (next_job t ?j ?p ?s) u"
  proof (rule jobs_next[OF I(3)])
    show "job_locks rt dbs (next_job t ?j ?p ?s) t"
    proof (cases e)
      case (Some x)
      have "holds (co_lock (next_job t ?j ?p ?s)) t ?P (storeMu dbs)"
        using holds_next[of ?s t ?P ?j ?p] h Some shape_locks(2)[OF I(1)] by simp
      with L(2)[OF Some] d Some show ?thesis by (auto simp: job_locks_def)
    qed (simp add: job_locks_def)
  qed (use now in simp_all)
  moreover have "t \<notin> fst ` set (co_ran s)" using I(7)[of t] job(1) by force
  moreover from this have "(u, tm, x) \<in> set (co_ran ?s) \<longleftrightarrow> ((co_job s)(t := ?j)) u = Logs tm x" for u tm x
    using I(7)[of u tm x] by (cases e) (force+)
  moreover have "\<forall>x \<in> set (co_log s @ map snd (co_ran ?s)). entry_known (length A) (snd x)"
    using I(8) R(4) by (cases e) auto
  moreover have "dbs_see (rt_hash rt) (at_run at) (srv_databases srv) (showLog rt (co_log s @ map snd (co_ran ?s)) A)"
    using R(3) by (cases e) simp_all
  ultimately show ?thesis using I(1,4-6) R(1,2) L(1) unfolding conc_inv_def by (cases e) auto
qed

lemma append_keeps:
  assumes inv: "conc_inv rt dbs A s" and job: "co_job s t = Logs tm e" "todo s t = []"
  shows "conc_inv rt dbs A (next_job t Leaves [] (s\<lparr>co_srv := appendEntry e (co_srv s), co_log := co_log s @ [(tm, e)],
         co_ran := filter (\<lambda>(u, x). u \<noteq> t) (co_ran s)\<rparr>))" (is "conc_inv rt dbs A (next_job t Leaves [] ?s)")
proof -
  note I = conc_invD[OF inv]
  have "lock_inv (lock_ids dbs) (co_lock (next_job t Leaves [] ?s))" using locks_done[of ?s t Leaves] job(2) I(2) by simp
  moreover have "\<forall>u. job_locks rt dbs (next_job t Leaves [] ?s) u"
    by (rule jobs_next[OF I(3)]) (simp_all add: job_locks_def)
  moreover have "distinct (map fst (filter (\<lambda>(u, x). u \<noteq> t) (co_ran s)))" using I(6) by (simp add: distinct_map_filter)
  moreover have "(u, tm', x) \<in> set (co_ran ?s) \<longleftrightarrow> ((co_job s)(t := Leaves)) u = Logs tm' x" for u tm' x using I(7)[of u tm' x] by simp
  moreover have "(tm, e) \<in> set (map snd (co_ran s))" using I(7)[of t tm e] job(1) by force
  then have "entry_known (length A) (snd x)" if "x \<in> set (co_log ?s @ map snd (co_ran ?s))" for x
    using I(8)[of x] I(8)[of "(tm, e)"] that by auto
  moreover have "showLog rt (co_log ?s @ map snd (co_ran ?s)) A = showLog rt (co_log s @ map snd (co_ran s)) A"
    using append_commutes[OF inv job(1)] by simp
  ultimately show ?thesis using I(1,4,5,9) unfolding conc_inv_def by simp
qed

lemma expire_keeps:
  assumes inv: "conc_inv rt dbs A s" and job: "co_job s t = Expires d i now limit" "todo s t = []"
  shows "conc_inv rt dbs A
    (next_job t Leaves [] (s\<lparr>co_srv := (co_srv s)\<lparr>srv_databases :=
       (co_dbs s)[d := DB_ExpireShard (rt_pick rt) (co_dbs s ! d) i now limit]\<rparr>\<rparr>))"
proof (rule conc_inv_next[OF inv job(2), of "rev (held s t)"])
  note I = conc_invD[OF inv] and S = conc_inv_shape[OF inv]
  let ?A = "showLog rt (co_log s @ map snd (co_ran s)) A" and ?db = "DB_ExpireShard (rt_pick rt) (co_dbs s ! d) i now limit"
  have e: "d < length A" "i < length (db_shards (co_dbs s ! d))" "now \<le> co_now s"
    using I(3)[of t] job(1) S(1,4) by (auto simp: job_locks_def)
  have db: "db_inv (rt_hash rt) (co_dbs s ! d)" using I(9) e(1) S(2) by (auto simp: dbs_see_def dbs_inv_def)
  note E = DB_ExpireShard_spec[OF db e(3,2), of "rt_pick rt" limit]
  show "shape (co_dbs (s\<lparr>co_srv := (co_srv s)\<lparr>srv_databases := (co_dbs s)[d := ?db]\<rparr>\<rparr>)) = shape dbs"
    using shape_update[OF E(3)] I(1) by simp
  have "dbs_inv (rt_hash rt) ((co_dbs s)[d := ?db])"
    using I(9) E(1) set_update_subset_insert[of "co_dbs s" d ?db] by (fastforce simp: dbs_see_def dbs_inv_def)
  moreover have "sees (co_now s) (db_ents (rt_hash rt) ((co_dbs s)[d := ?db] ! d')) (?A ! d')" if "d' < length A" for d'
    using I(9) that E(2) e(1) S(2) by (cases "d' = d") (simp_all add: dbs_see_def sees_def)
  ultimately show "dbs_see (rt_hash rt) (co_now s) (co_dbs (s\<lparr>co_srv := (co_srv s)\<lparr>srv_databases := (co_dbs s)[d := ?db]\<rparr>\<rparr>)) ?A"
    using I(9) by (simp add: dbs_see_def)
qed (use job conc_invD(5)[OF inv] in \<open>simp_all add: job_locks_def\<close>)

text \<open>An idle goroutine begins a job that is not about to log.\<close>

lemma begin_keeps:
  assumes inv: "conc_inv rt dbs A s" and t: "co_job s t = Idle" and j: "\<And>tm e. j \<noteq> Logs tm e"
    and p: "lock_plan (rt_hash rt) dbs (p @ r)" and ok: "holds (co_lock (next_job t j p s)) t [] p \<Longrightarrow> job_locks rt dbs (next_job t j p s) t"
  shows "conc_inv rt dbs A (next_job t j p s)"
proof -
  have "todo s t = []" "held s t = rev []" using conc_invD(3)[OF inv, of t] t by (simp_all add: job_locks_def)
  moreover have "\<exists>r. lock_plan (rt_hash rt) dbs ([] @ p @ r)" using p by auto
  ultimately show ?thesis
    using ok[OF holds_next[of s t "[]"]] conc_invD(1,5,9)[OF inv] t j
    by (intro conc_inv_next[OF inv, where P = "[]" and hash = "rt_hash rt"]) auto
qed

text \<open>A goroutine that has all its locks, and is not about to log, goes on to release them.\<close>

lemma finish_keeps:
  assumes inv: "conc_inv rt dbs A s" and t: "todo s t = []" "\<And>tm e. co_job s t \<noteq> Logs tm e"
    and j: "j \<in> {Idle, Leaves} \<or> (\<exists>snap g. j = Installs snap g)" "j = Idle \<Longrightarrow> held s t = []"
    and s1: "co_dbs s1 = co_dbs s" "srv_persist (co_srv s1) \<noteq> None" "co_job s1 = co_job s" "co_lock s1 = co_lock s" "co_conn s1 = co_conn s"
      "co_now s1 = co_now s" "co_ran s1 = co_ran s" "co_log s1 = co_log s"
  shows "conc_inv rt dbs A (next_job t j [] s1)"
  using conc_invD(1,9)[OF inv] t j s1
  by (intro conc_inv_next[OF inv t(1) rev_rev_ident[symmetric]]) (auto simp: job_locks_def)

lemma capture_keeps:
  assumes inv: "conc_inv rt dbs A s" and t: "co_job s t = Captures g" "todo s t = []"
  shows "conc_inv rt dbs A (next_job t (Rotates g res) (storeMu (co_dbs s)) (s\<lparr>co_fit := f, co_unsaved := un\<rparr>))"
proof -
  note I = conc_invD[OF inv]
  have h: "held s t = rev (lockAllDatabases dbs)"
    using I(3)[of t] t holdsD(2)[of "co_lock s" t "[]"] by (auto simp: job_locks_def)
  have "\<exists>r. lock_plan (rt_hash rt) dbs (lockAllDatabases dbs @ storeMu dbs @ r)" by (intro exI[of _ "[]"]) (simp add: lp_compact)
  then show ?thesis
    using t h I(1,5,9) holds_next[of _ t "lockAllDatabases dbs"] shape_locks(2)[OF I(1)]
    by (intro conc_inv_next[OF inv, where P = "lockAllDatabases dbs" and hash = "rt_hash rt"]) (auto simp: job_locks_def)
qed

lemma lock_keeps:
  assumes inv: "conc_inv rt dbs A s" and step: "lock_step (co_lock s) l"
    and hold: "\<And>t. todo s t = [] \<Longrightarrow> \<not> releases (co_job s t) \<Longrightarrow> lk_held l t = held s t"
  shows "conc_inv rt dbs A (s\<lparr>co_lock := l\<rparr>)"
proof -
  note I = conc_invD[OF inv]
  have "lock_inv (lock_ids dbs) l" using lock_inv_step[OF I(2) step] .
  moreover have "\<forall>u. job_locks rt dbs (s\<lparr>co_lock := l\<rparr>) u" using job_locks_lock[OF I(3) step hold] by blast
  ultimately show ?thesis using I unfolding conc_inv_def by simp
qed

lemma tick_keeps:
  assumes inv: "conc_inv rt dbs A s" and now: "co_now s \<le> now"
  shows "conc_inv rt dbs A (s\<lparr>co_now := now\<rparr>)"
proof -
  note I = conc_invD[OF inv]
  have "\<forall>u. job_locks rt dbs (s\<lparr>co_now := now\<rparr>) u" using job_locks_other[OF I(3), of "s\<lparr>co_now := now\<rparr>"] now by simp
  then show ?thesis using I dbs_see_later[OF I(9) now] unfolding conc_inv_def by simp
qed

theorem conc_step_keeps:
  assumes inv: "conc_inv rt dbs A s" and step: "conc_step rt s s'"
  shows "conc_inv rt dbs A s'"
proof -
  note I = conc_invD[OF inv] and S = conc_inv_shape[OF inv]
  note locks = shape_locks[OF I(1)]
  have leaving: "todo s t = []" if "releases (co_job s t)" for t
    using I(3)[of t] that by (cases "co_job s t") (simp_all add: job_locks_def)
  from step show ?thesis
  proof cases
    case (cs_begin t args cmd)
    have d: "co_conn s t < length dbs" using I(4)[of t] S(1) by simp
    then have p: "executeLocks (rt_hash rt) (co_dbs s) (co_conn s t) cmd args = executeLocks (rt_hash rt) dbs (co_conn s t) cmd args"
      using locks(4) S(1,2) by simp
    show ?thesis unfolding cs_begin(1) p
      using executeLocks_plan(1)[OF d S(3)[OF d]] cs_begin(3,4) by (intro begin_keeps[OF inv cs_begin(2), where r = "[]"]) (auto simp: job_locks_def)
  next
    case (cs_lock l)
    then show ?thesis using lock_keeps[OF inv] by simp
  next
    case (cs_run t cmd args at srv idx reply e)
    then show ?thesis using run_keeps[OF inv cs_run(2-5)] by simp
  next
    case (cs_append t tm e)
    then show ?thesis using append_keeps[OF inv] by simp
  next
    case (cs_leave t)
    then show ?thesis unfolding cs_leave(1) using leaving[of t] I(5) by (intro finish_keeps[OF inv]) auto
  next
    case (cs_tick now)
    then show ?thesis using tick_keeps[OF inv] by simp
  next
    case (cs_expire_begin t d i now limit)
    have d: "d < length dbs" "i < length (db_shards (dbs ! d))" using cs_expire_begin S by auto
    then show ?thesis unfolding cs_expire_begin(1)
      using lp_expire[OF d] cs_expire_begin(5) by (intro begin_keeps[OF inv cs_expire_begin(2), where r = "[]"]) (auto simp: job_locks_def)
  next
    case (cs_expire t d i now limit)
    then show ?thesis using expire_keeps[OF inv] by simp
  next
    case (cs_flush_begin t)
    show ?thesis unfolding cs_flush_begin(1) locks(2)
      using lp_store by (intro begin_keeps[OF inv cs_flush_begin(2), where r = "[]"]) (auto simp: job_locks_def)
  next
    case (cs_flush t)
    then show ?thesis unfolding cs_flush(1) using I(5) by (intro finish_keeps[OF inv]) auto
  next
    case (cs_compact t st)
    show ?thesis unfolding cs_compact(1) locks(3)
      using lp_compact by (intro begin_keeps[OF inv cs_compact(2)]) (auto simp: job_locks_def)
  next
    case (cs_capture t g res)
    then show ?thesis using capture_keeps[OF inv] by simp
  next
    case (cs_rotate t g res st st' r)
    then show ?thesis unfolding cs_rotate(1) by (intro finish_keeps[OF inv]) (auto split: sum.splits option.splits)
  next
    case (cs_install t snap g)
    then show ?thesis unfolding cs_install(1) using leaving[of t] I(5) by (intro finish_keeps[OF inv]) auto
  qed
qed

lemma conc_reach_inv:
  assumes "conc_reach rt srv conns now s"
    and "dbs_see (rt_hash rt) now (srv_databases srv) A" "\<forall>i. conns i < length A" "srv_persist srv \<noteq> None"
  shows "conc_inv rt (srv_databases srv) A s"
  using assms(1)
proof induction
  case cr_init
  have "job_locks rt (srv_databases srv) (conc_init srv conns now) t" for t by (simp add: job_locks_def conc_init_def lock_init_def)
  with assms(2-4) show ?case by (auto simp: conc_inv_def conc_init_def lock_init_def lock_inv_def ascending_def)
next
  case (cr_step s s')
  then show ?case using conc_step_keeps by blast
qed

section \<open>What the locks are for\<close>

text \<open>
  When no goroutine is between its command and its append, the databases show exactly what
  the log says, in the order of the log, although the commands may have run in another.
\<close>

lemma nothing_pending:
  assumes "conc_inv rt dbs A s" "\<And>t tm e. co_job s t \<noteq> Logs tm e"
  shows "co_ran s = []"
  using conc_invD(7)[OF assms(1)] assms(2) by (metis list.set_intros(1) neq_Nil_conv prod_cases3)

lemma captures_all:
  assumes "conc_inv rt dbs A s" "co_job s t = Captures g" "todo s t = []"
  shows "set (lockAllDatabases dbs) \<subseteq> set (held s t)"
  using conc_invD(3)[OF assms(1), of t] assms(2,3) holdsD(2)[of "co_lock s" t "[]"] by (auto simp: job_locks_def)

lemma confined_none: "confined {} f \<Longrightarrow> f A = A"
  by (intro nth_equalityI ext) (auto simp: confined_def)

text \<open>While a goroutine holds every shard, whatever is still to be logged writes no key.\<close>

lemma locked_all_id:
  assumes inv: "conc_inv rt dbs A s" and all: "set (lockAllDatabases dbs) \<subseteq> set (held s u)"
    and t: "co_job s t = Logs tm e" "t \<noteq> u"
  shows "spec_logged rt tm (snd e) B = B"
proof -
  from logging_disjoint[OF inv t(1)] obtain D where
    D: "confined D (spec_logged rt tm (snd e))"
      "\<And>d k. (d, k) \<in> D \<Longrightarrow> ((d, indexBytes (rt_hash rt) (dbs ! d) k), Exclusive) \<in> set (held s t) \<and> d < length dbs" by blast
  have "D = {}"
  proof (rule ccontr)
    assume "D \<noteq> {}"
    then obtain d k where dk: "(d, k) \<in> D" by auto
    let ?i = "indexBytes (rt_hash rt) (dbs ! d) k"
    have d: "((d, ?i), Exclusive) \<in> set (held s t)" "d < length dbs" using D(2)[OF dk] by simp_all
    have "((d, ?i), Exclusive) \<in> set (lockAllDatabases dbs)"
      using d(2) indexBytes_less[OF conc_inv_shape(3)[OF inv d(2)], of "rt_hash rt" k]
      by (auto simp: lockAllDatabases_def LockAll_def intro!: bexI[of _ d])
    with all lock_exclusion[OF conc_invD(2)[OF inv] d(1), of Exclusive u] t(2) show False by auto
  qed
  with confined_none[of "spec_logged rt tm (snd e)"] D(1) show ?thesis by blast
qed

lemma locked_all_shows:
  assumes inv: "conc_inv rt dbs A s" and all: "set (lockAllDatabases dbs) \<subseteq> set (held s u)" and u: "\<And>tm e. co_job s u \<noteq> Logs tm e"
  shows "dbs_see (rt_hash rt) (co_now s) (co_dbs s) (showLog rt (co_log s) A)"
proof -
  have "showLog rt (map snd r) B = B" if "set r \<subseteq> set (co_ran s)" for r B
    using that
  proof (induction r)
    case (Cons x r)
    obtain t tm e where x: "x = (t, tm, e)" using prod_cases3 by blast
    with Cons.prems conc_invD(7)[OF inv] have "co_job s t = Logs tm e" by auto
    moreover from this have "t \<noteq> u" using u[of tm e] by metis
    ultimately have "spec_logged rt tm (snd e) B = B" for B using locked_all_id[OF inv all] by blast
    with Cons x show ?case by simp
  qed simp
  from this[of "co_ran s"] conc_invD(9)[OF inv] show ?thesis by simp
qed

end
