(* ===== verification/SegmentLog.thy ===== *)
theory SegmentLog
  imports Durability
begin

text \<open>
  The log as a sequence of segments. Between two snapshots the store may have rotated several
  times; recovery replays the segments from the base generation of the snapshot on. The
  relation \<open>log_disk\<close> says which commands the segments hold, every operation of the store
  is shown to keep it under any failure of system calls, and what recovery replays is read
  off it.
\<close>

section \<open>Replaying in pieces\<close>

lemma replayAll_append:
  "replayAll replay st n (xs @ ys) =
     (case replayAll replay st n xs of
        None \<Rightarrow> None
      | Some (st', m, Some err) \<Rightarrow> Some (st', m, Some err)
      | Some (st', m, None) \<Rightarrow> replayAll replay st' m ys)"
  by (induction xs arbitrary: st n) (auto split: option.split sum.split)

lemma replayAll_count:
  "replayAll replay st (m + n) xs = map_option (\<lambda>(st', k, err). (st', m + k, err)) (replayAll replay st n xs)"
  by (induction xs arbitrary: st n) (auto simp: add.assoc split: option.split sum.split)

abbreviation enc :: "(int \<times> bytes list) list \<Rightarrow> bytes" where
  "enc cs \<equiv> concat (map encodeCommand cs)"

lemma replayGens_segments:
  assumes "\<forall>cs \<in> set segs. \<forall>c \<in> set cs. good_command c"
    "\<forall>i < length segs. segfile d (b + int i) = enc (segs ! i)"
  shows "replayGens replay d st n ([b..b + int (length segs) - 1] @ gens) =
    (case replayAll replay st n (concat segs) of
       None \<Rightarrow> None
     | Some (st', m, Some err) \<Rightarrow> Some (st', m, Some err)
     | Some (st', m, None) \<Rightarrow> replayGens replay d st' m gens)"
  using assms
proof (induction segs arbitrary: b st n)
  case (Cons cs segs)
  have up: "[b..b + int (length (cs # segs)) - 1] = b # [b + 1..b + 1 + int (length segs) - 1]"
    using upto_rec1[of b "b + int (length (cs # segs)) - 1"] by (simp add: algebra_simps)
  have "segfile d (b + int 0) = enc ((cs # segs) ! 0)" using Cons.prems(2) by blast
  then have "segfile d b = enc cs @ []" by simp
  then have r: "replaySegment replay d st b = replayAll replay st 0 cs"
    using replayLoop_cut[of cs "[]" replay st 0] Cons.prems(1) by (simp add: replaySegment_view)
  have "\<forall>i < length segs. segfile d (b + 1 + int i) = enc (segs ! i)" using Cons.prems(2) by (force simp: algebra_simps)
  note IH = Cons.IH[OF _ this]
  show ?case unfolding up append_Cons
    using IH Cons.prems(1) replayAll_count[of replay st n 0 cs]
    by (auto simp: r replayAll_append split: option.split prod.split)
qed simp

section \<open>What the segments hold\<close>

definition log_disk :: "Store \<Rightarrow> int \<Rightarrow> (int \<times> bytes list) list list \<Rightarrow> (int \<times> bytes list) list \<Rightarrow> bool" where
  "log_disk s b segs cur \<longleftrightarrow>
     store_wf s \<and> 0 \<le> b \<and> b + int (length segs) = st_gen s
     \<and> (\<forall>i < length segs. segfile (st_dir s) (b + int i) = enc (segs ! i))
     \<and> (\<exists>c. seg s = Some c \<and> prefix c (enc cur) \<and> (st_err s \<or> c @ st_buf s = enc cur))"

lemma log_disk_wrote:
  assumes "log_disk s b segs cur" "wrote s s' (enc cs)"
  shows "log_disk s' b segs (cur @ cs)"
proof -
  note D = assms(1)[unfolded log_disk_def] and W = wroteD[OF assms(2)]
  have wf: "store_wf s" "store_wf s'" using D store_wf_wrote[OF _ assms(2)] by blast+
  from D obtain c where f: "seg s = Some c" "prefix c (enc cur)" "st_err s \<or> c @ st_buf s = enc cur" by blast
  have "\<exists>c'. seg s' = Some c' \<and> prefix c' (enc (cur @ cs)) \<and> (st_err s' \<or> c' @ st_buf s' = enc (cur @ cs))"
  proof (cases "st_err s")
    case True
    with W(1,5) f show ?thesis by (auto intro: prefix_order.trans)
  next
    case False
    then have "c @ st_buf s @ enc cs = enc (cur @ cs)" using f(3) by (metis append.assoc concat_append map_append)
    with W(6)[OF f(1)] show ?thesis by auto
  qed
  moreover have "segfile (st_dir s') (b + int i) = enc (segs ! i)" if "i < length segs" for i
  proof -
    have "int64_ok (st_gen s)" "int64_ok (b + int i)" "b + int i \<noteq> st_gen s"
      using store_wf_gens[OF wf(1)] D that by (auto simp: int64_ok_def)
    with segmentPath_inj W(4)[of "segmentPath (b + int i)"] D that show ?thesis by (simp add: segfile_def)
  qed
  ultimately show ?thesis using D wf(2) W(1) by (simp add: log_disk_def)
qed

lemma log_disk_same:
  assumes "log_disk s b segs cur" "\<And>g. map_of (st_dir s') (segmentPath g) = map_of (st_dir s) (segmentPath g)"
    "highestSegment (st_dir s') \<le> st_gen s'" "st_gen s' = st_gen s" "st_buf s' = st_buf s" "st_err s' = st_err s"
  shows "log_disk s' b segs cur"
  using assms by (auto simp: log_disk_def store_wf_def segfile_def)

section \<open>Rotation\<close>

lemma openSegment_next:
  assumes "store_wf s" "openSegment s (st_gen s + 1) = (s', True)" "st_gen s + 1 < maxInt64"
  shows "store_wf s'" "st_gen s' = st_gen s + 1" "seg s' = Some []" "st_buf s' = []" "\<not> st_err s'"
    "segfile (st_dir s') g = segfile (st_dir s) g" "map_of (st_dir s') snapshotName = map_of (st_dir s) snapshotName"
proof -
  let ?g = "st_gen s + 1"
  have o: "st_dir s' = (case map_of (st_dir s) (segmentPath ?g) of None \<Rightarrow> AList.update (segmentPath ?g) [] (st_dir s) | Some c \<Rightarrow> st_dir s)"
    "st_gen s' = ?g" "st_buf s' = []" "\<not> st_err s'"
    using assms(2) by (auto simp: openSegment_def sysCall_def split: if_splits)
  have ge: "0 \<le> ?g" "int64_ok ?g" using assms(1) store_wf_gens[OF assms(1)] by (auto simp: store_wf_def)
  show "st_gen s' = st_gen s + 1" "st_buf s' = []" "\<not> st_err s'" using o by simp_all
  show v: "segfile (st_dir s') g = segfile (st_dir s) g" for g by (rule openSegment_effect(2)[OF assms(2)])
  show "map_of (st_dir s') snapshotName = map_of (st_dir s) snapshotName" by (rule openSegment_effect(3)[OF assms(2)]) simp
  have "segfile (st_dir s) ?g = []" using segfile_beyond[of "st_dir s" ?g] assms(1) ge by (simp add: store_wf_def)
  then show s': "seg s' = Some []" using o by (auto simp: segfile_def split: option.splits)
  have "h \<le> ?g" if "name \<in> dom (map_of (st_dir s'))" "scanSegment name = Some h" for name h
  proof (cases "name = segmentPath ?g")
    case True
    with that(2) scan_segmentPath[OF ge(2)] show ?thesis by simp
  next
    case False
    with that(1) o(1) have "name \<in> dom (map_of (st_dir s))" by (auto split: option.splits if_splits)
    with segments_bounded[OF this that(2)] assms(1) show ?thesis by (simp add: store_wf_def)
  qed
  then have "highestSegment (st_dir s') \<le> ?g" using ge(1) by (intro highestSegment_le)
  with o(2) s' ge(1) assms(3) show "store_wf s'" by (simp add: store_wf_def)
qed

lemma log_disk_rotate:
  assumes "log_disk s b segs cur" "Store_Rotate s = (s', r)"
  shows "r = None \<Longrightarrow> log_disk s' b segs cur"
    "r \<noteq> None \<Longrightarrow> st_gen s' < maxInt64 \<Longrightarrow> log_disk s' b (segs @ [cur]) []"
    "r \<noteq> None \<Longrightarrow> st_gen s' = st_gen s + 1" "r = None \<Longrightarrow> st_gen s' = st_gen s"
    "map_of (st_dir s') snapshotName = map_of (st_dir s) snapshotName"
proof -
  let ?f = "bufFlush s"
  have f: "log_disk ?f b segs cur" "st_gen ?f = st_gen s" "map_of (st_dir ?f) snapshotName = map_of (st_dir s) snapshotName"
    using log_disk_wrote[OF assms(1), of ?f "[]"] wrote_flush[of s] wroteD(1)[OF wrote_flush[of s]]
      wroteD(4)[OF wrote_flush[of s], of snapshotName] by simp_all
  obtain s2 ok where c: "segClose ?f = (s2, ok)" by fastforce
  have c2: "st_dir s2 = st_dir ?f" "st_gen s2 = st_gen ?f" "st_buf s2 = st_buf ?f" "st_err s2 = st_err ?f"
    using c by (auto simp: segClose_def segCall_def sysCall_def split: if_splits prod.splits)
  then have d2: "log_disk s2 b segs cur" using f(1) by (intro log_disk_same[OF f(1)]) (simp_all add: log_disk_def store_wf_def)
  obtain s3 ok3 where o: "openSegment s2 (st_gen s2 + 1) = (s3, ok3)" by fastforce
  have o3: "st_dir s3 = st_dir s2" "st_gen s3 = st_gen s2" "st_buf s3 = st_buf s2" "st_err s3 = st_err s2" if "\<not> ok3"
    using o that by (auto simp: openSegment_def sysCall_def split: if_splits)
  have d3: "log_disk s3 b segs cur" if "\<not> ok3"
    using o3[OF that] d2 by (intro log_disk_same[OF d2]) (simp_all add: log_disk_def store_wf_def)
  have R: "(s', r) = (if st_err ?f then (?f, None) else if \<not> ok then (s2, None) else if \<not> ok3 then (s3, None) else (s3, Some (st_gen s3)))"
    using assms(2) c o by (auto simp: Store_Rotate_def Let_def split: if_splits)
  show "r = None \<Longrightarrow> log_disk s' b segs cur" "r = None \<Longrightarrow> st_gen s' = st_gen s"
    using R f d2 d3 c2 o3 by (auto split: if_splits)
  have N: "s' = s3" "ok3" "\<not> st_err ?f" if "r \<noteq> None" using R that by (auto split: if_splits)
  show g: "r \<noteq> None \<Longrightarrow> st_gen s' = st_gen s + 1" using openSegment_effect(1)[OF o] N c2 f by auto
  have "map_of (st_dir s3) snapshotName = map_of (st_dir s2) snapshotName" by (rule openSegment_effect(3)[OF o]) simp
  then show "map_of (st_dir s') snapshotName = map_of (st_dir s) snapshotName" using R f(3) c2(1) by (auto split: if_splits)
  assume r: "r \<noteq> None" and lim: "st_gen s' < maxInt64"
  have "store_wf s2" using d2 by (simp add: log_disk_def)
  with o N(1,2)[OF r] g[OF r] lim c2 f have
    O: "store_wf s3" "st_gen s3 = st_gen s2 + 1" "seg s3 = Some []" "st_buf s3 = []" "\<And>g. segfile (st_dir s3) g = segfile (st_dir s2) g"
    using openSegment_next[of s2 s3] by simp_all
  from d2 obtain cc where cc: "seg s2 = Some cc" "prefix cc (enc cur)" "st_err s2 \<or> cc @ st_buf s2 = enc cur" by (auto simp: log_disk_def)
  then have "segfile (st_dir s2) (st_gen s2) = enc cur"
    using N(3)[OF r] bufFlush_empty[of s] c2 by (simp add: segfile_def)
  then have "segfile (st_dir s3) (b + int i) = enc ((segs @ [cur]) ! i)" if "i < length (segs @ [cur])" for i
    using that d2 O(5) by (cases "i = length segs") (auto simp: log_disk_def nth_append)
  with O d2 N(1)[OF r] show "log_disk s' b (segs @ [cur]) []" by (auto simp: log_disk_def)
qed

section \<open>Installation of a snapshot\<close>

lemma removeSegments_fields [simp]:
  "st_gen (removeSegments s gs) = st_gen s" "st_buf (removeSegments s gs) = st_buf s" "st_err (removeSegments s gs) = st_err s"
  by (induction gs arbitrary: s) (simp_all add: sysCall_def)

lemma removeSegments_dom: "dom (map_of (st_dir (removeSegments s gs))) \<subseteq> dom (map_of (st_dir s))"
proof (induction gs arbitrary: s)
  case (Cons g gs)
  have "dom (map_of (st_dir (fst (sysCall s (\<lambda>d. AList.delete (segmentPath g) d))))) \<subseteq> dom (map_of (st_dir s))"
    by (auto simp: sysCall_def split: if_splits)
  with Cons.IH show ?case by fastforce
qed simp

lemma Install_store:
  assumes "InstallSnapshot s snap base = (s', ok)"
  shows "st_gen s' = st_gen s" "st_buf s' = st_buf s" "st_err s' = st_err s"
    "dom (map_of (st_dir s')) \<subseteq> insert snapshotName (insert snapshotTmp (dom (map_of (st_dir s))))"
proof -
  show "st_gen s' = st_gen s" "st_buf s' = st_buf s" "st_err s' = st_err s"
    using assms by (auto simp: InstallSnapshot_def sysCall_def sysWrite_def Let_def split: if_splits option.splits)
  let ?s5 = "s\<lparr>st_dir := AList.update snapshotName snap (AList.delete snapshotTmp (AList.update snapshotTmp snap (st_dir s))),
    st_calls := Suc (Suc (Suc (Suc (Suc (st_calls s)))))\<rparr>"
  show "dom (map_of (st_dir s')) \<subseteq> insert snapshotName (insert snapshotTmp (dom (map_of (st_dir s))))"
  proof (cases ok)
    case True
    then have "s' = removeSegments ?s5 [0..base - 1]"
      using assms by (auto simp: InstallSnapshot_def sysCall_def sysWrite_def fileAppend_def Let_def split: if_splits)
    with removeSegments_dom[of ?s5 "[0..base - 1]"] show ?thesis by auto
  next
    case False
    show ?thesis
    proof
      fix name assume "name \<in> dom (map_of (st_dir s'))"
      then show "name \<in> insert snapshotName (insert snapshotTmp (dom (map_of (st_dir s))))"
        using Install_effect(1)[OF assms False, of name] by (cases "name = snapshotTmp") (auto simp: domIff)
    qed
  qed
qed

lemma scan_other [simp]: "scanSegment snapshotName = None" "scanSegment snapshotTmp = None"
  by (simp_all add: scanSegment_def)

lemma Install_highest:
  assumes "InstallSnapshot s snap base = (s', ok)" "store_wf s"
  shows "highestSegment (st_dir s') \<le> st_gen s'"
proof -
  have "h \<le> st_gen s" if "name \<in> dom (map_of (st_dir s'))" "scanSegment name = Some h" for name h
  proof -
    have "name \<in> dom (map_of (st_dir s))" using Install_store(4)[OF assms(1)] that by (cases "name \<in> {snapshotName, snapshotTmp}") auto
    from segments_bounded[OF this that(2)] assms(2) show ?thesis by (simp add: store_wf_def)
  qed
  with assms(2) show ?thesis unfolding Install_store(1)[OF assms(1)] by (intro highestSegment_le) (auto simp: store_wf_def)
qed

lemma log_disk_install:
  assumes D: "log_disk s b segs cur" and I: "InstallSnapshot s snap (st_gen s) = (s', ok)"
  shows "\<not> ok \<Longrightarrow> log_disk s' b segs cur" "\<not> ok \<Longrightarrow> map_of (st_dir s') snapshotName = map_of (st_dir s) snapshotName"
    "ok \<Longrightarrow> log_disk s' (st_gen s) [] cur" "ok \<Longrightarrow> map_of (st_dir s') snapshotName = Some snap" "st_gen s' = st_gen s"
proof -
  note S = Install_store[OF I] and E = Install_effect[OF I]
  have wf: "store_wf s" using D by (simp add: log_disk_def)
  show "st_gen s' = st_gen s" by (rule S(1))
  show "ok \<Longrightarrow> map_of (st_dir s') snapshotName = Some snap" by (rule E(2))
  show "\<not> ok \<Longrightarrow> map_of (st_dir s') snapshotName = map_of (st_dir s) snapshotName" by (rule E(1)) simp_all
  show "log_disk s' b segs cur" if "\<not> ok"
    using E(1)[OF that] S(1-3) Install_highest[OF I wf] by (intro log_disk_same[OF D]) simp_all
  assume ok
  then have "seg s' = seg s" using E(4)[of "st_gen s"] store_wf_gens[OF wf] S(1) by simp
  with S Install_highest[OF I wf] D show "log_disk s' (st_gen s) [] cur" by (auto simp: log_disk_def store_wf_def)
qed

section \<open>What recovery replays\<close>

lemma log_disk_replay:
  assumes D: "log_disk s b segs cur" and good: "\<forall>c \<in> set (concat segs @ cur). good_command c"
  shows "\<exists>k \<le> length cur. (\<forall>replay st. replaySegments replay (st_dir s) (st :: 'st) b = replayAll replay st 0 (concat segs @ take k cur))
    \<and> (st_err s \<or> st_buf s \<noteq> [] \<or> k = length cur)"
proof -
  from D obtain c where c: "seg s = Some c" "prefix c (enc cur)" "st_err s \<or> c @ st_buf s = enc cur" by (auto simp: log_disk_def)
  have wf: "store_wf s" using D by (simp add: log_disk_def)
  have gen: "b + int (length segs) = st_gen s" "0 \<le> b" using D by (simp_all add: log_disk_def)
  have g: "\<forall>cs \<in> set segs. \<forall>c \<in> set cs. good_command c" "\<forall>c \<in> set cur. good_command c" using good by auto
  have "[b..st_gen s] = [b..b + int (length segs) - 1] @ [st_gen s]"
    using upto_rec2[of b "st_gen s"] gen by simp
  then have r: "replaySegments replay (st_dir s) st b =
      (case replayAll replay st 0 (concat segs) of
         None \<Rightarrow> None
       | Some (st', m, Some err) \<Rightarrow> Some (st', m, Some err)
       | Some (st', m, None) \<Rightarrow> replayGens replay (st_dir s) st' m [st_gen s])" for replay :: "'st replayer" and st
    using replayGens_extend[of "st_dir s" "st_gen s" replay st 0 b] wf store_wf_gens[OF wf] D
      replayGens_segments[OF g(1), of "st_dir s" b replay st 0 "[st_gen s]"]
    by (simp add: replaySegments_def store_wf_def log_disk_def)
  have l: "replayGens replay (st_dir s) st' m [st_gen s] = map_option (\<lambda>(st', k, err). (st', m + k, err)) (replayLoop replay st' 0 c)"
    for replay :: "'st replayer" and st' m
    using c(1) by (auto simp: replaySegment_def split: option.split)
  have "\<exists>k \<le> length cur. (\<forall>replay (st' :: 'st). replayLoop replay st' 0 c = replayAll replay st' 0 (take k cur))
      \<and> (st_err s \<or> st_buf s \<noteq> [] \<or> k = length cur)"
  proof (cases "\<not> st_err s \<and> st_buf s = []")
    case True
    then have "c = enc cur @ []" using c(3) by simp
    with replayLoop_cut[OF g(2), of "[]", where 'a = 'st] show ?thesis by (intro exI[of _ "length cur"]) simp
  next
    case False
    with replay_prefix[OF g(2) c(2), where 'st = 'st] show ?thesis by blast
  qed
  then obtain k where k: "k \<le> length cur" "\<And>replay (st' :: 'st). replayLoop replay st' 0 c = replayAll replay st' 0 (take k cur)"
    "st_err s \<or> st_buf s \<noteq> [] \<or> k = length cur" by blast
  have cnt: "map_option (\<lambda>(st', k, err). (st', m + k, err)) (replayAll replay st' 0 xs) = replayAll replay st' m xs"
    for replay :: "'st replayer" and st' m xs using replayAll_count[of replay st' m 0 xs] by simp
  have "replaySegments replay (st_dir s) st b = replayAll replay st 0 (concat segs @ take k cur)" for replay :: "'st replayer" and st
    unfolding r l k(2) cnt replayAll_append ..
  with k(1,3) show ?thesis by blast
qed

end
