(* ===== verification/ConcurrentCrash.thy ===== *)
theory ConcurrentCrash
  imports Concurrent SegmentLog
begin

text \<open>
  Crashes of the concurrent server. While commands, flushes, expiry cycles and compactions
  interleave and system calls fail in any way, the data directory always holds a snapshot and
  segments that together stand for an initial part of the log; so whenever the process is
  gone, the next one recovers a state that the log passed through.
\<close>

section \<open>Snapshots and the log\<close>

text \<open>The words that a history leaves in the log.\<close>

abbreviation log_of :: "history \<Rightarrow> (int \<times> bytes list) list" where
  "log_of log \<equiv> map (\<lambda>x. logged_form (snd x)) log"

text \<open>
  \<open>snap\<close> is a snapshot of databases that show the first \<open>n\<close> entries of the log, and keeps the
  deadlines of all keys outside \<open>un\<close>.
\<close>

definition snapshot_of ::
  "runtime \<Rightarrow> semStore list \<Rightarrow> (nat \<times> bytes) set \<Rightarrow> gotime \<Rightarrow> history \<Rightarrow> int \<Rightarrow> bytes \<Rightarrow> nat \<Rightarrow> bool" where
  "snapshot_of rt A un now log g snap n \<longleftrightarrow>
     (\<exists>S. WriteSnapshot (rt_pick rt) g (emitRecords rt S) = Some (Inr snap) \<and> dbs_fit (rt_hash rt) S
        \<and> unsaved (rt_hash rt) S \<subseteq> un \<and> dbs_see (rt_hash rt) now S (showLog rt (take n log) A))
     \<and> n \<le> length log \<and> 0 \<le> g \<and> int64_ok g"

lemma snapshot_of_later:
  "snapshot_of rt A un now log g snap n \<Longrightarrow> now \<le> later \<Longrightarrow> un \<subseteq> un' \<Longrightarrow> snapshot_of rt A un' later log g snap n"
  unfolding snapshot_of_def by (blast intro: dbs_see_later)

lemma snapshot_of_append: "snapshot_of rt A un now log g snap n \<Longrightarrow> snapshot_of rt A un now (log @ log') g snap n"
  by (auto simp: snapshot_of_def)

text \<open>The snapshot in the directory, of generation \<open>b\<close>, covers the first \<open>n\<close> entries.\<close>

definition snap_file :: "runtime \<Rightarrow> semStore list \<Rightarrow> conc \<Rightarrow> Store \<Rightarrow> int \<Rightarrow> nat \<Rightarrow> bool" where
  "snap_file rt A s st b n \<longleftrightarrow>
     (case map_of (st_dir st) snapshotName of
        None \<Rightarrow> b = 0 \<and> n = 0
      | Some snap \<Rightarrow> snapshot_of rt A (co_unsaved s) (co_now s) (co_log s) b snap n)"

text \<open>What the compactor knows: its snapshot covers the log, or the log up to the last cut.\<close>

definition compact_ok :: "runtime \<Rightarrow> semStore list \<Rightarrow> conc \<Rightarrow> Store \<Rightarrow> nat \<Rightarrow> job \<Rightarrow> bool" where
  "compact_ok rt A s st m j \<longleftrightarrow>
     (case j of
        Captures g \<Rightarrow> g = st_gen st + 1
      | Rotates g res \<Rightarrow>
          g = st_gen st + 1
          \<and> (\<forall>snap. res = Inr snap \<longrightarrow> snapshot_of rt A (co_unsaved s) (co_now s) (co_log s) g snap (length (co_log s)))
      | Installs snap g \<Rightarrow> g = st_gen st \<and> co_cut s = m \<and> snapshot_of rt A (co_unsaved s) (co_now s) (co_log s) g snap m
      | _ \<Rightarrow> True)"

definition disk_at ::
  "runtime \<Rightarrow> semStore list \<Rightarrow> conc \<Rightarrow> Store \<Rightarrow> int \<Rightarrow> nat \<Rightarrow> (int \<times> bytes list) list list \<Rightarrow> (int \<times> bytes list) list \<Rightarrow> bool" where
  "disk_at rt A s st b n segs cur \<longleftrightarrow>
     srv_persist (co_srv s) = Some st \<and> log_disk st b segs cur \<and> snap_file rt A s st b n
     \<and> n \<le> length (co_log s) \<and> log_of (drop n (co_log s)) = concat segs @ cur
     \<and> (\<forall>t. compact_ok rt A s st (n + length (concat segs)) (co_job s t))
     \<and> (\<forall>t u. compacts (co_job s t) \<longrightarrow> compacts (co_job s u) \<longrightarrow> t = u)"

definition disk_inv :: "runtime \<Rightarrow> semStore list \<Rightarrow> conc \<Rightarrow> bool" where
  "disk_inv rt A s \<longleftrightarrow> (\<exists>st b n segs cur. disk_at rt A s st b n segs cur)"

text \<open>Steps that do not touch the store, the log and the snapshot.\<close>

lemma disk_frame:
  assumes "disk_at rt A s st b n segs cur" "srv_persist (co_srv s') = srv_persist (co_srv s)" "co_log s' = co_log s" "co_cut s' = co_cut s"
    "co_now s \<le> co_now s'" "\<And>t. co_job s' t = co_job s t \<or> \<not> compacts (co_job s' t)" "co_unsaved s' = co_unsaved s"
  shows "disk_at rt A s' st b n segs cur"
proof -
  note D = assms(1)[unfolded disk_at_def]
  have "compact_ok rt A s' st (n + length (concat segs)) (co_job s' t)" for t
  proof (cases "compacts (co_job s' t)")
    case True
    then have "co_job s' t = co_job s t" "compact_ok rt A s st (n + length (concat segs)) (co_job s t)" using assms(6) D by blast+
    then show ?thesis using assms(3-5,7) by (auto simp: compact_ok_def intro: snapshot_of_later split: job.splits)
  qed (auto simp: compact_ok_def split: job.splits)
  moreover have "snap_file rt A s' st b n"
    using D assms(3,5,7) by (auto simp: snap_file_def intro: snapshot_of_later split: option.splits)
  moreover have "\<forall>t u. compacts (co_job s' t) \<longrightarrow> compacts (co_job s' u) \<longrightarrow> t = u" using D assms(6) by metis
  ultimately show ?thesis using D assms(2,3) unfolding disk_at_def by simp
qed

section \<open>Every step keeps the directory right\<close>

lemma disk_write:
  assumes D: "disk_at rt A s st b n segs cur" and w: "wrote st st' (enc (log_of es))"
    and s': "srv_persist (co_srv s') = Some st'" "co_log s' = co_log s @ es" "co_cut s' = co_cut s" "co_now s' = co_now s"
      "co_unsaved s' = co_unsaved s"
      "\<And>u. co_job s' u = co_job s u \<or> \<not> compacts (co_job s' u)"
    and id: "\<And>u g res B. co_job s u = Rotates g res \<Longrightarrow> showLog rt es B = B"
  shows "disk_at rt A s' st' b n segs (cur @ log_of es)"
proof -
  note D' = D[unfolded disk_at_def]
  have g: "st_gen st' = st_gen st" "map_of (st_dir st') snapshotName = map_of (st_dir st) snapshotName"
    using wroteD(1)[OF w] wroteD(4)[OF w, of snapshotName] by simp_all
  have "compact_ok rt A s' st' (n + length (concat segs)) (co_job s' u)" for u
  proof (cases "compacts (co_job s' u)")
    case True
    then have j: "co_job s' u = co_job s u" "compact_ok rt A s st (n + length (concat segs)) (co_job s u)" using s'(6) D' by blast+
    show ?thesis
    proof (cases "co_job s u")
      case (Rotates gg res)
      with j(2) id[OF Rotates] show ?thesis by (auto simp: compact_ok_def j(1) s' g snapshot_of_def)
    qed (use j(2) in \<open>auto simp: compact_ok_def j(1) s' g intro: snapshot_of_append\<close>)
  qed (auto simp: compact_ok_def split: job.splits)
  moreover have "snap_file rt A s' st' b n"
    using D' by (auto simp: snap_file_def g s' intro: snapshot_of_append split: option.splits)
  moreover have "\<forall>t u. compacts (co_job s' t) \<longrightarrow> compacts (co_job s' u) \<longrightarrow> t = u" using D' s'(6) by metis
  ultimately show ?thesis using D' s' log_disk_wrote[OF _ w] unfolding disk_at_def by simp
qed

lemma others_idle:
  assumes "disk_at rt A s st b n segs cur" "compacts (co_job s t)" "u \<noteq> t"
  shows "\<not> compacts (co_job s u)"
  using assms unfolding disk_at_def by blast

lemma compact_ok_idle: "\<not> compacts j \<Longrightarrow> compact_ok rt A s st m j"
  by (auto simp: compact_ok_def split: job.splits)

lemma disk_compact:
  assumes D: "disk_at rt A s st b n segs cur" and s': "srv_persist (co_srv s') = Some st'" "co_log s' = co_log s" "co_now s' = co_now s"
      "co_job s' = (co_job s)(t := j)" "co_unsaved s \<subseteq> co_unsaved s'" and c: "\<And>u. u \<noteq> t \<Longrightarrow> \<not> compacts (co_job s u)"
    and l: "log_disk st' b' segs' cur'" "snap_file rt A s st' b' n'" "n' \<le> length (co_log s)" "log_of (drop n' (co_log s)) = concat segs' @ cur'"
      "compact_ok rt A s' st' (n' + length (concat segs')) j"
  shows "disk_at rt A s' st' b' n' segs' cur'"
proof -
  have "compact_ok rt A s' st' (n' + length (concat segs')) (co_job s' u)" for u
    using l(5) c compact_ok_idle by (cases "u = t") (simp_all add: s'(4))
  moreover have "\<forall>u v. compacts (co_job s' u) \<longrightarrow> compacts (co_job s' v) \<longrightarrow> u = v" using c by (simp add: s'(4))
  moreover have "snap_file rt A s' st' b' n'" 
    using l(2) s'(2,3,5) by (auto simp: snap_file_def intro: snapshot_of_later split: option.splits)
  ultimately show ?thesis using l(1,3,4) s'(1,2) unfolding disk_at_def by simp
qed

lemma disk_rotate:
  assumes D: "disk_at rt A s st b n segs cur" and job: "co_job s t = Rotates g res" and r: "Store_Rotate st = (st', r)" and lim: "st_gen st' < maxInt64"
  shows "disk_inv rt A (next_job t (case (res, r) of (Inr snap, Some g') \<Rightarrow> Installs snap g | _ \<Rightarrow> Leaves) []
    (s\<lparr>co_srv := (co_srv s)\<lparr>srv_persist := Some st'\<rparr>, co_cut := length (co_log s), co_fit := f\<rparr>))" (is "disk_inv rt A (next_job t ?j [] ?s)")
proof -
  note D' = D[unfolded disk_at_def]
  have L: "log_disk st b segs cur" "snap_file rt A s st b n" "n \<le> length (co_log s)" "log_of (drop n (co_log s)) = concat segs @ cur"
    "compact_ok rt A s st (n + length (concat segs)) (co_job s t)" using D' by blast+
  note R = log_disk_rotate[OF L(1) r] and O = others_idle[OF D, of t]
  have f: "snap_file rt A s st' b n" using L(2) by (simp add: snap_file_def R(5) cong: option.case_cong)
  have len: "length (co_log s) = n + length (concat (segs @ [cur]))"
    using L(3) arg_cong[OF L(4), of length] by simp
  show ?thesis
  proof (cases r)
    case None
    then have "disk_at rt A (next_job t ?j [] ?s) st' b n segs cur"
      using O R(1) L(3,4) f job by (intro disk_compact[OF D]) (auto simp: compact_ok_def split: sum.split)
    then show ?thesis unfolding disk_inv_def by blast
  next
    case (Some g')
    have "compact_ok rt A (next_job t ?j [] ?s) st' (n + length (concat (segs @ [cur]))) ?j"
      using L(5) job Some R(3) len by (auto simp: compact_ok_def split: sum.split)
    then have "disk_at rt A (next_job t ?j [] ?s) st' b n (segs @ [cur]) []"
      using O R(2) Some lim L(3,4) f job by (intro disk_compact[OF D, where t = t]) auto
    then show ?thesis unfolding disk_inv_def by blast
  qed
qed

lemma disk_install:
  assumes D: "disk_at rt A s st b n segs cur" and job: "co_job s t = Installs snap g"
  shows "disk_inv rt A (next_job t Leaves [] (s\<lparr>co_srv := onStore (\<lambda>st. fst (InstallSnapshot st snap g)) (co_srv s)\<rparr>))"
    (is "disk_inv rt A (next_job t Leaves [] ?s)")
proof -
  note D' = D[unfolded disk_at_def]
  have L: "log_disk st b segs cur" "snap_file rt A s st b n" "n \<le> length (co_log s)" "log_of (drop n (co_log s)) = concat segs @ cur"
    "g = st_gen st" "snapshot_of rt A (co_unsaved s) (co_now s) (co_log s) g snap (n + length (concat segs))" "srv_persist (co_srv s) = Some st"
    using D' job by (auto simp: compact_ok_def dest: spec[of _ t])
  obtain st' ok where i: "InstallSnapshot st snap g = (st', ok)" by fastforce
  note I = log_disk_install[OF L(1) i[unfolded L(5)]] and O = others_idle[OF D, of t]
  show ?thesis
  proof (cases ok)
    case False
    then have "snap_file rt A s st' b n" using L(2) I(2) by (simp add: snap_file_def cong: option.case_cong)
    then have "disk_at rt A (next_job t Leaves [] ?s) st' b n segs cur"
      using O I(1)[OF False] L(3,4,7) i job by (intro disk_compact[OF D, where t = t]) (auto simp: compact_ok_def)
    then show ?thesis unfolding disk_inv_def by blast
  next
    case True
    let ?m = "n + length (concat segs)"
    have "log_of (drop ?m (co_log s)) = drop (length (concat segs)) (log_of (drop n (co_log s)))"
      by (simp add: drop_map add.commute)
    also have "\<dots> = concat [] @ cur" unfolding L(4) by simp
    finally have c: "log_of (drop ?m (co_log s)) = concat [] @ cur" .
    have "snap_file rt A s st' (st_gen st) ?m" using I(4)[OF True] L(5,6) by (simp add: snap_file_def)
    moreover have "?m \<le> length (co_log s)" using L(6) by (simp add: snapshot_of_def)
    ultimately have "disk_at rt A (next_job t Leaves [] ?s) st' (st_gen st) ?m [] cur"
      using O I(3)[OF True] L(7) i job c by (intro disk_compact[OF D, where t = t]) (auto simp: compact_ok_def)
    then show ?thesis unfolding disk_inv_def by blast
  qed
qed

lemma disk_inv_frame:
  assumes "disk_inv rt A s" "srv_persist (co_srv s') = srv_persist (co_srv s)" "co_log s' = co_log s" "co_cut s' = co_cut s"
    "co_now s \<le> co_now s'" "\<And>t. co_job s' t = co_job s t \<or> \<not> compacts (co_job s' t)" "co_unsaved s' = co_unsaved s"
  shows "disk_inv rt A s'"
  using assms disk_frame unfolding disk_inv_def by meson

theorem disk_step:
  assumes disk: "disk_inv rt A s" and inv: "conc_inv rt dbs A s" and step: "conc_step rt s s'" and fit: "co_fit s'"
  shows "disk_inv rt A s'"
proof -
  from disk obtain st b n segs cur where D: "disk_at rt A s st b n segs cur" by (auto simp: disk_inv_def)
  note D' = D[unfolded disk_at_def]
  have st: "srv_persist (co_srv s) = Some st" using D' by blast
  from step show ?thesis
  proof cases
    case (cs_run t cmd args at srv idx reply e)
    have "srv_persist srv = srv_persist (co_srv s)" using cs_run(5) by (auto simp: runCommand_def split: option.splits)
    with cs_run show ?thesis unfolding cs_run(1) by (intro disk_inv_frame[OF disk]) (auto split: option.splits)
  next
    case (cs_append t tm e)
    have "showLog rt [(tm, e)] B = B" if "co_job s u = Rotates g res" for u g res B
    proof -
      have "set (lockAllDatabases dbs) \<subseteq> set (held s u)" "u \<noteq> t"
        using conc_invD(3)[OF inv, of u] that cs_append(2) holdsD(1) by (auto simp: job_locks_def)
      from locked_all_id[OF inv this(1) cs_append(2)] this(2) show ?thesis by simp
    qed
    moreover have "wrote st (fst (Store_Append st (fst (logged_form e)) (snd (logged_form e)))) (enc (log_of [(tm, e)]))"
      using wrote_op[of st "LAppend (fst (logged_form e)) (snd (logged_form e))"] by simp
    ultimately have "disk_at rt A s' (fst (Store_Append st (fst (logged_form e)) (snd (logged_form e)))) b n segs (cur @ log_of [(tm, e)])"
      using st cs_append(1) by (intro disk_write[OF D]) auto
    then show ?thesis unfolding disk_inv_def by blast
  next
    case (cs_flush t)
    have "wrote st (fst (Store_Flush st)) []" using wrote_op[of st LFlush] by simp
    with disk_write[OF D, of "fst (Store_Flush st)" "[]" s'] st cs_flush(1) have "disk_at rt A s' (fst (Store_Flush st)) b n segs cur" by auto
    then show ?thesis unfolding disk_inv_def by blast
  next
    case (cs_compact t st1)
    have "disk_at rt A s' st b n segs cur"
      using D' cs_compact st by (intro disk_compact[OF D, where t = t]) (auto simp: compact_ok_def Store_NextGen_def)
    then show ?thesis unfolding disk_inv_def by blast
  next
    case (cs_capture t g res)
    from locked_all_shows[OF inv captures_all[OF inv cs_capture(2,3)]] cs_capture(2) have
      "dbs_see (rt_hash rt) (co_now s) (co_dbs s) (showLog rt (take (length (co_log s)) (co_log s)) A)" by simp
    moreover have "store_wf st" using D' by (simp add: log_disk_def)
    then have "0 \<le> st_gen st + 1" "int64_ok (st_gen st + 1)" using store_wf_gens[of st] by (simp_all add: store_wf_def)
    moreover have "g = st_gen st + 1" using D' cs_capture(2) by (auto simp: compact_ok_def dest: spec[of _ t])
    ultimately have "compact_ok rt A s' st (n + length (concat segs)) (Rotates g res)"
      using cs_capture(1,4) fit by (auto simp: compact_ok_def snapshot_of_def)
    then have "disk_at rt A s' st b n segs cur"
      using D' cs_capture(1,2) st others_idle[OF D, of t] by (intro disk_compact[OF D, where t = t]) auto
    then show ?thesis unfolding disk_inv_def by blast
  next
    case (cs_rotate t g res st1 st' r)
    then show ?thesis using disk_rotate[OF D, of t g res st' r] st fit by simp
  next
    case (cs_install t snap g)
    then show ?thesis using disk_install[OF D, of t snap g] by simp
  qed (use disk in \<open>auto intro!: disk_inv_frame[OF disk] split: if_splits\<close>)
qed

lemma conc_step_fit: "conc_step rt s s' \<Longrightarrow> co_fit s' \<Longrightarrow> co_fit s"
  by (cases rule: conc_step.cases) auto

lemma conc_reach_disk:
  assumes "conc_reach rt srv conns now s" "co_fit s"
    and "dbs_see (rt_hash rt) now (srv_databases srv) A" "\<forall>i. conns i < length A"
    and "Open [] fsync fault = Some s0" "srv_persist srv = Some s0"
  shows "disk_inv rt A s"
  using assms(1,2)
proof induction
  case cr_init
  have o: "st_gen s0 = 0" "map_of (st_dir s0) snapshotName = None"
    using assms(5) segmentPath_names(1)[of 0]
    by (auto simp: Open_def openSegment_def sysCall_def highestSegment_def snapshotBaseGen_def Let_def split: if_splits)
  note W = Open_wf[OF assms(5)]
  have "log_disk s0 0 [] []" using W o(1) by (auto simp: log_disk_def segfile_def)
  then have "disk_at rt A (conc_init srv conns now) s0 0 0 [] []"
    using assms(6) o(2) by (simp add: disk_at_def snap_file_def conc_init_def compact_ok_def)
  then show ?case unfolding disk_inv_def by blast
next
  case (cr_step s s')
  have fit: "co_fit s" using conc_step_fit[OF cr_step.hyps(2) cr_step.prems] .
  have "conc_inv rt (srv_databases srv) A s" using conc_reach_inv[OF cr_step.hyps(1) assms(3,4)] assms(6) by simp
  from disk_step[OF cr_step.IH[OF fit] this cr_step.hyps(2) cr_step.prems] show ?case .
qed

section \<open>Recovery\<close>

text \<open>The two abstractions of values agree.\<close>

lemma abs_sem: "abs_value v = abs_value w \<Longrightarrow> sem_value v = sem_value w"
  by (cases v; cases w) (auto simp: zset_keys_def)

lemma abs_entry_sem: "map_option abs_entry x = map_option abs_entry y \<Longrightarrow> sem_opt x = sem_opt y"
  by (cases x; cases y) (auto simp: abs_entry_def sem_entry_def intro: abs_sem)

text \<open>A loaded snapshot shows what the databases it was taken of showed, at every key whose deadline it kept.\<close>

lemma recovers_see:
  assumes "recovers_to rt' boot rt S boot'" "dbs_see (rt_hash rt) now S B" "unsaved (rt_hash rt) S \<subseteq> un"
  obtains B1 where "dbs_see (rt_hash rt') now (srv_databases boot') B1" "length B1 = length B"
    "\<And>d k. d < length B \<Longrightarrow> (d, k) \<notin> un \<Longrightarrow> (B1 ! d) k = (B ! d) k"
proof -
  let ?new = "\<lambda>d k. db_ents (rt_hash rt') (srv_databases boot' ! d) k"
  define B1 where "B1 = map (\<lambda>d k. if (d, k) \<in> un then sem_opt (?new d k) else (B ! d) k) [0..<length B]"
  have "sem_opt (live now (db_ents (rt_hash rt') (srv_databases boot' ! d)) k) = unexpired now ((B1 ! d) k)" if d: "d < length B" for d k
  proof (cases "(d, k) \<in> un")
    case True
    with d show ?thesis by (simp add: B1_def sem_live)
  next
    case False
    with assms(2,3) d have "db_ents (rt_hash rt) (S ! d) k = Some e \<Longrightarrow> saved (ExpireAt e) = ExpireAt e" for e
      by (auto simp: unsaved_def dbs_see_def)
    then have "map_option saved_entry (contents (rt_hash rt) S d k) = contents (rt_hash rt) S d k"
      by (cases "db_ents (rt_hash rt) (S ! d) k") (simp_all add: contents_def saved_entry_def abs_entry_def)
    moreover have "contents (rt_hash rt') (srv_databases boot') d k = map_option saved_entry (contents (rt_hash rt) S d k)"
      using assms(1,2) d by (simp add: recovers_to_def dbs_see_def)
    ultimately have "sem_opt (?new d k) = sem_opt (db_ents (rt_hash rt) (S ! d) k)" by (intro abs_entry_sem) (simp add: contents_def)
    moreover have "sem_opt (live now (db_ents (rt_hash rt) (S ! d)) k) = unexpired now ((B ! d) k)"
      using assms(2) d by (simp add: dbs_see_def sees_def)
    ultimately show ?thesis using False d by (simp add: sem_live B1_def)
  qed
  then have "dbs_see (rt_hash rt') now (srv_databases boot') B1"
    using assms(1,2) by (simp add: recovers_to_def dbs_see_def sees_def B1_def)
  moreover have "length B1 = length B" by (simp add: B1_def)
  ultimately show thesis by (rule that) (simp add: B1_def)
qed

text \<open>Loading whatever snapshot there is gives a server that shows the entries it covers.\<close>

lemma load_shows:
  assumes f: "snap_file rt A s st b n" and boot: "empty_dbs (rt_hash rt') (srv_databases boot)" "dbs_see (rt_hash rt') u (srv_databases boot) A"
    and u: "co_now s \<le> u"
  obtains loaded boot1 B where "loadSnapshot (rt_draws rt') (srv_limits boot) (restoreState rt') (st_dir st) (boot, 0, 0) = Some (b, loaded, (boot1, 0, 0), None)"
    "dbs_see (rt_hash rt') u (srv_databases boot1) B" "length B = length A"
    "\<And>d k. d < length A \<Longrightarrow> (d, k) \<notin> co_unsaved s \<Longrightarrow> (B ! d) k = (showLog rt (take n (co_log s)) A ! d) k"
proof (cases "map_of (st_dir st) snapshotName")
  case None
  with f boot(2) show thesis by (intro that[of 0 boot A]) (simp_all add: snap_file_def loadSnapshot_def)
next
  case (Some snap)
  then have "snapshot_of rt A (co_unsaved s) (co_now s) (co_log s) b snap n" using f by (simp add: snap_file_def)
  then obtain S where S: "WriteSnapshot (rt_pick rt) b (emitRecords rt S) = Some (Inr snap)" "dbs_fit (rt_hash rt) S"
    "dbs_see (rt_hash rt) (co_now s) S (showLog rt (take n (co_log s)) A)" "0 \<le> b" "int64_ok b" "unsaved (rt_hash rt) S \<subseteq> co_unsaved s"
    by (auto simp: snapshot_of_def)
  have "dbs_inv (rt_hash rt) S" "length (srv_databases boot) = length S" using S(3) boot(2) by (simp_all add: dbs_see_def)
  from load_restores[OF this(1) S(2) boot(1) this(2) S(4,5)] obtain snap' boot1 where
    r: "WriteSnapshot (rt_pick rt) b (emitRecords rt S) = Some (Inr snap')" "recovers_to rt' boot rt S boot1"
      "\<And>d. map_of d snapshotName = Some snap' \<Longrightarrow>
        loadSnapshot (rt_draws rt') (srv_limits boot) (restoreState rt') d (boot, 0, 0) = Some (b, int (length (emitRecords rt S)), (boot1, 0, 0), None)"
    by blast
  have snap: "map_of (st_dir st) snapshotName = Some snap'" using Some S(1) r(1) by simp
  obtain B where B: "dbs_see (rt_hash rt') (co_now s) (srv_databases boot1) B" "length B = length (showLog rt (take n (co_log s)) A)"
    "\<And>d k. d < length (showLog rt (take n (co_log s)) A) \<Longrightarrow> (d, k) \<notin> co_unsaved s \<Longrightarrow>
      (B ! d) k = (showLog rt (take n (co_log s)) A ! d) k" by (rule recovers_see[OF r(2) S(3,6)]) blast
  show thesis
    by (rule that[OF r(3)[OF snap] dbs_see_later[OF B(1) u]]) (use B in simp_all)
qed

lemma crash_recovery_at:
  assumes disk: "disk_inv rt A s" and known: "\<forall>x \<in> set (co_log s). entry_known (length A) (snd x)"
    and log: "replayable \<delta> (co_log s)" "0 \<le> \<delta>"
    and boot: "empty_dbs (rt_hash rt') (srv_databases boot)" "dbs_see (rt_hash rt') u (srv_databases boot) A"
      "co_now s \<le> u" "rt_parseFloat rt' = rt_parseFloat rt" "sorted (u # map clk [0..<length (co_log s)] @ [U])"
  shows "\<exists>st k m loaded boot' idx' B. srv_persist (co_srv s) = Some st \<and> k \<le> length (co_log s)
    \<and> Server_recover rt' commandTable clk (st_dir st) boot = Some ((boot', idx', m), loaded, int m, None)
    \<and> dbs_see (rt_hash rt') U (srv_databases boot') B
    \<and> (\<forall>d < length A. \<forall>key. (d, key) \<notin> co_unsaved s \<longrightarrow>
         (\<forall>n \<le> length (co_log s). steady rt \<delta> clk 0 (d, key) ((showLog rt (take n (co_log s)) A ! d) key) (drop n (co_log s))) \<longrightarrow>
         near \<delta> ((showLog rt (take k (co_log s)) A ! d) key) ((B ! d) key))
    \<and> (st_err st \<or> st_buf st \<noteq> [] \<or> k = length (co_log s))"
proof -
  let ?log = "co_log s"
  from disk obtain st b n segs cur where "disk_at rt A s st b n segs cur" by (auto simp: disk_inv_def)
  then have D: "srv_persist (co_srv s) = Some st" "log_disk st b segs cur" "snap_file rt A s st b n" "n \<le> length ?log"
    "log_of (drop n ?log) = concat segs @ cur" unfolding disk_at_def by blast+
  have N: "int (length A) \<le> maxInt64" using boot(2) by (simp add: dbs_see_def dbs_inv_def)
  have "\<forall>c \<in> set (log_of (drop n ?log)). good_command c"
    using log_forms_ok[OF known log(1) N] by (auto dest: in_set_dropD)
  then have "\<forall>c \<in> set (concat segs @ cur). good_command c" using D(5) by simp
  from log_disk_replay[OF D(2) this, where 'st = "Server \<times> nat \<times> nat"] obtain k where
    k: "k \<le> length cur" "\<And>replay st'. replaySegments replay (st_dir st) (st' :: Server \<times> nat \<times> nat) b = replayAll replay st' 0 (concat segs @ take k cur)"
      "st_err st \<or> st_buf st \<noteq> [] \<or> k = length cur" by blast
  define m where "m = length (concat segs) + k"
  let ?part = "take m (drop n ?log)" and ?An = "showLog rt (take n ?log) A"
  have len: "length ?log - n = length (concat segs) + length cur" using arg_cong[OF D(5), of length] by simp
  have t: "log_of ?part = concat segs @ take k cur"
    using D(5) by (simp add: m_def flip: take_map)
  have lt: "length ?part = m" using len k(1) by (simp add: m_def)
  obtain loaded boot1 B1 where
    L: "loadSnapshot (rt_draws rt') (srv_limits boot) (restoreState rt') (st_dir st) (boot, 0, 0) = Some (b, loaded, (boot1, 0, 0), None)"
      "dbs_see (rt_hash rt') u (srv_databases boot1) B1" "length B1 = length A"
      "\<And>d k. d < length A \<Longrightarrow> (d, k) \<notin> co_unsaved s \<Longrightarrow> (B1 ! d) k = (?An ! d) k" by (rule load_shows[OF D(3) boot(1,2,3)]) blast
  have i: "0 < length ?An" using boot(2) by (auto simp: dbs_see_def dbs_inv_def)
  have sub: "set ?part \<subseteq> set ?log" by (auto dest!: in_set_takeD in_set_dropD)
  then have p: "\<forall>x \<in> set ?part. entry_known (length ?An) (snd x)" using known by auto
  have "m \<le> length ?log" using len D(4) k(1) by (simp add: m_def)
  then have q: "sorted (u # map clk [0..<0 + length ?part] @ [U])"
    using sorted_take_within[OF boot(5), of m] lt by (simp add: take_map min_def)
  from replay_agrees[OF L(2) i _ p replayable_sub[OF log(1) sub] log(2) boot(4) q, of 0] L(3) obtain boot' idx' B where
    R: "replayAll (replayCommand rt' commandTable clk) (boot1, 0, 0) 0 (concat segs @ take k cur) = Some ((boot', idx', m), int m, None)"
      "dbs_see (rt_hash rt') U (srv_databases boot') B"
      "\<forall>d < length A. \<forall>key. near \<delta> ((?An ! d) key) ((B1 ! d) key) \<longrightarrow> steady rt \<delta> clk 0 (d, key) ((?An ! d) key) ?part \<longrightarrow>
         near \<delta> ((showLog rt ?part ?An ! d) key) ((B ! d) key)"
    unfolding t lt by auto
  have a: "showLog rt (take (n + m) ?log) A = showLog rt ?part ?An" by (simp add: take_add)
  have "near \<delta> ((showLog rt (take (n + m) ?log) A ! d) key) ((B ! d) key)"
    if "d < length A" "(d, key) \<notin> co_unsaved s" "\<forall>n \<le> length ?log. steady rt \<delta> clk 0 (d, key) ((showLog rt (take n ?log) A ! d) key) (drop n ?log)" for d key
    unfolding a using R(3) L(4) that D(4) steady_take by simp
  moreover have "Server_recover rt' commandTable clk (st_dir st) boot = Some ((boot', idx', m), loaded, int m, None)"
    using L(1) k(2) R(1) by (simp add: Server_recover_def Recover_def)
  moreover have "st_err st \<or> st_buf st \<noteq> [] \<or> n + m = length ?log" using k(3) len D(4) by (auto simp: m_def)
  moreover have "n + m \<le> length ?log" using len D(4) k(1) by (simp add: m_def)
  ultimately show ?thesis using D(1) R(2)
    by (intro exI[of _ st] exI[of _ "n + m"] exI[of _ m] exI[of _ loaded] exI[of _ boot'] exI[of _ idx'] exI[of _ B]) blast
qed

section \<open>A concrete run\<close>

lemma acquire_one:
  assumes "conc_reach rt srv conns now s" "todo s t = [(l, Exclusive)]" "lk_writer (co_lock s) l = None" "lk_readers (co_lock s) l = {}"
  shows "conc_reach rt srv conns now (s\<lparr>co_lock := (co_lock s)\<lparr>lk_writer := (lk_writer (co_lock s))(l := Some t),
    lk_todo := (todo s)(t := []), lk_held := (held s)(t := (l, Exclusive) # held s t)\<rparr>\<rparr>)"
proof -
  let ?l1 = "(co_lock s)\<lparr>lk_writer := (lk_writer (co_lock s))(l := Some t)\<rparr>"
  have "lock_step (co_lock s) ?l1" by (rule st_announce[OF assms(2,3)])
  from cr_step[OF assms(1) cs_lock[OF this]] have 1: "conc_reach rt srv conns now (s\<lparr>co_lock := ?l1\<rparr>)" by simp
  have "lock_step ?l1 (?l1\<lparr>lk_todo := (lk_todo ?l1)(t := []), lk_held := (lk_held ?l1)(t := (l, Exclusive) # lk_held ?l1 t)\<rparr>)"
    using assms(2,4) by (intro st_lock) simp_all
  then have "conc_step rt (s\<lparr>co_lock := ?l1\<rparr>) ((s\<lparr>co_lock := ?l1\<rparr>)\<lparr>co_lock :=
      ?l1\<lparr>lk_todo := (lk_todo ?l1)(t := []), lk_held := (lk_held ?l1)(t := (l, Exclusive) # lk_held ?l1 t)\<rparr>\<rparr>)"
    using assms(2) by (intro cs_lock) auto
  from cr_step[OF 1 this] show ?thesis by simp
qed

lemma demo_concurrent:
  "\<exists>s. conc_reach demo_rt demo_logging (\<lambda>i. 0) 0 s \<and> co_fit s \<and> co_unsaved s = {} \<and> co_ran s = [] \<and> co_now s = 0
    \<and> co_log s = [(0, 0, 0, [''SET'', ''k'', ''v''])] \<and> co_job s 7 = Leaves"
proof -
  let ?args = "[''SET'', ''k'', ''v'']" and ?s0 = "conc_init demo_logging (\<lambda>i. 0) 0"
  let ?R = "conc_reach demo_rt demo_logging (\<lambda>i. 0) 0"
  have log: "loggedOf demo_rt demo_logging 0 (demo_at 0) ?args = [(0, 0, 0, ?args)]"
    using demo_set_logged[OF demo_logging_ok(1,3)] by (simp add: demo_set_def split: prod.splits)
  define cmd where "cmd = writeKey ''set'' 3 cmdSet"
  have cmd: "Resolve commandTable ?args = Inr cmd" and c: "cmd = writeKey ''set'' 3 cmdSet"
    using demo_set_resolves by (simp_all add: cmd_def)
  obtain srv' idx' reply e where r: "runCommand demo_rt demo_logging 0 (demo_at 0) cmd ?args = (srv', idx', reply, e)" using prod_cases4 by blast
  then have e: "e = Some (0, 0, ?args)" using log cmd demo_logging_ok(4) by (auto simp: loggedOf_def runCommand_def split: option.splits if_splits)
  define i where "i = indexBytes (rt_hash demo_rt) (srv_databases demo_logging ! 0) ''k''"
  have p: "executeLocks (rt_hash demo_rt) (co_dbs ?s0) (co_conn ?s0 7) cmd ?args = [((0, i), Exclusive)]"
    by (simp add: executeLocks_def c SingleKey_def writeKey_def LockAt_def conc_init_def i_def)
  define s1 where "s1 = next_job 7 (Waits cmd ?args) [((0, i), Exclusive)] ?s0"
  have 1: "?R s1" unfolding s1_def p[symmetric] by (rule cr_step[OF cr_init cs_begin[OF _ demo_set_ok cmd]]) (simp add: conc_init_def)
  define s2 where "s2 = s1\<lparr>co_lock := (co_lock s1)\<lparr>lk_writer := (lk_writer (co_lock s1))((0, i) := Some 7),
    lk_todo := (todo s1)(7 := []), lk_held := (held s1)(7 := ((0, i), Exclusive) # held s1 7)\<rparr>\<rparr>"
  have 2: "?R s2" unfolding s2_def
    by (rule acquire_one[OF 1]) (simp_all add: s1_def next_job_def conc_init_def lock_init_def)
  have v2: "co_job s2 7 = Waits cmd ?args" "todo s2 7 = []" "co_now s2 = 0" "co_srv s2 = demo_logging" "co_conn s2 7 = 0" "co_fit s2" "co_unsaved s2 = {}"
    "co_ran s2 = []" "co_log s2 = []" "lk_writer (co_lock s2) (1, 0) = None" "lk_readers (co_lock s2) (1, 0) = {}"
    by (simp_all add: s2_def s1_def next_job_def conc_init_def lock_init_def)
  have m: "storeMu (srv_databases demo_logging) = [((1, 0), Exclusive)]" using demo_srv_ok(3) demo_logging_ok(2) by (simp add: storeMu_def)
  let ?s3 = "next_job 7 (Logs 0 (0, 0, ?args)) [((1, 0), Exclusive)] (s2\<lparr>co_srv := srv', co_conn := (co_conn s2)(7 := idx'), co_now := 0,
    co_ran := [(7, 0, 0, 0, ?args)]\<rparr>)"
  from cr_step[OF 2 cs_run[OF v2(1,2), of "demo_at 0" demo_rt srv' idx' reply e]] have 3: "?R ?s3"
    using v2 r e m by (simp add: demo_at_def)
  define s4 where "s4 = ?s3\<lparr>co_lock := (co_lock ?s3)\<lparr>lk_writer := (lk_writer (co_lock ?s3))((1, 0) := Some 7),
    lk_todo := (todo ?s3)(7 := []), lk_held := (held ?s3)(7 := ((1, 0), Exclusive) # held ?s3 7)\<rparr>\<rparr>"
  have 4: "?R s4" unfolding s4_def using v2(10,11) by (intro acquire_one[OF 3]) (simp_all add: next_job_def)
  have v4: "co_job s4 7 = Logs 0 (0, 0, ?args)" "todo s4 7 = []" "co_ran s4 = [(7, 0, 0, 0, ?args)]" "co_log s4 = []" "co_fit s4" "co_unsaved s4 = {}" "co_now s4 = 0"
    using v2(6,7,9) by (simp_all add: s4_def)
  from cr_step[OF 4 cs_append[OF v4(1,2)]] v4 show ?thesis by (intro exI conjI) (assumption, simp_all)
qed

end
