(* ===== verification/Progress.thy ===== *)
theory Progress
  imports ConcurrentCrash
begin

text \<open>
  The goroutines of the server do not block one another for good and do not run in circles:
  while one of them is at work, one of them can take a step; and every step that is not the
  start of new work brings the work at hand nearer to its end.
\<close>

section \<open>Every critical section returns\<close>

lemma writeValue_returns:
  assumes "value_ok v"
  shows "\<exists>res. writeValue pick v = Some res"
proof (cases v)
  case (MakeList l)
  with ls.elem_range[of l 0 "-1"] assms show ?thesis by auto
next
  case (MakeHash h)
  with hs.pairs[of h pick] assms show ?thesis by auto
next
  case (MakeSet s)
  with st.all[of s pick] assms show ?thesis by auto
next
  case (MakeZSet z)
  with zs.range_rank[of z 0 "-1"] assms show ?thesis by auto
qed auto

lemma writeRecords_returns: "\<forall>r \<in> set rs. value_ok (rec_Value r) \<Longrightarrow> \<exists>res. writeRecords pick rs = Some res"
proof (induction rs)
  case (Cons r rs)
  then obtain v res where "writeValue pick (rec_Value r) = Some v" "writeRecords pick rs = Some res"
    using writeValue_returns[of "rec_Value r" pick] by auto
  then show ?case by (cases v) (auto simp: writeRecord_def)
qed simp

lemma snapshot_returns:
  assumes "dbs_inv hash dbs"
  shows "\<exists>res. WriteSnapshot pick g (emitRecords rt dbs) = Some res"
proof -
  have "value_ok (rec_Value r)" if r: "r \<in> set (emitRecords rt dbs)" for r
  proof -
    from r obtain d p where d: "d < length dbs" "p \<in> set (DB_EachEntry (rt_pick rt) (dbs ! d))" "r = entryRecord d p"
      by (auto simp: emitRecords_def)
    then have inv: "db_inv hash (dbs ! d)" using assms by (simp add: dbs_inv_def)
    from DB_EachEntry_spec[OF this, of "rt_pick rt"] d(2) have "db_ents hash (dbs ! d) (fst p) = Some (snd p)"
      by (metis map_of_is_SomeI prod.collapse)
    from db.values_ok[OF inv this] d(3) show ?thesis by (simp add: entryRecord_def)
  qed
  then show ?thesis using writeRecords_returns[of "emitRecords rt dbs" pick] by (auto simp: WriteSnapshot_def)
qed

section \<open>Work\<close>

text \<open>A step of goroutines that are at work: none begins, and more than the clock changes.\<close>

definition busy_step :: "runtime \<Rightarrow> conc \<Rightarrow> conc \<Rightarrow> bool" where
  "busy_step rt s s' \<longleftrightarrow>
     conc_step rt s s' \<and> (co_job s', co_lock s') \<noteq> (co_job s, co_lock s) \<and> (\<forall>u. co_job s u = Idle \<longrightarrow> co_job s' u = Idle)"

fun stage :: "job \<Rightarrow> nat" where
  "stage Idle = 0"
| "stage Leaves = 1"
| "stage (Installs snap g) = 2"
| "stage (Logs tm e) = 2"
| "stage (Expires d i now limit) = 2"
| "stage Flushes = 2"
| "stage (Rotates g res) = 3"
| "stage (Waits cmd args) = 3"
| "stage (Captures g) = 4"

definition active :: "conc \<Rightarrow> nat set" where
  "active s = {t. co_job s t \<noteq> Idle}"

text \<open>What is left to acquire and to release, and the writers that may still announce themselves.\<close>

definition lock_work :: "'l set \<Rightarrow> nat set \<Rightarrow> 'l lockState \<Rightarrow> nat" where
  "lock_work L S l = (\<Sum>t\<in>S. 5 * length (lk_todo l t) + 2 * length (lk_held l t)) + card {x \<in> L. lk_writer l x = None}"

definition work :: "DB list \<Rightarrow> conc \<Rightarrow> nat \<times> nat" where
  "work dbs s = (\<Sum>t\<in>active s. stage (co_job s t), lock_work (lock_ids dbs) (active s) (co_lock s))"

lemma sum_change:
  fixes f g :: "'a \<Rightarrow> nat"
  assumes "finite S" "t \<in> S" "\<And>u. u \<noteq> t \<Longrightarrow> g u = f u"
  shows "sum g S + f t = sum f S + g t"
proof -
  have "sum g (S - {t}) = sum f (S - {t})" using assms(3) by (intro sum.cong) auto
  then show ?thesis using assms(1,2) by (simp add: sum.remove[of S t])
qed

lemma lock_step_work:
  assumes fin: "finite L" "finite S" and out: "\<And>t. t \<notin> S \<Longrightarrow> lk_todo l t = [] \<and> lk_held l t = []"
    and todo: "\<And>t. fst ` set (lk_todo l t) \<subseteq> L" and step: "lock_step l l'"
  shows "lock_work L S l' < lock_work L S l"
proof -
  let ?f = "\<lambda>l t. 5 * length (lk_todo l t) + 2 * length (lk_held l t)" and ?free = "\<lambda>l. {x \<in> L. lk_writer l x = None}"
  have S: "t \<in> S" if "lk_todo l t \<noteq> [] \<or> lk_held l t \<noteq> []" for t using out that by blast
  have D: "sum (?f l') S + ?f l t = sum (?f l) S + ?f l' t" if "t \<in> S" "\<And>u. u \<noteq> t \<Longrightarrow> ?f l' u = ?f l u" for t
    by (rule sum_change[OF fin(2) that])
  from step show ?thesis
  proof cases
    case (st_rlock t x p)
    with D[of t] S[of t] show ?thesis by (simp add: lock_work_def)
  next
    case (st_announce t x p)
    have "x \<in> L" using todo[of t] st_announce(2) by simp
    then have "?free l' \<subset> ?free l" using st_announce by auto
    then have "card (?free l') < card (?free l)" using fin(1) by (intro psubset_card_mono) auto
    then show ?thesis unfolding lock_work_def by (simp add: st_announce(1))
  next
    case (st_lock t x p)
    with D[of t] S[of t] show ?thesis by (simp add: lock_work_def)
  next
    case (st_unlock t x h)
    have "?free l' \<subseteq> insert x (?free l)" using st_unlock(1) by auto
    with fin(1) have "card (?free l') \<le> card (insert x (?free l))" by (intro card_mono) auto
    then have "card (?free l') \<le> Suc (card (?free l))" using fin(1) by (simp add: card_insert_if split: if_splits)
    moreover have "sum (?f l') S + ?f l t = sum (?f l) S + ?f l' t" using S[of t] st_unlock(3) by (intro D) (simp_all add: st_unlock(1))
    moreover have "?f l t = 2 + ?f l' t" using st_unlock(2,3) by (simp add: st_unlock(1))
    ultimately show ?thesis unfolding lock_work_def by linarith
  next
    case (st_runlock t x h)
    with D[of t] S[of t] show ?thesis by (simp add: lock_work_def)
  qed
qed

lemma active_finite: "conc_reach rt srv conns now s \<Longrightarrow> finite (active s)"
proof (induction rule: conc_reach.induct)
  case cr_init
  then show ?case by (simp add: active_def conc_init_def)
next
  case (cr_step s s')
  have "\<exists>t. active s' \<subseteq> insert t (active s)"
    using cr_step.hyps(2) by cases (auto simp: active_def split: if_splits)
  with cr_step.IH show ?case by (meson finite.insertI finite_subset)
qed

text \<open>A goroutine that goes on to a later stage leaves less to do.\<close>

lemma stage_work:
  assumes "finite (active s)" "co_job s' = (co_job s)(t := j)" "stage j < stage (co_job s t)"
  shows "fst (work dbs s') < fst (work dbs s)"
proof -
  have t: "t \<in> active s" using assms(3) by (auto simp: active_def)
  have "sum (\<lambda>u. stage (co_job s' u)) (active s') = sum (\<lambda>u. stage (co_job s' u)) (active s)"
    using assms(1-3) t by (intro sum.mono_neutral_left) (auto simp: active_def)
  moreover have "sum (\<lambda>u. stage (co_job s' u)) (active s) + stage (co_job s t) = sum (\<lambda>u. stage (co_job s u)) (active s) + stage j"
    using sum_change[OF assms(1) t, of "\<lambda>u. stage (co_job s' u)" "\<lambda>u. stage (co_job s u)"] assms(2) by simp
  ultimately show ?thesis using assms(3) by (simp add: work_def)
qed

lemma idle_locks: "conc_inv rt dbs A s \<Longrightarrow> co_job s t = Idle \<Longrightarrow> todo s t = [] \<and> held s t = []"
  using conc_invD(3)[of rt dbs A s t] by (simp add: job_locks_def)

lemma busy_step_work:
  assumes inv: "conc_inv rt dbs A s" and fin: "finite (active s)" and step: "busy_step rt s s'"
  shows "(work dbs s', work dbs s) \<in> less_than <*lex*> less_than"
proof -
  have S: "conc_step rt s s'" "(co_job s', co_lock s') \<noteq> (co_job s, co_lock s)" "\<And>u. co_job s u = Idle \<Longrightarrow> co_job s' u = Idle"
    using step unfolding busy_step_def by blast+
  have stage: ?thesis if "s' = next_job t j p s1" "co_job s1 = co_job s" "stage j < stage (co_job s t)" for t j p s1
    using stage_work[OF fin _ that(3), of s' dbs] that(1,2) by (cases "work dbs s"; cases "work dbs s'") simp
  from S(1) show ?thesis
  proof cases
    case (cs_lock l)
    have "todo s t = [] \<and> held s t = []" if "t \<notin> active s" for t
      using idle_locks[OF inv, of t] that by (simp add: active_def)
    moreover have "fst ` set (todo s t) \<subseteq> lock_ids dbs" for t using lock_invD(2)[OF conc_invD(2)[OF inv], of t] by auto
    ultimately have "lock_work (lock_ids dbs) (active s) l < lock_work (lock_ids dbs) (active s) (co_lock s)"
      using fin cs_lock(2) by (intro lock_step_work finite_lock_ids) auto
    then show ?thesis by (simp add: work_def cs_lock(1) active_def)
  next
    case (cs_run t cmd args at srv idx reply e)
    show ?thesis by (rule stage[OF cs_run(1)]) (simp_all add: cs_run(2) split: option.split)
  next
    case (cs_rotate t g res st st' r)
    show ?thesis by (rule stage[OF cs_rotate(1)]) (simp_all add: cs_rotate(2) split: option.split sum.split)
  next
    case (cs_append t tm e)
    show ?thesis by (rule stage[OF cs_append(1)]) (simp_all add: cs_append(2))
  next
    case (cs_leave t)
    show ?thesis by (rule stage[OF cs_leave(1)]) (simp_all add: cs_leave(2))
  next
    case (cs_expire t d i now limit)
    show ?thesis by (rule stage[OF cs_expire(1)]) (simp_all add: cs_expire(2))
  next
    case (cs_flush t)
    show ?thesis by (rule stage[OF cs_flush(1)]) (simp_all add: cs_flush(2))
  next
    case (cs_capture t g res)
    show ?thesis by (rule stage[OF cs_capture(1)]) (simp_all add: cs_capture(2))
  next
    case (cs_install t snap g)
    show ?thesis by (rule stage[OF cs_install(1)]) (simp_all add: cs_install(2))
  next
    case (cs_tick now)
    with S(2) show ?thesis by simp
  qed (use S(3) in \<open>force+\<close>)
qed


section \<open>Somebody can go on\<close>

lemma lock_step_changes: "lock_step l l' \<Longrightarrow> lk_held l' \<noteq> lk_held l \<or> lk_writer l' \<noteq> lk_writer l"
  by (cases rule: lock_step.cases) (auto simp: fun_upd_idem_iff)

lemma busyI: "conc_step rt s (next_job t j p s1) \<Longrightarrow> co_job s t \<noteq> Idle \<Longrightarrow> co_job s t \<noteq> j \<Longrightarrow> co_job s1 = co_job s \<Longrightarrow> busy_step rt s (next_job t j p s1)"
  by (auto simp: busy_step_def fun_eq_iff)

lemma critical_section_runs:
  assumes inv: "conc_inv rt dbs A s" and t: "co_job s t \<noteq> Idle" "\<not> releases (co_job s t)" "todo s t = []"
  shows "\<exists>s'. busy_step rt s s'"
proof (cases "co_job s t")
  case (Waits cmd args)
  let ?at = "\<lparr>at_start = co_now s, at_run = co_now s, at_append = co_now s, at_end = co_now s\<rparr>"
  obtain srv idx reply e where r: "runCommand rt (co_srv s) (co_conn s t) ?at cmd args = (srv, idx, reply, e)"
    using prod_cases4 by blast
  show ?thesis by (rule exI, rule busyI[OF cs_run[OF Waits t(3) _ r]]) (simp_all add: Waits split: option.split)
next
  case (Captures g)
  have "dbs_inv (rt_hash rt) (co_dbs s)" using conc_invD(9)[OF inv] by (simp add: dbs_see_def)
  from snapshot_returns[OF this] obtain res where w: "WriteSnapshot (rt_pick rt) g (emitRecords rt (co_dbs s)) = Some res" by blast
  show ?thesis by (rule exI, rule busyI[OF cs_capture[OF Captures t(3) w]]) (simp_all add: Captures)
next
  case (Rotates g res)
  obtain st where st: "srv_persist (co_srv s) = Some st" using conc_invD(5)[OF inv] by blast
  obtain st' r where r: "Store_Rotate st = (st', r)" by fastforce
  show ?thesis by (rule exI, rule busyI[OF cs_rotate[OF Rotates t(3) st r]]) (simp_all add: Rotates split: option.split sum.split)
next
  case (Logs tm e)
  show ?thesis by (rule exI, rule busyI[OF cs_append[OF Logs t(3)]]) (simp_all add: Logs)
next
  case (Expires d i now limit)
  show ?thesis by (rule exI, rule busyI[OF cs_expire[OF Expires t(3)]]) (simp_all add: Expires)
next
  case Flushes
  show ?thesis by (rule exI, rule busyI[OF cs_flush[OF Flushes t(3)]]) (simp_all add: Flushes)
qed (use t in simp_all)

theorem somebody_goes_on:
  assumes inv: "conc_inv rt dbs A s" and t: "co_job s t \<noteq> Idle"
  shows "\<exists>s'. busy_step rt s s'"
proof -
  consider u where "co_job s u \<noteq> Idle" "\<not> releases (co_job s u)" "todo s u = []" | u where "releases (co_job s u)"
    | "\<And>u. co_job s u \<noteq> Idle \<Longrightarrow> todo s u \<noteq> []" by blast
  then show ?thesis
  proof cases
    case 1
    then show ?thesis by (rule critical_section_runs[OF inv])
  next
    case 2
    then have u: "todo s u = []" using conc_invD(3)[OF inv, of u] by (cases "co_job s u") (simp_all add: job_locks_def)
    show ?thesis
    proof (cases "held s u")
      case Nil
      show ?thesis
      proof (cases "co_job s u")
        case (Installs snap g)
        show ?thesis by (rule exI, rule busyI[OF cs_install[OF Installs Nil]]) (simp_all add: Installs)
      next
        case Leaves
        show ?thesis by (rule exI, rule busyI[OF cs_leave[OF Leaves Nil]]) (simp_all add: Leaves)
      qed (use 2 in simp_all)
    next
      case (Cons x h)
      obtain l where l: "lock_step (co_lock s) l" "\<And>v. v \<noteq> u \<Longrightarrow> lk_held l v = held s v"
      proof (cases x)
        case (Pair a m)
        then show thesis using that st_unlock[OF u, of a h] st_runlock[OF u, of a h] Cons by (cases m) auto
      qed
      have "conc_step rt s (s\<lparr>co_lock := l\<rparr>)" using l 2 by (intro cs_lock) metis+
      with lock_step_changes[OF l(1)] show ?thesis by (auto simp: busy_step_def)
    qed
  next
    case 3
    from no_deadlock[OF conc_invD(2)[OF inv] finite_lock_ids, of t] 3[OF t] obtain l where l: "lock_step (co_lock s) l" by blast
    have "lk_held l u = held s u" if "todo s u = []" for u
      using lock_step_goroutine[OF l, of u] idle_locks[OF inv, of u] 3[of u] that by force
    then have "conc_step rt s (s\<lparr>co_lock := l\<rparr>)" using l by (intro cs_lock) auto
    with lock_step_changes[OF l] show ?thesis by (auto simp: busy_step_def)
  qed
qed

end
