(* ===== verification/ClientExample.thy ===== *)
theory ClientExample
  imports EndToEnd
begin

text \<open>
  Dialling (\<open>clients/go/memcore.go\<close>) and the example program of the client
  (\<open>clients/go/example/main.go\<close>), with what it prints against a server. The network is a
  parameter: whether a connection to an address comes up in time, and if so which of its
  writes fail and which bytes it delivers.
\<close>

section \<open>Dialling\<close>

record netConn =
  nc_fault :: "nat \<Rightarrow> bool"
  nc_in :: bytes

definition DialTimeout :: "(bytes \<Rightarrow> duration \<Rightarrow> netConn option) \<Rightarrow> bytes \<Rightarrow> duration \<Rightarrow> Client option" where
  "DialTimeout net addr timeout =
     (case net addr timeout of
        None \<Rightarrow> None
      | Some conn \<Rightarrow>
          Some \<lparr>cl_w = \<lparr>w_out = [], w_err = False, w_calls = 0, w_fault = nc_fault conn, w_flushed = 0\<rparr>, cl_in = nc_in conn\<rparr>)"

definition Dial :: "(bytes \<Rightarrow> duration \<Rightarrow> netConn option) \<Rightarrow> bytes \<Rightarrow> Client option" where
  "Dial net addr = DialTimeout net addr (5 * 1000000000)"

section \<open>The program\<close>

text \<open>The verb \<open>%v\<close> on what \<open>Do\<close> returns, and on a \<open>bool\<close>.\<close>

fun showV :: "clientVal \<Rightarrow> bytes" where
  "showV (CStr s) = s"
| "showV (CInt n) = formatInt n"
| "showV CNil = ''<nil>''"
| "showV (CArr vs) = ''['' @ concat (case map showV vs of [] \<Rightarrow> [] | x # xs \<Rightarrow> x # map (\<lambda>y. '' '' @ y) xs) @ '']''"

definition showBool :: "bool \<Rightarrow> bytes" where
  "showBool b = (if b then ''true'' else ''false'')"

text \<open>The output, and how the program ends: \<open>log.Fatal\<close> at the first error, or normally.\<close>

datatype exampleEnd = DialFailed | Fatal clientErr | Finished

definition example_main :: "(bytes \<Rightarrow> bytes) \<Rightarrow> (bytes \<Rightarrow> duration \<Rightarrow> netConn option) \<Rightarrow> bytes list \<times> exampleEnd" where
  "example_main quote net =
     (case Dial net ''127.0.0.1:6380'' of
        None \<Rightarrow> ([], DialFailed)
      | Some c \<Rightarrow>
     (case Client_Ping c of
        (c1, Some err) \<Rightarrow> ([], Fatal err)
      | (c1, None) \<Rightarrow>
     (case Client_Set c1 ''greeting'' ''hello'' of
        (c2, Some err) \<Rightarrow> ([], Fatal err)
      | (c2, None) \<Rightarrow>
     (case Client_Get c2 ''greeting'' of
        (c3, Inl err) \<Rightarrow> ([], Fatal err)
      | (c3, Inr (v, ok)) \<Rightarrow>
     (let out1 = ''GET greeting -> '' @ quote v @ '' (found='' @ showBool ok @ '')'' @ [CHR 0x0A]
      in case Client_Do c3 [''INCR'', ''counter''] of
        (c4, Inl err) \<Rightarrow> ([out1], Fatal err)
      | (c4, Inr n) \<Rightarrow>
     (let out2 = ''INCR counter -> '' @ showV n @ [CHR 0x0A]
      in case Client_Do c4 [''RPUSH'', ''fruits'', ''apple'', ''banana'', ''cherry''] of
        (c5, Inl err) \<Rightarrow> ([out1, out2], Fatal err)
      | (c5, Inr _) \<Rightarrow>
     (case Client_Do c5 [''LRANGE'', ''fruits'', ''0'', ''-1''] of
        (c6, Inl err) \<Rightarrow> ([out1, out2], Fatal err)
      | (c6, Inr list) \<Rightarrow>
          ([out1, out2, ''LRANGE fruits -> '' @ showV list @ [CHR 0x0A]], Finished))))))))"

section \<open>What it prints\<close>

abbreviation example_requests :: "bytes list list" where
  "example_requests \<equiv>
     [[''PING''], [''SET'', ''greeting'', ''hello''], [''GET'', ''greeting''], [''INCR'', ''counter''],
      [''RPUSH'', ''fruits'', ''apple'', ''banana'', ''cherry''], [''LRANGE'', ''fruits'', ''0'', ''-1'']]"

abbreviation example_replies :: "Reply list" where
  "example_replies \<equiv>
     [RSimple ''PONG'', Reply_OK, RBulk ''hello'', RInt 1, RInt 3, RArray (map RBulk [''apple'', ''banana'', ''cherry''])]"

lemma example_commands:
  "Resolve commandTable [''INCR'', k] = Inr (writeKey ''incr'' 2 cmdIncr)"
  "Resolve commandTable (''RPUSH'' # k # v # vs) = Inr (writeKey ''rpush'' (-3) cmdRPush)"
  "Resolve commandTable [''LRANGE'', k, a, b] = Inr (readKey ''lrange'' 4 cmdLRange)"
proof -
  have n: "map lowerByte ''INCR'' = ''incr''" "map lowerByte ''RPUSH'' = ''rpush''" "map lowerByte ''LRANGE'' = ''lrange''" by code_simp+
  show "Resolve commandTable [''INCR'', k] = Inr (writeKey ''incr'' 2 cmdIncr)"
    "Resolve commandTable (''RPUSH'' # k # v # vs) = Inr (writeKey ''rpush'' (-3) cmdRPush)"
    "Resolve commandTable [''LRANGE'', k, a, b] = Inr (readKey ''lrange'' 4 cmdLRange)"
    by (rule Resolve_named; use n in \<open>simp add: allCommands_def command_groups writeKey_def readKey_def accepts_def\<close>)+
qed

lemma cmdLRange_all:
  assumes "ctx_inv rt c" "live (ctx_now c) (store_of rt c) k = Some e" "Entry_Value e = MakeList l"
  shows "cmdLRange rt c [''LRANGE'', k, ''0'', ''-1''] = Some (c, RArray (map RBulk (list_elems l)))"
proof -
  have "parseInt ''0'' = Some 0" "parseInt ''-1'' = Some (-1)" by (simp_all add: parseInt_def digit_val_def int64_ok_def)
  moreover have "lookupEntry rt c k = Some e" using assms(1,2) by (simp add: lookupEntry_live)
  moreover have "list_inv l" using lookup_value_inv(1)[OF assms(1) calculation(3) assms(3)] .
  ultimately show ?thesis using assms(3) ls.elem_range[of l 0 "-1"] by (simp add: cmdLRange_def arg_def)
qed

lemma dispatch_incr:
  assumes "served rt srv idx st" "st k = None"
  shows "\<exists>srv'. dispatch rt commandTable srv idx at [''INCR'', k] = (srv', idx, RInt 1)
    \<and> served rt srv' idx (st(k \<mapsto> fresh_entry (MakeString (formatInt 1))))"
proof -
  let ?c = "session srv idx (at_run at)"
  note c = served_session[OF assms(1), of "at_run at"]
  from incrBy_absent[OF conjunct1[OF c], of k 1] assms(2) c obtain c1 where
    "cmd_run (writeKey ''incr'' 2 cmdIncr) rt ?c [''INCR'', k] = Some (c1, RInt 1)"
      "ctx_to rt ?c c1 (st(k \<mapsto> fresh_entry (MakeString (formatInt 1))))" by (auto simp: writeKey_def cmdIncr_def arg_def live_def)
  from dispatch_stores[OF assms(1) example_commands(1) this] show ?thesis .
qed

lemma dispatch_rpush:
  assumes "served rt srv idx st" "st k = None" "\<forall>x \<in> set (v # vs). slice_ok x"
  shows "\<exists>srv' l. dispatch rt commandTable srv idx at (''RPUSH'' # k # v # vs) = (srv', idx, RInt (int (length (v # vs))))
    \<and> served rt srv' idx (st(k \<mapsto> fresh_entry (MakeList l))) \<and> list_elems l = v # vs"
proof -
  let ?c = "session srv idx (at_run at)"
  note c = served_session[OF assms(1), of "at_run at"]
  from listPush_spec(1)[OF conjunct1[OF c], of "''RPUSH'' # k # v # vs" False] assms(2,3) c obtain c1 l where
    "cmd_run (writeKey ''rpush'' (-3) cmdRPush) rt ?c (''RPUSH'' # k # v # vs) = Some (c1, RInt (int (length (v # vs))))"
      "ctx_to rt ?c c1 (st(k \<mapsto> fresh_entry (MakeList l)))" "list_elems l = v # vs"
    by (auto simp: writeKey_def cmdRPush_def live_def pushed_def)
  from dispatch_stores[OF assms(1) example_commands(2) this(1,2)] this(3) show ?thesis by blast
qed

lemma dispatch_lrange:
  assumes "served rt srv idx st" "st k = Some (fresh_entry (MakeList l))"
  shows "\<exists>srv'. dispatch rt commandTable srv idx at [''LRANGE'', k, ''0'', ''-1''] = (srv', idx, RArray (map RBulk (list_elems l)))
    \<and> served rt srv' idx st"
proof (rule dispatch_reads[OF assms(1) example_commands(3)])
  show "cmd_run (readKey ''lrange'' 4 cmdLRange) rt (session srv idx (at_run at)) [''LRANGE'', k, ''0'', ''-1'']
      = Some (session srv idx (at_run at), RArray (map RBulk (list_elems l)))"
    using cmdLRange_all[of rt "session srv idx (at_run at)" k "fresh_entry (MakeList l)" l] served_session[OF assms(1), of "at_run at"]
      live_fresh[of st k, OF assms(2), of "at_run at"] by (simp add: readKey_def)
qed

text \<open>The commands of the example, run by a server that has neither of its keys yet.\<close>

lemma example_dispatch:
  assumes "served rt srv 0 st" "st ''counter'' = None" "st ''fruits'' = None"
  shows "\<exists>srv'. dispatchAll rt commandTable clk 0 srv 0 example_requests = (srv', 0, example_replies)"
proof -
  have ok: "slice_ok ''hello''" "\<forall>x \<in> set [''apple'', ''banana'', ''cherry'']. slice_ok x" by (simp_all add: slice_ok_def)
  from dispatch_ping[OF assms(1), of "clk 0"] obtain s1 where
    1: "dispatch rt commandTable srv 0 (clk 0) [''PING''] = (s1, 0, RSimple ''PONG'')" "served rt s1 0 st" by blast
  from dispatch_set[OF 1(2) ok(1), of "clk 1" "''greeting''"] obtain s2 st2 where
    2: "dispatch rt commandTable s1 0 (clk 1) [''SET'', ''greeting'', ''hello''] = (s2, 0, Reply_OK)" "served rt s2 0 st2"
      "st2 = st(''greeting'' \<mapsto> fresh_entry (MakeString ''hello''))" by blast
  from dispatch_get[OF 2(2), of "''greeting''" "''hello''" "clk 2"] 2(3) obtain s3 where
    3: "dispatch rt commandTable s2 0 (clk 2) [''GET'', ''greeting''] = (s3, 0, RBulk ''hello'')" "served rt s3 0 st2" by auto
  from dispatch_incr[OF 3(2), of "''counter''" "clk 3"] 2(3) assms(2) obtain s4 st4 where
    4: "dispatch rt commandTable s3 0 (clk 3) [''INCR'', ''counter''] = (s4, 0, RInt 1)" "served rt s4 0 st4"
      "st4 = st2(''counter'' \<mapsto> fresh_entry (MakeString (formatInt 1)))" by auto
  from dispatch_rpush[OF 4(2) _ ok(2), of "''fruits''" "clk 4"] 2(3) 4(3) assms(3) obtain s5 l where
    5: "dispatch rt commandTable s4 0 (clk 4) [''RPUSH'', ''fruits'', ''apple'', ''banana'', ''cherry''] = (s5, 0, RInt 3)"
      "served rt s5 0 (st4(''fruits'' \<mapsto> fresh_entry (MakeList l)))" "list_elems l = [''apple'', ''banana'', ''cherry'']" by auto
  from dispatch_lrange[OF 5(2), of "''fruits''" l "clk 5"] 5(3) obtain s6 where
    "dispatch rt commandTable s5 0 (clk 5) [''LRANGE'', ''fruits'', ''0'', ''-1'']
      = (s6, 0, RArray (map RBulk [''apple'', ''banana'', ''cherry'']))" by auto
  with 1(1) 2(1) 3(1) 4(1) 5(1) show ?thesis by (simp add: numeral_eq_Suc)
qed

lemma example_prints:
  assumes "served rt srv 0 st" "st ''counter'' = None" "st ''fruits'' = None"
    "no_fault w" "w_out w = []" "\<forall>n. \<not> buffered n []"
    "serve rt commandTable clk buffered srv w (concat (map encodeRequest example_requests)) = (srv2, w2)"
    "net ''127.0.0.1:6380'' 5000000000 = Some \<lparr>nc_fault = (\<lambda>n. False), nc_in = w_out w2\<rparr>"
  shows "example_main quote net =
    ([''GET greeting -> '' @ quote ''hello'' @ '' (found=true)'' @ [CHR 0x0A], ''INCR counter -> 1'' @ [CHR 0x0A],
      ''LRANGE fruits -> [apple banana cherry]'' @ [CHR 0x0A]], Finished)"
proof -
  let ?c = "\<lparr>cl_w = \<lparr>w_out = [], w_err = False, w_calls = 0, w_fault = (\<lambda>n. False), w_flushed = 0\<rparr>, cl_in = w_out w2\<rparr>"
  have "served rt (record_call ConnectionOpened srv) 0 st"
    using assms(1) by (simp add: served_def srv_inv_def store_of_def ctx_Keyspace_def)
  from example_dispatch[OF this assms(2,3)] obtain srv' where
    d: "dispatchAll rt commandTable clk 0 (record_call ConnectionOpened srv) 0 example_requests = (srv', 0, example_replies)" by blast
  have r: "\<forall>args \<in> set example_requests. request_ok args" by (simp add: request_ok_def bulk_ok_def)
  have q: "\<forall>r \<in> set example_replies. wire_ok r" by (simp add: wire_ok_def Reply_OK_def line_ok_def int64_ok_def)
  from client_server[OF r assms(4,5) _ assms(6) d q _ _ assms(7), of ?c] obtain c' where
    "Client_DoAll ?c example_requests = (c', map client_result example_replies)" by (auto simp: no_fault_def)
  then have "Client_DoAll ?c example_requests = (c', [Inr (CStr ''PONG''), Inr (CStr ''OK''), Inr (CStr ''hello''), Inr (CInt 1), Inr (CInt 3),
      Inr (CArr [CStr ''apple'', CStr ''banana'', CStr ''cherry''])])" by (simp add: client_result_def Reply_OK_def)
  moreover have "formatInt 1 = ''1''" by code_simp
  ultimately show ?thesis using assms(8)
    by (auto simp: example_main_def Dial_def DialTimeout_def Client_Ping_def Client_Set_def Client_Get_def showBool_def split: prod.splits)
qed

end
