(* ===== verification/Spec2Isabelle.thy ===== *)
theory Spec2Isabelle
  imports StoreRefine Metrics Findings Progress ClientExample
begin

text \<open>
  Memcore is an in-memory data store that speaks the Redis protocol over TCP. This
  development models its Go sources and proves that they do what they are for.

  \<^bold>\<open>The program.\<close> A process (\<open>cmd/memcored\<close>) reads flags into a configuration
  (\<open>internal/config\<close>), builds a server (\<open>internal/server\<close>) and runs it. A connection reads
  requests and writes replies (\<open>internal/resp\<close>); a request is resolved in a table and run by a
  handler (\<open>internal/command\<close>) under the locks of the shards its keys hash to
  (\<open>internal/shard\<close>). A shard is a key space with deadlines (\<open>internal/keyspace\<close>) of values
  in two encodings each (\<open>internal/value\<close>). Commands that are not read-only are appended
  to a log, which is folded into snapshots and replayed at boot (\<open>internal/persistence\<close>).
  Background goroutines expire keys (\<open>internal/expiry\<close>), flush the log, compact it and
  drop freed values; calls are counted (\<open>internal/metrics\<close>). A small client is in
  \<open>clients/go\<close>.

  \<^bold>\<open>The theories, and what they model.\<close>
  \<^item> \<open>Prelude\<close>, \<open>GoStd\<close>: shared lemmas; the parts of the Go library in use (varints, 64-bit
    arithmetic with its wrap-around, decimal numbers, times and durations, floats as their
    bits).
  \<^item> \<open>Pack\<close>, \<open>ListValue\<close>, \<open>HashValue\<close>, \<open>SetValue\<close>, \<open>SkipList\<close>, \<open>ZSetValue\<close>, \<open>Value\<close>:
    \<open>internal/value\<close>, both encodings of each type and the promotion between them; the linked
    list and the skip list as nodes in a store of addresses. The contracts \<open>deque\<close>,
    \<open>field_map\<close>, \<open>member_set\<close>, \<open>scored_set\<close> and \<open>ordered_index\<close> are locales, interpreted on the
    code's operations; \<open>Collections\<close> has the refinements of abstract data types.
  \<^item> \<open>Keyspace\<close>, \<open>Shard\<close>, \<open>StoreRefine\<close>: entries, deadlines and the index of keys with one,
    routing by a hash, every operation; the contract \<open>ttl_store\<close> holds of one key space and of
    a sharded database. \<open>Locks\<close>: lock plans of commands and of compaction as a step relation
    with writer preference.
  \<^item> \<open>Command\<close>, \<open>CollCommands\<close>, \<open>Registry\<close>: sessions, the 33 handlers, the table.
    \<open>CommandProps\<close>, \<open>CollProps\<close>, \<open>TableProps\<close> have their effects, \<open>CommandSpec\<close> an
    abstract specification of every writing command and the proof that its handler refines it.
  \<^item> \<open>Resp\<close>, \<open>Client\<close>, \<open>EndToEnd\<close>, \<open>ClientExample\<close>: request reader, reply writer, the Go client, the
    two at the ends of one connection, and the example program with what it prints. \<open>Config\<close>: configuration and reloadable settings.
  \<^item> \<open>Codec\<close>, \<open>Snapshot\<close>, \<open>AppendLog\<close>, \<open>Recovery\<close>: the files and what is read back from
    them, over a directory whose system calls fail as an arbitrary oracle says; a crash is
    the failure of every later call.
  \<^item> \<open>Server\<close>, \<open>ServerProps\<close>, \<open>Durability\<close>, \<open>Background\<close>, \<open>Boot\<close>, \<open>Startup\<close>, \<open>Metrics\<close>,
    \<open>Memcored\<close>: execution of commands, the connection loop, recovery, compaction, active
    expiry, start and orderly stop, the metrics, the command line. The stop is a step relation
    (\<open>life_step\<close>) whose steps are those of the server, of the operating system taking a write,
    or of the outside; \<open>Accept\<close> and \<open>startConn\<close> are two steps, so that a shutdown can come
    between them, and where each connection is in its loop is part of the state. \<open>Startup\<close> has
    what every boot keeps, on whatever the log segments hold.
  \<^item> \<open>Replay\<close>, \<open>Agreement\<close>, \<open>CrashRecovery\<close>: runs of requests and their history, the
    replay of its logged form, and how far the two agree, key by key, when deadlines are
    logged from a second clock reading in milliseconds and replay comes later.
  \<^item> \<open>Footprint\<close>, \<open>Concurrent\<close>, \<open>SegmentLog\<close>, \<open>ConcurrentCrash\<close>, \<open>Progress\<close>: the goroutines
    interleaved. \<open>Footprint\<close> shows that the effect of a command is confined to the keys it declares,
    so that commands on other keys commute with it. \<open>Concurrent\<close> has the steps (\<open>conc_step\<close>): a lock
    operation, or one critical section of \<open>execute\<close>, of the expiry cycle, of the flusher or of
    \<open>compact\<close>; and the invariant over who holds which lock and what the log says.
    \<open>SegmentLog\<close> and \<open>ConcurrentCrash\<close> relate the directory to the log at every moment,
    \<open>Progress\<close> has the absence of deadlock and the measure of the work left.
  \<^item> \<open>Scenario\<close>, \<open>ServerScenario\<close>: concrete states for the instances of the theorems.
    \<open>Findings\<close>: runs in which the code does what its comments or its purpose do not say.

  \<^bold>\<open>State and effects.\<close> A handler is a function from session and request to the new session
  and reply, \<open>None\<close> being a panic. The server's state is a record. In the sequential theorems one
  request is one step on it; in the concurrent ones the command and its append are two steps,
  each under its locks, interleaved with those of all other goroutines (C11, C12, C34). A
  critical section is one step, which is sound because it touches only what its locks cover
  (C1, C2); the temporary file of a snapshot is written with its installation, as nothing
  else touches it. A request has
  four readings of the clock (\<open>readings\<close>): before the dispatch is timed, for the handler, for the
  logged form, and at the end. A handler thus runs at one instant, where the code reads the
  clock at every lookup: once per key in \<open>DEL\<close>, \<open>UNLINK\<close>, \<open>EXISTS\<close> and \<open>SINTER\<close>, and once more for
  the new deadline or the remaining time in \<open>EXPIRE\<close> and \<open>TTL\<close>. The shards are locked between
  these readings, so the only difference is a deadline that falls between them. The hash seed, the order of
  a \<open>range\<close> over a map, random levels, \<open>ParseFloat\<close>, \<open>FormatFloat\<close>, Unicode case mapping and
  quoting are the fields of \<open>runtime\<close> and arbitrary in every theorem. A collection is
  mutated through its pointer in the code; here the handler stores the new one
  (\<open>Keyspace_poke\<close>).

  \<^bold>\<open>What is shown.\<close> C1-C5: commands are safe and touch only the keys whose shards are locked;
  a pipelined batch is answered in order and flushed; the client gets the replies the
  dispatcher gave; the invariant survives every request. C6-C14: compaction is safe at every
  crash point, an orderly restart keeps keys and values, the log after a crash is a prefix, its
  replay agrees with the run that wrote it, a process that finds what a crash left shows the
  state after an initial part of the requests, also when connections, expiry, flusher and compactor ran
  concurrently, an acknowledged write under the policy \<open>always\<close> is on disk, truncation is
  detected. A replayed key has its exact value, and its exact deadline or, after an \<open>EXPIRE\<close>,
  one within a millisecond and the distance of two clock readings, unless a command that
  changes it in place is replayed on the other side of its deadline; a snapshot keeps a
  deadline if its nanoseconds fit 64 bits and are not zero. C15-C24: what commands do, in every case. C25-C27: sharding and active expiry
  are invisible. C28-C32: the collections refine lists, maps, sets and ranked maps, for
  every random tape. C33-C36: no deadlock, progress, orderly shutdown and its
  end, whatever order the goroutines come in. C37-C39:
  round trip, termination and bounds of the protocol. C40: what starts is well formed.

  \<^bold>\<open>Bounds and fuel.\<close> \<open>readReply\<close> takes fuel, and C38 shows that the length of the input is
  enough. Scans of packs and walks in the skip list are partial functions into \<open>option\<close>; the
  contracts show that they return on well-formed values. Every other loop is a total
  function. Sizes are those of the code: 64-bit integers, 16 KiB lines, 512 MiB bulks,
  4 KiB of buffered log, allocations up to \<open>2^48\<close> bytes.

  \<^bold>\<open>Not modelled.\<close> Sockets, tickers, signals and log output; closing in the client; the
  Prometheus library and \<open>net/http\<close> (parameters of the theory of metrics); running out of
  memory below the allocation limit; a handler that panics is taken to have changed nothing, and the only one that
  does (\<open>LPOP\<close>, \<open>RPOP\<close> with a huge count) panics before it changes anything. Reading an
  existing file at recovery is taken to succeed. Blanks beyond ASCII in the names of log
  segments are not considered. Whether the operating system takes the bytes of a reply is left open in
  the model of the shutdown: a client that does not read can hold it up.
\<close>

section \<open>Server\<close>

text \<open>
  (C1) Every command of the table is safe. A handler that its arity check lets through
  returns a reply (it does not panic), leaves every database well formed, changes no entry
  outside the keys it declares (the whole selected database for a whole-database command),
  and changes nothing at all when it is read-only. The executor locks exactly the declared
  keys, so this is what makes the locking sound. The one exception is \<open>LPOP\<close> or
  \<open>RPOP\<close> with a count too large to allocate.
\<close>

theorem every_command_safe:
  assumes "cmd \<in> set allCommands" "accepts cmd (int (length args))" "args_ok args" "ctx_inv rt c"
    "\<not> (cmd_name cmd \<in> {''lpop'', ''rpop''} \<and> hugeCount args)"
  shows "\<exists>c' r. cmd_run cmd rt c args = Some (c', r) \<and> touches_only rt c c' (declared cmd args)
    \<and> (cmd_readOnly cmd \<longrightarrow> c' = c)"
  using table_safe[OF assms(1)] assms(2-) by (fastforce simp: safe_def returns_touching_def)

theorem every_command_safe_witness:
  "\<exists>c' r. cmd_run (writeKey ''set'' 3 cmdSet) demo_rt demo_ctx [''SET'', ''k'', ''v''] = Some (c', r)
     \<and> touches_only demo_rt demo_ctx c' (declared (writeKey ''set'' 3 cmdSet) [''SET'', ''k'', ''v''])"
  using every_command_safe[of "writeKey ''set'' 3 cmdSet" "[''SET'', ''k'', ''v'']" demo_rt demo_ctx] demo_inv
  by (simp add: allCommands_def command_groups accepts_def writeKey_def args_ok_def slice_ok_def)

text \<open>
  (C2) The executor locks enough. The locks \<open>execute\<close> takes before it runs a command cover
  every key the command declares, exclusively unless the command is read-only, on the fast
  path for one key as on the general one; and they are one of the lock plans for which
  mutual exclusion and the absence of deadlock are proved, with the log mutex after them
  for a command that is logged.
\<close>

theorem executor_locks_cover:
  assumes "d < length dbs" "db_shards (dbs ! d) \<noteq> []" "k \<in> declared cmd args"
  shows "(\<exists>m. ((d, indexBytes hash (dbs ! d) k), m) \<in> set (executeLocks hash dbs d cmd args)
      \<and> (m = Exclusive \<or> cmd_readOnly cmd))
    \<and> lock_plan hash dbs (executeLocks hash dbs d cmd args)
    \<and> (cmd_readOnly cmd \<or> lock_plan hash dbs (executeLocks hash dbs d cmd args @ storeMu dbs))"
  using executeLocks_cover[OF assms(2,3)] executeLocks_plan[OF assms(1,2)] by blast

theorem executor_locks_cover_witness:
  "\<exists>m. ((0, indexBytes (rt_hash demo_rt) (DB_New 2) ''b''), m)
      \<in> set (executeLocks (rt_hash demo_rt) [DB_New 2] 0 (writeKeys ''del'' (-2) cmdDel) [''DEL'', ''a'', ''b''])
    \<and> (m = Exclusive \<or> cmd_readOnly (writeKeys ''del'' (-2) cmdDel))"
  using executor_locks_cover[of 0 "[DB_New 2]" "''b''" "writeKeys ''del'' (-2) cmdDel" "[''DEL'', ''a'', ''b'']" "rt_hash demo_rt"]
    Keys_many(2)[of "[''DEL'', ''a'', ''b'']" "''del''" "-2" cmdDel]
  by (auto simp: DB_New_def declared_def writeKeys_def)

text \<open>
  (C3) Pipelining. For any batch of well-formed requests on a connection whose writes do not
  fail, the server runs their commands one after the other, sends exactly their replies in
  the order of the requests, and has flushed all of them when the input ends, however the
  bytes arrived. The loop ends on every input.
\<close>

theorem requests_pipelined:
  assumes "\<forall>args \<in> set reqs. request_ok args" "no_fault w" "reqs \<noteq> []" "\<forall>n. \<not> buffered n []"
    "dispatchAll rt reg clk 0 (record_call ConnectionOpened srv) 0 reqs = (srv', idx', replies)"
  shows "\<exists>w'. serve rt reg clk buffered srv w (concat (map encodeRequest reqs)) = (record_call ConnectionClosed srv', w')
    \<and> w_out w' = w_out w @ concat (map encodeReply replies) \<and> w_flushed w' = length (w_out w')"
  using serve_requests[of reqs w buffered] assms by blast

theorem requests_pipelined_witness:
  "\<exists>srv' replies w'. serve demo_rt commandTable demo_at (\<lambda>n s. s \<noteq> []) demo_srv demo_writer
      (concat (map encodeRequest [[''SET'', ''k'', ''v''], [''GET'', ''k'']])) = (srv', w')
    \<and> length replies = 2 \<and> w_out w' = concat (map encodeReply replies) \<and> w_flushed w' = length (w_out w')"
proof -
  let ?reqs = "[[''SET'', ''k'', ''v''], [''GET'', ''k'']]"
  obtain srv' idx' replies where
    d: "dispatchAll demo_rt commandTable demo_at 0 (record_call ConnectionOpened demo_srv) 0 ?reqs = (srv', idx', replies)"
    using prod_cases3 by blast
  have "length replies = 2" using d by (auto split: prod.splits)
  moreover have "\<forall>args \<in> set ?reqs. request_ok args" by (simp add: request_ok_def bulk_ok_def)
  ultimately show ?thesis
    using requests_pipelined[of ?reqs demo_writer "\<lambda>n s. s \<noteq> []" demo_rt commandTable demo_at demo_srv srv' idx' replies] d
    by auto
qed

text \<open>
  (C4) Client and server together. For any sequence of commands that the client sends, \<open>Do\<close>
  returns for each one, in order, exactly the reply its dispatch gave at the server: the
  value of the reply, or the server error. The client has then sent exactly these requests
  and consumed exactly what the server wrote. (A reply line with a line break in it, which
  an error that quotes its argument raw can hold, is excluded.)
\<close>

theorem client_sees_replies:
  assumes "\<forall>args \<in> set reqs. request_ok args" "no_fault w" "w_out w = []" "reqs \<noteq> []" "\<forall>n. \<not> buffered n []"
    "dispatchAll rt reg clk 0 (record_call ConnectionOpened srv) 0 reqs = (srv', idx', replies)"
    "\<forall>r \<in> set replies. wire_ok r" "no_fault (cl_w c)" "w_out (cl_w c) = []"
    "serve rt reg clk buffered srv w (concat (map encodeRequest reqs)) = (srv2, w2)" "cl_in c = w_out w2"
  shows "\<exists>c'. Client_DoAll c reqs = (c', map client_result replies)
    \<and> w_out (cl_w c') = concat (map encodeRequest reqs) \<and> cl_in c' = []"
  by (rule client_server[OF assms])

theorem client_sees_replies_witness:
  "\<exists>srv2 w2 c'. serve demo_rt commandTable demo_at (\<lambda>n s. s \<noteq> []) demo_srv demo_writer (encodeRequest [''PING'']) = (srv2, w2)
    \<and> Client_DoAll \<lparr>cl_w = demo_writer, cl_in = w_out w2\<rparr> [[''PING'']] = (c', [Inr (CStr ''PONG'')])"
proof -
  let ?srv = "record_call ConnectionOpened demo_srv"
  have "cmd_run (plain ''ping'' (-1) cmdPing) demo_rt (session ?srv 0 (at_run (demo_at 0))) [''PING'']
      = Some (session ?srv 0 (at_run (demo_at 0)), RSimple ''PONG'')" by (simp add: plain_def cmdPing_def)
  from dispatch_run[OF set_get_commands(3) this] obtain srv1 where
    d: "dispatchAll demo_rt commandTable demo_at 0 ?srv 0 [[''PING'']] = (srv1, 0, [RSimple ''PONG''])" by (auto simp: Context_DB_def)
  obtain srv2 w2 where
    s: "serve demo_rt commandTable demo_at (\<lambda>n s. s \<noteq> []) demo_srv demo_writer (concat (map encodeRequest [[''PING'']])) = (srv2, w2)"
    by fastforce
  from client_sees_replies[OF _ _ _ _ _ d _ _ _ s, of "\<lparr>cl_w = demo_writer, cl_in = w_out w2\<rparr>"] s
  show ?thesis by (auto simp: request_ok_def bulk_ok_def wire_ok_def line_ok_def client_result_def)
qed

text \<open>
  (C5) The state survives every request. Dispatching any request, known or unknown, whether
  its handler succeeds, answers an error or panics, leaves every database well formed, the
  number of databases unchanged and the connection on a database that exists.
\<close>

theorem dispatch_keeps_state:
  assumes "srv_inv rt srv" "idx < length (srv_databases srv)" "args_ok args"
    "dispatch rt commandTable srv idx at args = (srv', idx', reply)"
  shows "srv_inv rt srv' \<and> idx' < length (srv_databases srv') \<and> length (srv_databases srv') = length (srv_databases srv)"
  by (rule dispatch_inv[OF assms])

theorem dispatch_keeps_state_witness:
  "\<exists>srv' idx' reply. dispatch demo_rt commandTable demo_srv 0 (demo_at 0) [''RPUSH'', ''k'', ''a''] = (srv', idx', reply)
    \<and> srv_inv demo_rt srv' \<and> idx' < 1"
proof -
  obtain srv' idx' reply where
    d: "dispatch demo_rt commandTable demo_srv 0 (demo_at 0) [''RPUSH'', ''k'', ''a''] = (srv', idx', reply)" using prod_cases3 by blast
  have "args_ok [''RPUSH'', ''k'', ''a'']" by (simp add: args_ok_def slice_ok_def)
  with dispatch_keeps_state[OF demo_srv_ok(2) _ this d] demo_srv_ok(3) d show ?thesis by auto
qed

section \<open>Durability\<close>

text \<open>
  (C6) Compaction is safe at every crash point. Whichever system calls of \<open>Rotate\<close> and
  \<open>InstallSnapshot\<close> fail, and however much of a failing write reaches the disk, a restart
  gives one of two things. If compaction reports an error, recovery does what it would have
  done before, on the same snapshot and the same log with part of the buffered records
  appended. If it reports success, recovery replays nothing and gives every database the
  keys and values it had at the time of the compaction, whatever the hash seed and the number
  of shards of the new process, with the deadlines as a snapshot keeps them (\<open>saved\<close>): a key
  without a deadline and a key whose deadline is a nonzero number of nanoseconds in 64 bits
  (1678 to 2262) come back exactly. (A deadline outside that range wraps around in
  \<open>UnixNano\<close> and one exactly at the epoch is lost: both are reported as findings.) The
  conditions: the databases are well formed and no key or value is larger than the address
  space of \<open>2 ^ 48\<close> bytes (\<open>dbs_fit\<close>), the store is as \<open>Open\<close> and its operations leave it
  (\<open>store_wf\<close>), and the new process starts with as many empty databases.
\<close>

theorem compaction_crash_safe:
  assumes "dbs_inv (rt_hash rt) dbs" "dbs_fit (rt_hash rt) dbs"
    "empty_dbs (rt_hash rt') (srv_databases srv0)" "length (srv_databases srv0) = length dbs"
    "store_wf s" "seg s = Some c"
  shows "\<exists>s' ok. compact rt dbs s = Some (s', ok) \<and>
    (if ok
     then \<exists>srv' n. Server_recover rt' reg clk (st_dir s') srv0 = Some ((srv', 0, 0), n, 0, None)
       \<and> recovers_to rt' srv0 rt dbs srv'
       \<and> (\<forall>d < length dbs. \<forall>k.
            (\<forall>e. db_ents (rt_hash rt) (dbs ! d) k = Some e \<longrightarrow> ExpireAt e = zeroTime \<or> int64_ok (ExpireAt e) \<and> ExpireAt e \<noteq> 0) \<longrightarrow>
            contents (rt_hash rt') (srv_databases srv') d k = contents (rt_hash rt) dbs d k)
     else \<exists>c'. prefix c c' \<and> prefix c' (c @ st_buf s) \<and>
       Server_recover rt' reg clk (st_dir s') srv0 =
       Server_recover rt' reg clk (AList.update (segmentPath (st_gen s)) c' (st_dir s)) srv0)"
proof -
  from compact_cases[OF assms, of reg clk] obtain s' ok where
    "compact rt dbs s = Some (s', ok)"
    "\<not> ok \<Longrightarrow> \<exists>c'. prefix c c' \<and> prefix c' (c @ st_buf s) \<and>
       Server_recover rt' reg clk (st_dir s') srv0 =
       Server_recover rt' reg clk (AList.update (segmentPath (st_gen s)) c' (st_dir s)) srv0"
    "ok \<Longrightarrow> \<exists>srv' n. Server_recover rt' reg clk (st_dir s') srv0 = Some ((srv', 0, 0), n, 0, None)
       \<and> recovers_to rt' srv0 rt dbs srv'" by blast
  then show ?thesis using recovers_exact by (intro exI[of _ s'] exI[of _ ok]) (cases ok, simp, blast, simp)
qed

theorem compaction_crash_safe_witness:
  "\<exists>s' ok. compact demo_rt demo_dbs demo_store = Some (s', ok) \<and>
    (if ok
     then \<exists>srv' n. Server_recover demo_rt commandTable (\<lambda>n. 0) (st_dir s') demo_srv = Some ((srv', 0, 0), n, 0, None)
       \<and> recovers_to demo_rt demo_srv demo_rt demo_dbs srv'
     else \<exists>c'. prefix [] c' \<and> prefix c' ([] @ st_buf demo_store) \<and>
       Server_recover demo_rt commandTable (\<lambda>n. 0) (st_dir s') demo_srv =
       Server_recover demo_rt commandTable (\<lambda>n. 0) (AList.update (segmentPath (st_gen demo_store)) c' (st_dir demo_store)) demo_srv)"
proof -
  have "srv_databases demo_srv \<noteq> []" "length (srv_databases demo_srv) = length demo_dbs" using demo_srv_ok(3) demo_dbs_ok(3) by auto
  note C = compaction_crash_safe[where reg = commandTable and clk = "\<lambda>n. 0" and rt' = demo_rt,
      OF demo_dbs_ok(1,2) demo_srv_ok(1) this(2) demo_store_ok(1,2)]
  show ?thesis by (rule ex_forward[OF C], rule ex_forward, assumption) (auto split: if_splits)
qed

text \<open>
  (C7) Stopping and starting again. When the server stops in order and no system call fails,
  the final snapshot is written, and a process that opens the same directory recovers
  databases with the same keys and values, whatever its hash seed and number of shards, and
  with the deadlines as a snapshot keeps them: exactly, for every key without a deadline or
  with one that is a nonzero number of nanoseconds in 64 bits. (Deadlines before 1678 or
  after 2262 wrap around, and one exactly at the epoch is lost, as the findings say.) The
  conditions are those of compaction: well-formed databases, keys and values within the
  address space of \<open>2 ^ 48\<close> bytes, a store as its operations leave it, and a new process
  with persistence on and as many empty databases.
\<close>

theorem graceful_restart:
  assumes "dbs_inv (rt_hash rt) dbs" "dbs_fit (rt_hash rt) dbs"
    "empty_dbs (rt_hash rt') (srv_databases srv0)" "length (srv_databases srv0) = length dbs"
    "PersistEnabled (srv_persistCfg srv0)" "store_wf s" "reliable s"
  shows "\<exists>s' store srv'. finalizePersistence rt dbs s = Some (s', True)
    \<and> Open (st_dir s') (FSync (srv_persistCfg srv0)) (\<lambda>n. None) = Some store
    \<and> openPersistence rt' reg clk (\<lambda>n. None) (st_dir s') srv0 = Some (Inr srv')
    \<and> recovers_to rt' (srv0\<lparr>srv_persist := Some store\<rparr>) rt dbs srv'
    \<and> (\<forall>d < length dbs. \<forall>k.
         (\<forall>e. db_ents (rt_hash rt) (dbs ! d) k = Some e \<longrightarrow> ExpireAt e = zeroTime \<or> int64_ok (ExpireAt e) \<and> ExpireAt e \<noteq> 0) \<longrightarrow>
         contents (rt_hash rt') (srv_databases srv') d k = contents (rt_hash rt) dbs d k)"
proof -
  from finalize_reliable[OF assms(7,1,2,6)] obtain s' where f: "finalizePersistence rt dbs s = Some (s', True)" by blast
  from Open_reliable obtain store where o: "Open (st_dir s') (FSync (srv_persistCfg srv0)) (\<lambda>n. None) = Some store" by blast
  from assms(6) obtain c where "seg s = Some c" by (auto simp: store_wf_def)
  from restart_restores[OF assms(1-6) this f o] obtain srv' where
    "openPersistence rt' reg clk (\<lambda>n. None) (st_dir s') srv0 = Some (Inr srv')"
    "recovers_to rt' (srv0\<lparr>srv_persist := Some store\<rparr>) rt dbs srv'" by blast
  with f o recovers_exact[OF this(2)] show ?thesis by blast
qed

theorem graceful_restart_witness:
  "\<exists>s' store srv'. finalizePersistence demo_rt demo_dbs demo_store = Some (s', True)
    \<and> openPersistence demo_rt commandTable (\<lambda>n. 0) (\<lambda>n. None) (st_dir s') demo_boot = Some (Inr srv')
    \<and> recovers_to demo_rt (demo_boot\<lparr>srv_persist := Some store\<rparr>) demo_rt demo_dbs srv'"
  using graceful_restart[where reg = commandTable and clk = "\<lambda>n. 0" and rt' = demo_rt,
      OF demo_dbs_ok(1,2) demo_boot_ok demo_store_ok(1) demo_store_reliable] by blast

text \<open>
  (C8) The log after a crash. Let the active segment hold whole records and the buffer be
  empty. After any run of appends and flushes in which any system calls fail, replay of the
  segment sees the commands that were there before, followed by an initial part of those of
  the run, in order, never a mangled command; by all of them if no write failed and the
  buffer has been written out.
\<close>

theorem log_crash_prefix:
  assumes "\<forall>c \<in> set cs0. good_command c" "\<forall>c \<in> set (concat (map logged xs)). good_command c"
    "seg s = Some (concat (map encodeCommand cs0))" "st_buf s = []"
  shows "\<exists>log k. seg (log_run xs s) = Some log \<and> k \<le> length (concat (map logged xs))
    \<and> replayLoop replay st n log = replayAll replay st n (cs0 @ take k (concat (map logged xs)))
    \<and> (st_err (log_run xs s) \<or> st_buf (log_run xs s) \<noteq> [] \<or> k = length (concat (map logged xs)))"
  using log_crash[OF assms, where 'a = 'a] by blast

theorem log_crash_prefix_witness:
  "\<exists>log k. seg (log_run [LAppend 0 [''SET'', ''k'', ''v''], LFlush] demo_store) = Some log
    \<and> replayLoop (\<lambda>cs c. Some (Inr (cs @ [c]))) [] 0 log =
        replayAll (\<lambda>cs c. Some (Inr (cs @ [c]))) [] 0 (take k [(0, [''SET'', ''k'', ''v''])])"
proof -
  have "\<forall>c \<in> set (concat (map logged [LAppend 0 [''SET'', ''k'', ''v''], LFlush])). good_command c"
    by (simp add: good_command_def alloc_ok_def int64_ok_def)
  from log_crash_prefix[of "[]", OF _ this, of demo_store "\<lambda>cs c. Some (Inr (cs @ [c]))" "[]" 0] demo_store_ok(2,3) show ?thesis
    by auto
qed

text \<open>
  (C9) Replaying the log. Take any sequence of requests, from any connections, run by a server
  whose databases show the abstract stores \<open>A\<close>; its history \<open>log\<close> has, for each command that is
  logged, the time it ran, the reading of the clock taken for the log, and the request. Then
  the databases show what the history says, the store of the server is the old one with
  exactly the logged forms appended, and a server that replays these at boot from databases
  that show \<open>A\<close> - with another hash seed, another number of shards, other encodings and other
  random levels, but the same \<open>ParseFloat\<close> - accepts every entry. What it then shows is compared key by key. A key that
  starts without a deadline and that no \<open>EXPIRE\<close> or \<open>PEXPIREAT\<close> names is exactly as in the run.
  Any other key has exactly the same value and a deadline less than a millisecond earlier and
  at most \<open>\<delta>\<close> later (\<open>near\<close>), provided it is \<open>steady\<close>: every command that changes it in
  place meets it on the same side of its deadline, with that margin, when it runs and when it
  is replayed. That condition is needed: replayed after the deadline, an increment creates the
  key afresh (\<open>replay_resurrects\<close> in theory Findings), so the comment that replay does not
  depend on when it runs is wrong. The other conditions: requests are within the limits of
  the protocol, times do not run backwards, the clock reading for the log follows that of
  the command by at most \<open>\<delta>\<close> and both lie between 1970 and 2262, and no logged pop has a count
  beyond what the runtime allocates (\<open>replayable\<close>; such a pop panics in the replay if the key
  then holds a list).
\<close>

theorem replay_reproduces:
  assumes "runAll rt srv conns xs = (srv', log)" "\<forall>(i, at, args) \<in> set xs. request_ok args"
    "dbs_see (rt_hash rt) t (srv_databases srv) A" "\<forall>i. conns i < length A"
    "sorted (t # map (\<lambda>(i, at, args). at_run at) xs @ [T])" "replayable \<delta> log" "0 \<le> \<delta>"
    "dbs_see (rt_hash rt') u (srv_databases boot) A" "idx < length A" "rt_parseFloat rt' = rt_parseFloat rt"
    "sorted (u # map clk [n..<n + length log] @ [U])"
  shows "srv_persist srv' = map_option (log_run (map log_op log)) (srv_persist srv)
    \<and> dbs_see (rt_hash rt) T (srv_databases srv') (showLog rt log A)
    \<and> (\<exists>boot' idx' B. replayAll (replayCommand rt' commandTable clk) (boot, idx, n) 0 (map (\<lambda>x. logged_form (snd x)) log)
           = Some ((boot', idx', n + length log), int (length log), None)
         \<and> dbs_see (rt_hash rt') U (srv_databases boot') B
         \<and> (\<forall>d < length A. \<forall>k.
              (undated ((A ! d) k) \<and> (\<forall>(tm, e) \<in> set log. \<not> dates (snd e) (d, k)) \<longrightarrow> (B ! d) k = (showLog rt log A ! d) k)
              \<and> (steady rt \<delta> clk n (d, k) ((A ! d) k) log \<longrightarrow> near \<delta> ((showLog rt log A ! d) k) ((B ! d) k))))"
proof -
  note R = run_shows[OF assms(1,3,4,2,5)]
  from replay_agrees[OF assms(8,9) refl _ assms(6,7,10,11), of 0] R obtain boot' idx' B where
    B: "replayAll (replayCommand rt' commandTable clk) (boot, idx, n) 0 (map (\<lambda>x. logged_form (snd x)) log)
      = Some ((boot', idx', n + length log), int (length log), None)" "dbs_see (rt_hash rt') U (srv_databases boot') B"
    "\<forall>d < length A. \<forall>k. steady rt \<delta> clk n (d, k) ((A ! d) k) log \<longrightarrow> near \<delta> ((showLog rt log A ! d) k) ((B ! d) k)"
    by auto
  moreover have "(B ! d) k = (showLog rt log A ! d) k"
    if "d < length A" "undated ((A ! d) k)" "\<forall>(tm, e) \<in> set log. \<not> dates (snd e) (d, k)" for d k
    using undated_exact[OF that] undated_steady[OF that(2,3)] B(3) that(1) by blast
  ultimately show ?thesis using R by blast
qed

theorem replay_reproduces_witness:
  "\<exists>boot' idx' B. replayAll (replayCommand demo_rt commandTable (\<lambda>n. 10)) (demo_srv, 0, 0) 0 [(0, [''SET'', ''k'', ''v''])]
       = Some ((boot', idx', 1), 1, None)
     \<and> dbs_see (rt_hash demo_rt) 0 (srv_databases (fst (runAll demo_rt demo_srv (\<lambda>i. 0) [demo_set])))
         (showLog demo_rt [(0, 0, 0, [''SET'', ''k'', ''v''])] [Map.empty])
     \<and> dbs_see (rt_hash demo_rt) 10 (srv_databases boot') B
     \<and> near 0 ((showLog demo_rt [(0, 0, 0, [''SET'', ''k'', ''v''])] [Map.empty] ! 0) ''k'') ((B ! 0) ''k'')"
proof -
  let ?run = "runAll demo_rt demo_srv (\<lambda>i. 0) [demo_set]"
  have run: "?run = (fst ?run, [(0, 0, 0, [''SET'', ''k'', ''v''])])"
    using demo_set_logged[OF demo_srv_ok(2)] demo_srv_ok(3) by (metis length_greater_0_conv less_one prod.collapse)
  have "\<forall>(i, at, args) \<in> set [demo_set]. request_ok args" "sorted (0 # map (\<lambda>(i, at, args). at_run at) [demo_set] @ [0])"
    using demo_set_ok by (simp_all add: demo_set_def demo_at_def)
  from replay_reproduces[where clk = "\<lambda>n. 10" and n = 0 and U = 10 and idx = 0 and rt' = demo_rt and u = 0,
      OF run this(1) demo_srv_sees _ this(2) demo_set_replayable _ demo_srv_sees]
    demo_set_steady show ?thesis by (fastforce simp: demo_set_form)
qed

text \<open>
  (C10) What a crash leaves. A server with a fresh data directory runs any requests while the
  system calls on its log fail in any way, and then is gone, with whatever its buffer held.
  The next process, which starts from the same stores \<open>A\<close> (the empty ones, for a server that
  was new) with another hash seed, other shards and other encodings, recovers
  from the directory without an error: it replays the log of an initial part of the requests,
  in which no command is skipped and none comes twice. If no write of the log failed and its
  buffer is empty, that part contains every logged command. The first server showed
  \<open>showLog\<close> of this part; what the new one shows is the same as far as replay reproduces it, under the conditions
  and in the sense of the property before this one: exactly, at a key that no
  deadline touches, and otherwise, if the key is \<open>steady\<close>, with the same value and a deadline
  less than a millisecond earlier and at most \<open>\<delta>\<close> later.
\<close>

theorem crash_recovery:
  assumes "runAll rt srv conns xs = (srv', log)" "\<forall>(i, at, args) \<in> set xs. request_ok args" "replayable \<delta> log" "0 \<le> \<delta>"
    "dbs_see (rt_hash rt) t (srv_databases srv) A" "\<forall>i. conns i < length A"
    "sorted (t # map (\<lambda>(i, at, args). at_run at) xs @ [T])"
    "Open [] fsync fault = Some s0" "srv_persist srv = Some s0" "st_gen s0 < maxInt64"
    "dbs_see (rt_hash rt') u (srv_databases boot) A" "A \<noteq> []" "rt_parseFloat rt' = rt_parseFloat rt"
    "sorted (u # map clk [0..<length log] @ [U])"
  shows "\<exists>s k j srvj boot' idx' B. srv_persist srv' = Some s \<and> k \<le> length log \<and> j \<le> length xs
    \<and> runAll rt srv conns (take j xs) = (srvj, take k log)
    \<and> Server_recover rt' commandTable clk (st_dir s) boot = Some ((boot', idx', k), 0, int k, None)
    \<and> dbs_see (rt_hash rt) T (srv_databases srvj) (showLog rt (take k log) A)
    \<and> dbs_see (rt_hash rt') U (srv_databases boot') B
    \<and> (\<forall>d < length A. \<forall>key.
         (undated ((A ! d) key) \<and> (\<forall>(tm, e) \<in> set log. \<not> dates (snd e) (d, key)) \<longrightarrow> (B ! d) key = (showLog rt (take k log) A ! d) key)
         \<and> (steady rt \<delta> clk 0 (d, key) ((A ! d) key) log \<longrightarrow> near \<delta> ((showLog rt (take k log) A ! d) key) ((B ! d) key)))
    \<and> (st_err s \<or> st_buf s \<noteq> [] \<or> k = length log)"
proof -
  from crash_recovers[OF assms] obtain s k j srvj boot' idx' B where
    C: "srv_persist srv' = Some s" "k \<le> length log" "j \<le> length xs" "runAll rt srv conns (take j xs) = (srvj, take k log)"
      "Server_recover rt' commandTable clk (st_dir s) boot = Some ((boot', idx', k), 0, int k, None)"
      "dbs_see (rt_hash rt) T (srv_databases srvj) (showLog rt (take k log) A)" "dbs_see (rt_hash rt') U (srv_databases boot') B"
      "st_err s \<or> st_buf s \<noteq> [] \<or> k = length log"
    and near: "\<forall>d < length A. \<forall>key. steady rt \<delta> clk 0 (d, key) ((A ! d) key) log \<longrightarrow>
         near \<delta> ((showLog rt (take k log) A ! d) key) ((B ! d) key)" by blast
  have "(B ! d) key = (showLog rt (take k log) A ! d) key"
    if "d < length A" "undated ((A ! d) key)" "\<forall>(tm, e) \<in> set log. \<not> dates (snd e) (d, key)" for d key
    using undated_exact[OF that(1,2)] undated_steady[OF that(2,3)] near that(1,3) by (meson in_set_takeD)
  with C near show ?thesis by blast
qed

theorem crash_recovery_witness:
  "\<exists>s k boot' idx' B. srv_persist (fst (runAll demo_rt demo_logging (\<lambda>i. 0) [demo_set])) = Some s \<and> k \<le> 1
    \<and> Server_recover demo_rt commandTable (\<lambda>n. 10) (st_dir s) demo_srv = Some ((boot', idx', k), 0, int k, None)
    \<and> dbs_see (rt_hash demo_rt) 10 (srv_databases boot') B
    \<and> near 0 ((showLog demo_rt (take k [(0, 0, 0, [''SET'', ''k'', ''v''])]) [Map.empty] ! 0) ''k'') ((B ! 0) ''k'')"
proof -
  let ?run = "runAll demo_rt demo_logging (\<lambda>i. 0) [demo_set]"
  have run: "?run = (fst ?run, [(0, 0, 0, [''SET'', ''k'', ''v''])])"
    using demo_set_logged[OF demo_logging_ok(1,3)] by (metis prod.collapse)
  have "\<forall>(i, at, args) \<in> set [demo_set]. request_ok args" "sorted (0 # map (\<lambda>(i, at, args). at_run at) [demo_set] @ [0])"
    "dbs_see (rt_hash demo_rt) 0 (srv_databases demo_logging) [Map.empty]"
    using demo_set_ok demo_srv_sees demo_logging_ok(2) by (simp_all add: demo_set_def demo_at_def)
  from crash_recovery[where clk = "\<lambda>n. 10" and U = 10 and rt' = demo_rt and u = 0,
      OF run this(1) demo_set_replayable _ this(3) _ this(2) demo_store_open demo_logging_ok(4) _ demo_srv_sees] demo_set_steady
  show ?thesis by (fastforce simp: demo_store_def)
qed

text \<open>
  (C11) Goroutines, locks and log. Let connections execute requests within the limits of the
  protocol, expiry cycles run, the flusher flush and the compactor compact, interleaved in any
  way the locks allow. In every state they reach, the databases show what the commands of the
  log, each at the time it ran, say, followed by the commands that ran and are about to be
  logged, although the log may receive commands in another order than they ran; when no
  command is between its run and its append, the log alone; and when the compactor has every
  shard and takes its snapshot, again the log alone, so nothing is both in the snapshot and in
  the segment after it. A lock held exclusively is held by one goroutine only. (The history
  \<open>co_log\<close> keeps the requests; the file has their logged forms, whose replay is the subject of
  the other properties.)
\<close>

theorem concurrent_state_is_log:
  assumes "conc_reach rt srv conns now s"
    "dbs_see (rt_hash rt) now (srv_databases srv) A" "\<forall>i. conns i < length A" "srv_persist srv \<noteq> None"
  shows "dbs_see (rt_hash rt) (co_now s) (co_dbs s) (showLog rt (co_log s @ map snd (co_ran s)) A)
    \<and> ((\<forall>t tm e. co_job s t \<noteq> Logs tm e) \<longrightarrow> co_ran s = [])
    \<and> (\<forall>t g. co_job s t = Captures g \<and> todo s t = [] \<longrightarrow>
         dbs_see (rt_hash rt) (co_now s) (co_dbs s) (showLog rt (co_log s) A))
    \<and> (\<forall>t u l m. (l, Exclusive) \<in> set (held s t) \<longrightarrow> (l, m) \<in> set (held s u) \<longrightarrow> u = t)"
proof -
  note inv = conc_reach_inv[OF assms]
  have "dbs_see (rt_hash rt) (co_now s) (co_dbs s) (showLog rt (co_log s) A)" if "co_job s t = Captures g" "todo s t = []" for t g
    using locked_all_shows[OF inv captures_all[OF inv that]] that(1) by simp
  moreover have "u = t" if "(l, Exclusive) \<in> set (held s t)" "(l, m) \<in> set (held s u)" for t u l m
    using lock_exclusion[OF conc_invD(2)[OF inv] that] by simp
  ultimately show ?thesis using conc_invD(9)[OF inv] nothing_pending[OF inv] by blast
qed

theorem concurrent_state_is_log_witness:
  "\<exists>s. conc_reach demo_rt demo_logging (\<lambda>i. 0) 0 s \<and> co_log s = [(0, 0, 0, [''SET'', ''k'', ''v''])]
    \<and> dbs_see (rt_hash demo_rt) 0 (co_dbs s) (showLog demo_rt [(0, 0, 0, [''SET'', ''k'', ''v''])] [Map.empty])"
proof -
  from demo_concurrent obtain s where s: "conc_reach demo_rt demo_logging (\<lambda>i. 0) 0 s" "co_ran s = []" "co_now s = 0"
    "co_log s = [(0, 0, 0, [''SET'', ''k'', ''v''])]" by blast
  have "dbs_see (rt_hash demo_rt) 0 (srv_databases demo_logging) [Map.empty]" using demo_srv_sees demo_logging_ok(2) by simp
  from concurrent_state_is_log[OF s(1) this] s demo_logging_ok(4) show ?thesis by auto
qed

text \<open>
  (C12) A crash at any moment of a concurrent run. Stop the server in any state its goroutines
  can reach from a fresh directory and stores \<open>A\<close> that an empty database shows - in the middle of a batch, of an expiry cycle, of a
  flush, of a compaction before or after the rotation or the installation of the snapshot,
  with any system calls failing and any part of a failing write on the disk. The next
  process, with another hash seed and other shards and a clock that is not behind, recovers
  from the directory without an error, from a snapshot and the segments after it or from
  segments alone, the entries of an initial part of the log: all of it, if no write of the log
  failed and its buffer is empty; none is applied twice, whatever generation the snapshot
  covers. What it shows is compared with \<open>showLog\<close> of that part key by key, leaving out keys
  whose deadline a snapshot did not keep (\<open>co_unsaved\<close>: outside 1678 to 2262 or exactly at
  the epoch). A key that no \<open>EXPIRE\<close> or \<open>PEXPIREAT\<close> names is exactly the same; another one, if it is \<open>steady\<close> from wherever the
  snapshot ends (no command that changes it in place is replayed on the other side of its
  deadline), has the same value and a deadline less than a millisecond earlier and at most
  \<open>\<delta>\<close> later. The conditions: the databases that were captured hold no key or value beyond the
  address space, and the generations do not run out (\<open>co_fit\<close>); clock readings between 1970
  and 2262, at most \<open>\<delta>\<close> apart for one request, and no logged pop with a count too large to
  allocate (\<open>replayable\<close>).
\<close>

theorem concurrent_crash_recovery:
  assumes "conc_reach rt srv conns now s" "co_fit s"
    "dbs_see (rt_hash rt) now (srv_databases srv) A" "\<forall>i. conns i < length A"
    "Open [] fsync fault = Some s0" "srv_persist srv = Some s0" "replayable \<delta> (co_log s)" "0 \<le> \<delta>"
    "empty_dbs (rt_hash rt') (srv_databases boot)" "dbs_see (rt_hash rt') u (srv_databases boot) A" "co_now s \<le> u"
    "rt_parseFloat rt' = rt_parseFloat rt" "sorted (u # map clk [0..<length (co_log s)] @ [U])"
  shows "\<exists>st k m loaded boot' idx' B. srv_persist (co_srv s) = Some st \<and> k \<le> length (co_log s)
    \<and> Server_recover rt' commandTable clk (st_dir st) boot = Some ((boot', idx', m), loaded, int m, None)
    \<and> dbs_see (rt_hash rt') U (srv_databases boot') B
    \<and> (\<forall>d < length A. \<forall>key. (d, key) \<notin> co_unsaved s \<longrightarrow>
         (undated ((A ! d) key) \<and> (\<forall>(tm, e) \<in> set (co_log s). \<not> dates (snd e) (d, key)) \<longrightarrow>
            (B ! d) key = (showLog rt (take k (co_log s)) A ! d) key)
         \<and> ((\<forall>n \<le> length (co_log s). steady rt \<delta> clk 0 (d, key) ((showLog rt (take n (co_log s)) A ! d) key) (drop n (co_log s))) \<longrightarrow>
            near \<delta> ((showLog rt (take k (co_log s)) A ! d) key) ((B ! d) key)))
    \<and> (st_err st \<or> st_buf st \<noteq> [] \<or> k = length (co_log s))"
proof -
  have "conc_inv rt (srv_databases srv) A s" using conc_reach_inv[OF assms(1,3,4)] assms(6) by simp
  then have "\<forall>x \<in> set (co_log s). entry_known (length A) (snd x)" using conc_invD(8) by fastforce
  from crash_recovery_at[OF conc_reach_disk[OF assms(1-6)] this assms(7-13)] obtain st k m loaded boot' idx' B where
    C: "srv_persist (co_srv s) = Some st" "k \<le> length (co_log s)"
      "Server_recover rt' commandTable clk (st_dir st) boot = Some ((boot', idx', m), loaded, int m, None)"
      "dbs_see (rt_hash rt') U (srv_databases boot') B" "st_err st \<or> st_buf st \<noteq> [] \<or> k = length (co_log s)"
    and near: "\<forall>d < length A. \<forall>key. (d, key) \<notin> co_unsaved s \<longrightarrow>
         (\<forall>n \<le> length (co_log s). steady rt \<delta> clk 0 (d, key) ((showLog rt (take n (co_log s)) A ! d) key) (drop n (co_log s))) \<longrightarrow>
         near \<delta> ((showLog rt (take k (co_log s)) A ! d) key) ((B ! d) key)" by blast
  have "(B ! d) key = (showLog rt (take k (co_log s)) A ! d) key"
    if "d < length A" "(d, key) \<notin> co_unsaved s" "undated ((A ! d) key)" "\<forall>(tm, e) \<in> set (co_log s). \<not> dates (snd e) (d, key)" for d key
  proof (rule undated_exact[OF that(1,3)])
    show "\<forall>(tm, e) \<in> set (take k (co_log s)). \<not> dates (snd e) (d, key)" using that(4) by (auto dest: in_set_takeD)
    show "near \<delta> ((showLog rt (take k (co_log s)) A ! d) key) ((B ! d) key)"
      using near that(1,2) undated_resteady[OF that(1,3,4)] by blast
  qed
  with C near show ?thesis by blast
qed

theorem concurrent_crash_recovery_witness:
  "\<exists>s st k m loaded boot' idx' B. conc_reach demo_rt demo_logging (\<lambda>i. 0) 0 s \<and> srv_persist (co_srv s) = Some st
    \<and> Server_recover demo_rt commandTable (\<lambda>n. 10) (st_dir st) demo_srv = Some ((boot', idx', m), loaded, int m, None)
    \<and> dbs_see (rt_hash demo_rt) 10 (srv_databases boot') B
    \<and> (B ! 0) ''k'' = (showLog demo_rt (take k [(0, 0, 0, [''SET'', ''k'', ''v''])]) [Map.empty] ! 0) ''k''"
proof -
  from demo_concurrent obtain s where s: "conc_reach demo_rt demo_logging (\<lambda>i. 0) 0 s" "co_fit s" "co_unsaved s = {}" "co_now s = 0"
    "co_log s = [(0, 0, 0, [''SET'', ''k'', ''v''])]" by blast
  have sees: "dbs_see (rt_hash demo_rt) 0 (srv_databases demo_logging) [Map.empty]" using demo_srv_sees demo_logging_ok(2) by simp
  have h: "replayable 0 (co_log s)" "sorted (0 # map (\<lambda>n. 10) [0..<length (co_log s)] @ [10 :: gotime])" "co_now s \<le> 0"
    "\<forall>i :: nat. 0 < length [Map.empty :: semStore]" using s demo_set_replayable by simp_all
  have n: "\<forall>(tm, e) \<in> set (co_log s). \<not> dates (snd e) (0, ''k'')" "undated (([Map.empty :: semStore] ! 0) ''k'')" "(0, ''k'') \<notin> co_unsaved s"
    using s(3,5) by (simp_all add: dates_def lowerByte_def)
  from concurrent_crash_recovery[OF s(1,2) sees h(4) demo_store_open demo_logging_ok(4) h(1) order_refl demo_srv_ok(1) demo_srv_sees h(3) refl h(2)]
  obtain st k m loaded boot' idx' B where
    r: "srv_persist (co_srv s) = Some st"
      "Server_recover demo_rt commandTable (\<lambda>n. 10) (st_dir st) demo_srv = Some ((boot', idx', m), loaded, int m, None)"
      "dbs_see (rt_hash demo_rt) 10 (srv_databases boot') B"
    and e: "\<forall>d < length [Map.empty :: semStore]. \<forall>key. (d, key) \<notin> co_unsaved s \<longrightarrow>
         (undated (([Map.empty :: semStore] ! d) key) \<and> (\<forall>(tm, e) \<in> set (co_log s). \<not> dates (snd e) (d, key)) \<longrightarrow>
            (B ! d) key = (showLog demo_rt (take k (co_log s)) [Map.empty] ! d) key)" by blast
  have "(B ! 0) ''k'' = (showLog demo_rt (take k (co_log s)) [Map.empty] ! 0) ''k''" using e n by simp
  with s(1) r show ?thesis unfolding s(5) by blast
qed

text \<open>
  (C13) Durability of an acknowledged write. Under the policy \<open>always\<close>, an append that
  reports success has put its record behind everything that was in the file and in the
  buffer, nothing is left in the buffer, and the whole file is on stable storage. If what was
  there before is a sequence of whole records, replay of the file ends with that command. (If
  an earlier crash left part of a record in the file, the append reports success and the
  record is on disk, but replay does not reach it: \<open>torn_record_lost\<close> in theory Findings.)
\<close>

theorem append_always_durable:
  assumes "st_fsync s = FSyncAlways" "seg s = Some c" "Store_Append s db args = (s', True)"
  shows "seg s' = Some (c @ st_buf s @ encodeCommand (db, args)) \<and> st_buf s' = []
    \<and> st_synced s' = length (c @ st_buf s @ encodeCommand (db, args))
    \<and> (\<forall>cs. (\<forall>x \<in> set (cs @ [(db, args)]). good_command x) \<and> c @ st_buf s = concat (map encodeCommand cs) \<longrightarrow>
         replayLoop replay st n (c @ st_buf s @ encodeCommand (db, args)) = replayAll replay st n (cs @ [(db, args)]))"
proof -
  have "replayLoop replay st n (c @ st_buf s @ encodeCommand (db, args)) = replayAll replay st n (cs @ [(db, args)])"
    if "\<forall>x \<in> set (cs @ [(db, args)]). good_command x" "c @ st_buf s = concat (map encodeCommand cs)" for cs
    using replayLoop_cut[OF that(1), of "[]" replay st n] that(2) by (simp flip: append_assoc)
  with Append_always[OF assms] show ?thesis by blast
qed

theorem append_always_durable_witness:
  "\<exists>log. seg (fst (Store_Append demo_store 0 [''INCR'', ''n''])) = Some log
    \<and> st_synced (fst (Store_Append demo_store 0 [''INCR'', ''n''])) = length log
    \<and> replayLoop (\<lambda>cs c. Some (Inr (cs @ [c]))) [] 0 log = Some ([(0, [''INCR'', ''n''])], 1, None)"
proof -
  obtain s' where a: "Store_Append demo_store 0 [''INCR'', ''n''] = (s', True)"
    using Append_succeeds[of demo_store 0 "[''INCR'', ''n'']"] by (auto simp: sound_def demo_store_def)
  have g: "\<forall>x \<in> set ([] @ [(0, [''INCR'', ''n''])]). good_command x" by (simp add: good_command_def alloc_ok_def int64_ok_def)
  let ?r = "\<lambda>cs c. Some (Inr (cs @ [c])) :: (ioErr + (int \<times> bytes list) list) option"
  have "[] @ st_buf demo_store = concat (map encodeCommand [])" using demo_store_ok(3) by simp
  note e = this
  note C = append_always_durable[OF demo_store_ok(4,2) a, of ?r "[]" 0]
  have "replayLoop ?r [] 0 ([] @ st_buf demo_store @ encodeCommand (0, [''INCR'', ''n''])) = replayAll ?r [] 0 ([] @ [(0, [''INCR'', ''n''])])"
    using C[THEN conjunct2, THEN conjunct2, THEN conjunct2, rule_format, OF conjI[OF g e]] .
  then have "replayLoop ?r [] 0 (encodeCommand (0, [''INCR'', ''n''])) = Some ([(0, [''INCR'', ''n''])], 1, None)"
    by (simp add: demo_store_ok(3))
  with a C[THEN conjunct1] C[THEN conjunct2, THEN conjunct2, THEN conjunct1] show ?thesis by (simp add: demo_store_ok(3))
qed

text \<open>
  (C14) A truncated snapshot is not taken for a complete one: a file that ends inside a record
  is read up to the cut and then reported as truncated, whatever the records are.
\<close>

theorem truncated_snapshot_detected:
  assumes "\<forall>r \<in> set recs. good_record r" "good_record r" "0 \<le> gen" "int64_ok gen"
    "recordBytes pick r = p @ q" "p \<noteq> []" "q \<noteq> []"
  shows "\<exists>ys. map record_view ys = map record_view recs
    \<and> ReadSnapshot draws limits (\<lambda>rs r. Some (Inr (rs @ [r]))) []
          (snapshotMagic @ writeUvarint (toUint64 gen) @ concat (map (recordBytes pick) recs) @ p)
        = Some (gen, ys, Some UnexpectedEOF)"
proof -
  have "applyAll (\<lambda>rs r. Some (Inr (rs @ [r]))) acc ys = Some (acc @ ys, None :: ioErr option)" for acc ys :: "Record list"
    by (induction ys arbitrary: acc) auto
  with snapshot_cut[OF assms, where 'st = "Record list", of draws limits] show ?thesis by fastforce
qed

theorem truncated_snapshot_detected_witness:
  "\<exists>p ys. ReadSnapshot (\<lambda>n. True) demo_limits (\<lambda>rs r. Some (Inr (rs @ [r]))) []
      (snapshotMagic @ writeUvarint (toUint64 1) @ p) = Some (1, ys, Some UnexpectedEOF) \<and> length p = 1"
proof -
  let ?r = "\<lparr>rec_DB = 0, rec_Key = ''k'', rec_ExpireAt = 0, rec_Value = MakeString ''v''\<rparr>"
  have g: "good_record ?r" by (simp add: good_record_def int64_ok_def alloc_ok_def slice_ok_def)
  obtain b q where r: "recordBytes (\<lambda>ks. ks) ?r = [b] @ q" "q \<noteq> []"
    by (simp add: recordBytes_def writeRecord_def toUint64_def writeUvarint_def putUvarint.simps[of 0])
  from truncated_snapshot_detected[of "[]" ?r 1 "\<lambda>ks. ks" "[b]" q "\<lambda>n. True" demo_limits] g r show ?thesis
    by (intro exI[of _ "[b]"]) (auto simp: int64_ok_def)
qed

section \<open>Commands\<close>

text \<open>
  (C15) What a client stores, a client reads. On any well-formed server, the typed helpers
  \<open>Set\<close> and \<open>Get\<close> of the Go client, through the request encoder, the connection loop of the
  server, its dispatcher, the store and the reply decoder, give back exactly the bytes that
  were stored, for any key and value the protocol admits and at any times; both streams
  are then fully consumed. The client sends what the server reads and reads what the
  server sends.
\<close>

theorem client_reads_back:
  assumes "srv_inv rt srv" "0 < length (srv_databases srv)" "bulk_ok k" "bulk_ok v"
    "no_fault w" "w_out w = []" "\<forall>n. \<not> buffered n []" "no_fault (cl_w c)" "w_out (cl_w c) = []"
    "serve rt commandTable clk buffered srv w (concat (map encodeRequest [[''SET'', k, v], [''GET'', k]])) = (srv2, w2)"
    "cl_in c = w_out w2"
  shows "\<exists>c1 c2. Client_Set c k v = (c1, None) \<and> Client_Get c1 k = (c2, Inr (v, True))
    \<and> w_out (cl_w c2) = concat (map encodeRequest [[''SET'', k, v], [''GET'', k]]) \<and> cl_in c2 = []"
  by (rule client_set_get[OF assms])

theorem client_reads_back_witness:
  "\<exists>srv2 w2 c1 c2.
     serve demo_rt commandTable demo_at (\<lambda>n s. s \<noteq> []) demo_srv demo_writer
       (concat (map encodeRequest [[''SET'', ''k'', ''v''], [''GET'', ''k'']])) = (srv2, w2)
     \<and> Client_Set \<lparr>cl_w = demo_writer, cl_in = w_out w2\<rparr> ''k'' ''v'' = (c1, None)
     \<and> Client_Get c1 ''k'' = (c2, Inr (''v'', True))"
proof -
  obtain srv2 w2 where
    s: "serve demo_rt commandTable demo_at (\<lambda>n s. s \<noteq> []) demo_srv demo_writer
      (concat (map encodeRequest [[''SET'', ''k'', ''v''], [''GET'', ''k'']])) = (srv2, w2)" by fastforce
  have "bulk_ok ''k''" "bulk_ok ''v''" by (simp_all add: bulk_ok_def)
  from client_reads_back[OF demo_srv_ok(2) _ this _ _ _ _ _ s, of "\<lparr>cl_w = demo_writer, cl_in = w_out w2\<rparr>"] s demo_srv_ok(3)
  show ?thesis by auto
qed

text \<open>
  (C16) \<open>INCR\<close> and \<open>DECR\<close> in every case: a missing key counts from zero; a decimal string
  is replaced by its neighbour and keeps its deadline; a result outside 64 bits, a string
  that is not a number, and a collection are errors that change nothing.
\<close>

theorem incr_outcomes:
  assumes "ctx_inv rt c" "delta \<in> {1, -1}"
  shows "\<exists>c' r. incrBy rt c k delta = Some (c', r) \<and>
    (case live (ctx_now c) (store_of rt c) k of
       None \<Rightarrow> r = RInt delta
         \<and> ctx_to rt c c' ((store_of rt c)(k \<mapsto> fresh_entry (MakeString (formatInt delta))))
     | Some e \<Rightarrow>
         (case Entry_Value e of
            MakeString s \<Rightarrow>
              (case parseInt s of
                 None \<Rightarrow> c' = c \<and> r = RError msgNotInteger
               | Some n \<Rightarrow>
                   if int64_ok (n + delta)
                   then r = RInt (n + delta)
                     \<and> ctx_to rt c c' ((store_of rt c)(k \<mapsto> e\<lparr>Entry_Value := MakeString (formatInt (n + delta))\<rparr>))
                   else c' = c \<and> r = RError msgOverflow)
          | _ \<Rightarrow> c' = c \<and> r = RError msgWrongType))"
proof (cases "live (ctx_now c) (store_of rt c) k")
  case None
  with incrBy_absent[OF assms(1) _ assms(2)] show ?thesis by auto
next
  case (Some e)
  note E = incrBy_errors[OF assms(1) Some] and N = incrBy_number[OF assms(1) Some]
  show ?thesis
  proof (cases "Entry_Value e")
    case (MakeString s)
    show ?thesis
    proof (cases "parseInt s")
      case (Some n)
      with E(3)[OF MakeString Some _ assms(2)] N[OF MakeString Some _ assms(2)] MakeString \<open>live _ _ _ = _\<close>
      show ?thesis by (cases "int64_ok (n + delta)") auto
    qed (use E(2)[OF MakeString] Some MakeString in auto)
  qed (use E(1) Some in auto)
qed

theorem incr_outcomes_witness:
  "\<exists>c' r. incrBy demo_rt (demo_with ''n'' (MakeString ''41'')) ''n'' 1 = Some (c', r) \<and> r = RInt 42"
proof -
  have "parseInt ''41'' = Some 41" by (simp add: parseInt_def digit_val_def int64_ok_def)
  then show ?thesis
    using incr_outcomes[of demo_rt "demo_with ''n'' (MakeString ''41'')" 1 "''n''"]
      demo_with_store[of "MakeString ''41''" "''n''"] demo_live[of "MakeString ''41''" "''n''"]
    by (auto simp: slice_ok_def int64_ok_def)
qed

text \<open>
  (C17) \<open>DEL\<close> and \<open>UNLINK\<close> remove the named keys and nothing else, and both answer how
  many distinct keys of the request were live; a key that had expired is removed silently.
\<close>

theorem del_unlink_count:
  assumes "ctx_inv rt c" "1 \<le> length args"
  defines "n \<equiv> int (card {k \<in> set (drop 1 args). live (ctx_now c) (store_of rt c) k \<noteq> None})"
  shows "(\<exists>c'. cmdDel rt c args = Some (c', RInt n) \<and> ctx_to rt c c' (store_of rt c |` (- set (drop 1 args))))
    \<and> (\<exists>c'. cmdUnlink rt c args = Some (c', RInt n) \<and> ctx_to rt c c' (store_of rt c |` (- set (drop 1 args))))"
  unfolding n_def using cmdDel_spec[OF assms(1,2)] cmdUnlink_spec[OF assms(1,2)] by blast

theorem del_unlink_count_witness:
  "\<exists>c'. cmdDel demo_rt (demo_with ''k'' (MakeString ''v'')) [''DEL'', ''k'', ''k'', ''x''] = Some (c', RInt 1)"
proof -
  have "{k \<in> {''k'', ''x''}. live 0 [''k'' \<mapsto> fresh_entry (MakeString ''v'')] k \<noteq> None} = {''k''}"
    by (auto simp: live_def)
  then show ?thesis
    using del_unlink_count[of demo_rt "demo_with ''k'' (MakeString ''v'')" "[''DEL'', ''k'', ''k'', ''x'']"]
      demo_with_store[of "MakeString ''v''" "''k''"]
    by (auto simp: slice_ok_def)
qed

text \<open>
  (C18) \<open>EXPIRE\<close>-style deadlines through the command layer: a live key gets the deadline, the
  reply is 1, and nothing else of the database changes. From the deadline on, inclusive, and
  not before, \<open>GET\<close> no longer sees the key.
\<close>

theorem expire_then_get:
  assumes "ctx_inv rt c" "live (ctx_now c) (store_of rt c) k = Some e" "at \<noteq> zeroTime"
  shows "\<exists>c'. setExpire rt c k at = (c', RInt 1) \<and> ctx_inv rt c'
    \<and> store_of rt c' = (store_of rt c)(k \<mapsto> e\<lparr>ExpireAt := at\<rparr>)
    \<and> (cmdGet rt (c'\<lparr>ctx_now := later\<rparr>) [name, k] = Some (c'\<lparr>ctx_now := later\<rparr>, RNil) \<longleftrightarrow> at \<le> later)"
proof -
  from setExpire_spec[OF assms(1), of k at] assms(2) obtain c' where
    c': "setExpire rt c k at = (c', RInt 1)" "ctx_inv rt c'" "store_of rt c' = (store_of rt c)(k \<mapsto> e\<lparr>ExpireAt := at\<rparr>)"
    by (auto simp: ctx_to_def)
  have "ctx_inv rt (c'\<lparr>ctx_now := later\<rparr>)" "store_of rt (c'\<lparr>ctx_now := later\<rparr>) = store_of rt c'"
    using c'(2) by (simp_all add: ctx_inv_def store_of_def ctx_Keyspace_def)
  with cmdGet_spec[of rt "c'\<lparr>ctx_now := later\<rparr>" "[name, k]"] c' assms(3) show ?thesis
    by (auto simp: live_upd expired_def HasExpiry_def isZero_def before_def split: Value.splits)
qed

theorem expire_then_get_witness:
  "\<exists>c'. setExpire demo_rt (demo_with ''k'' (MakeString ''v'')) ''k'' 1000 = (c', RInt 1)
    \<and> cmdGet demo_rt (c'\<lparr>ctx_now := 1000\<rparr>) [''GET'', ''k''] = Some (c'\<lparr>ctx_now := 1000\<rparr>, RNil)"
  using expire_then_get[of demo_rt "demo_with ''k'' (MakeString ''v'')" "''k''" "fresh_entry (MakeString ''v'')" 1000 1000 "''GET''"]
    demo_with_store[of "MakeString ''v''" "''k''"] demo_live[of "MakeString ''v''" "''k''"]
  by (auto simp: slice_ok_def zeroTime_def)

text \<open>
  (C19) \<open>LPUSH\<close> and \<open>RPUSH\<close>: the elements arrive one after the other at the chosen end, so
  \<open>LPUSH\<close> reverses them; the reply is the new length; the deadline of an existing list
  is kept; another kind of value is an error that changes nothing.
\<close>

theorem push_outcomes:
  assumes "ctx_inv rt c" "2 \<le> length args" "\<forall>v \<in> set (drop 2 args). slice_ok v"
  shows "\<exists>c' r. listPush rt c args front = Some (c', r) \<and>
    (case live (ctx_now c) (store_of rt c) (args ! 1) of
       None \<Rightarrow> r = RInt (int (length args - 2))
         \<and> (\<exists>l. ctx_to rt c c' ((store_of rt c)(args ! 1 \<mapsto> fresh_entry (MakeList l)))
             \<and> list_elems l = pushed front (drop 2 args) [])
     | Some e \<Rightarrow>
         (case Entry_Value e of
            MakeList l \<Rightarrow> r = RInt (int (length args - 2 + length (list_elems l)))
              \<and> (\<exists>l'. ctx_to rt c c' ((store_of rt c)(args ! 1 \<mapsto> e\<lparr>Entry_Value := MakeList l'\<rparr>))
                  \<and> list_elems l' = pushed front (drop 2 args) (list_elems l))
          | _ \<Rightarrow> c' = c \<and> r = RError msgWrongType))"
proof (cases "live (ctx_now c) (store_of rt c) (args ! 1)")
  case None
  from listPush_spec(1)[OF assms None, of front] None show ?thesis by fastforce
next
  case (Some e)
  show ?thesis
  proof (cases "Entry_Value e")
    case (MakeList l)
    from listPush_spec(3)[OF assms Some this, of front] Some MakeList show ?thesis by fastforce
  qed (use listPush_spec(2)[OF assms Some, of front] Some in auto)
qed

theorem push_outcomes_witness:
  "\<exists>c' r. listPush demo_rt demo_ctx [''LPUSH'', ''k'', ''a'', ''b''] True = Some (c', r) \<and> r = RInt 2
    \<and> (\<exists>l. ctx_to demo_rt demo_ctx c' ((store_of demo_rt demo_ctx)(''k'' \<mapsto> fresh_entry (MakeList l)))
        \<and> list_elems l = [''b'', ''a''])"
  using push_outcomes[OF demo_inv, of "[''LPUSH'', ''k'', ''a'', ''b'']" True] demo_live_empty[of "''k''"]
  by (auto simp: slice_ok_def pushed_def)

text \<open>
  (C20) \<open>LPOP\<close> and \<open>RPOP\<close> with a count take the first elements from their end, in order, as
  many as there are, and drop the key together with its last element.
\<close>

theorem pop_many_outcome:
  assumes "ctx_inv rt c" "length args = 3" "parseInt (args ! 2) = Some n" "0 \<le> n" "n * 80 \<le> 281474976710656"
    and "live (ctx_now c) (store_of rt c) (args ! 1) = Some e" "Entry_Value e = MakeList l"
  shows "\<exists>c' l'. listPop rt c args front = Some (c', RArray (map RBulk (take (nat n) (popEnd front (list_elems l)))))
    \<and> list_elems l' = popEnd front (drop (nat n) (popEnd front (list_elems l)))
    \<and> ctx_to rt c c' (list_left (store_of rt c) (args ! 1) e l')"
  by (rule listPop_many_spec[OF assms])

theorem pop_many_outcome_witness:
  "\<exists>l c' l'. list_elems l = [''a'', ''b'', ''c''] \<and> list_elems l' = [''c'']
    \<and> listPop demo_rt (demo_with ''k'' (MakeList l)) [''LPOP'', ''k'', ''2''] True =
        Some (c', RArray [RBulk ''a'', RBulk ''b''])"
proof -
  have n: "parseInt ''2'' = Some 2" by (simp add: parseInt_def digit_val_def int64_ok_def)
  obtain l where l: "list_inv l" "list_elems l = [''a'', ''b'', ''c'']"
    using demo_list[of "[''a'', ''b'', ''c'']"] by (auto simp: slice_ok_def)
  then have v: "value_ok (MakeList l)" by simp
  show ?thesis
    using pop_many_outcome[OF demo_with_store(1)[OF v, of "''k''"], of "[''LPOP'', ''k'', ''2'']" 2
        "fresh_entry (MakeList l)" l True] n demo_live[OF v, of "''k''"] l
    by (auto simp: popEnd_def eval_nat_numeral)
qed

text \<open>
  (C21) \<open>HSET\<close> and \<open>HDEL\<close> on a hash: after \<open>HSET\<close> the hash is the old one overridden by
  the pairs of the request, the last of a repeated field winning, and the reply counts the
  new fields; after \<open>HDEL\<close> it is the old one without the named fields, the reply counts
  those that were there, and an emptied hash takes its key with it.
\<close>

theorem hash_commands:
  assumes "ctx_inv rt c" "2 \<le> length args" "\<forall>v \<in> set (drop 2 args). slice_ok v"
    and "live (ctx_now c) (store_of rt c) (args ! 1) = Some e" "Entry_Value e = MakeHash h"
  shows "(even (length args) \<longrightarrow> (\<exists>c' h'.
      cmdHSet rt c args = Some (c', RInt (int (card (dom (hash_fields h'))) - int (card (dom (hash_fields h)))))
      \<and> hash_fields h' = hash_fields h ++ map_of (rev (pairs_of (drop 2 args)))
      \<and> ctx_to rt c c' ((store_of rt c)(args ! 1 \<mapsto> e\<lparr>Entry_Value := MakeHash h'\<rparr>))))
    \<and> (\<exists>c' h'.
      cmdHDel rt c args = Some (c', RInt (int (card (dom (hash_fields h))) - int (card (dom (hash_fields h')))))
      \<and> hash_fields h' = hash_fields h |` (- set (drop 2 args))
      \<and> ctx_to rt c c' ((store_of rt c)(args ! 1 :=
          if hash_fields h' = Map.empty then None else Some (e\<lparr>Entry_Value := MakeHash h'\<rparr>))))"
  using cmdHSet_spec(3)[OF assms(1,2) _ assms(3-5)] cmdHDel_spec[OF assms(1,2,4,5)] by blast

theorem hash_commands_witness:
  "\<exists>h c' h'. hash_fields h = [''f'' \<mapsto> ''1''] \<and> hash_fields h' = [''f'' \<mapsto> ''2'', ''g'' \<mapsto> ''3'']
    \<and> cmdHSet demo_rt (demo_with ''k'' (MakeHash h)) [''HSET'', ''k'', ''f'', ''2'', ''g'', ''3''] = Some (c', RInt 1)"
proof -
  obtain h where h: "hash_inv h" "hash_fields h = [''f'' \<mapsto> ''1'']"
    using demo_hash[of "[(''f'', ''1'')]"] by (auto simp: slice_ok_def)
  then have v: "value_ok (MakeHash h)" by simp
  let ?c = "demo_with ''k'' (MakeHash h)" and ?args = "[''HSET'', ''k'', ''f'', ''2'', ''g'', ''3'']"
  have "live (ctx_now ?c) (store_of demo_rt ?c) (?args ! 1) = Some (fresh_entry (MakeHash h))"
    using demo_live[OF v, of "''k''"] by simp
  from hash_commands[OF demo_with_store(1)[OF v] _ _ this, of h, THEN conjunct1]
  obtain c' h' where
    c': "cmdHSet demo_rt ?c ?args = Some (c', RInt (int (card (dom (hash_fields h'))) - int (card (dom (hash_fields h)))))"
      "hash_fields h' = hash_fields h ++ map_of (rev (pairs_of (drop 2 ?args)))"
    by (auto simp: slice_ok_def)
  then have "hash_fields h' = [''f'' \<mapsto> ''2'', ''g'' \<mapsto> ''3'']" using h by (auto simp: fun_eq_iff)
  with c' h show ?thesis by (intro exI[of _ h] exI[of _ c'] exI[of _ h']) simp
qed

text \<open>
  (C22) \<open>SADD\<close> and \<open>SREM\<close> on a set are union and difference, the replies count the members
  gained and lost, and an emptied set takes its key with it.
\<close>

theorem set_commands:
  assumes "ctx_inv rt c" "2 \<le> length args" "\<forall>v \<in> set (drop 2 args). slice_ok v"
    and "live (ctx_now c) (store_of rt c) (args ! 1) = Some e" "Entry_Value e = MakeSet s"
  shows "(\<exists>c' s'. cmdSAdd rt c args = Some (c', RInt (int (card (set_members s')) - int (card (set_members s))))
      \<and> set_members s' = set_members s \<union> set (drop 2 args)
      \<and> ctx_to rt c c' ((store_of rt c)(args ! 1 \<mapsto> e\<lparr>Entry_Value := MakeSet s'\<rparr>)))
    \<and> (\<exists>c' s'. cmdSRem rt c args = Some (c', RInt (int (card (set_members s)) - int (card (set_members s'))))
      \<and> set_members s' = set_members s - set (drop 2 args)
      \<and> ctx_to rt c c' ((store_of rt c)(args ! 1 :=
          if set_members s' = {} then None else Some (e\<lparr>Entry_Value := MakeSet s'\<rparr>))))"
  using cmdSAdd_spec(3)[OF assms(1-5)] cmdSRem_spec[OF assms(1,2,4,5)] by blast

theorem set_commands_witness:
  "\<exists>s c' c''. set_members s = {''a''}
    \<and> cmdSAdd demo_rt (demo_with ''k'' (MakeSet s)) [''SADD'', ''k'', ''a'', ''b''] = Some (c', RInt 1)
    \<and> cmdSRem demo_rt (demo_with ''k'' (MakeSet s)) [''SADD'', ''k'', ''a'', ''b''] = Some (c'', RInt 1)"
proof -
  obtain s where s: "set_inv s" "set_members s = {''a''}"
    using demo_set[of "[''a'']"] by (auto simp: slice_ok_def)
  then have v: "value_ok (MakeSet s)" by simp
  let ?c = "demo_with ''k'' (MakeSet s)" and ?args = "[''SADD'', ''k'', ''a'', ''b'']"
  have "live (ctx_now ?c) (store_of demo_rt ?c) (?args ! 1) = Some (fresh_entry (MakeSet s))"
    using demo_live[OF v, of "''k''"] by simp
  note R = set_commands[OF demo_with_store(1)[OF v] _ _ this, of s]
  from R obtain c' s' where
    "cmdSAdd demo_rt ?c ?args = Some (c', RInt (int (card (set_members s')) - int (card (set_members s))))"
    "set_members s' = set_members s \<union> set (drop 2 ?args)" by (auto simp: slice_ok_def)
  moreover have "set_members s \<union> set (drop 2 ?args) = {''a'', ''b''}" using s by auto
  moreover from R obtain c'' s'' where
    "cmdSRem demo_rt ?c ?args = Some (c'', RInt (int (card (set_members s)) - int (card (set_members s''))))"
    "set_members s'' = set_members s - set (drop 2 ?args)" by (auto simp: slice_ok_def)
  ultimately show ?thesis using s by (intro exI[of _ s] exI conjI) auto
qed

text \<open>
  (C23) \<open>SINTER\<close> answers the intersection of the named sets, each member once, although it
  walks only the smallest set and probes the others.
\<close>

theorem sinter_is_intersection:
  assumes "ctx_inv rt c" "2 \<le> length args" "list_all2 (set_at rt c) (drop 1 args) ss"
  shows "\<exists>out. cmdSInter rt c args = Some (c, RArray (map RBulk out)) \<and> distinct out
    \<and> set out = \<Inter> (set_members ` set ss)"
  by (rule cmdSInter_spec[OF assms])

theorem sinter_is_intersection_witness:
  "\<exists>s out. set_members s = {''a'', ''b''} \<and> set out = {''a'', ''b''} \<and> distinct out
    \<and> cmdSInter demo_rt (demo_with ''k'' (MakeSet s)) [''SINTER'', ''k'', ''k''] =
        Some (demo_with ''k'' (MakeSet s), RArray (map RBulk out))"
proof -
  obtain s where s: "set_inv s" "set_members s = {''a'', ''b''}"
    using demo_set[of "[''a'', ''b'']"] by (auto simp: slice_ok_def)
  then have v: "value_ok (MakeSet s)" by simp
  have "list_all2 (set_at demo_rt (demo_with ''k'' (MakeSet s))) [''k'', ''k''] [s, s]"
    using demo_live[OF v, of "''k''"] by (simp add: set_at_def)
  then show ?thesis
    using sinter_is_intersection[OF demo_with_store(1)[OF v, of "''k''"], of "[''SINTER'', ''k'', ''k'']" "[s, s]"] s
    by auto
qed

text \<open>
  (C24) \<open>ZADD\<close>: when every score parses, a new sorted set holds exactly the scores of the
  request, the last of a repeated member winning; an existing one is overridden by them and
  the reply counts the new members. A score that does not parse rejects the whole request
  before anything is stored.
\<close>

theorem zadd_outcomes:
  assumes "ctx_inv rt c" "2 \<le> length args" "even (length args)" "\<forall>v \<in> set (drop 2 args). slice_ok v"
  defines "old \<equiv> live (ctx_now c) (store_of rt c) (args ! 1)"
  shows "case parseScores rt (pairs_of (drop 2 args)) of
      None \<Rightarrow> \<exists>msg. cmdZAdd rt c args = Some (c, RError msg)
    | Some qs \<Rightarrow>
        (old = None \<longrightarrow> (\<exists>c' z. cmdZAdd rt c args = Some (c', RInt (ZSet_Len z))
          \<and> zset_keys z = score_keys (map_of (rev qs))
          \<and> ctx_to rt c c' ((store_of rt c)(args ! 1 \<mapsto> fresh_entry (MakeZSet z)))))
        \<and> (\<forall>e z. old = Some e \<and> Entry_Value e = MakeZSet z \<longrightarrow>
          (\<exists>c' z'. cmdZAdd rt c args = Some (c', RInt (ZSet_Len z' - ZSet_Len z))
            \<and> zset_keys z' = score_keys (map_of (zset_entries z) ++ map_of (rev qs))
            \<and> ctx_to rt c c' ((store_of rt c)(args ! 1 \<mapsto> e\<lparr>Entry_Value := MakeZSet z'\<rparr>))))"
proof (cases "parseScores rt (pairs_of (drop 2 args))")
  case None
  with cmdZAdd_rejects show ?thesis by auto
next
  case (Some qs)
  show ?thesis
    using cmdZAdd_spec(1,3)[OF assms(1-4) Some] unfolding Some
    unfolding old_def zset_keys_def option.case by blast
qed

theorem zadd_outcomes_witness:
  "\<exists>c' z. cmdZAdd demo_rt demo_ctx [''ZADD'', ''k'', ''1'', ''a''] = Some (c', RInt (ZSet_Len z))
    \<and> zset_keys z = [''a'' \<mapsto> 0x3FF0000000000000]"
proof -
  have "parseScores demo_rt [(''1'', ''a'')] = Some [(''a'', 0x3FF0000000000000)]"
    by (simp add: demo_rt_def f64_isNaN_def f64_mag_def)
  moreover have "score_keys [''a'' \<mapsto> 0x3FF0000000000000] = [''a'' \<mapsto> 0x3FF0000000000000]"
    by (simp add: score_keys_def fun_eq_iff f64_key_def f64_neg_def f64_mag_def)
  ultimately show ?thesis
    using zadd_outcomes[OF demo_inv, of "[''ZADD'', ''k'', ''1'', ''a'']"] demo_live_empty[of "''k''"]
    by (auto simp: slice_ok_def)
qed

section \<open>The store\<close>

text \<open>
  (C25) Sharding is invisible. Any sequence of store operations gives, result by result, the
  same answers on a database of any number of shards under any hash, on one key space, and
  on the abstract store, a partial map read through the clock.
\<close>

theorem sharding_invisible:
  assumes "\<forall>x \<in> set xs. store_valid x"
  shows "\<exists>db k rs. run_ops (db_exec hash) xs (DB_New n) = Some (db, rs)
    \<and> run_ops ks_exec xs Keyspace_New = Some (k, rs)
    \<and> run_spec store_spec xs Map.empty = (db_ents hash db, rs)
    \<and> db_inv hash db \<and> ks_inv k \<and> ks_ents k = db_ents hash db"
  using db_ref.run[of hash "DB_New n" xs] ks_ref.run[of Keyspace_New xs] assms by auto

theorem sharding_invisible_witness:
  "\<exists>db k rs. run_ops (db_exec (rt_hash demo_rt)) [OpSet ''k'' (MakeString ''v''), OpSetExpire 0 ''k'' 5, OpLookup 5 ''k''] (DB_New 4) = Some (db, rs)
    \<and> run_ops ks_exec [OpSet ''k'' (MakeString ''v''), OpSetExpire 0 ''k'' 5, OpLookup 5 ''k''] Keyspace_New = Some (k, rs)"
  using sharding_invisible[of "[OpSet ''k'' (MakeString ''v''), OpSetExpire 0 ''k'' 5, OpLookup 5 ''k'']" "rt_hash demo_rt" 4]
  by (auto simp: slice_ok_def)

text \<open>
  (C26) Active expiry is invisible and bounded. A cycle over all databases removes only entries
  that no read could see any more, now or later, keeps every database well formed, and
  examines at most the per-shard budget in each shard.
\<close>

theorem expire_cycle_invisible:
  assumes "Runner_cycle pick dbs now limit = (dbs', ex, ev)" "\<forall>db \<in> set dbs. db_inv hash db" "now \<le> later" "d < length dbs"
  shows "length dbs' = length dbs \<and> db_inv hash (dbs' ! d)
    \<and> DB_Lookup hash (dbs' ! d) later k = DB_Lookup hash (dbs ! d) later k
    \<and> ex \<le> (\<Sum>db \<leftarrow> dbs. DB_Shards db * max 0 limit)"
proof -
  note R = Runner_cycle_spec[OF assms(1-3)]
  then have "db_inv hash (dbs' ! d)" "db_inv hash (dbs ! d)" using assms(2,4) by auto
  with R assms(4) show ?thesis by (simp add: db.lookup)
qed

theorem expire_cycle_invisible_witness:
  "\<exists>dbs' ex ev. Runner_cycle (\<lambda>ks. ks) demo_dbs 5 20 = (dbs', ex, ev)
    \<and> DB_Lookup (rt_hash demo_rt) (dbs' ! 0) 7 ''k'' = DB_Lookup (rt_hash demo_rt) (demo_dbs ! 0) 7 ''k''"
proof -
  obtain dbs' ex ev where r: "Runner_cycle (\<lambda>ks. ks) demo_dbs 5 20 = (dbs', ex, ev)" using prod_cases3 by blast
  from expire_cycle_invisible[OF r, of "rt_hash demo_rt" 7 0 "''k''"] demo_dbs_ok r show ?thesis by (auto simp: dbs_inv_def)
qed

text \<open>
  (C27) A cycle that does not exhaust its budget leaves no expired entry in the shard: it
  examined fewer keys than allowed, so it evicted exactly the expired ones and counted them.
\<close>

theorem sample_expired_complete:
  assumes "Keyspace_SampleExpired pick k now limit = (k', examined, evicted)" "ks_inv k" "examined < limit"
  shows "ks_inv k' \<and> expired_keys now (ks_ents k') = {}
    \<and> evicted = int (card (expired_keys now (ks_ents k)))
    \<and> ks_ents k' = ks_ents k |` (- expired_keys now (ks_ents k))"
  using Keyspace_SampleExpired_spec[OF assms(1,2)] assms(3)
  by (auto simp: expired_keys_def restrict_map_def split: if_splits)

theorem sample_expired_complete_witness:
  "expired_keys 9 (ks_ents (fst (Keyspace_SampleExpired (\<lambda>ks. ks)
      (Keyspace_SetEntry Keyspace_New ''k'' \<lparr>Entry_Value = MakeString ''v'', ExpireAt = 5\<rparr>) 9 20))) = {}"
proof -
  let ?k = "Keyspace_SetEntry Keyspace_New ''k'' \<lparr>Entry_Value = MakeString ''v'', ExpireAt = 5\<rparr>"
  have "ks_inv ?k" by (rule ks_inv_SetEntry(1)) (simp_all add: slice_ok_def)
  moreover obtain k' ex ev where r: "Keyspace_SampleExpired (\<lambda>ks. ks) ?k 9 20 = (k', ex, ev)" using prod_cases3 by blast
  moreover have "ex < 20"
    using r by (auto simp: Keyspace_SampleExpired_def Keyspace_SetEntry_def Keyspace_New_def HasExpiry_def
        isZero_def zeroTime_def split: if_splits)
  ultimately show ?thesis using sample_expired_complete by fastforce
qed

section \<open>Collections\<close>

text \<open>
  (C28) Lists. Any sequence of pushes, pops, ranges and lengths on a new list gives, result by
  result, what the same sequence gives on a mathematical list, whatever the promotion
  thresholds: the switch from the packed encoding to the linked list is never visible, and no
  operation panics or fails to return.
\<close>

theorem list_operations_refine:
  assumes "\<forall>x \<in> set xs. list_valid x"
  shows "\<exists>l rs. run_ops list_exec xs (NewList mx) = Some (l, rs) \<and> list_inv l
    \<and> run_spec list_spec xs [] = (list_elems l, rs)"
  using list_ref.run[of "NewList mx" xs] assms by simp

theorem list_operations_refine_witness:
  "\<exists>l rs. run_ops list_exec [PushBack ''a'', PushFront ''b'', PopBack] (NewList \<lparr>MaxEntries = 1, MaxBytes = 64\<rparr>) = Some (l, rs)
     \<and> list_inv l \<and> run_spec list_spec [PushBack ''a'', PushFront ''b'', PopBack] [] = (list_elems l, rs)"
  using list_operations_refine[of "[PushBack ''a'', PushFront ''b'', PopBack]" "\<lparr>MaxEntries = 1, MaxBytes = 64\<rparr>"]
  by (simp add: slice_ok_def)

text \<open>
  (C29) Hashes. Any sequence of field writes, deletions, reads and counts on a new hash agrees
  with a partial map, across the promotion from the packed pairs to the Go map.
\<close>

theorem hash_operations_refine:
  assumes "\<forall>x \<in> set xs. hash_valid x"
  shows "\<exists>h rs. run_ops hash_exec xs (NewHash mx) = Some (h, rs) \<and> hash_inv h
    \<and> run_spec hash_spec xs Map.empty = (hash_fields h, rs)"
  using hash_ref.run[of "NewHash mx" xs] assms by simp

theorem hash_operations_refine_witness:
  "\<exists>h rs. run_ops hash_exec [HSet ''f'' ''1'', HSet ''g'' ''2'', HDel ''f''] (NewHash \<lparr>MaxEntries = 1, MaxBytes = 64\<rparr>) = Some (h, rs)
     \<and> hash_inv h \<and> run_spec hash_spec [HSet ''f'' ''1'', HSet ''g'' ''2'', HDel ''f''] Map.empty = (hash_fields h, rs)"
  using hash_operations_refine[of "[HSet ''f'' ''1'', HSet ''g'' ''2'', HDel ''f'']" "\<lparr>MaxEntries = 1, MaxBytes = 64\<rparr>"]
  by (simp add: slice_ok_def)

text \<open>
  (C30) Sets. Any sequence of additions, removals, membership tests and counts on a new set
  agrees with a mathematical set, across the promotion from the packed members to the map.
\<close>

theorem set_operations_refine:
  assumes "\<forall>x \<in> set xs. set_valid x"
  shows "\<exists>s rs. run_ops set_exec xs (NewSet mx) = Some (s, rs) \<and> set_inv s
    \<and> run_spec set_spec xs {} = (set_members s, rs)"
  using set_ref.run[of "NewSet mx" xs] assms by simp

theorem set_operations_refine_witness:
  "\<exists>s rs. run_ops set_exec [SAdd ''a'', SAdd ''b'', SRem ''a'', SHas ''a''] (NewSet \<lparr>MaxEntries = 1, MaxBytes = 64\<rparr>) = Some (s, rs)
     \<and> set_inv s \<and> run_spec set_spec [SAdd ''a'', SAdd ''b'', SRem ''a'', SHas ''a''] {} = (set_members s, rs)"
  using set_operations_refine[of "[SAdd ''a'', SAdd ''b'', SRem ''a'', SHas ''a'']" "\<lparr>MaxEntries = 1, MaxBytes = 64\<rparr>"]
  by (simp add: slice_ok_def)

text \<open>
  (C31) Sorted sets. Any sequence of additions, score reads, ranges by rank and counts agrees
  with a map from members to score keys, ranked by key and then by member, across the
  promotion to the skip list and for every outcome of its random levels.
\<close>

theorem zset_operations_refine:
  assumes "\<forall>x \<in> set xs. zset_valid x"
  shows "\<exists>z rs. run_ops zset_exec xs (NewZSet draws mx) = Some (z, rs) \<and> zset_inv z
    \<and> run_spec zset_spec xs Map.empty = (zset_keys z, rs)"
proof -
  have "zset_keys (NewZSet draws mx) = Map.empty" by (simp add: zset_keys_def score_keys_def fun_eq_iff)
  with zset_ref.run[of "NewZSet draws mx" xs] assms show ?thesis by simp
qed

theorem zset_operations_refine_witness:
  "\<exists>z rs. run_ops zset_exec [ZAdd ''a'' 0, ZAdd ''b'' 0, ZAdd ''a'' 1, ZRange 0 (-1)] (NewZSet (\<lambda>n. True) \<lparr>MaxEntries = 1, MaxBytes = 64\<rparr>) = Some (z, rs)
     \<and> zset_inv z \<and> run_spec zset_spec [ZAdd ''a'' 0, ZAdd ''b'' 0, ZAdd ''a'' 1, ZRange 0 (-1)] Map.empty = (zset_keys z, rs)"
  using zset_operations_refine[of "[ZAdd ''a'' 0, ZAdd ''b'' 0, ZAdd ''a'' 1, ZRange 0 (-1)]" "\<lambda>n. True" "\<lparr>MaxEntries = 1, MaxBytes = 64\<rparr>"]
  by (simp add: slice_ok_def f64_isNaN_def f64_mag_def)

text \<open>
  (C32) The skip list, for every tape of random draws: inserting a new entry keeps the levels
  linked and the entries strictly sorted, the entry is there, and deleting it again restores
  the sequence of entries.
\<close>

theorem skiplist_insert_delete:
  assumes "sl_inv sl" "\<not> f64_isNaN sc" "zkey (m, sc) \<notin> zkey ` set (sl_entries sl)"
  shows "\<exists>sl1 sl2. zskiplist_insert sl m sc = Some sl1 \<and> sl_inv sl1 \<and> zsorted (sl_entries sl1)
    \<and> set (sl_entries sl1) = insert (m, sc) (set (sl_entries sl))
    \<and> zskiplist_delete sl1 m sc = Some sl2 \<and> sl_inv sl2 \<and> sl_entries sl2 = sl_entries sl"
proof -
  from sk.ins[OF assms] obtain sl1 where
    1: "zskiplist_insert sl m sc = Some sl1" "sl_inv sl1" "set (sl_entries sl1) = insert (m, sc) (set (sl_entries sl))"
    by blast
  from sk.del[OF 1(2), of m sc] 1(3) obtain sl2 where
    2: "zskiplist_delete sl1 m sc = Some sl2" "sl_inv sl2" "set (sl_entries sl2) = set (sl_entries sl1) - {(m, sc)}"
    by auto
  have "(m, sc) \<notin> set (sl_entries sl)" using assms(3) by blast
  then have "set (sl_entries sl2) = set (sl_entries sl)" using 1(3) 2(3) by auto
  then have "sl_entries sl2 = sl_entries sl"
    using zsorted_unique[OF sk.sorted[OF 2(2)] sk.sorted[OF assms(1)]] by simp
  with 1 2 sk.sorted[OF 1(2)] show ?thesis by blast
qed

theorem skiplist_insert_delete_witness:
  "\<exists>sl1 sl2. zskiplist_insert (newZskiplist (\<lambda>n. True)) ''a'' 0 = Some sl1 \<and> set (sl_entries sl1) = {(''a'', 0)}
    \<and> zskiplist_delete sl1 ''a'' 0 = Some sl2 \<and> sl_entries sl2 = []"
  using skiplist_insert_delete[of "newZskiplist (\<lambda>n. True)" 0 "''a''"] newZskiplist_empty[of "\<lambda>n. True"]
  by (auto simp: f64_isNaN_def f64_mag_def)

section \<open>Locks\<close>

text \<open>
  (C33) No deadlock. As long as some goroutine waits for a lock or holds one, some goroutine
  can take a step, although readers and writers queue on each lock with writer preference,
  multi-key commands hold several shards, and compaction holds every shard of every database
  while it takes the log mutex.
\<close>

theorem lock_deadlock_free:
  assumes "\<forall>db \<in> set dbs. db_shards db \<noteq> []" "lock_reach hash dbs s"
    "lk_todo s t \<noteq> [] \<or> lk_held s t \<noteq> []"
  shows "\<exists>s'. lock_step s s'"
  by (rule no_deadlock[OF lock_reach_inv[OF assms(1,2)] finite_lock_ids assms(3)])

theorem lock_deadlock_free_witness:
  "\<exists>s s'. lock_reach (rt_hash demo_rt) [DB_New 2] s \<and> lk_held s 7 \<noteq> [] \<and> lock_step s s'"
proof -
  have n: "\<forall>db \<in> set [DB_New 2]. db_shards db \<noteq> []" by (simp add: DB_New_def)
  obtain s where s: "lock_reach (rt_hash demo_rt) [DB_New 2] s" "((0, 1), Exclusive) \<in> set (lk_held s 7)"
    using lock_reach_one[of 0 "[DB_New 2]" 1] by (auto simp: DB_New_def)
  then have h: "lk_held s 7 \<noteq> []" by auto
  with lock_deadlock_free[OF n s(1), of 7] s(1) show ?thesis by blast
qed

text \<open>
  (C34) The server does not hang. In every state that connections (with requests within the
  limits of the protocol), expiry, flusher and compactor can reach together on a server with
  persistence, if any of them is at work then one of them can take a step:
  no lock waits for itself in a circle, every critical section returns (handlers, expiry,
  the capture of a snapshot, rotation, installation), and what is held is released. And
  every such step is progress: it decreases a well-founded measure, so that without new
  requests and new cycles the goroutines come to rest.
\<close>

theorem concurrent_progress:
  assumes "conc_reach rt srv conns now s"
    "dbs_see (rt_hash rt) now (srv_databases srv) A" "\<forall>i. conns i < length A" "srv_persist srv \<noteq> None"
  shows "((\<exists>t. co_job s t \<noteq> Idle) \<longrightarrow> (\<exists>s'. busy_step rt s s'))
    \<and> (\<forall>s'. busy_step rt s s' \<longrightarrow> (work (srv_databases srv) s', work (srv_databases srv) s) \<in> less_than <*lex*> less_than)"
  using somebody_goes_on[OF conc_reach_inv[OF assms]] busy_step_work[OF conc_reach_inv[OF assms] active_finite[OF assms(1)]] by blast

theorem concurrent_progress_witness:
  "\<exists>s s'. conc_reach demo_rt demo_logging (\<lambda>i. 0) 0 s \<and> busy_step demo_rt s s'
    \<and> (work (srv_databases demo_logging) s', work (srv_databases demo_logging) s) \<in> less_than <*lex*> less_than"
proof -
  from demo_concurrent obtain s where s: "conc_reach demo_rt demo_logging (\<lambda>i. 0) 0 s" "co_job s 7 = Leaves" by blast
  have "dbs_see (rt_hash demo_rt) 0 (srv_databases demo_logging) [Map.empty]" using demo_srv_sees demo_logging_ok(2) by simp
  from concurrent_progress[OF s(1) this] demo_logging_ok(4) s(2) have "\<exists>s'. busy_step demo_rt s s'"
    "\<And>s'. busy_step demo_rt s s' \<Longrightarrow> (work (srv_databases demo_logging) s', work (srv_databases demo_logging) s) \<in> less_than <*lex*> less_than"
    by force+
  with s(1) show ?thesis by blast
qed

section \<open>Shutdown\<close>

text \<open>
  (C35) What holds when the server stops. In every state the server can reach, the wait group
  counts exactly the running goroutines and a registered connection has a running goroutine.
  Once \<open>shutdown\<close> has run, the listener is closed, every registered connection has its read
  deadline tripped, and from then on no connection is registered and none is served any more
  that was not served before, also if \<open>Accept\<close> had returned one before the shutdown and
  \<open>startConn\<close> sees it only after: it is closed. When \<open>Serve\<close> writes the final snapshot no
  connection and no background goroutine is left, nor a connection that was accepted and not
  yet looked at, so no write can be missed.
\<close>

theorem shutdown_safe:
  assumes "life_reach persist s" "life_next\<^sup>*\<^sup>* s s'"
  shows "lf_wg s = card (lf_serving s) + lf_workers s \<and> lf_conns s \<subseteq> lf_serving s
    \<and> (lf_closing s \<longrightarrow> \<not> lf_listening s \<and> lf_conns s \<subseteq> lf_tripped s
         \<and> lf_closing s' \<and> lf_conns s' \<subseteq> lf_conns s \<and> lf_serving s' \<subseteq> lf_serving s)
    \<and> (\<forall>c. lf_closing s \<and> lf_held s = Some c \<longrightarrow> life_step Own s ((startConn c s)\<lparr>lf_held := None\<rparr>) \<and> c \<in> lf_closed (startConn c s))
    \<and> (lf_phase s = Stopped \<longrightarrow> lf_serving s = {} \<and> lf_conns s = {} \<and> lf_workers s = 0 \<and> lf_held s = None)"
proof -
  note inv = life_reach_inv[OF assms(1)]
  have "life_step Own s ((startConn c s)\<lparr>lf_held := None\<rparr>) \<and> c \<in> lf_closed (startConn c s)"
    if "lf_closing s" "lf_held s = Some c" for c
    using held_closed[OF inv that] by blast
  then show ?thesis
    using inv life_stopped[OF inv] closing_stays[OF assms(2)] unfolding life_inv_def by blast
qed

theorem shutdown_safe_witness:
  "\<exists>s'. life_step Own (demo_race True) s' \<and> lf_held s' = None \<and> lf_conns s' \<subseteq> {5} \<and> 6 \<notin> lf_serving s' \<and> 6 \<in> lf_closed s'"
proof -
  let ?s = "(startConn 6 (demo_race True))\<lparr>lf_held := None\<rparr>"
  from shutdown_safe[OF demo_race_reach rtranclp.rtrancl_refl] demo_race_at(1,2)
  have c: "life_step Own (demo_race True) ?s" "6 \<in> lf_closed ?s" by auto
  have "life_next\<^sup>*\<^sup>* (demo_race True) ?s" by (rule life_chain[OF c(1) rtranclp.rtrancl_refl])
  from shutdown_safe[OF demo_race_reach this] demo_race_at have "lf_conns ?s \<subseteq> {5}" "lf_serving ?s \<subseteq> {5}" by auto
  with c show ?thesis by (intro exI[of _ ?s]) auto
qed

text \<open>
  (C36) Shutdown ends. Take a reachable state in which the context is cancelled. If \<open>shutdown\<close> has
  not run, the server can run it. Once it has, every step that anyone takes, clients
  included, decreases a measure, so there are only so many; the server has a step of its own
  until it is \<open>Stopped\<close> (the accept loop ends because the listener is closed, an idle
  connection because its read deadline is tripped, a busy one after the requests it has
  buffered, the background goroutines because of the context), unless a connection waits in
  the write of a reply; and with the operating system taking or refusing these writes it gets to
  \<open>Stopped\<close> without any step of a client. (There is no write deadline, so a client that does
  not read can hold the shutdown up: \<open>shutdown_blocks\<close> in theory Findings.)
\<close>

theorem shutdown_ends:
  assumes "life_reach persist s" "lf_cancelled s"
  shows "(\<not> lf_closing s \<longrightarrow> (\<exists>s'. life_step Own s s' \<and> lf_closing s'))
    \<and> (lf_closing s \<longrightarrow>
         (\<forall>a s'. life_step a s s' \<longrightarrow> lf_closing s' \<and> life_rank s' < life_rank s)
         \<and> (lf_phase s = Stopped \<or> (\<exists>c \<in> lf_serving s. sending (lf_at s c)) \<or> (\<exists>s'. life_step Own s s'))
         \<and> (\<exists>s'. drain_step\<^sup>*\<^sup>* s s' \<and> lf_phase s' = Stopped))"
proof -
  note inv = life_reach_inv[OF assms(1)]
  have "lf_closing s'" if "life_step a s s'" "lf_closing s" for a s'
    using closing_stays[OF life_chain[OF that(1) rtranclp.rtrancl_refl] that(2)] by blast
  then show ?thesis
    using cancelled_closes[OF inv assms(2)] closing_rank[OF _ inv] closing_goes_on[OF inv] life_drains[OF inv] by blast
qed

theorem shutdown_ends_witness:
  "\<exists>s s'. life_step Own (demo_race True) s \<and> life_rank s < life_rank (demo_race True)
    \<and> drain_step\<^sup>*\<^sup>* (demo_race True) s' \<and> lf_phase s' = Stopped"
  using shutdown_ends[OF demo_race_reach, of True] demo_race_at by auto

section \<open>Protocol\<close>

text \<open>
  (C37) A reply survives the wire: what the server's writer emits when no write fails, the
  client decodes to the same value at any nesting, or to the server error it is, and the
  stream is left at the next reply.
\<close>

theorem reply_roundtrip:
  assumes "wire_ok r" "no_fault w"
  shows "\<exists>w'. WriteReply w r = (w', False) \<and> no_fault w'
    \<and> (\<exists>out. w_out w' = w_out w @ out \<and> clientRead (out @ rest) = (client_result r, rest))"
  using Writer_writeReply_ok[OF assms(2), of r] clientRead_encode[OF assms(1), of rest]
  by (auto simp: WriteReply_def no_fault_def)

theorem reply_roundtrip_witness:
  "\<exists>w'. WriteReply demo_writer (RArray [RInt 7, RNil, RBulk ''x'']) = (w', False)
    \<and> clientRead (w_out w' @ ''+OK'') = (Inr (CArr [CInt 7, CNil, CStr ''x'']), ''+OK'')"
  using reply_roundtrip[of "RArray [RInt 7, RNil, RBulk ''x'']" demo_writer "''+OK''"]
  by (auto simp: wire_ok_def client_result_def int64_ok_def)

text \<open>
  (C38) The client's decoder ends. On any bytes at all, of a hostile server too, the recursion
  of \<open>readReply\<close> is at most as deep as the input is long: with more fuel than bytes the
  result no longer depends on the fuel and is not the mark of having run out of it, and
  the bytes left are bytes of the input.
\<close>

theorem decoder_terminates:
  assumes "length s < fuel"
  shows "readReply fuel s = clientRead s \<and> fst (clientRead s) \<noteq> Inl (Transport (Malformed ''out of fuel''))
    \<and> length (snd (clientRead s)) \<le> length s"
  using readReply_fuel[OF assms, of "Suc (length s)"] readReply_fuelled[of s "Suc (length s)"]
    readReply_shorter[of "Suc (length s)" s] unfolding clientRead_def by (metis lessI prod.collapse)

theorem decoder_terminates_witness:
  "readReply 9 ''*1'' = clientRead ''*1'' \<and> length (snd (clientRead ''*1'')) \<le> 2"
  using decoder_terminates[of "''*1''" 9] by simp

text \<open>
  (C39) What the reader accepts is bounded: at most 1048576 words of at most 512 MiB each,
  and every request consumes input, so the serving loop makes progress.
\<close>

theorem request_bounds:
  assumes "ReadRequest s = Inr (args, rest)"
  shows "int (length args) \<le> maxMultiBulkLen \<and> (\<forall>a \<in> set args. bulk_ok a) \<and> length rest < length s"
  by (rule ReadRequest_bound[OF assms])

theorem request_bounds_witness:
  "\<exists>args rest. ReadRequest (''PING'' @ CRLF) = Inr (args, rest) \<and> int (length args) \<le> maxMultiBulkLen
    \<and> length rest < 6"
proof -
  have "ReadRequest (''PING'' @ CRLF) = Inr ([''PING''], [])" by code_simp
  with request_bounds[OF this] show ?thesis by simp
qed

section \<open>The program\<close>

text \<open>
  (C40) What starts is well formed. Whatever the command line, with or without persistence,
  and whatever bytes the segments of the log in the data directory hold: if \<open>memcored\<close> gets as
  far as accepting connections, then the configuration the flags gave passed validation, the
  server is bound to the address it names, it has as many databases as configured and at
  least one, each of them well formed (the invariant that every request keeps), and empty
  if persistence is off, and its shutdown protocol is in a state that satisfies its
  invariant. The one condition: a snapshot in the directory, if there is one, is one that the
  program can have written (\<open>snapshot_written\<close>); a forged one could hold collections that
  break their encoding.
\<close>

theorem startup_well_formed:
  assumes "memcored_run rt gomaxprocs e argv = Some (Serves h srv lf)" "snapshot_written (env_dir e)"
  shows "srv_inv rt srv \<and> srv_databases srv \<noteq> [] \<and> life_inv lf
    \<and> (\<exists>p cfg. flagParse (flagDefaults gomaxprocs) argv = Inr p \<and> cfg_Network cfg = cfg_Network (opt_cfg p)
         \<and> cfg_Persistence cfg = cfg_Persistence (opt_cfg p) \<and> Validate cfg = None \<and> srv_cfg srv = cfg_Network cfg
         \<and> srv_limits srv = cfg_Limits cfg \<and> length (srv_databases srv) = nat (Databases (cfg_Network cfg))
         \<and> srv_listener srv = env_listen e (Network_Addr (cfg_Network cfg)) \<and> srv_listener srv \<noteq> None
         \<and> (\<not> PersistEnabled (cfg_Persistence cfg) \<longrightarrow> empty_dbs (rt_hash rt) (srv_databases srv)))"
  using memcored_serves[OF assms] by blast

theorem startup_well_formed_witness:
  "\<exists>h srv lf. memcored_run demo_rt 1 demo_env demo_argv = Some (Serves h srv lf)
    \<and> srv_inv demo_rt srv \<and> srv_databases srv \<noteq> [] \<and> srv_persist srv \<noteq> None"
  using startup_well_formed[OF _ demo_env_written] demo_run by blast

end
